(* ===== verification/Pocl_Prelude.thy ===== *)
theory Pocl_Prelude
  imports "HOL-Library.Word"
begin

unbundle bit_operations_syntax

text \<open>
  Shared base of the development: the machine types of the modelled 64-bit Linux build of pocl,
  the fact collections the component theories fill, and generic lemmas on unsigned words,
  alignment and lists.
\<close>

section \<open>Machine types\<close>

type_synonym size_t = "64 word"
type_synonym size3 = "size_t \<times> size_t \<times> size_t"
type_synonym cl_uint = "32 word"
type_synonym cl_int = int

section \<open>Fact collections\<close>

named_theorems nowrap_simps \<open>unsigned operations that do not wrap, read as natural numbers\<close>

section \<open>Unsigned words as natural numbers\<close>

lemma unat_add_nowrap [nowrap_simps]:
  fixes a b :: "'a::len word"
  shows "unat a + unat b < 2 ^ LENGTH('a) \<Longrightarrow> unat (a + b) = unat a + unat b"
  by (simp add: unat_add_lem)

lemma unat_mult_nowrap [nowrap_simps]:
  fixes a b :: "'a::len word"
  shows "unat a * unat b < 2 ^ LENGTH('a) \<Longrightarrow> unat (a * b) = unat a * unat b"
  by (simp add: unat_mult_lem)

lemma unat_minus_nowrap [nowrap_simps]:
  fixes a b :: "'a::len word"
  shows "unat b \<le> unat a \<Longrightarrow> unat (a - b) = unat a - unat b"
  by (simp add: unat_sub word_le_nat_alt)

lemma unat_ucast_mod:
  fixes a :: "'a::len word"
  shows "unat (ucast a :: 'b::len word) = unat a mod 2 ^ LENGTH('b)"
  by (simp add: unsigned_ucast_eq take_bit_eq_mod)

lemma unat_ucast_nowrap [nowrap_simps]:
  fixes a :: "'a::len word"
  shows "unat a < 2 ^ LENGTH('b) \<Longrightarrow> unat (ucast a :: 'b::len word) = unat a"
  by (simp add: unat_ucast_mod)

lemma unat_uint_to_size_t [simp]: "unat (ucast (x :: 32 word) :: size_t) = unat x"
  using unsigned_less [of x, where 'a = nat] by (intro unat_ucast_nowrap) simp

lemma unat_less_uint: "unat (x :: 32 word) < 4294967296"
  using unsigned_less [of x, where 'a = nat] by simp

lemma unat_of_nat_nowrap [nowrap_simps]:
  "n < 2 ^ LENGTH('a) \<Longrightarrow> unat (of_nat n :: 'a::len word) = n"
  by (simp add: unsigned_of_nat take_bit_nat_eq_self)

lemma len_size_t: "LENGTH(64) = 64"
  by simp

lemma unat_less_size_t: "unat (x :: size_t) < 18446744073709551616"
  using unsigned_less [of x, where 'a = nat] by simp

section \<open>Rounding up to a power of two\<close>

text \<open>
  The C idiom \<open>(x + a - 1) & ~(a - 1)\<close> on \<open>size_t\<close>, used by the allocator on the region's
  alignment \<open>a\<close>.
\<close>

definition align_up :: "size_t \<Rightarrow> size_t \<Rightarrow> size_t" where
  "align_up a x = (x + a - 1) AND NOT (a - 1)"

definition round_up :: "nat \<Rightarrow> nat \<Rightarrow> nat" where
  "round_up a x = ((x + a - 1) div a) * a"

lemma round_up_ge: "0 < a \<Longrightarrow> x \<le> round_up a x"
proof -
  assume a: "0 < a"
  have "x + a - 1 = (x + a - 1) div a * a + (x + a - 1) mod a" by simp
  moreover have "(x + a - 1) mod a \<le> a - 1" using a by (simp add: less_Suc_eq_le [symmetric])
  ultimately show ?thesis unfolding round_up_def using a by linarith
qed

lemma round_up_less: "0 < a \<Longrightarrow> round_up a x < x + a"
  unfolding round_up_def using div_times_less_eq_dividend [of "x + a - 1" a] by linarith

lemma round_up_dvd: "a dvd round_up a x"
  by (simp add: round_up_def)

lemma round_up_mono: "x \<le> y \<Longrightarrow> round_up a x \<le> round_up a y"
  by (simp add: round_up_def div_le_mono)

lemma round_up_mult [simp]: "0 < a \<Longrightarrow> a dvd x \<Longrightarrow> round_up a x = x"
proof -
  assume a: "0 < a" and "a dvd x"
  then obtain k where x: "x = a * k" by (auto elim: dvdE)
  from a obtain b where b: "a = Suc b" by (cases a) auto
  have "(a * k + a - 1) div a = (b + k * a) div a"
    by (simp add: b algebra_simps)
  also have "\<dots> = k + b div a" using a by (intro div_mult_self1) simp
  also have "\<dots> = k" by (simp add: b)
  finally have "(a * k + a - 1) div a = k" .
  then show ?thesis by (simp add: round_up_def x mult.commute)
qed

lemma unat_and_not_mask:
  fixes x :: "'a::len word"
  shows "unat (x AND NOT (mask k)) = (unat x div 2 ^ k) * 2 ^ k"
proof -
  have lt: "unat x div 2 ^ k * 2 ^ k < 2 ^ LENGTH('a)"
    using le_less_trans [OF div_times_less_eq_dividend unsigned_less [of x, where 'a = nat]] .
  have "x AND NOT (mask k) = push_bit k (drop_bit k x)"
    by (simp only: bit_eq_iff bit_simps) (auto simp: bit_imp_le_length)
  then have "unat (x AND NOT (mask k)) = unat (push_bit k (drop_bit k x))"
    by (rule arg_cong)
  also have "\<dots> = take_bit LENGTH('a) (unat x div 2 ^ k * 2 ^ k)"
    by (simp only: unsigned_push_bit_eq unsigned_drop_bit_eq
      take_bit_nat_eq_self [OF unsigned_less [of x, where 'a = nat]])
      (simp only: push_bit_eq_mult drop_bit_eq_div)
  finally have "unat (x AND NOT (mask k)) = take_bit LENGTH('a) (unat x div 2 ^ k * 2 ^ k)" .
  then show ?thesis by (simp add: take_bit_nat_eq_self lt)
qed

lemma unat_align_up:
  assumes "unat a = 2 ^ k" and "unat x + unat a \<le> 2 ^ 64"
  shows "unat (align_up a x) = round_up (unat a) (unat x)"
proof -
  have "(2::nat) ^ k < 2 ^ 64" using assms(1) unat_less_size_t [of a] by simp
  then have k: "k < 64" by (rule power_less_imp_less_exp [rotated]) simp
  have a: "a = 2 ^ k"
    by (rule unsigned_word_eqI [where 'a = nat]) (use k in \<open>simp add: assms(1) unsigned_of_nat [of "2 ^ k", simplified] take_bit_nat_eq_self\<close>)
  then have m: "a - 1 = mask k" by (simp add: mask_eq_decr_exp)
  have "unat (x + (a - 1)) = unat x + unat (a - 1)"
    using assms by (intro unat_add_nowrap) (simp add: nowrap_simps)
  also have "unat (a - 1) = unat a - 1"
    using assms(1) by (simp add: nowrap_simps)
  finally have "unat (x + a - 1) = unat x + unat a - 1"
    using assms(1) by (simp add: algebra_simps)
  then show ?thesis
    using assms(1) by (simp add: align_up_def round_up_def m unat_and_not_mask)
qed

section \<open>Doubly linked lists of utlist.h\<close>

text \<open>
  The \<open>utlist.h\<close> list macros keep, for a \<open>DL\<close> list, a head pointer, \<open>NULL\<close>-terminated
  \<open>next\<close> links, and \<open>prev\<close> links in which the head's \<open>prev\<close> is the \<^emph>\<open>last\<close> element. A list is
  modelled as the HOL list of its elements in order: \<open>DL_APPEND\<close> is \<open>_ @ [x]\<close>, \<open>DL_DELETE\<close> is
  \<open>remove1\<close>, \<open>LL_PREPEND\<close> and \<open>CDL_PREPEND\<close> are \<open>Cons\<close>, and \<open>DL_FOREACH\<close> walks it in order.
\<close>

fun dl_next :: "'a list \<Rightarrow> 'a \<Rightarrow> 'a option" where
  "dl_next [] c = None"
| "dl_next [x] c = None"
| "dl_next (x # y # xs) c = (if x = c then Some y else dl_next (y # xs) c)"

fun dl_prev_from :: "'a \<Rightarrow> 'a list \<Rightarrow> 'a \<Rightarrow> 'a option" where
  "dl_prev_from p [] c = None"
| "dl_prev_from p (x # xs) c = (if x = c then Some p else dl_prev_from x xs c)"

definition dl_prev :: "'a list \<Rightarrow> 'a \<Rightarrow> 'a option" where
  "dl_prev xs c = (if xs = [] then None else dl_prev_from (last xs) xs c)"

lemma dl_next_split:
  "distinct (us @ c # vs) \<Longrightarrow> dl_next (us @ c # vs) c = (case vs of [] \<Rightarrow> None | v # _ \<Rightarrow> Some v)"
proof (induction us)
  case Nil
  then show ?case by (cases vs) auto
next
  case (Cons u us)
  then have "dl_next (u # us @ c # vs) c = dl_next (us @ c # vs) c"
    by (cases us) auto
  with Cons show ?case by simp
qed

lemma dl_prev_from_split:
  "distinct (us @ c # vs) \<Longrightarrow>
   dl_prev_from p (us @ c # vs) c = Some (if us = [] then p else last us)"
  by (induction us arbitrary: p) auto

lemma dl_prev_split:
  "distinct (us @ c # vs) \<Longrightarrow>
   dl_prev (us @ c # vs) c = Some (if us = [] then last (c # vs) else last us)"
  by (simp add: dl_prev_def dl_prev_from_split)

lemma remove1_split: "distinct (us @ c # vs) \<Longrightarrow> remove1 c (us @ c # vs) = us @ vs"
  by (simp add: remove1_append)

end
