(* ===== verification/Bufalloc.thy ===== *)
theory Bufalloc
  imports Pocl_Prelude
begin

text \<open>
  The buffer allocator of \<open>pocl/lib/CL/devices/bufalloc.c\<close>. A region owns an array of chunk
  records; a chunk is named by its index in \<open>all_chunks\<close> (\<open>parent_region\<close> is then the region that
  holds the record). \<open>chunks\<close> and \<open>free_chunks\<close> are the region's two \<open>utlist\<close> lists. Addresses and
  sizes are 64-bit words and wrap as \<open>size_t\<close> does. Locks are not modelled: every operation holds
  the region's lock from its first read to its last write.
\<close>

section \<open>Data\<close>

datatype allocation_strategy = BALLOCS_WASTEFUL | BALLOCS_TIGHT

record chunk_info =
  start_address :: size_t
  is_allocated :: bool
  chunk_size :: size_t
  chunk_children :: "nat list"
  chunk_parent :: "nat option"

definition MAX_CHUNKS_IN_REGION :: nat where
  "MAX_CHUNKS_IN_REGION = 1024"

record memory_region =
  all_chunks :: "nat \<Rightarrow> chunk_info"
  chunks :: "nat list"
  free_chunks :: "nat list"
  last_chunk :: nat
  strategy :: allocation_strategy
  alignment :: "16 word"

text \<open>The \<open>unsigned short\<close> alignment as the \<open>size_t\<close> operand it is promoted to.\<close>

definition region_align :: "memory_region \<Rightarrow> size_t" where
  "region_align r = ucast (alignment r)"

definition set_chunk :: "memory_region \<Rightarrow> nat \<Rightarrow> chunk_info \<Rightarrow> memory_region" where
  "set_chunk r c i = r\<lparr>all_chunks := (all_chunks r)(c := i)\<rparr>"

section \<open>Operations\<close>

text \<open>The result and, for the out parameter \<open>last_chunk_size\<close>, the bytes left after the block.\<close>

definition chunk_slack :: "memory_region \<Rightarrow> nat \<Rightarrow> size_t \<Rightarrow> bool \<times> size_t" where
  "chunk_slack r c sz =
     (let ci = all_chunks r c;
          aligned_start_addr = align_up (region_align r) (start_address ci);
          end_chunk = start_address ci + chunk_size ci;
          end_addr = aligned_start_addr + sz
      in (end_addr \<le> end_chunk, end_chunk - end_addr))"

definition append_new_chunk :: "memory_region \<Rightarrow> size_t \<Rightarrow> nat option \<times> memory_region" where
  "append_new_chunk r sz =
     (let l = last_chunk r in
      if \<not> fst (chunk_slack r l sz) then (None, r)
      else case free_chunks r of
        [] \<Rightarrow> (None, r)
      | n # fs \<Rightarrow>
          let new_start = align_up (region_align r) (start_address (all_chunks r l));
              new_chunk = (all_chunks r n)
                \<lparr>start_address := new_start, chunk_size := sz, is_allocated := True,
                 chunk_children := []\<rparr>;
              last' = (all_chunks r l)
                \<lparr>chunk_size := snd (chunk_slack r l sz), start_address := new_start + sz\<rparr>
          in (Some n, r\<lparr>all_chunks := (all_chunks r)(n := new_chunk, l := last'),
                        free_chunks := fs,
                        chunks := remove1 l (chunks r) @ [n, l]\<rparr>))"

text \<open>The search loop over \<open>region->chunks\<close>: the first reusable chunk.\<close>

fun find_reusable :: "memory_region \<Rightarrow> size_t \<Rightarrow> nat list \<Rightarrow> nat option" where
  "find_reusable r sz [] = None"
| "find_reusable r sz (c # cs) =
     (if c = last_chunk r \<or> is_allocated (all_chunks r c) \<or> \<not> fst (chunk_slack r c sz)
      then find_reusable r sz cs else Some c)"

definition reuse_chunk :: "memory_region \<Rightarrow> size_t \<Rightarrow> nat option \<times> memory_region" where
  "reuse_chunk r sz =
     (case find_reusable r sz (chunks r) of
        None \<Rightarrow> (None, r)
      | Some c \<Rightarrow> (Some c, set_chunk r c ((all_chunks r c)\<lparr>is_allocated := True\<rparr>)))"

definition alloc_buffer_from_region :: "memory_region \<Rightarrow> size_t \<Rightarrow> nat option \<times> memory_region" where
  "alloc_buffer_from_region r sz =
     (if strategy r = BALLOCS_WASTEFUL
      then case append_new_chunk r sz of
             (Some c, r') \<Rightarrow> (Some c, r')
           | (None, r') \<Rightarrow> reuse_chunk r' sz
      else case reuse_chunk r sz of
             (Some c, r') \<Rightarrow> (Some c, r')
           | (None, r') \<Rightarrow> append_new_chunk r' sz)"

text \<open>
  \<open>alloc_buffer\<close> walks a list of regions; the result names the region (by position) and the chunk.
\<close>

fun alloc_buffer :: "memory_region list \<Rightarrow> size_t \<Rightarrow> (nat \<times> nat) option \<times> memory_region list" where
  "alloc_buffer [] sz = (None, [])"
| "alloc_buffer (r # rs) sz =
     (case alloc_buffer_from_region r sz of
        (Some c, r') \<Rightarrow> (Some (0, c), r' # rs)
      | (None, r') \<Rightarrow>
          (case alloc_buffer rs sz of
             (res, rs') \<Rightarrow> (map_option (\<lambda>(i, c). (Suc i, c)) res, r' # rs')))"

text \<open>
  \<open>create_sub_chunk\<close> allocates a fresh record with \<open>malloc\<close>; \<open>new\<close> is the index of that record.
\<close>

definition create_sub_chunk ::
  "memory_region \<Rightarrow> nat \<Rightarrow> nat \<Rightarrow> size_t \<Rightarrow> size_t \<Rightarrow> memory_region" where
  "create_sub_chunk r new p offset sz =
     (let r1 = set_chunk r new ((all_chunks r new)
                 \<lparr>start_address := start_address (all_chunks r p) + offset, chunk_size := sz,
                  chunk_parent := Some p\<rparr>)
      in set_chunk r1 p ((all_chunks r1 p)\<lparr>chunk_children := chunk_children (all_chunks r1 p) @ [new]\<rparr>))"

definition coalesce_chunks ::
  "memory_region \<Rightarrow> nat option \<Rightarrow> nat option \<Rightarrow> nat option \<times> memory_region" where
  "coalesce_chunks r first second =
     (case first of
        None \<Rightarrow> (second, r)
      | Some f \<Rightarrow>
          (case second of
             None \<Rightarrow> (Some f, r)
           | Some s \<Rightarrow>
               let fi = all_chunks r f; si = all_chunks r s in
               if is_allocated fi \<or> is_allocated si then (Some s, r)
               else if start_address fi > start_address si then (Some s, r)
               else (Some f,
                     r\<lparr>all_chunks := (all_chunks r)
                          (f := fi\<lparr>chunk_size := start_address si + chunk_size si - start_address fi\<rparr>),
                       chunks := remove1 s (chunks r),
                       free_chunks := free_chunks r @ [s],
                       last_chunk := (if last_chunk r = s then f else last_chunk r)\<rparr>)))"

text \<open>
  \<open>free_chunk\<close> calls \<open>coalesce_chunks (coalesce_chunks (chunk->prev, chunk), chunk->next)\<close>. C does
  not say whether the argument \<open>chunk->next\<close> is read before or after the inner call, and the inner
  call may move \<open>chunk\<close> to \<open>free_chunks\<close>, whose last element has a null \<open>next\<close>. The flag
  \<open>next_first\<close> is the compiler's choice.
\<close>

definition chunk_next :: "memory_region \<Rightarrow> nat \<Rightarrow> nat option" where
  "chunk_next r c =
     (if c \<in> set (chunks r) then dl_next (chunks r) c else dl_next (free_chunks r) c)"

definition free_chunk :: "bool \<Rightarrow> memory_region \<Rightarrow> nat \<Rightarrow> memory_region" where
  "free_chunk next_first r c =
     (let r1 = set_chunk r c ((all_chunks r c)\<lparr>is_allocated := False\<rparr>);
          (inner, r2) = coalesce_chunks r1 (dl_prev (chunks r1) c) (Some c);
          nxt = (if next_first then chunk_next r1 c else chunk_next r2 c)
      in snd (coalesce_chunks r2 inner nxt))"

text \<open>The position of the region that held the address, or \<open>None\<close>, and the regions after.\<close>

fun find_start :: "memory_region \<Rightarrow> size_t \<Rightarrow> nat list \<Rightarrow> nat option" where
  "find_start r addr [] = None"
| "find_start r addr (c # cs) =
     (if start_address (all_chunks r c) = addr then Some c else find_start r addr cs)"

fun free_buffer :: "bool \<Rightarrow> memory_region list \<Rightarrow> size_t \<Rightarrow> nat option \<times> memory_region list" where
  "free_buffer next_first [] addr = (None, [])"
| "free_buffer next_first (r # rs) addr =
     (case find_start r addr (chunks r) of
        Some c \<Rightarrow> (Some 0, free_chunk next_first r c # rs)
      | None \<Rightarrow> (case free_buffer next_first rs addr of
                  (res, rs') \<Rightarrow> (map_option Suc res, r # rs')))"

text \<open>
  The region's memory \<open>r0\<close> before the call is arbitrary; only the fields the code writes change.
\<close>

definition init_mem_region :: "memory_region \<Rightarrow> size_t \<Rightarrow> size_t \<Rightarrow> memory_region" where
  "init_mem_region r0 start sz =
     r0\<lparr>strategy := BALLOCS_WASTEFUL,
        alignment := 64,
        last_chunk := 0,
        all_chunks := (all_chunks r0)(0 := (all_chunks r0 0)
          \<lparr>start_address := start, chunk_size := sz, is_allocated := False\<rparr>),
        chunks := [0],
        free_chunks := [1..<MAX_CHUNKS_IN_REGION]\<rparr>"

section \<open>Invariant\<close>

definition cstart :: "memory_region \<Rightarrow> nat \<Rightarrow> nat" where
  "cstart r c = unat (start_address (all_chunks r c))"

definition csize :: "memory_region \<Rightarrow> nat \<Rightarrow> nat" where
  "csize r c = unat (chunk_size (all_chunks r c))"

definition cend :: "memory_region \<Rightarrow> nat \<Rightarrow> nat" where
  "cend r c = cstart r c + csize r c"

definition ralign :: "memory_region \<Rightarrow> nat" where
  "ralign r = unat (region_align r)"

text \<open>
  The chunks of a region that manages the addresses from \<open>lo\<close> to \<open>hi\<close>: in address order, without
  overlap, every chunk but the sentinel non-empty and aligned, the sentinel last, unallocated and
  ending at \<open>hi\<close>; the chunk records are split between the two lists.
\<close>

definition region_inv :: "nat \<Rightarrow> nat \<Rightarrow> memory_region \<Rightarrow> bool" where
  "region_inv lo hi r \<longleftrightarrow>
     distinct (chunks r @ free_chunks r) \<and>
     set (chunks r @ free_chunks r) = {..<MAX_CHUNKS_IN_REGION} \<and>
     chunks r \<noteq> [] \<and> last (chunks r) = last_chunk r \<and>
     \<not> is_allocated (all_chunks r (last_chunk r)) \<and>
     sorted_wrt (\<lambda>c d. cend r c \<le> cstart r d) (chunks r) \<and>
     lo \<le> cstart r (hd (chunks r)) \<and>
     cstart r (hd (chunks r)) \<le> round_up (ralign r) lo \<and>
     cend r (last_chunk r) = hi \<and>
     (\<forall>c \<in> set (butlast (chunks r)). 0 < csize r c \<and> ralign r dvd cstart r c) \<and>
     (\<exists>k<16. ralign r = 2 ^ k) \<and>
     hi + ralign r \<le> 2 ^ 64"

text \<open>No two neighbouring chunks are both unallocated.\<close>

definition coalesced :: "memory_region \<Rightarrow> bool" where
  "coalesced r \<longleftrightarrow>
     successively (\<lambda>c d. is_allocated (all_chunks r c) \<or> is_allocated (all_chunks r d)) (chunks r)"

text \<open>The blocks handed out and not freed: chunk and byte range.\<close>

definition live :: "memory_region \<Rightarrow> nat \<Rightarrow> (nat \<times> nat) option" where
  "live r c = (if c \<in> set (chunks r) \<and> is_allocated (all_chunks r c)
               then Some (cstart r c, cend r c) else None)"

text \<open>A request the code's \<open>size_t\<close> arithmetic handles in a region ending at \<open>hi\<close>.\<close>

definition sane_request :: "nat \<Rightarrow> memory_region \<Rightarrow> size_t \<Rightarrow> bool" where
  "sane_request hi r sz \<longleftrightarrow> 0 < unat sz \<and> hi + ralign r + unat sz \<le> 2 ^ 64"


section \<open>Chunks of a well-formed region\<close>

lemma region_inv_last:
  assumes "region_inv lo hi r"
  obtains us where "chunks r = us @ [last_chunk r]" and "last_chunk r \<notin> set us"
    and "distinct us" and "\<forall>c\<in>set us. c \<notin> set (free_chunks r)" 
proof -
  from assms have "chunks r = butlast (chunks r) @ [last_chunk r]"
    by (metis region_inv_def append_butlast_last_id)
  moreover from assms have "distinct (chunks r)" "set (chunks r) \<inter> set (free_chunks r) = {}"
    by (auto simp: region_inv_def)
  ultimately show ?thesis
    by (metis that[of "butlast (chunks r)"] distinct_append distinct_butlast disjoint_iff
        in_set_butlastD not_distinct_conv_prefix append.right_neutral)
qed

lemma inv_cend_le:
  assumes "region_inv lo hi r" and "c \<in> set (chunks r)"
  shows "cend r c \<le> hi"
proof -
  obtain us where us: "chunks r = us @ [last_chunk r]"
    using assms(1) by (rule region_inv_last)
  have "cend r (last_chunk r) = hi" "sorted_wrt (\<lambda>c d. cend r c \<le> cstart r d) (chunks r)"
    using assms(1) by (auto simp: region_inv_def)
  with us assms(2) show ?thesis
    by (auto simp: sorted_wrt_append cend_def)
qed

lemma inv_cstart_ge:
  assumes "region_inv lo hi r" and "c \<in> set (chunks r)"
  shows "lo \<le> cstart r c"
proof (cases "c = hd (chunks r)")
  case True
  with assms show ?thesis by (simp add: region_inv_def)
next
  case False
  then obtain x xs where x: "chunks r = x # xs" "c \<in> set xs"
    using assms(2) by (cases "chunks r") auto
  with assms(1) have "lo \<le> cstart r x" "cend r x \<le> cstart r c"
    by (auto simp: region_inv_def)
  then show ?thesis by (simp add: cend_def)
qed

lemma inv_bounds:
  assumes "region_inv lo hi r"
  shows "hi + ralign r \<le> 2 ^ 64" and "0 < ralign r" and "hi < 2 ^ 64"
proof -
  from assms obtain k where k: "ralign r = 2 ^ k" and h: "hi + ralign r \<le> 2 ^ 64"
    by (auto simp: region_inv_def)
  then show "hi + ralign r \<le> 2 ^ 64" "0 < ralign r" by simp_all
  with h show "hi < 2 ^ 64" by linarith
qed

lemma inv_align_up:
  assumes "region_inv lo hi r" and "c \<in> set (chunks r)"
  shows "unat (align_up (region_align r) (start_address (all_chunks r c)))
         = round_up (ralign r) (cstart r c)"
proof -
  from assms(1) obtain k where "unat (region_align r) = 2 ^ k"
    by (auto simp: region_inv_def ralign_def)
  moreover have "cstart r c + ralign r \<le> 2 ^ 64"
    using inv_cend_le [OF assms] inv_bounds(1) [OF assms(1)] by (simp add: cend_def)
  ultimately show ?thesis
    by (simp add: unat_align_up cstart_def ralign_def)
qed

lemma chunk_slack_nat:
  assumes "region_inv lo hi r" and "c \<in> set (chunks r)" and "sane_request hi r sz"
  shows "fst (chunk_slack r c sz) \<longleftrightarrow> round_up (ralign r) (cstart r c) + unat sz \<le> cend r c"
    and "fst (chunk_slack r c sz) \<Longrightarrow>
         unat (snd (chunk_slack r c sz)) = cend r c - (round_up (ralign r) (cstart r c) + unat sz)"
    and "unat (align_up (region_align r) (start_address (all_chunks r c)) + sz)
         = round_up (ralign r) (cstart r c) + unat sz"
proof -
  let ?a = "align_up (region_align r) (start_address (all_chunks r c))"
  let ?e = "start_address (all_chunks r c) + chunk_size (all_chunks r c)"
  note b = inv_bounds [OF assms(1)] inv_cend_le [OF assms(1,2)]
  have "round_up (ralign r) (cstart r c) < cstart r c + ralign r"
    using b(2) by (rule round_up_less)
  then have "round_up (ralign r) (cstart r c) + unat sz < 2 ^ 64"
    using b assms(3) by (simp add: cend_def sane_request_def)
  then show a: "unat (?a + sz) = round_up (ralign r) (cstart r c) + unat sz"
    using inv_align_up [OF assms(1,2)] by (simp add: nowrap_simps)
  have e: "unat ?e = cend r c"
    using b by (simp add: cend_def cstart_def csize_def nowrap_simps)
  show "fst (chunk_slack r c sz) \<longleftrightarrow> round_up (ralign r) (cstart r c) + unat sz \<le> cend r c"
    by (simp add: chunk_slack_def Let_def word_le_nat_alt a e)
  show "fst (chunk_slack r c sz) \<Longrightarrow>
         unat (snd (chunk_slack r c sz)) = cend r c - (round_up (ralign r) (cstart r c) + unat sz)"
    by (simp add: chunk_slack_def Let_def word_le_nat_alt a e nowrap_simps)
qed

section \<open>Allocation\<close>

lemma append_new_chunk_None: "append_new_chunk r sz = (None, r') \<Longrightarrow> r' = r"
  by (auto simp: append_new_chunk_def Let_def split: if_splits list.splits)

text \<open>What \<open>append_new_chunk\<close> does when it succeeds.\<close>

lemma append_new_chunk_Some:
  assumes inv: "region_inv lo hi r" and sane: "sane_request hi r sz"
    and res: "append_new_chunk r sz = (Some n, r')"
  obtains us fs where "chunks r = us @ [last_chunk r]" and "free_chunks r = n # fs"
    and "n \<notin> set (chunks r)" and "last_chunk r \<notin> set us"
    and "chunks r' = us @ [n, last_chunk r]" and "free_chunks r' = fs"
    and "last_chunk r' = last_chunk r" and "ralign r' = ralign r"
    and "cstart r' n = round_up (ralign r) (cstart r (last_chunk r))" and "csize r' n = unat sz"
    and "cstart r' (last_chunk r) = cend r' n" and "cend r' (last_chunk r) = hi"
    and "is_allocated (all_chunks r' n)"
    and "\<And>c. c \<noteq> n \<Longrightarrow> is_allocated (all_chunks r' c) = is_allocated (all_chunks r c)"
    and "\<And>c. c \<noteq> n \<Longrightarrow> c \<noteq> last_chunk r \<Longrightarrow> all_chunks r' c = all_chunks r c"
    and "strategy r' = strategy r"
proof -
  let ?l = "last_chunk r"
  obtain us where us: "chunks r = us @ [?l]" "?l \<notin> set us"
    using inv by (rule region_inv_last)
  have lin: "?l \<in> set (chunks r)" using us by simp
  from res obtain fs where fit: "fst (chunk_slack r ?l sz)" and fs: "free_chunks r = n # fs"
    by (auto simp: append_new_chunk_def Let_def split: if_splits list.splits)
  have n: "n \<notin> set (chunks r)" "n \<noteq> ?l"
    using inv fs us by (auto simp: region_inv_def)
  from res have r': "r' = snd (append_new_chunk r sz)" by simp
  note slack = chunk_slack_nat [OF inv lin sane]
  have rm: "remove1 ?l (us @ [?l]) = us" using us(2) by (simp add: remove1_append)
  have ends: "cend r ?l = hi" using inv by (simp add: region_inv_def)
  have len: "round_up (ralign r) (cstart r ?l) + unat sz \<le> hi"
    using slack(1) fit ends by simp
  show ?thesis
  proof (rule that [OF us(1) fs n(1) us(2)])
    show "chunks r' = us @ [n, ?l]" "free_chunks r' = fs" "last_chunk r' = ?l" "ralign r' = ralign r"
      "is_allocated (all_chunks r' n)" "csize r' n = unat sz" "strategy r' = strategy r"
      using fit fs n(2) rm us(1)
      by (simp_all add: r' append_new_chunk_def Let_def ralign_def region_align_def csize_def)
    show a: "cstart r' n = round_up (ralign r) (cstart r ?l)"
      using fit fs n(2) inv_align_up [OF inv lin]
      by (simp add: r' append_new_chunk_def Let_def cstart_def)
    show "is_allocated (all_chunks r' c) = is_allocated (all_chunks r c)" if "c \<noteq> n" for c
      using fit fs that by (simp add: r' append_new_chunk_def Let_def)
    show "all_chunks r' c = all_chunks r c" if "c \<noteq> n" "c \<noteq> ?l" for c
      using fit fs that by (simp add: r' append_new_chunk_def Let_def)
    have s: "cstart r' ?l = round_up (ralign r) (cstart r ?l) + unat sz"
      using fit fs n(2) slack(3)
      by (simp add: r' append_new_chunk_def Let_def cstart_def csize_def)
    moreover have "csize r' ?l = hi - (round_up (ralign r) (cstart r ?l) + unat sz)"
      using fit fs n(2) slack(2) ends
      by (simp add: r' append_new_chunk_def Let_def csize_def)
    ultimately show "cend r' ?l = hi" using len by (simp add: cend_def)
    have "csize r' n = unat sz"
      using fit fs n(2) by (simp add: r' append_new_chunk_def Let_def csize_def)
    with a s show "cstart r' ?l = cend r' n" by (simp add: cend_def)
  qed
qed

lemma region_inv_append_new_chunk:
  assumes inv: "region_inv lo hi r" and sane: "sane_request hi r sz"
    and res: "append_new_chunk r sz = (Some n, r')"
  shows "region_inv lo hi r'"
proof -
  obtain us fs where us: "chunks r = us @ [last_chunk r]" and fs: "free_chunks r = n # fs"
    and n: "n \<notin> set (chunks r)" and l: "last_chunk r \<notin> set us"
    and ch: "chunks r' = us @ [n, last_chunk r]" and fr: "free_chunks r' = fs"
    and la: "last_chunk r' = last_chunk r" and al: "ralign r' = ralign r"
    and ns: "cstart r' n = round_up (ralign r) (cstart r (last_chunk r))"
    and nz: "csize r' n = unat sz"
    and ls: "cstart r' (last_chunk r) = cend r' n" and le: "cend r' (last_chunk r) = hi"
    and ac: "\<And>c. c \<noteq> n \<Longrightarrow> is_allocated (all_chunks r' c) = is_allocated (all_chunks r c)"
    and same: "\<And>c. c \<noteq> n \<Longrightarrow> c \<noteq> last_chunk r \<Longrightarrow> all_chunks r' c = all_chunks r c"
    using append_new_chunk_Some [OF assms] by metis
  have nl: "n \<noteq> last_chunk r" using n us by auto
  have old: "cstart r' c = cstart r c \<and> csize r' c = csize r c \<and> cend r' c = cend r c"
    if "c \<in> set us" for c
  proof -
    have "c \<noteq> n" "c \<noteq> last_chunk r" using that n l us by auto
    then show ?thesis using same by (simp add: cstart_def csize_def cend_def)
  qed
  have ge: "cstart r (last_chunk r) \<le> cstart r' n"
    using ns round_up_ge inv_bounds(2) [OF inv] by simp
  have srt: "sorted_wrt (\<lambda>c d. cend r c \<le> cstart r d) us"
    "\<forall>c\<in>set us. cend r c \<le> cstart r (last_chunk r)"
    using inv us by (auto simp: region_inv_def sorted_wrt_append)
  have 1: "sorted_wrt (\<lambda>c d. cend r' c \<le> cstart r' d) us"
    using srt(1) by (rule sorted_wrt_mono_rel [rotated]) (simp add: old)
  have 2: "cend r' c \<le> cstart r' n \<and> cend r' c \<le> cstart r' (last_chunk r)" if "c \<in> set us" for c
    using srt(2) that old [OF that] ge ls by (auto simp: cend_def)
  have 3: "ralign r dvd cstart r' n" by (simp add: ns round_up_dvd)
  have sz: "0 < unat sz" using sane by (simp add: sane_request_def)
  have hd: "lo \<le> cstart r' (hd (chunks r')) \<and> cstart r' (hd (chunks r')) \<le> round_up (ralign r) lo"
  proof (cases us)
    case Nil
    then have h: "lo \<le> cstart r (last_chunk r)" "cstart r (last_chunk r) \<le> round_up (ralign r) lo"
      using inv us by (auto simp: region_inv_def)
    have "round_up (ralign r) (cstart r (last_chunk r)) \<le> round_up (ralign r) (round_up (ralign r) lo)"
      using h(2) by (rule round_up_mono)
    then show ?thesis
      using Nil h(1) ge ch ns inv_bounds(2) [OF inv] by (simp add: round_up_dvd)
  next
    case (Cons u us')
    then show ?thesis using inv us ch old [of u] by (auto simp: region_inv_def)
  qed
  show ?thesis
    unfolding region_inv_def al
    using inv us fs n l ch fr la nz sz ls le ac nl 1 2 3 hd
    by (auto simp: region_inv_def sorted_wrt_append butlast_append old)
qed

lemma find_reusable_Some:
  "find_reusable r sz cs = Some c \<Longrightarrow>
   c \<in> set cs \<and> c \<noteq> last_chunk r \<and> \<not> is_allocated (all_chunks r c) \<and> fst (chunk_slack r c sz)"
  by (induction cs) (auto split: if_splits)

lemma find_reusable_None:
  "find_reusable r sz cs = None \<Longrightarrow> c \<in> set cs \<Longrightarrow>
   c = last_chunk r \<or> is_allocated (all_chunks r c) \<or> \<not> fst (chunk_slack r c sz)"
  by (induction cs) (auto split: if_splits)

lemma set_flag_simps [simp]:
  "cstart (set_chunk r c ((all_chunks r c)\<lparr>is_allocated := b\<rparr>)) d = cstart r d"
  "csize (set_chunk r c ((all_chunks r c)\<lparr>is_allocated := b\<rparr>)) d = csize r d"
  "cend (set_chunk r c ((all_chunks r c)\<lparr>is_allocated := b\<rparr>)) d = cend r d"
  "ralign (set_chunk r c i) = ralign r"
  "chunks (set_chunk r c i) = chunks r"
  "free_chunks (set_chunk r c i) = free_chunks r"
  "last_chunk (set_chunk r c i) = last_chunk r"
  "strategy (set_chunk r c i) = strategy r"
  "alignment (set_chunk r c i) = alignment r"
  "all_chunks (set_chunk r c i) d = (if d = c then i else all_chunks r d)"
  by (simp_all add: set_chunk_def cstart_def csize_def cend_def ralign_def region_align_def)

lemma region_inv_set_flag:
  assumes "region_inv lo hi r" and "c = last_chunk r \<Longrightarrow> \<not> b"
  shows "region_inv lo hi (set_chunk r c ((all_chunks r c)\<lparr>is_allocated := b\<rparr>))"
  using assms by (auto simp: region_inv_def)

lemma reuse_chunk_Some:
  assumes "reuse_chunk r sz = (Some c, r')"
  shows "c \<in> set (chunks r)" and "c \<noteq> last_chunk r" and "\<not> is_allocated (all_chunks r c)"
    and "fst (chunk_slack r c sz)"
    and "r' = set_chunk r c ((all_chunks r c)\<lparr>is_allocated := True\<rparr>)"
  using assms by (auto simp: reuse_chunk_def split: option.splits dest: find_reusable_Some)

lemma reuse_chunk_None: "reuse_chunk r sz = (None, r') \<Longrightarrow> r' = r"
  by (auto simp: reuse_chunk_def split: option.splits)

text \<open>A successful allocation appends or reuses.\<close>

lemma alloc_cases [consumes 1, case_names append reuse]:
  assumes "alloc_buffer_from_region r sz = (Some c, r')"
  obtains "append_new_chunk r sz = (Some c, r')" | "reuse_chunk r sz = (Some c, r')"
  using assms
  by (auto simp: alloc_buffer_from_region_def split: prod.splits option.splits if_splits
      dest: append_new_chunk_None reuse_chunk_None)

lemma alloc_None: "alloc_buffer_from_region r sz = (None, r') \<Longrightarrow> r' = r"
  by (auto simp: alloc_buffer_from_region_def split: prod.splits option.splits if_splits
      dest: append_new_chunk_None reuse_chunk_None)

lemma region_inv_alloc:
  assumes "region_inv lo hi r" and "sane_request hi r sz"
  shows "region_inv lo hi (snd (alloc_buffer_from_region r sz))"
proof (cases "alloc_buffer_from_region r sz")
  case (Pair res r')
  show ?thesis
  proof (cases res)
    case None
    with Pair assms(1) show ?thesis by (auto dest: alloc_None)
  next
    case (Some c)
    with Pair have "alloc_buffer_from_region r sz = (Some c, r')" by simp
    then have "region_inv lo hi r'"
    proof (cases rule: alloc_cases)
      case append
      with assms show ?thesis by (rule region_inv_append_new_chunk)
    next
      case reuse
      show ?thesis
        using reuse_chunk_Some [OF reuse] assms(1) by (auto intro: region_inv_set_flag)
    qed
    with Pair show ?thesis by simp
  qed
qed

lemma alloc_live:
  assumes inv: "region_inv lo hi r" and sane: "sane_request hi r sz"
    and res: "alloc_buffer_from_region r sz = (Some c, r')"
  shows "live r c = None" and "live r' = (live r)(c \<mapsto> (cstart r' c, cend r' c))"
    and "cstart r' c + unat sz \<le> cend r' c" and "ralign r dvd cstart r' c"
proof -
  have "live r c = None \<and> live r' = (live r)(c \<mapsto> (cstart r' c, cend r' c))
    \<and> cstart r' c + unat sz \<le> cend r' c \<and> ralign r dvd cstart r' c"
    using res
  proof (cases rule: alloc_cases)
    case append
    obtain us fs where us: "chunks r = us @ [last_chunk r]"
      and n: "c \<notin> set (chunks r)" and l: "last_chunk r \<notin> set us"
      and ch: "chunks r' = us @ [c, last_chunk r]"
      and ns: "cstart r' c = round_up (ralign r) (cstart r (last_chunk r))"
      and nz: "csize r' c = unat sz"
      and a: "is_allocated (all_chunks r' c)"
      and ac: "\<And>d. d \<noteq> c \<Longrightarrow> is_allocated (all_chunks r' d) = is_allocated (all_chunks r d)"
      and same: "\<And>d. d \<noteq> c \<Longrightarrow> d \<noteq> last_chunk r \<Longrightarrow> all_chunks r' d = all_chunks r d"
      using append_new_chunk_Some [OF inv sane append] by metis
    have nal: "\<not> is_allocated (all_chunks r (last_chunk r))" using inv by (simp add: region_inv_def)
    have "live r' d = ((live r)(c \<mapsto> (cstart r' c, cend r' c))) d" for d
    proof (cases "d = c")
      case True
      then show ?thesis using ch a by (simp add: live_def)
    next
      case False
      then show ?thesis
        using us n l ch ac [OF False] same [OF False] nal
        by (cases "d = last_chunk r") (auto simp: live_def cstart_def cend_def csize_def)
    qed
    then show ?thesis using n ns nz by (auto simp: live_def cend_def round_up_dvd)
  next
    case reuse
    note rc = reuse_chunk_Some [OF reuse]
    obtain us where us: "chunks r = us @ [last_chunk r]"
      using inv by (rule region_inv_last)
    with rc have "c \<in> set (butlast (chunks r))" by auto
    with inv have d: "ralign r dvd cstart r c" by (simp add: region_inv_def)
    then have "cstart r c + unat sz \<le> cend r c"
      using chunk_slack_nat(1) [OF inv rc(1) sane] rc(4) inv_bounds(2) [OF inv] by simp
    moreover have "live r' e = ((live r)(c \<mapsto> (cstart r' c, cend r' c))) e" for e
      using rc by (auto simp: live_def cend_def cstart_def csize_def)
    ultimately show ?thesis using rc d by (auto simp: live_def)
  qed
  then show "live r c = None" and "live r' = (live r)(c \<mapsto> (cstart r' c, cend r' c))"
    and "cstart r' c + unat sz \<le> cend r' c" and "ralign r dvd cstart r' c" by auto
qed

section \<open>Freeing\<close>

text \<open>Merging two neighbours.\<close>

lemma coalesce_neighbours:
  assumes inv: "region_inv lo hi r" and ch: "chunks r = us @ f # s # vs"
    and fa: "\<not> is_allocated (all_chunks r f)" and sa: "\<not> is_allocated (all_chunks r s)"
  obtains r' where "coalesce_chunks r (Some f) (Some s) = (Some f, r')"
    and "chunks r' = us @ f # vs" and "free_chunks r' = free_chunks r @ [s]"
    and "\<And>c. is_allocated (all_chunks r' c) = is_allocated (all_chunks r c)"
    and "\<And>c. c \<noteq> f \<Longrightarrow> all_chunks r' c = all_chunks r c"
    and "region_inv lo hi r'" and "strategy r' = strategy r" and "ralign r' = ralign r"
proof -
  have dist: "distinct (us @ f # s # vs)" using inv ch by (auto simp: region_inv_def)
  have nb: "cend r f \<le> cstart r s" "cstart r f \<le> cend r f"
    using inv ch by (auto simp: region_inv_def sorted_wrt_append cend_def)
  have le: "\<not> start_address (all_chunks r f) > start_address (all_chunks r s)"
    using nb by (simp add: word_less_nat_alt cstart_def)
  define z where "z = start_address (all_chunks r s) + chunk_size (all_chunks r s)
    - start_address (all_chunks r f)"
  define r' where "r' = r\<lparr>all_chunks := (all_chunks r)(f := (all_chunks r f)\<lparr>chunk_size := z\<rparr>),
    chunks := us @ f # vs, free_chunks := free_chunks r @ [s],
    last_chunk := (if last_chunk r = s then f else last_chunk r)\<rparr>"
  have rm: "remove1 s (us @ f # s # vs) = us @ f # vs"
    using dist remove1_split [of "us @ [f]" s vs] by simp
  have c: "coalesce_chunks r (Some f) (Some s) = (Some f, r')"
    using fa sa le rm by (simp add: coalesce_chunks_def Let_def r'_def z_def ch)
  have same: "all_chunks r' c = all_chunks r c" if "c \<noteq> f" for c
    using that by (simp add: r'_def)
  have sin: "s \<in> set (chunks r)" by (simp add: ch)
  have "unat (start_address (all_chunks r s) + chunk_size (all_chunks r s)) = cend r s"
    using inv_cend_le [OF inv sin] inv_bounds(3) [OF inv]
    by (simp add: cend_def cstart_def csize_def nowrap_simps)
  then have "unat z = cend r s - cstart r f"
    using nb by (simp add: z_def nowrap_simps cend_def cstart_def)
  then have f': "cstart r' f = cstart r f" "csize r' f = cend r s - cstart r f"
    "cend r' f = cend r s"
    using nb by (simp_all add: r'_def cstart_def csize_def cend_def)
  have o': "cstart r' d = cstart r d" "csize r' d = csize r d" "cend r' d = cend r d"
    if "d \<noteq> f" for d
    using same [OF that] by (simp_all add: cstart_def csize_def cend_def)
  have al: "ralign r' = ralign r" by (simp add: r'_def ralign_def region_align_def)
  have srt: "sorted_wrt (\<lambda>c d. cend r c \<le> cstart r d) (us @ f # s # vs)"
    using inv ch by (simp add: region_inv_def)
  have us': "\<forall>u\<in>set us. u \<noteq> f" and vs': "\<forall>v\<in>set vs. v \<noteq> f" using dist by auto
  have srt': "sorted_wrt (\<lambda>c d. cend r' c \<le> cstart r' d) (us @ f # vs)"
  proof -
    have "sorted_wrt (\<lambda>c d. cend r c \<le> cstart r d) us"
      using srt by (simp add: sorted_wrt_append)
    then have "sorted_wrt (\<lambda>c d. cend r' c \<le> cstart r' d) us"
      by (rule sorted_wrt_mono_rel [rotated]) (use us' in \<open>simp add: o'\<close>)
    moreover have "sorted_wrt (\<lambda>c d. cend r c \<le> cstart r d) vs"
      using srt by (simp add: sorted_wrt_append)
    then have "sorted_wrt (\<lambda>c d. cend r' c \<le> cstart r' d) vs"
      by (rule sorted_wrt_mono_rel [rotated]) (use vs' in \<open>simp add: o'\<close>)
    ultimately show ?thesis using srt us' vs' by (auto simp: sorted_wrt_append o' f')
  qed
  have hd: "lo \<le> cstart r' (hd (us @ f # vs)) \<and> cstart r' (hd (us @ f # vs)) \<le> round_up (ralign r) lo"
    using inv ch us' by (cases us) (auto simp: region_inv_def o' f')
  have last: "last (us @ f # vs) = last_chunk r' \<and> \<not> is_allocated (all_chunks r' (last_chunk r'))
    \<and> cend r' (last_chunk r') = hi"
  proof (cases vs)
    case Nil
    with inv ch have "last_chunk r = s" "cend r s = hi" by (auto simp: region_inv_def)
    then have "last_chunk r' = f" by (simp add: r'_def)
    moreover have "\<not> is_allocated (all_chunks r' f)" using fa by (simp add: r'_def)
    ultimately show ?thesis using Nil f'(3) \<open>cend r s = hi\<close> by simp
  next
    case (Cons v vs')
    with inv ch have "last_chunk r = last vs" "cend r (last vs) = hi"
      "\<not> is_allocated (all_chunks r (last vs))" by (auto simp: region_inv_def)
    moreover have "last vs \<in> set vs" using Cons by simp
    then have "last vs \<noteq> s" "last vs \<noteq> f" using dist by auto
    moreover from calculation have "last_chunk r' = last vs" by (simp add: r'_def)
    ultimately show ?thesis using Cons o' same by simp
  qed
  have btl: "0 < csize r' d \<and> ralign r dvd cstart r' d" if "d \<in> set (butlast (us @ f # vs))" for d
  proof (cases "d = f")
    case True
    have "f \<in> set (butlast (chunks r))" by (simp add: ch butlast_append)
    then have "0 < csize r f \<and> ralign r dvd cstart r f" using inv by (simp add: region_inv_def)
    then show ?thesis using nb f' True by (simp add: cend_def)
  next
    case False
    then have "d \<in> set (butlast (chunks r))"
      using that by (cases vs) (auto simp: ch butlast_append split: if_splits)
    then show ?thesis using inv False o' by (simp add: region_inv_def)
  qed
  have "region_inv lo hi r'"
    unfolding region_inv_def al
    using inv ch dist srt' hd last btl
    by (auto simp: region_inv_def r'_def)
  moreover have "is_allocated (all_chunks r' c) = is_allocated (all_chunks r c)" for c
    by (simp add: r'_def)
  ultimately show ?thesis using c same al
    by (intro that [of r']) (simp_all add: r'_def)
qed

lemma live_coalesced_pair:
  assumes "chunks r = us @ f # s # vs" and "chunks r' = us @ f # vs"
    and "\<not> is_allocated (all_chunks r f)" and "\<not> is_allocated (all_chunks r s)"
    and "\<And>c. is_allocated (all_chunks r' c) = is_allocated (all_chunks r c)"
    and "\<And>c. c \<noteq> f \<Longrightarrow> all_chunks r' c = all_chunks r c"
  shows "live r' = live r"
proof
  fix d
  show "live r' d = live r d"
    using assms by (cases "d = f") (auto simp: live_def cstart_def cend_def csize_def)
qed

text \<open>The outer call of \<open>free_chunk\<close>: merge the freed chunk with its successor if that is free.\<close>

lemma coalesce_next:
  assumes inv: "region_inv lo hi r" and ch: "chunks r = us @ f # vs"
    and fa: "\<not> is_allocated (all_chunks r f)"
    and nxt: "nxt = None \<or> vs \<noteq> [] \<and> nxt = Some (hd vs)"
  shows "region_inv lo hi (snd (coalesce_chunks r (Some f) nxt))"
    and "live (snd (coalesce_chunks r (Some f) nxt)) = live r"
    and "coalesced r \<or> (us \<noteq> [] \<longrightarrow> is_allocated (all_chunks r (last us))) \<and>
         successively (\<lambda>c d. is_allocated (all_chunks r c) \<or> is_allocated (all_chunks r d)) us \<and>
         successively (\<lambda>c d. is_allocated (all_chunks r c) \<or> is_allocated (all_chunks r d)) vs \<and>
         vs \<noteq> [] \<and> nxt = Some (hd vs) \<Longrightarrow>
         coalesced (snd (coalesce_chunks r (Some f) nxt))"
    and "ralign (snd (coalesce_chunks r (Some f) nxt)) = ralign r"
proof -
  let ?P = "\<lambda>c d. is_allocated (all_chunks r c) \<or> is_allocated (all_chunks r d)"
  let ?r' = "snd (coalesce_chunks r (Some f) nxt)"
  let ?C = "coalesced r \<or> (us \<noteq> [] \<longrightarrow> is_allocated (all_chunks r (last us))) \<and>
         successively ?P us \<and> successively ?P vs \<and> vs \<noteq> [] \<and> nxt = Some (hd vs)"
  have "region_inv lo hi ?r' \<and> live ?r' = live r \<and> (?C \<longrightarrow> coalesced ?r') \<and> ralign ?r' = ralign r"
  proof (cases "\<exists>s vs'. vs = s # vs' \<and> nxt = Some s \<and> \<not> is_allocated (all_chunks r s)")
    case True
    then obtain s vs' where vs: "vs = s # vs'" "nxt = Some s" "\<not> is_allocated (all_chunks r s)"
      by auto
    obtain r' where r': "coalesce_chunks r (Some f) (Some s) = (Some f, r')"
      "chunks r' = us @ f # vs'" "\<And>c. is_allocated (all_chunks r' c) = is_allocated (all_chunks r c)"
      "\<And>c. c \<noteq> f \<Longrightarrow> all_chunks r' c = all_chunks r c" "region_inv lo hi r'"
      "ralign r' = ralign r"
      using coalesce_neighbours [OF inv ch [unfolded vs(1)] fa vs(3)] by metis
    have l: "live r' = live r"
      using live_coalesced_pair [of r us f s vs' r'] ch vs fa r' by simp
    have "coalesced r'" if ?C
    proof -
      have "(us \<noteq> [] \<longrightarrow> is_allocated (all_chunks r (last us))) \<and>
            successively ?P us \<and> successively ?P (s # vs')"
        using that vs ch fa
        by (auto simp: coalesced_def successively_append_iff successively_Cons)
      then show ?thesis
        using vs(3) fa r'(2,3)
        by (auto simp: coalesced_def successively_append_iff successively_Cons)
    qed
    then show ?thesis using r' l vs by simp
  next
    case False
    then have r: "?r' = r" using nxt fa
      by (cases vs) (auto simp: coalesce_chunks_def Let_def)
    have "?C \<longrightarrow> coalesced r"
      using False ch fa nxt
      by (cases vs) (auto simp: coalesced_def successively_append_iff successively_Cons)
    then show ?thesis unfolding r using inv by blast
  qed
  then show "region_inv lo hi ?r'" "live ?r' = live r" "?C \<Longrightarrow> coalesced ?r'"
    "ralign ?r' = ralign r" by auto
qed

lemma allocated_split:
  assumes inv: "region_inv lo hi r" and c: "c \<in> set (chunks r)" and a: "is_allocated (all_chunks r c)"
  obtains us vs where "chunks r = us @ c # vs" and "vs \<noteq> []" and "last vs = last_chunk r"
    and "start_address (all_chunks r c) < start_address (all_chunks r (last_chunk r))"
proof -
  from c obtain us vs where ch: "chunks r = us @ c # vs" by (meson split_list)
  have ncl: "c \<noteq> last_chunk r" using inv a by (auto simp: region_inv_def)
  then have vs: "vs \<noteq> []" using inv ch by (auto simp: region_inv_def)
  then have l: "last vs = last_chunk r" using inv ch by (simp add: region_inv_def)
  have "c \<in> set (butlast (chunks r))" using vs by (simp add: ch butlast_append)
  then have "0 < csize r c" using inv by (simp add: region_inv_def)
  moreover have "cend r c \<le> cstart r (last_chunk r)"
    using inv ch l last_in_set [OF vs] by (auto simp: region_inv_def sorted_wrt_append)
  ultimately have "start_address (all_chunks r c) < start_address (all_chunks r (last_chunk r))"
    by (simp add: word_less_nat_alt cstart_def cend_def)
  with ch vs l show ?thesis by (rule that)
qed

text \<open>
  What the inner call leaves: the freed chunk's place in the list is held by an unallocated chunk
  \<open>f\<close>, the chunk itself or its predecessor.
\<close>

lemma free_chunk_inner:
  fixes r c
  defines "r1 \<equiv> set_chunk r c ((all_chunks r c)\<lparr>is_allocated := False\<rparr>)"
  assumes inv: "region_inv lo hi r" and ch: "chunks r = us @ c # vs" and vs: "vs \<noteq> []"
    and lst: "start_address (all_chunks r c) < start_address (all_chunks r (last_chunk r))"
  obtains us' f r2 where "coalesce_chunks r1 (dl_prev (chunks r1) c) (Some c) = (Some f, r2)"
    and "region_inv lo hi r2" and "chunks r2 = us' @ f # vs" and "\<not> is_allocated (all_chunks r2 f)"
    and "live r2 = live r1" and "ralign r2 = ralign r"
    and "\<And>d. is_allocated (all_chunks r2 d) = is_allocated (all_chunks r1 d)"
    and "f = c \<and> us' = us \<and> free_chunks r2 = free_chunks r \<and>
           (us \<noteq> [] \<longrightarrow> is_allocated (all_chunks r (last us)))
         \<or> us = us' @ [f] \<and> free_chunks r2 = free_chunks r @ [c]
           \<and> \<not> is_allocated (all_chunks r f)"
proof -
  have inv1: "region_inv lo hi r1" unfolding r1_def using inv by (rule region_inv_set_flag) simp
  have ch1: "chunks r1 = us @ c # vs" by (simp add: r1_def ch)
  have dist: "distinct (us @ c # vs)" using inv ch by (auto simp: region_inv_def)
  have lc: "last vs = last_chunk r" using inv ch vs by (simp add: region_inv_def)
  show ?thesis
  proof (cases "us = [] \<or> is_allocated (all_chunks r (last us))")
    case True
    have "coalesce_chunks r1 (dl_prev (chunks r1) c) (Some c) = (Some c, r1)"
      using True dl_prev_split [OF dist] dist lst lc vs ch
      by (auto simp: coalesce_chunks_def Let_def r1_def)
    then show ?thesis
      using True inv1 ch1 by (intro that [of c r1 us]) (auto simp: r1_def)
  next
    case False
    then obtain us' p where us: "us = us' @ [p]" by (cases us rule: rev_cases) auto
    with False have pa: "\<not> is_allocated (all_chunks r p)" by simp
    have pc: "p \<noteq> c" using dist us by auto
    have prev: "dl_prev (chunks r1) c = Some p" using dl_prev_split [OF dist] ch1 us by simp
    have p1: "\<not> is_allocated (all_chunks r1 p)" and c1: "\<not> is_allocated (all_chunks r1 c)"
      using pa pc by (auto simp: r1_def)
    have ch1': "chunks r1 = us' @ p # c # vs" using ch1 us by simp
    obtain r' where r': "coalesce_chunks r1 (Some p) (Some c) = (Some p, r')"
      "chunks r' = us' @ p # vs" "free_chunks r' = free_chunks r1 @ [c]"
      "\<And>d. is_allocated (all_chunks r' d) = is_allocated (all_chunks r1 d)"
      "\<And>d. d \<noteq> p \<Longrightarrow> all_chunks r' d = all_chunks r1 d"
      "region_inv lo hi r'" "ralign r' = ralign r1"
      using coalesce_neighbours [OF inv1 ch1' p1 c1] by metis
    have "live r' = live r1"
      using live_coalesced_pair [OF ch1' r'(2) p1 c1 r'(4,5)] .
    then show ?thesis
      using r' us p1 pa prev by (intro that [of p r' us']) (auto simp: r1_def)
  qed
qed

lemma chunk_next_last: "distinct xs \<Longrightarrow> c \<notin> set xs \<Longrightarrow> dl_next (xs @ [c]) c = None"
  using dl_next_split [of xs c "[]"] by simp

lemma free_chunk_correct:
  assumes inv: "region_inv lo hi r" and c: "c \<in> set (chunks r)" and a: "is_allocated (all_chunks r c)"
  shows "region_inv lo hi (free_chunk nf r c)"
    and "live (free_chunk nf r c) = (live r)(c := None)"
    and "ralign (free_chunk nf r c) = ralign r"
    and "nf \<Longrightarrow> coalesced r \<Longrightarrow> coalesced (free_chunk nf r c)"
proof -
  let ?r1 = "set_chunk r c ((all_chunks r c)\<lparr>is_allocated := False\<rparr>)"
  obtain us vs where ch: "chunks r = us @ c # vs" and vs: "vs \<noteq> []"
    and lst: "start_address (all_chunks r c) < start_address (all_chunks r (last_chunk r))"
    using inv c a by (rule allocated_split)
  obtain us' f r2 where
    in2: "coalesce_chunks ?r1 (dl_prev (chunks ?r1) c) (Some c) = (Some f, r2)"
    and inv2: "region_inv lo hi r2" and ch2: "chunks r2 = us' @ f # vs"
    and f2: "\<not> is_allocated (all_chunks r2 f)" and live2: "live r2 = live ?r1"
    and al2: "ralign r2 = ralign r"
    and fl2: "\<And>d. is_allocated (all_chunks r2 d) = is_allocated (all_chunks ?r1 d)"
    and alt: "f = c \<and> us' = us \<and> free_chunks r2 = free_chunks r \<and>
           (us \<noteq> [] \<longrightarrow> is_allocated (all_chunks r (last us)))
         \<or> us = us' @ [f] \<and> free_chunks r2 = free_chunks r @ [c]
           \<and> \<not> is_allocated (all_chunks r f)"
    using free_chunk_inner [OF inv ch vs lst] by metis
  have dist: "distinct (us @ c # vs)" "distinct (free_chunks r)" "c \<notin> set (free_chunks r)"
    using inv ch by (auto simp: region_inv_def)
  have n1: "chunk_next ?r1 c = Some (hd vs)"
    using dl_next_split [OF dist(1)] ch vs by (auto simp: chunk_next_def split: list.splits)
  define nxt where "nxt = (if nf then chunk_next ?r1 c else chunk_next r2 c)"
  have free: "free_chunk nf r c = snd (coalesce_chunks r2 (Some f) nxt)"
    using in2 by (simp add: free_chunk_def Let_def nxt_def)
  have nx: "nxt = None \<or> vs \<noteq> [] \<and> nxt = Some (hd vs)"
  proof (cases "f = c")
    case True
    then have "chunk_next r2 c = Some (hd vs)"
      using alt dist ch2 vs dl_next_split [OF dist(1)]
      by (auto simp: chunk_next_def split: list.splits)
    then show ?thesis using n1 vs by (simp add: nxt_def)
  next
    case False
    then have "us = us' @ [f]" "free_chunks r2 = free_chunks r @ [c]" using alt by auto
    then have "chunk_next r2 c = None"
      using dist ch2 by (auto simp: chunk_next_def chunk_next_last)
    then show ?thesis using n1 vs by (simp add: nxt_def)
  qed
  note nxt = coalesce_next [OF inv2 ch2 f2 nx]
  show "region_inv lo hi (free_chunk nf r c)" "ralign (free_chunk nf r c) = ralign r"
    using nxt free al2 by simp_all
  have "live ?r1 = (live r)(c := None)"
    by (rule ext) (auto simp: live_def cstart_def cend_def csize_def)
  then show "live (free_chunk nf r c) = (live r)(c := None)"
    using nxt free live2 by simp
  show "coalesced (free_chunk nf r c)" if nf "coalesced r"
    unfolding free
  proof (rule nxt(3), rule disjI2)
    let ?P = "\<lambda>c d. is_allocated (all_chunks r c) \<or> is_allocated (all_chunks r d)"
    let ?Q = "\<lambda>c d. is_allocated (all_chunks r2 c) \<or> is_allocated (all_chunks r2 d)"
    have nc: "\<forall>d\<in>set us' \<union> set vs. d \<noteq> c" using dist alt by auto
    have suc: "successively ?P (us @ c # vs)" using that ch by (simp add: coalesced_def)
    have "successively ?P us'" "successively ?P vs"
      using suc alt by (auto simp: successively_append_iff successively_Cons)
    moreover have "successively ?Q us' = successively ?P us'" "successively ?Q vs = successively ?P vs"
      by (rule successively_cong; use nc fl2 in simp)+
    ultimately have "successively ?Q us'" "successively ?Q vs" by simp_all
    moreover have "is_allocated (all_chunks r2 (last us'))" if "us' \<noteq> []"
    proof -
      have "last us' \<noteq> c" using nc that by auto
      then show ?thesis using alt suc that fl2 by (auto simp: successively_append_iff)
    qed
    ultimately show "(us' \<noteq> [] \<longrightarrow> is_allocated (all_chunks r2 (last us'))) \<and>
      successively ?Q us' \<and> successively ?Q vs \<and> vs \<noteq> [] \<and> nxt = Some (hd vs)"
      using vs n1 that(1) by (simp add: nxt_def)
  qed
qed

section \<open>The allocator interface\<close>

text \<open>
  What a client of a region relies on: a set of live blocks that an allocation extends by a fresh
  block and a free shrinks by exactly the freed one.
\<close>

datatype ('h, 'n) alloc_op = Do_alloc 'n | Do_free 'h

text \<open>A client that only makes requests \<open>fits\<close> accepts and only frees live blocks.\<close>

fun client_run ::
  "('r \<Rightarrow> 'n \<Rightarrow> 'h option \<times> 'r) \<Rightarrow> ('r \<Rightarrow> 'h \<Rightarrow> 'r) \<Rightarrow> ('r \<Rightarrow> 'h \<Rightarrow> (nat \<times> nat) option) \<Rightarrow>
   ('n \<Rightarrow> bool) \<Rightarrow> 'r \<Rightarrow> ('h, 'n) alloc_op list \<Rightarrow> 'r option" where
  "client_run al fr lv fits r [] = Some r"
| "client_run al fr lv fits r (Do_alloc n # ops) =
     (if fits n then client_run al fr lv fits (snd (al r n)) ops else None)"
| "client_run al fr lv fits r (Do_free h # ops) =
     (if lv r h \<noteq> None then client_run al fr lv fits (fr r h) ops else None)"

definition disjoint_blocks :: "nat \<times> nat \<Rightarrow> nat \<times> nat \<Rightarrow> bool" where
  "disjoint_blocks b b' \<longleftrightarrow> snd b \<le> fst b' \<or> snd b' \<le> fst b"

locale block_allocator =
  fixes inv :: "'r \<Rightarrow> bool"
    and lv :: "'r \<Rightarrow> 'h \<Rightarrow> (nat \<times> nat) option"
    and al :: "'r \<Rightarrow> 'n \<Rightarrow> 'h option \<times> 'r"
    and fr :: "'r \<Rightarrow> 'h \<Rightarrow> 'r"
    and fits :: "'n \<Rightarrow> bool"
    and len :: "'n \<Rightarrow> nat"
    and lo hi align :: nat
  assumes al_inv: "inv r \<Longrightarrow> fits n \<Longrightarrow> inv (snd (al r n))"
    and al_fail: "inv r \<Longrightarrow> fits n \<Longrightarrow> al r n = (None, r') \<Longrightarrow> lv r' = lv r"
    and al_fresh: "inv r \<Longrightarrow> fits n \<Longrightarrow> al r n = (Some h, r') \<Longrightarrow> lv r h = None"
    and al_block: "inv r \<Longrightarrow> fits n \<Longrightarrow> al r n = (Some h, r') \<Longrightarrow>
      \<exists>b. lv r' = (lv r)(h \<mapsto> b) \<and> fst b + len n \<le> snd b \<and> align dvd fst b"
    and fr_inv: "inv r \<Longrightarrow> lv r h \<noteq> None \<Longrightarrow> inv (fr r h)"
    and fr_block: "inv r \<Longrightarrow> lv r h \<noteq> None \<Longrightarrow> lv (fr r h) = (lv r)(h := None)"
    and lv_range: "inv r \<Longrightarrow> lv r h = Some b \<Longrightarrow> lo \<le> fst b \<and> fst b \<le> snd b \<and> snd b \<le> hi"
    and lv_disjoint: "inv r \<Longrightarrow> lv r h = Some b \<Longrightarrow> lv r h' = Some b' \<Longrightarrow> h \<noteq> h' \<Longrightarrow>
      disjoint_blocks b b'"
begin

lemma run_inv: "inv r \<Longrightarrow> client_run al fr lv fits r ops = Some r' \<Longrightarrow> inv r'"
proof (induction ops arbitrary: r)
  case Nil
  then show ?case by simp
next
  case (Cons x ops)
  show ?case
  proof (cases x)
    case (Do_alloc n)
    then show ?thesis using Cons al_inv [of r n] by (auto split: if_splits)
  next
    case (Do_free h)
    then show ?thesis using Cons fr_inv [of r h] by (auto split: if_splits)
  qed
qed

lemma run_disjoint:
  assumes "inv r" and "client_run al fr lv fits r ops = Some r'"
    and "lv r' h = Some b" and "lv r' h' = Some b'" and "h \<noteq> h'"
  shows "disjoint_blocks b b'" and "lo \<le> fst b \<and> snd b \<le> hi"
  using run_inv [OF assms(1,2)] lv_disjoint lv_range assms(3-5) by blast+

lemma alloc_apart:
  assumes "inv r" and "fits n" and res: "al r n = (Some h, r')"
  obtains b where "lv r' = (lv r)(h \<mapsto> b)" and "fst b + len n \<le> snd b" and "align dvd fst b"
    and "lo \<le> fst b" and "snd b \<le> hi" and "\<And>h' b'. lv r h' = Some b' \<Longrightarrow> disjoint_blocks b b'"
proof -
  have inv': "inv r'" using al_inv [OF assms(1,2)] res by simp
  obtain b where b: "lv r' = (lv r)(h \<mapsto> b)" "fst b + len n \<le> snd b" "align dvd fst b"
    using al_block [OF assms] by blast
  have h: "lv r' h = Some b" using b(1) by simp
  have apart: "disjoint_blocks b b'" if "lv r h' = Some b'" for h' b'
  proof -
    have "h' \<noteq> h" using al_fresh [OF assms] that by auto
    then show ?thesis using lv_disjoint [OF inv' h, of h' b'] that b(1) by simp
  qed
  show ?thesis using that [OF b] lv_range [OF inv' h] apart by simp
qed

text \<open>Freeing the block just allocated gives back the set of live blocks.\<close>

lemma alloc_free:
  assumes "inv r" and "fits n" and res: "al r n = (Some h, r')"
  shows "lv (fr r' h) = lv r"
proof -
  have inv': "inv r'" using al_inv [OF assms(1,2)] res by simp
  obtain b where b: "lv r' = (lv r)(h \<mapsto> b)" using al_block [OF assms] by blast
  then show ?thesis
    using fr_block [OF inv', of h] al_fresh [OF assms] by auto
qed

end

text \<open>A region of \<open>bufalloc.c\<close> provides the interface, for either argument order of C.\<close>

definition region_ok :: "nat \<Rightarrow> nat \<Rightarrow> nat \<Rightarrow> memory_region \<Rightarrow> bool" where
  "region_ok lo hi a r \<longleftrightarrow> region_inv lo hi r \<and> ralign r = a"

definition fits_size :: "nat \<Rightarrow> nat \<Rightarrow> size_t \<Rightarrow> bool" where
  "fits_size hi a sz \<longleftrightarrow> 0 < unat sz \<and> hi + a + unat sz \<le> 2 ^ 64"

lemma fits_sane: "region_ok lo hi a r \<Longrightarrow> fits_size hi a sz \<Longrightarrow> sane_request hi r sz"
  by (simp add: region_ok_def fits_size_def sane_request_def)

lemma alloc_ralign: "ralign (snd (alloc_buffer_from_region r sz)) = ralign r"
  by (auto simp: alloc_buffer_from_region_def append_new_chunk_def reuse_chunk_def Let_def
      ralign_def region_align_def set_chunk_def split: list.splits option.splits prod.splits if_splits)

lemma live_iff:
  "live r c = Some b \<longleftrightarrow>
   c \<in> set (chunks r) \<and> is_allocated (all_chunks r c) \<and> b = (cstart r c, cend r c)"
  by (auto simp: live_def)

lemma live_disjoint:
  assumes "region_inv lo hi r" and "live r h = Some b" and "live r h' = Some b'" and "h \<noteq> h'"
  shows "disjoint_blocks b b'"
proof -
  have srt: "sorted_wrt (\<lambda>c d. cend r c \<le> cstart r d) (chunks r)"
    using assms(1) by (simp add: region_inv_def)
  have "h \<in> set (chunks r)" using assms(2) by (simp add: live_iff)
  then obtain us vs where "chunks r = us @ h # vs" by (meson split_list)
  then show ?thesis
    using srt assms(2-4) by (auto simp: live_iff sorted_wrt_append disjoint_blocks_def)
qed

interpretation region: block_allocator
  "region_ok lo hi a" live alloc_buffer_from_region "free_chunk nf" "fits_size hi a" unat lo hi a
  for lo hi a nf
proof (unfold_locales, goal_cases)
  case (1 r n)
  then show ?case using fits_sane region_inv_alloc alloc_ralign by (auto simp: region_ok_def)
next
  case (2 r n r')
  then show ?case by (auto dest: alloc_None)
next
  case (3 r n h r')
  then show ?case using alloc_live(1) fits_sane unfolding region_ok_def by blast
next
  case (4 r n h r')
  then have "region_inv lo hi r" "sane_request hi r n" "ralign r = a"
    using fits_sane by (auto simp: region_ok_def)
  then show ?case
    using alloc_live(2-4) [OF _ _ 4(3)]
    by (intro exI [of _ "(cstart r' h, cend r' h)"]) auto
next
  case (5 r h)
  then show ?case using free_chunk_correct by (auto simp: region_ok_def live_def split: if_splits)
next
  case (6 r h)
  then show ?case
    using free_chunk_correct(2) [of lo hi r h nf] by (auto simp: region_ok_def live_def split: if_splits)
next
  case (7 r h b)
  then show ?case using inv_cstart_ge inv_cend_le
    by (fastforce simp: region_ok_def live_iff cend_def)
next
  case (8 r h b h' b')
  then show ?case using live_disjoint [of lo hi r h b h' b'] by (simp add: region_ok_def)
qed

section \<open>A fresh region\<close>

text \<open>
  \<open>init_mem_region\<close> selects \<open>BALLOCS_WASTEFUL\<close>; its client may change the field afterwards, so the
  facts below are stated for either strategy.
\<close>

lemma init_region_ok:
  assumes "unat start + unat sz + 64 \<le> 2 ^ 64"
  shows "region_ok (unat start) (unat start + unat sz) 64 ((init_mem_region r0 start sz)\<lparr>strategy := st\<rparr>)"
    and "coalesced ((init_mem_region r0 start sz)\<lparr>strategy := st\<rparr>)"
    and "live ((init_mem_region r0 start sz)\<lparr>strategy := st\<rparr>) = Map.empty"
proof -
  let ?r = "(init_mem_region r0 start sz)\<lparr>strategy := st\<rparr>"
  have a: "ralign ?r = 64" by (simp add: ralign_def region_align_def init_mem_region_def)
  have "insert 0 {Suc 0..<MAX_CHUNKS_IN_REGION} = {..<MAX_CHUNKS_IN_REGION}"
    by (auto simp: MAX_CHUNKS_IN_REGION_def)
  moreover have "\<exists>k<16. (64::nat) = 2 ^ k" by (rule exI [of _ 6]) simp
  ultimately have "region_inv (unat start) (unat start + unat sz) ?r"
    unfolding region_inv_def a
    using assms round_up_ge [of 64 "unat start"]
    by (simp add: init_mem_region_def cstart_def cend_def csize_def)
  with a show "region_ok (unat start) (unat start + unat sz) 64 ?r" by (simp add: region_ok_def)
  show "coalesced ?r" by (simp add: coalesced_def init_mem_region_def)
  show "live ?r = Map.empty" by (rule ext) (simp add: live_def init_mem_region_def)
qed

lemma init_region_inv:
  assumes "unat start + unat sz + 64 \<le> 2 ^ 64"
  shows "region_inv (unat start) (unat start + unat sz) (init_mem_region r0 start sz)"
    and "ralign (init_mem_region r0 start sz) = 64"
proof -
  have "(init_mem_region r0 start sz)\<lparr>strategy := BALLOCS_WASTEFUL\<rparr> = init_mem_region r0 start sz"
    by (cases r0) (simp add: init_mem_region_def)
  then show "region_inv (unat start) (unat start + unat sz) (init_mem_region r0 start sz)"
    and "ralign (init_mem_region r0 start sz) = 64"
    using init_region_ok(1) [OF assms, of BALLOCS_WASTEFUL r0] by (simp_all add: region_ok_def)
qed

section \<open>No fragmentation\<close>

lemma coalesced_append:
  assumes inv: "region_inv lo hi r" and sane: "sane_request hi r sz" and co: "coalesced r"
    and res: "append_new_chunk r sz = (Some n, r')"
  shows "coalesced r'"
proof -
  obtain us where us: "chunks r = us @ [last_chunk r]" and n: "n \<notin> set (chunks r)"
    and ch: "chunks r' = us @ [n, last_chunk r]" and a: "is_allocated (all_chunks r' n)"
    and ac: "\<And>c. c \<noteq> n \<Longrightarrow> is_allocated (all_chunks r' c) = is_allocated (all_chunks r c)"
    using append_new_chunk_Some [OF inv sane res] by metis
  have same: "is_allocated (all_chunks r' c) = is_allocated (all_chunks r c)" if "c \<in> set us" for c
    using that n us by (intro ac) auto
  have "successively (\<lambda>c d. is_allocated (all_chunks r' c) \<or> is_allocated (all_chunks r' d)) us
      = successively (\<lambda>c d. is_allocated (all_chunks r c) \<or> is_allocated (all_chunks r d)) us"
    by (rule successively_cong) (simp_all add: same)
  then show ?thesis
    using co us ch a by (auto simp: coalesced_def successively_append_iff)
qed

lemma coalesced_alloc:
  assumes inv: "region_inv lo hi r" and sane: "sane_request hi r sz" and co: "coalesced r"
  shows "coalesced (snd (alloc_buffer_from_region r sz))"
proof (cases "alloc_buffer_from_region r sz")
  case (Pair res r')
  show ?thesis
  proof (cases res)
    case None
    with Pair co show ?thesis by (auto dest: alloc_None)
  next
    case (Some c)
    with Pair have "alloc_buffer_from_region r sz = (Some c, r')" by simp
    then have "coalesced r'"
    proof (cases rule: alloc_cases)
      case append
      with inv sane co show ?thesis by (rule coalesced_append)
    next
      case reuse
      note rc = reuse_chunk_Some [OF reuse]
      show ?thesis
        using co unfolding coalesced_def rc(5) set_flag_simps
        by (rule successively_mono) auto
    qed
    with Pair show ?thesis by simp
  qed
qed

text \<open>A coalesced region without live blocks is one free chunk.\<close>

lemma all_free_single:
  assumes inv: "region_inv lo hi r" and co: "coalesced r" and free: "live r = Map.empty"
  shows "chunks r = [last_chunk r]" and "free_chunks r \<noteq> []"
    and "round_up (ralign r) (cstart r (last_chunk r)) = round_up (ralign r) lo"
proof -
  have no: "\<not> is_allocated (all_chunks r c)" if "c \<in> set (chunks r)" for c
    using fun_cong [OF free, of c] that by (simp add: live_def split: if_splits)
  obtain us where us: "chunks r = us @ [last_chunk r]"
    using inv by (rule region_inv_last)
  show ch: "chunks r = [last_chunk r]"
  proof (cases us rule: rev_cases)
    case Nil
    with us show ?thesis by simp
  next
    case (snoc ws w)
    with us co have "is_allocated (all_chunks r w) \<or> is_allocated (all_chunks r (last_chunk r))"
      by (simp add: coalesced_def successively_append_iff)
    with no us snoc show ?thesis by simp
  qed
  have "set (chunks r @ free_chunks r) = {..<MAX_CHUNKS_IN_REGION}"
    using inv by (simp add: region_inv_def)
  then have "card (set (chunks r @ free_chunks r)) = 1024"
    by (simp only: card_lessThan MAX_CHUNKS_IN_REGION_def)
  with ch show "free_chunks r \<noteq> []" by auto
  have "lo \<le> cstart r (last_chunk r)" "cstart r (last_chunk r) \<le> round_up (ralign r) lo"
    using inv ch by (auto simp: region_inv_def)
  then show "round_up (ralign r) (cstart r (last_chunk r)) = round_up (ralign r) lo"
    using round_up_mult [OF inv_bounds(2) [OF inv] round_up_dvd, of lo]
      round_up_mono [of lo "cstart r (last_chunk r)" "ralign r"]
      round_up_mono [of "cstart r (last_chunk r)" "round_up (ralign r) lo" "ralign r"]
    by simp
qed

lemma run_coalesced:
  assumes "region_ok lo hi a r" and "coalesced r"
    and "client_run alloc_buffer_from_region (free_chunk True) live (fits_size hi a) r ops = Some r'"
  shows "region_ok lo hi a r' \<and> coalesced r'"
  using assms
proof (induction ops arbitrary: r)
  case Nil
  then show ?case by simp
next
  case (Cons x ops)
  show ?case
  proof (cases x)
    case (Do_alloc n)
    with Cons.prems have "fits_size hi a n" by (simp split: if_splits)
    then have "coalesced (snd (alloc_buffer_from_region r n))"
      using Cons.prems(1,2) fits_sane coalesced_alloc unfolding region_ok_def by blast
    then show ?thesis
      using Do_alloc Cons region.al_inv [of lo hi a r n] by (auto split: if_splits)
  next
    case (Do_free h)
    then have h: "live r h \<noteq> None" using Cons.prems(3) by (simp split: if_splits)
    then have "coalesced (free_chunk True r h)"
      using Cons.prems(1,2) free_chunk_correct(4) [of lo hi r h True]
      by (auto simp: region_ok_def live_def split: if_splits)
    then show ?thesis
      using Do_free Cons region.fr_inv [of lo hi a r h True] h by (auto split: if_splits)
  qed
qed

section \<open>Several regions\<close>

lemma find_start_Some: "find_start r a cs = Some c \<Longrightarrow> c \<in> set cs \<and> start_address (all_chunks r c) = a"
  by (induction cs) (auto split: if_splits)

lemma find_start_None:
  "find_start r a cs = None \<longleftrightarrow> (\<forall>c\<in>set cs. start_address (all_chunks r c) \<noteq> a)"
  by (induction cs) auto

text \<open>In one region, the address of a live block finds its chunk: starts strictly increase.\<close>

lemma find_start_live:
  assumes inv: "region_inv lo hi r" and c: "live r c = Some b"
  shows "find_start r (start_address (all_chunks r c)) (chunks r) = Some c"
proof -
  have cc: "c \<in> set (chunks r)" "is_allocated (all_chunks r c)" using c by (auto simp: live_iff)
  obtain us vs where ch: "chunks r = us @ c # vs" using cc(1) by (meson split_list)
  have "start_address (all_chunks r d) \<noteq> start_address (all_chunks r c)" if d: "d \<in> set us" for d
  proof -
    have "cend r d \<le> cstart r c" using inv ch d by (auto simp: region_inv_def sorted_wrt_append)
    moreover have "d \<in> set (butlast (chunks r))" using d by (simp add: ch butlast_append)
    then have "0 < csize r d" using inv by (simp add: region_inv_def)
    ultimately show ?thesis by (auto simp: cend_def cstart_def)
  qed
  then have "find_start r (start_address (all_chunks r c)) (us @ c # vs) = Some c"
    by (induction us) auto
  then show ?thesis by (simp add: ch)
qed

text \<open>The regions of a list, each with the address range it manages.\<close>

definition regions_ok :: "(nat \<times> nat) list \<Rightarrow> memory_region list \<Rightarrow> bool" where
  "regions_ok ranges rs \<longleftrightarrow> list_all2 (\<lambda>(lo, hi) r. region_inv lo hi r) ranges rs"

lemma free_buffer_live:
  assumes "regions_ok ranges rs" and "i < length rs" and "live (rs ! i) c = Some b"
    and "\<forall>j < i. fst (ranges ! i) > snd (ranges ! j) \<or> snd (ranges ! i) < fst (ranges ! j)"
  shows "free_buffer nf rs (start_address (all_chunks (rs ! i) c))
         = (Some i, rs[i := free_chunk nf (rs ! i) c])"
  using assms
proof (induction rs arbitrary: i ranges)
  case Nil
  then show ?case by simp
next
  case (Cons r rs)
  obtain lo hi ranges' where rg: "ranges = (lo, hi) # ranges'" and r: "region_inv lo hi r"
    and ok: "regions_ok ranges' rs"
    using Cons.prems(1) by (cases ranges) (auto simp: regions_ok_def)
  show ?case
  proof (cases i)
    case 0
    with Cons.prems(3) show ?thesis by (simp add: find_start_live [OF r])
  next
    case (Suc k)
    let ?a = "start_address (all_chunks (rs ! k) c)"
    have lk: "live (rs ! k) c = Some b" "k < length rs" using Cons.prems Suc by auto
    have rk: "region_inv (fst (ranges' ! k)) (snd (ranges' ! k)) (rs ! k)"
      using ok lk(2) by (auto simp: regions_ok_def list_all2_conv_all_nth split_beta)
    have ck: "c \<in> set (chunks (rs ! k))" using lk by (simp add: live_iff)
    have "fst (ranges' ! k) \<le> unat ?a" "unat ?a \<le> snd (ranges' ! k)"
      using inv_cstart_ge [OF rk ck] inv_cend_le [OF rk ck] by (auto simp: cstart_def cend_def)
    moreover have "fst (ranges' ! k) > hi \<or> snd (ranges' ! k) < lo"
      using Cons.prems(4) Suc rg by auto
    ultimately have out: "unat ?a > hi \<or> unat ?a < lo" by linarith
    have "find_start r ?a (chunks r) = None"
    proof (rule ccontr)
      assume "find_start r ?a (chunks r) \<noteq> None"
      then obtain d where "d \<in> set (chunks r)" "start_address (all_chunks r d) = ?a"
        using find_start_Some by blast
      with out inv_cstart_ge [OF r, of d] inv_cend_le [OF r, of d] show False
        by (auto simp: cstart_def cend_def)
    qed
    moreover have "free_buffer nf rs ?a = (Some k, rs[k := free_chunk nf (rs ! k) c])"
      using Cons.IH [OF ok lk(2,1)] Cons.prems(4) Suc rg by fastforce
    ultimately show ?thesis by (simp add: Suc)
  qed
qed

section \<open>Properties\<close>

text \<open>The first records of a fresh region's free list.\<close>

lemma fresh_records: "[Suc 0..<MAX_CHUNKS_IN_REGION] = 1 # 2 # 3 # 4 # [5..<MAX_CHUNKS_IN_REGION]"
proof -
  have m: "k < MAX_CHUNKS_IN_REGION" if "k < 5" for k using that by (simp add: MAX_CHUNKS_IN_REGION_def)
  show ?thesis
    by (simp add: upt_conv_Cons [OF m, of "Suc 0"] upt_conv_Cons [OF m, of 2]
      upt_conv_Cons [OF m, of 3] upt_conv_Cons [OF m, of 4] flip: numeral_2_eq_2)
qed

lemma moved_record_next: "dl_next (4 # [5..<MAX_CHUNKS_IN_REGION] @ [0, 2]) 2 = None"
  using chunk_next_last [of "4 # [5..<MAX_CHUNKS_IN_REGION] @ [0]" 2] by simp

lemmas eval_region = init_mem_region_def alloc_buffer_from_region_def append_new_chunk_def
  chunk_slack_def region_align_def align_up_def reuse_chunk_def free_chunk_def coalesce_chunks_def
  chunk_next_def dl_prev_def set_chunk_def live_def fits_size_def cstart_def cend_def csize_def
  fresh_records

text \<open>
  C1: whatever valid allocations and frees a client makes on a fresh region, in whatever order, the
  blocks live afterwards never overlap, stay inside the region's address range and are not empty.
\<close>

theorem bufalloc_blocks_disjoint:
  assumes "unat start + unat sz + 64 \<le> 2 ^ 64"
    and "client_run alloc_buffer_from_region (free_chunk nf) live
           (fits_size (unat start + unat sz) 64) ((init_mem_region r0 start sz)\<lparr>strategy := st\<rparr>) ops
         = Some r"
    and "live r h = Some (a, b)" and "live r h' = Some (a', b')" and "h \<noteq> h'"
  shows "(b \<le> a' \<or> b' \<le> a) \<and> unat start \<le> a \<and> b \<le> unat start + unat sz \<and> a < b"
proof -
  let ?lo = "unat start" and ?hi = "unat start + unat sz"
  have ok: "region_ok ?lo ?hi 64 ((init_mem_region r0 start sz)\<lparr>strategy := st\<rparr>)"
    using assms(1) by (rule init_region_ok)
  have apart: "b \<le> a' \<or> b' \<le> a"
    using region.run_disjoint(1) [OF ok assms(2-5)] by (simp add: disjoint_blocks_def)
  have inv: "region_inv ?lo ?hi r"
    using region.run_inv [OF ok assms(2)] by (simp add: region_ok_def)
  have "h \<in> set (butlast (chunks r))"
    using inv assms(3) by (cases "chunks r" rule: rev_cases) (auto simp: live_iff region_inv_def)
  then have "a < b" using inv assms(3) by (auto simp: live_iff region_inv_def cend_def)
  then show ?thesis
    using apart region.run_disjoint(2) [OF ok assms(2-5)] by simp
qed

theorem bufalloc_blocks_disjoint_witness:
  "live (the (client_run alloc_buffer_from_region (free_chunk True) live (fits_size 8192 64)
      ((init_mem_region undefined 0 8192)\<lparr>strategy := BALLOCS_TIGHT\<rparr>)
      [Do_alloc 100, Do_alloc 10])) 1 = Some (0, 100) \<and>
   live (the (client_run alloc_buffer_from_region (free_chunk True) live (fits_size 8192 64)
      ((init_mem_region undefined 0 8192)\<lparr>strategy := BALLOCS_TIGHT\<rparr>)
      [Do_alloc 100, Do_alloc 10])) 2 = Some (128, 138) \<and>
   ((100::nat) \<le> 128 \<or> (138::nat) \<le> 0)"
proof -
  let ?run = "client_run alloc_buffer_from_region (free_chunk True) live (fits_size 8192 64)
      ((init_mem_region undefined 0 8192)\<lparr>strategy := BALLOCS_TIGHT\<rparr>) [Do_alloc 100, Do_alloc 10]"
  have run: "?run = Some (the ?run)" by (simp add: fits_size_def)
  have l: "live (the ?run) 1 = Some (0, 100)" "live (the ?run) 2 = Some (128, 138)"
    by (simp_all add: eval_region)
  have "(100::nat) \<le> 128 \<or> (138::nat) \<le> 0"
    using bufalloc_blocks_disjoint [of 0 8192 True BALLOCS_TIGHT undefined
      "[Do_alloc 100, Do_alloc 10]" "the ?run" 1 0 100 2 128 138] run l by simp
  with l show ?thesis by simp
qed

text \<open>
  C2: a successful allocation hands out a chunk that was not live, at least as long as requested,
  aligned to the region's alignment, inside the region and apart from every live block, and changes
  no other live block; a failed one changes nothing, and then no unallocated chunk can hold the
  request, unless the region has run out of chunk records.
\<close>

theorem alloc_buffer_from_region_spec:
  assumes "region_inv lo hi r" and "sane_request hi r sz"
  shows "case alloc_buffer_from_region r sz of
     (Some c, r') \<Rightarrow> live r c = None \<and>
       (\<exists>a b. live r' = (live r)(c \<mapsto> (a, b)) \<and> a + unat sz \<le> b \<and> ralign r dvd a \<and> lo \<le> a \<and> b \<le> hi \<and>
         (\<forall>d x y. live r d = Some (x, y) \<longrightarrow> b \<le> x \<or> y \<le> a))
   | (None, r') \<Rightarrow> r' = r \<and>
       (\<forall>c \<in> set (chunks r). is_allocated (all_chunks r c) \<or>
         cend r c < round_up (ralign r) (cstart r c) + unat sz \<or>
         c = last_chunk r \<and> free_chunks r = [])"
proof (cases "alloc_buffer_from_region r sz")
  case (Pair res r')
  show ?thesis
  proof (cases res)
    case (Some c)
    with Pair have res: "alloc_buffer_from_region r sz = (Some c, r')" by simp
    have ok: "region_ok lo hi (ralign r) r" and f: "fits_size hi (ralign r) sz"
      using assms by (auto simp: region_ok_def fits_size_def sane_request_def)
    obtain b where b: "live r' = (live r)(c \<mapsto> b)" "fst b + unat sz \<le> snd b" "ralign r dvd fst b"
      "lo \<le> fst b" "snd b \<le> hi" "\<And>d b'. live r d = Some b' \<Longrightarrow> disjoint_blocks b b'"
      using region.alloc_apart [OF ok f res] by metis
    have "live r c = None" using region.al_fresh [OF ok f res] .
    moreover have "\<forall>d x y. live r d = Some (x, y) \<longrightarrow> snd b \<le> x \<or> y \<le> fst b"
      using b(6) by (metis disjoint_blocks_def fst_conv snd_conv)
    ultimately have "live r c = None \<and> live r' = (live r)(c \<mapsto> (fst b, snd b)) \<and>
      fst b + unat sz \<le> snd b \<and> ralign r dvd fst b \<and> lo \<le> fst b \<and> snd b \<le> hi \<and>
      (\<forall>d x y. live r d = Some (x, y) \<longrightarrow> snd b \<le> x \<or> y \<le> fst b)"
      using b(1-5) by simp
    then show ?thesis unfolding res prod.case option.case by blast
  next
    case None
    with Pair have res: "alloc_buffer_from_region r sz = (None, r')" by simp
    have app: "append_new_chunk r sz = (None, r)" and reu: "find_reusable r sz (chunks r) = None"
      using res by (auto simp: alloc_buffer_from_region_def reuse_chunk_def
          split: if_splits option.splits prod.splits dest: append_new_chunk_None)
    have "is_allocated (all_chunks r c) \<or> cend r c < round_up (ralign r) (cstart r c) + unat sz \<or>
      c = last_chunk r \<and> free_chunks r = []" if c: "c \<in> set (chunks r)" for c
      using find_reusable_None [OF reu c] app chunk_slack_nat(1) [OF assms(1) c assms(2)]
      by (auto simp: append_new_chunk_def Let_def split: if_splits list.splits)
    with res alloc_None [OF res] show ?thesis by simp
  qed
qed

theorem alloc_buffer_from_region_spec_witness:
  "region_inv 0 8192 (init_mem_region undefined 0 8192) \<and>
   fst (alloc_buffer_from_region (init_mem_region undefined 0 8192) 100) = Some 1 \<and>
   live (init_mem_region undefined 0 8192) 1 = None"
proof -
  let ?r = "init_mem_region undefined 0 8192"
  have inv: "region_inv 0 8192 ?r" and al: "ralign ?r = 64"
    using init_region_inv [of 0 8192 undefined] by simp_all
  have res: "fst (alloc_buffer_from_region ?r 100) = Some 1" by (simp add: eval_region)
  then obtain r' where r': "alloc_buffer_from_region ?r 100 = (Some 1, r')" by (metis prod.collapse)
  have "live ?r 1 = None"
    using alloc_buffer_from_region_spec [OF inv, of 100] r' al by (simp add: sane_request_def)
  with inv res show ?thesis by simp
qed

text \<open>
  C3: freeing a live chunk keeps the region well formed and removes exactly that block from the
  live ones, whichever argument order the compiler picks; freeing the block just allocated restores
  the live blocks from before the allocation.
\<close>

theorem free_chunk_spec:
  assumes "region_inv lo hi r" and "live r c \<noteq> None"
  shows "region_inv lo hi (free_chunk nf r c) \<and>
         live (free_chunk nf r c) = (live r)(c := None) \<and>
         (\<forall>sz n r'. sane_request hi r sz \<longrightarrow> alloc_buffer_from_region r sz = (Some n, r') \<longrightarrow>
            live (free_chunk nf r' n) = live r)"
proof -
  have c: "c \<in> set (chunks r)" "is_allocated (all_chunks r c)"
    using assms(2) by (auto simp: live_def split: if_splits)
  have "live (free_chunk nf r' n) = live r"
    if "sane_request hi r sz" "alloc_buffer_from_region r sz = (Some n, r')" for sz n r'
    using region.alloc_free [of lo hi "ralign r" r sz n r' nf] assms(1) that
    by (auto simp: region_ok_def fits_size_def sane_request_def)
  then show ?thesis using free_chunk_correct(1,2) [OF assms(1) c] by blast
qed

theorem free_chunk_spec_witness:
  "live (free_chunk True (snd (alloc_buffer_from_region (init_mem_region undefined 0 8192) 100)) 1) 1
   = None"
proof -
  let ?r = "init_mem_region undefined 0 8192"
  let ?r' = "snd (alloc_buffer_from_region ?r 100)"
  have inv: "region_inv 0 8192 ?r" and al: "ralign ?r = 64"
    using init_region_inv [of 0 8192 undefined] by simp_all
  have inv': "region_inv 0 8192 ?r'"
    using inv al by (intro region_inv_alloc) (simp_all add: sane_request_def)
  have l: "live ?r' 1 \<noteq> None" by (simp add: eval_region)
  show ?thesis using free_chunk_spec [OF inv' l, of True] by simp
qed

text \<open>
  C4: when \<open>chunk->next\<close> is read first, no run leaves the region fragmented: once every block is
  freed, a single request for everything from the first aligned address on succeeds again.
\<close>

theorem bufalloc_no_fragmentation:
  assumes "unat start + unat sz + 64 \<le> 2 ^ 64"
    and "client_run alloc_buffer_from_region (free_chunk True) live
           (fits_size (unat start + unat sz) 64) ((init_mem_region r0 start sz)\<lparr>strategy := st\<rparr>) ops
         = Some r"
    and "live r = Map.empty"
    and "fits_size (unat start + unat sz) 64 n"
    and "round_up 64 (unat start) + unat n \<le> unat start + unat sz"
  shows "\<exists>c r'. alloc_buffer_from_region r n = (Some c, r')"
proof -
  let ?lo = "unat start" and ?hi = "unat start + unat sz"
  have "region_ok ?lo ?hi 64 r \<and> coalesced r"
    using run_coalesced [OF init_region_ok(1,2) [OF assms(1)] assms(2)] .
  then have inv: "region_inv ?lo ?hi r" and al: "ralign r = 64" and co: "coalesced r"
    and ok: "region_ok ?lo ?hi 64 r" by (auto simp: region_ok_def)
  note one = all_free_single [OF inv co assms(3)]
  have sane: "sane_request ?hi r n" using fits_sane [OF ok assms(4)] .
  have lin: "last_chunk r \<in> set (chunks r)" using one(1) by simp
  have "cend r (last_chunk r) = ?hi" using inv by (simp add: region_inv_def)
  then have "fst (chunk_slack r (last_chunk r) n)"
    using chunk_slack_nat(1) [OF inv lin sane] one(3) al assms(5) by simp
  moreover obtain c fs where "free_chunks r = c # fs"
    using one(2) by (cases "free_chunks r") auto
  ultimately obtain r' where "append_new_chunk r n = (Some c, r')"
    by (simp add: append_new_chunk_def Let_def)
  then show ?thesis
    by (auto simp: alloc_buffer_from_region_def split: option.splits prod.splits
        dest: reuse_chunk_None)
qed

theorem bufalloc_no_fragmentation_witness:
  "\<exists>c r'. alloc_buffer_from_region
     (free_chunk True (snd (alloc_buffer_from_region (init_mem_region undefined 0 8192) 100)) 1) 8192
   = (Some c, r')"
proof -
  let ?r = "init_mem_region undefined 0 8192"
  let ?r' = "free_chunk True (snd (alloc_buffer_from_region ?r 100)) 1"
  have st: "?r\<lparr>strategy := BALLOCS_WASTEFUL\<rparr> = ?r" by (cases "undefined :: memory_region") (simp add: init_mem_region_def)
  have l: "live (snd (alloc_buffer_from_region ?r 100)) 1 \<noteq> None" by (simp add: eval_region)
  have run: "client_run alloc_buffer_from_region (free_chunk True) live (fits_size 8192 64) ?r
    [Do_alloc 100, Do_free 1] = Some ?r'" using l by (simp add: fits_size_def)
  have e: "live ?r' = Map.empty" by (rule ext) (simp add: eval_region)
  show ?thesis
    using bufalloc_no_fragmentation [of 0 8192 BALLOCS_WASTEFUL undefined
      "[Do_alloc 100, Do_free 1]" ?r' 8192] st run e
    by (simp add: fits_size_def round_up_def)
qed

definition order_run :: "bool \<Rightarrow> memory_region \<Rightarrow> memory_region option" where
  "order_run nf r0 = client_run alloc_buffer_from_region (free_chunk nf) live (fits_size 4096 64)
     (init_mem_region r0 0 4096)
     [Do_alloc 64, Do_alloc 64, Do_alloc 64, Do_free 1, Do_free 3, Do_free 2]"

text \<open>
  the order in which C evaluates the arguments of the outer \<open>coalesce_chunks\<close> call is visible:
  after the same allocations and frees, with every block freed, the region holds one free chunk and
  serves a request for all its memory if \<open>chunk->next\<close> is read first, and holds two unmerged chunks
  and refuses the request if it is read last.
\<close>

theorem free_chunk_argument_order:
  "map_option chunks (order_run True r0) = Some [1] \<and>
   map_option chunks (order_run False r0) = Some [1, 3] \<and>
   map_option (\<lambda>r. fst (alloc_buffer_from_region r 4096) = None) (order_run True r0) = Some False \<and>
   map_option (\<lambda>r. fst (alloc_buffer_from_region r 4096) = None) (order_run False r0) = Some True"
  by (intro conjI) (simp_all add: order_run_def eval_region moved_record_next)

text \<open>
  the size check of \<open>chunk_slack\<close> is computed in wrapping \<open>size_t\<close> arithmetic: in a fresh region
  at an aligned start address, a request of \<open>2 ^ 64 - start\<close> bytes is accepted, however small the
  region is, and the sentinel is reset to start at address 0, below the region.
\<close>

theorem append_new_chunk_overflow:
  assumes "unat start + unat sz + 64 \<le> 2 ^ 64" and "64 dvd unat start" and "0 < unat start"
  shows "\<exists>r'. alloc_buffer_from_region (init_mem_region r0 start sz) (0 - start) = (Some 1, r') \<and>
     cend r' 1 = 2 ^ 64 \<and> cstart r' (last_chunk r') = 0"
proof -
  let ?r = "init_mem_region r0 start sz"
  have ok: "region_inv (unat start) (unat start + unat sz) ?r"
    using assms(1) by (rule init_region_inv)
  have "unat (align_up (region_align ?r) (start_address (all_chunks ?r 0))) = unat start"
    using inv_align_up [OF ok, of 0] assms(2)
    by (simp add: init_mem_region_def cstart_def ralign_def region_align_def)
  then have au: "align_up (region_align ?r) start = start"
    by (simp add: init_mem_region_def word_unat_eq_iff)
  have neg: "unat (- start) = 2 ^ 64 - unat start"
    using assms(3) unat_sub_if' [of 0 start] by simp
  show ?thesis
    using au neg unat_less_size_t [of start]
    by (simp add: alloc_buffer_from_region_def append_new_chunk_def chunk_slack_def Let_def)
      (simp add: init_mem_region_def fresh_records cend_def cstart_def csize_def region_align_def)
qed

theorem append_new_chunk_overflow_witness:
  "\<exists>r'. alloc_buffer_from_region (init_mem_region undefined 4096 4096) (0 - 4096) = (Some 1, r') \<and>
     cend r' 1 = 2 ^ 64 \<and> cstart r' (last_chunk r') = 0"
  by (rule append_new_chunk_overflow) simp_all

text \<open>
  \<open>free_buffer\<close>, given the start address of a live block and regions whose address ranges are
  strictly apart, frees that block in the region that holds it and touches no other region.
\<close>

theorem free_buffer_finds_block:
  assumes "regions_ok ranges rs" and "i < length rs" and "live (rs ! i) c = Some b"
    and "\<forall>j < i. fst (ranges ! i) > snd (ranges ! j) \<or> snd (ranges ! i) < fst (ranges ! j)"
  shows "free_buffer nf rs (start_address (all_chunks (rs ! i) c))
         = (Some i, rs[i := free_chunk nf (rs ! i) c]) \<and>
         live (free_chunk nf (rs ! i) c) = (live (rs ! i))(c := None)"
proof -
  have "region_inv (fst (ranges ! i)) (snd (ranges ! i)) (rs ! i)"
    using assms(1,2) by (auto simp: regions_ok_def list_all2_conv_all_nth split_beta)
  moreover have "c \<in> set (chunks (rs ! i))" "is_allocated (all_chunks (rs ! i) c)"
    using assms(3) by (auto simp: live_iff)
  ultimately show ?thesis
    using free_buffer_live [OF assms] free_chunk_correct(2) by simp
qed

theorem free_buffer_finds_block_witness:
  "fst (free_buffer True [snd (alloc_buffer_from_region (init_mem_region undefined 0 8192) 100)] 0)
   = Some 0"
proof -
  let ?r = "init_mem_region undefined 0 8192"
  let ?r' = "snd (alloc_buffer_from_region ?r 100)"
  have inv: "region_inv 0 8192 ?r" and al: "ralign ?r = 64"
    using init_region_inv [of 0 8192 undefined] by simp_all
  have inv': "region_inv 0 8192 ?r'"
    using inv al by (intro region_inv_alloc) (simp_all add: sane_request_def)
  have l: "live ?r' 1 = Some (0, 100)" and s: "start_address (all_chunks ?r' 1) = 0"
    by (simp_all add: eval_region)
  have "free_buffer True [?r'] (start_address (all_chunks ([?r'] ! 0) 1))
      = (Some 0, [?r'][0 := free_chunk True ([?r'] ! 0) 1]) \<and>
      live (free_chunk True ([?r'] ! 0) 1) = (live ([?r'] ! 0))(1 := None)"
    by (rule free_buffer_finds_block [where ranges = "[(0, 8192)]" and b = "(0, 100)"])
      (use inv' l in \<open>simp_all add: regions_ok_def\<close>)
  then show ?thesis by (simp only: nth_Cons_0 s fst_conv)
qed

end
