(* ===== verification/PthreadSched.thy ===== *)
theory PthreadSched
  imports Pocl_Prelude
begin

text \<open>
  The worker pool of \<open>pocl/lib/CL/devices/pthread/pthread_scheduler.c\<close>. Work-group counters are
  64-bit (\<open>size_t\<close>) and work-group indices 32-bit (\<open>unsigned\<close>), as in the code. First the sequential
  routines, then the pool as a step relation in which each step is one stretch of code between two
  synchronisation points, with the locals of \<open>pthread_scheduler_get_work\<close> and
  \<open>work_group_scheduler\<close> kept in the thread's record. Kernel run commands live in a heap that maps
  freed addresses to \<^const>\<open>None\<close>, so that a use after free is a stuck thread.
\<close>

section \<open>Data\<close>

record sched_device =
  has_parent_device :: bool
  core_start :: "32 word"
  core_count :: "32 word"

text \<open>The fields of \<open>_cl_command_node\<close> the pool reads; \<open>cmd_num_groups\<close> is \<open>command.run.pc.num_groups\<close>.\<close>

record cmd_node =
  cmd_is_kernel :: bool
  cmd_device :: "sched_device option"
  cmd_num_groups :: "size_t \<times> size_t \<times> size_t"

record kernel_run_command =
  krc_cmd :: nat
  krc_device :: "sched_device option"
  krc_num_groups :: "size_t \<times> size_t \<times> size_t"
  remaining_wgs :: size_t
  wgs_dealt :: size_t
  ref_count :: "64 word"

section \<open>Dealing out work-groups\<close>

definition POCL_PTHREAD_MAX_WGS :: "32 word" where
  "POCL_PTHREAD_MAX_WGS = 256"

definition POCL_PTHREAD_MIN_WGS :: "32 word" where
  "POCL_PTHREAD_MIN_WGS = 32"

datatype deal =
  No_wgs
| Assert_failed
| Wgs (deal_start: "32 word") (deal_end: "32 word") (deal_last: bool) (deal_cmd: kernel_run_command)

definition get_wg_index_range :: "kernel_run_command \<Rightarrow> bool \<Rightarrow> 32 word \<Rightarrow> deal" where
  "get_wg_index_range k last_wgs num_threads =
     (let scaled_max_wgs = POCL_PTHREAD_MAX_WGS * num_threads;
          scaled_min_wgs = POCL_PTHREAD_MIN_WGS * num_threads
      in if remaining_wgs k = 0 then No_wgs
      else let limit = (if remaining_wgs k \<le> ucast (scaled_max_wgs * num_threads)
                        then scaled_min_wgs else scaled_max_wgs);
               wgs_per_thread = (ucast (1 + (remaining_wgs k - 1) div ucast num_threads) :: 32 word);
               max_wgs = (if limit < wgs_per_thread then limit else wgs_per_thread);
               max_wgs = (ucast (if ucast max_wgs < remaining_wgs k then ucast max_wgs
                                 else remaining_wgs k) :: 32 word)
      in if max_wgs = 0 then Assert_failed
      else let k' = k\<lparr>remaining_wgs := remaining_wgs k - ucast max_wgs,
                      wgs_dealt := wgs_dealt k + ucast max_wgs\<rparr>
      in Wgs (ucast (wgs_dealt k)) (ucast (wgs_dealt k + ucast max_wgs - 1))
             (last_wgs \<or> remaining_wgs k' = 0) k')"

definition translate_wg_index_to_3d_index :: "32 word \<Rightarrow> 32 word \<Rightarrow> 32 word \<Rightarrow> size_t \<times> size_t \<times> size_t"
  where
  "translate_wg_index_to_3d_index index xy_slice row_size =
     (ucast ((index mod xy_slice) mod row_size),
      ucast ((index mod xy_slice) div row_size),
      ucast (index div xy_slice))"

text \<open>The \<open>slice_size\<close> and \<open>row_size\<close> of \<open>work_group_scheduler\<close>, narrowed to \<open>unsigned\<close>.\<close>

definition wg_ids :: "size_t \<times> size_t \<times> size_t \<Rightarrow> 32 word \<Rightarrow> size_t \<times> size_t \<times> size_t" where
  "wg_ids num_groups index =
     (case num_groups of (nx, ny, nz) \<Rightarrow>
        translate_wg_index_to_3d_index index (ucast (nx * ny)) (ucast nx))"


definition shall_we_run_this :: "32 word \<Rightarrow> sched_device option \<Rightarrow> bool" where
  "shall_we_run_this index subd =
     (case subd of None \<Rightarrow> True
      | Some d \<Rightarrow> has_parent_device d \<longrightarrow> core_start d \<le> index \<and> index < core_start d + core_count d)"

section \<open>State of the pool\<close>

datatype thread_pc =
  GET_WORK    \<comment> \<open>at \<open>RETRY\<close> of \<open>pthread_scheduler_get_work\<close>, about to take the lock\<close>
| DEAL        \<comment> \<open>in \<open>work_group_scheduler\<close>, about to call \<open>get_wg_index_range\<close>\<close>
| UNLINK      \<comment> \<open>about to \<open>DL_DELETE\<close> the run command from the kernel queue\<close>
| EXEC        \<comment> \<open>at the head of the work-group loop\<close>
| UNREF       \<comment> \<open>about to take the lock and drop the reference\<close>
| FINALIZE    \<comment> \<open>about to run \<open>finalize_kernel_command\<close>\<close>
| CHECK_CMD   \<comment> \<open>about to take the lock and look for a command\<close>
| COMMAND     \<comment> \<open>holding a command taken from the work queue\<close>
| SLEEPING    \<comment> \<open>in \<open>pthread_cond_wait\<close>\<close>
| EXITED

record pool_thread_data =
  td_pc :: thread_pc
  td_do_exit :: bool
  td_run_cmd :: "nat option"
  td_cmd :: "nat option"
  td_index :: "32 word"
  td_end_index :: "32 word"
  td_last_wgs :: bool
  executed_commands :: "64 word"

datatype sched_event =
  Group nat "32 word" "size_t \<times> size_t \<times> size_t"  \<comment> \<open>command, work-group index and ids of a \<open>k->workgroup\<close> call\<close>
| Complete nat                                      \<comment> \<open>the command's event becomes \<open>CL_COMPLETE\<close>\<close>

record scheduler_data =
  work_queue :: "nat list"
  kernel_queue :: "nat list"
  thread_pool :: "nat \<Rightarrow> pool_thread_data"
  thread_pool_shutdown_requested :: bool
  kernel_commands :: "nat \<Rightarrow> kernel_run_command option"
  submitted :: "nat set"
  sched_trace :: "sched_event list"

definition set_thread :: "scheduler_data \<Rightarrow> nat \<Rightarrow> pool_thread_data \<Rightarrow> scheduler_data" where
  "set_thread s t td = s\<lparr>thread_pool := (thread_pool s)(t := td)\<rparr>"

text \<open>\<open>pthread_cond_broadcast\<close>: every sleeping thread goes back to \<open>RETRY\<close>.\<close>

definition wake_pool :: "scheduler_data \<Rightarrow> scheduler_data" where
  "wake_pool s = s\<lparr>thread_pool := (\<lambda>t. let td = thread_pool s t in
     if td_pc td = SLEEPING then td\<lparr>td_pc := GET_WORK\<rparr> else td)\<rparr>"

definition pthread_scheduler_init :: "scheduler_data" where
  "pthread_scheduler_init =
     \<lparr>work_queue = [], kernel_queue = [],
      thread_pool = (\<lambda>t. \<lparr>td_pc = GET_WORK, td_do_exit = False, td_run_cmd = None, td_cmd = None,
        td_index = 0, td_end_index = 0, td_last_wgs = False, executed_commands = 0\<rparr>),
      thread_pool_shutdown_requested = False, kernel_commands = (\<lambda>k. None),
      submitted = {}, sched_trace = []\<rparr>"

text \<open>The request and the broadcast of \<open>pthread_scheduler_uninit\<close>; the joins wait for \<^const>\<open>EXITED\<close>.\<close>

definition pthread_scheduler_uninit :: "scheduler_data \<Rightarrow> scheduler_data" where
  "pthread_scheduler_uninit s = wake_pool (s\<lparr>thread_pool_shutdown_requested := True\<rparr>)"

definition pthread_scheduler_push_command :: "scheduler_data \<Rightarrow> nat \<Rightarrow> scheduler_data" where
  "pthread_scheduler_push_command s c =
     wake_pool (s\<lparr>work_queue := work_queue s @ [c], submitted := insert c (submitted s)\<rparr>)"

definition pthread_scheduler_push_kernel :: "scheduler_data \<Rightarrow> nat \<Rightarrow> scheduler_data" where
  "pthread_scheduler_push_kernel s k = wake_pool (s\<lparr>kernel_queue := kernel_queue s @ [k]\<rparr>)"

fun find_first :: "('a \<Rightarrow> bool) \<Rightarrow> 'a list \<Rightarrow> 'a option" where
  "find_first P [] = None"
| "find_first P (x # xs) = (if P x then Some x else find_first P xs)"

definition runs_command :: "(nat \<Rightarrow> cmd_node) \<Rightarrow> nat \<Rightarrow> nat \<Rightarrow> bool" where
  "runs_command node t c = shall_we_run_this (of_nat t) (cmd_device (node c))"

definition check_cmd_queue_for_device ::
  "(nat \<Rightarrow> cmd_node) \<Rightarrow> scheduler_data \<Rightarrow> nat \<Rightarrow> nat option \<times> scheduler_data" where
  "check_cmd_queue_for_device node s t =
     (case find_first (runs_command node t) (work_queue s) of
        None \<Rightarrow> (None, s)
      | Some c \<Rightarrow> (Some c, s\<lparr>work_queue := remove1 c (work_queue s)\<rparr>))"

text \<open>
  The walk over the kernel queue reads \<open>cmd->device\<close> of every run command it meets, so that it is
  \<^const>\<open>None\<close> when it meets a freed one before it finds its command; otherwise it is the command found,
  or \<open>Some None\<close> at the end of the queue.
\<close>

fun scan_kernel_queue :: "scheduler_data \<Rightarrow> nat \<Rightarrow> nat list \<Rightarrow> nat option option" where
  "scan_kernel_queue s t [] = Some None"
| "scan_kernel_queue s t (k # ks) =
     (case kernel_commands s k of
        None \<Rightarrow> None
      | Some r \<Rightarrow> if shall_we_run_this (of_nat t) (krc_device r) then Some (Some k)
                  else scan_kernel_queue s t ks)"

definition check_kernel_queue_for_device :: "scheduler_data \<Rightarrow> nat \<Rightarrow> nat option option" where
  "check_kernel_queue_for_device s t = scan_kernel_queue s t (kernel_queue s)"

section \<open>One stretch of code per step\<close>

text \<open>
  The steps return \<^const>\<open>None\<close> where the code would touch a freed run command or fail an assertion.
\<close>

definition update_krc :: "scheduler_data \<Rightarrow> nat \<Rightarrow> kernel_run_command option \<Rightarrow> scheduler_data" where
  "update_krc s k r = s\<lparr>kernel_commands := (kernel_commands s)(k := r)\<rparr>"

definition leave_get_work :: "pool_thread_data \<Rightarrow> pool_thread_data" where
  "leave_get_work td = td\<lparr>td_pc := if td_do_exit td then EXITED else GET_WORK\<rparr>"

definition check_commands ::
  "(nat \<Rightarrow> cmd_node) \<Rightarrow> scheduler_data \<Rightarrow> nat \<Rightarrow> pool_thread_data \<Rightarrow> scheduler_data" where
  "check_commands node s t td =
     (case check_cmd_queue_for_device node s t of
        (Some c, s') \<Rightarrow> set_thread s' t (td\<lparr>td_pc := COMMAND, td_cmd := Some c\<rparr>)
      | (None, s') \<Rightarrow>
          if td_run_cmd td = None \<and> \<not> td_do_exit td
          then set_thread s' t (td\<lparr>td_pc := SLEEPING\<rparr>)
          else set_thread s' t (leave_get_work td))"

definition get_work :: "(nat \<Rightarrow> cmd_node) \<Rightarrow> scheduler_data \<Rightarrow> nat \<Rightarrow> scheduler_data option" where
  "get_work node s t =
     (case check_kernel_queue_for_device s t of
        None \<Rightarrow> None
      | Some run_cmd \<Rightarrow>
     (let td = (thread_pool s t)\<lparr>td_do_exit := thread_pool_shutdown_requested s,
                 td_run_cmd := run_cmd, td_cmd := None\<rparr>
      in case run_cmd of
           None \<Rightarrow> Some (check_commands node s t td)
         | Some k \<Rightarrow> (case kernel_commands s k of
               None \<Rightarrow> None
             | Some r \<Rightarrow> Some (set_thread (update_krc s k (Some (r\<lparr>ref_count := ref_count r + 1\<rparr>))) t
                                 (td\<lparr>td_pc := DEAL, td_last_wgs := False\<rparr>)))))"

definition deal_work :: "32 word \<Rightarrow> scheduler_data \<Rightarrow> nat \<Rightarrow> nat \<Rightarrow> scheduler_data option" where
  "deal_work num_threads s t k =
     (let td = thread_pool s t in
      case kernel_commands s k of
        None \<Rightarrow> None
      | Some r \<Rightarrow> (case get_wg_index_range r (td_last_wgs td) num_threads of
            Assert_failed \<Rightarrow> None
          | No_wgs \<Rightarrow> Some (set_thread s t (td\<lparr>td_pc := UNREF\<rparr>))
          | Wgs b e l r' \<Rightarrow> Some (set_thread (update_krc s k (Some r')) t
              (td\<lparr>td_pc := if l then UNLINK else EXEC, td_index := b, td_end_index := e,
                 td_last_wgs := l\<rparr>))))"

definition unlink_kernel :: "scheduler_data \<Rightarrow> nat \<Rightarrow> nat \<Rightarrow> scheduler_data option" where
  "unlink_kernel s t k =
     (if k \<in> set (kernel_queue s)
      then Some (set_thread (s\<lparr>kernel_queue := remove1 k (kernel_queue s)\<rparr>) t
                  ((thread_pool s t)\<lparr>td_pc := EXEC\<rparr>))
      else None)"

definition exec_wg :: "scheduler_data \<Rightarrow> nat \<Rightarrow> nat \<Rightarrow> scheduler_data option" where
  "exec_wg s t k =
     (let td = thread_pool s t in
      if td_index td \<le> td_end_index td
      then case kernel_commands s k of
          None \<Rightarrow> None
        | Some r \<Rightarrow>
            Some (set_thread
              (s\<lparr>sched_trace := sched_trace s @ [Group (krc_cmd r) (td_index td) (wg_ids (krc_num_groups r) (td_index td))]\<rparr>) t
              (td\<lparr>td_index := td_index td + 1\<rparr>))
      else Some (set_thread s t (td\<lparr>td_pc := DEAL\<rparr>)))"

definition drop_kernel ::
  "(nat \<Rightarrow> cmd_node) \<Rightarrow> scheduler_data \<Rightarrow> nat \<Rightarrow> nat \<Rightarrow> scheduler_data option" where
  "drop_kernel node s t k =
     (let td = thread_pool s t in
      case kernel_commands s k of
        None \<Rightarrow> None
      | Some r \<Rightarrow>
          (let r' = r\<lparr>ref_count := ref_count r - 1\<rparr>;
               s' = update_krc s k (Some r')
           in if ref_count r' = 0 then Some (set_thread s' t (td\<lparr>td_pc := FINALIZE\<rparr>))
              else Some (check_commands node s' t td)))"

definition finalize_kernel_command :: "scheduler_data \<Rightarrow> nat \<Rightarrow> nat \<Rightarrow> scheduler_data option" where
  "finalize_kernel_command s t k =
     (case kernel_commands s k of
        None \<Rightarrow> None
      | Some r \<Rightarrow>
          Some (set_thread
            (update_krc (s\<lparr>sched_trace := sched_trace s @ [Complete (krc_cmd r)]\<rparr>) k None) t
            ((thread_pool s t)\<lparr>td_pc := CHECK_CMD\<rparr>)))"

text \<open>\<open>a\<close> is the address \<open>new_kernel_run_command\<close> returns.\<close>

definition pocl_pthread_prepare_kernel ::
  "(nat \<Rightarrow> cmd_node) \<Rightarrow> nat \<Rightarrow> scheduler_data \<Rightarrow> nat \<Rightarrow> scheduler_data" where
  "pocl_pthread_prepare_kernel node a s c =
     (case cmd_num_groups (node c) of (nx, ny, nz) \<Rightarrow>
        pthread_scheduler_push_kernel
          (update_krc s a (Some \<lparr>krc_cmd = c, krc_device = cmd_device (node c),
             krc_num_groups = (nx, ny, nz), remaining_wgs = nx * ny * nz, wgs_dealt = 0,
             ref_count = 0\<rparr>)) a)"

definition run_command ::
  "(nat \<Rightarrow> cmd_node) \<Rightarrow> nat \<Rightarrow> scheduler_data \<Rightarrow> nat \<Rightarrow> nat \<Rightarrow> scheduler_data" where
  "run_command node a s t c =
     (let s' = (if cmd_is_kernel (node c) then pocl_pthread_prepare_kernel node a s c
                else s\<lparr>sched_trace := sched_trace s @ [Complete c]\<rparr>);
          td = thread_pool s' t
      in set_thread s' t (leave_get_work (td\<lparr>executed_commands := executed_commands td + 1\<rparr>)))"

definition thread_step ::
  "32 word \<Rightarrow> (nat \<Rightarrow> cmd_node) \<Rightarrow> nat \<Rightarrow> scheduler_data \<Rightarrow> nat \<Rightarrow> scheduler_data option" where
  "thread_step num_threads node a s t =
     (let td = thread_pool s t; k = the (td_run_cmd td) in
      case td_pc td of
        GET_WORK \<Rightarrow> get_work node s t
      | DEAL \<Rightarrow> deal_work num_threads s t k
      | UNLINK \<Rightarrow> unlink_kernel s t k
      | EXEC \<Rightarrow> exec_wg s t k
      | UNREF \<Rightarrow> drop_kernel node s t k
      | FINALIZE \<Rightarrow> finalize_kernel_command s t k
      | CHECK_CMD \<Rightarrow> Some (check_commands node s t td)
      | COMMAND \<Rightarrow> Some (run_command node a s t (the (td_cmd td)))
      | SLEEPING \<Rightarrow> None
      | EXITED \<Rightarrow> None)"

text \<open>
  The pool with \<open>nt\<close> threads. Commands arrive from outside (or from a thread that completes an
  event) in any order and at any moment, each at most once; the shutdown request may come at any
  moment; a wait on the condition variable may end without a broadcast.
\<close>

inductive pool_step :: "nat \<Rightarrow> (nat \<Rightarrow> cmd_node) \<Rightarrow> scheduler_data \<Rightarrow> scheduler_data \<Rightarrow> bool"
  for nt node where
  Thread: "t < nt \<Longrightarrow> kernel_commands s a = None \<Longrightarrow> thread_step (of_nat nt) node a s t = Some s' \<Longrightarrow>
    pool_step nt node s s'"
| Spurious: "t < nt \<Longrightarrow> td_pc (thread_pool s t) = SLEEPING \<Longrightarrow>
    pool_step nt node s (set_thread s t ((thread_pool s t)\<lparr>td_pc := GET_WORK\<rparr>))"
| Push: "c \<notin> submitted s \<Longrightarrow> pool_step nt node s (pthread_scheduler_push_command s c)"
| Shutdown: "pool_step nt node s (pthread_scheduler_uninit s)"

inductive pool_reachable :: "nat \<Rightarrow> (nat \<Rightarrow> cmd_node) \<Rightarrow> scheduler_data \<Rightarrow> bool"
  for nt node where
  Init: "pool_reachable nt node pthread_scheduler_init"
| Step: "pool_reachable nt node s \<Longrightarrow> pool_step nt node s s' \<Longrightarrow> pool_reachable nt node s'"

section \<open>Dealing\<close>

lemma get_wg_index_range_empty: "get_wg_index_range k l nt = No_wgs \<longleftrightarrow> remaining_wgs k = 0"
  by (simp add: get_wg_index_range_def Let_def)

lemma get_wg_index_range_deals:
  assumes nt: "0 < unat nt" "unat nt < 2 ^ 24"
    and rem: "remaining_wgs k \<noteq> 0"
    and total: "unat (remaining_wgs k) < 2 ^ 32 \<or> unat (remaining_wgs k) = 2 ^ 32 \<and> 2 \<le> unat nt"
  obtains m where "0 < m" and "m \<le> unat (remaining_wgs k)" and "m \<le> 256 * unat nt"
    and "m \<le> 1 + (unat (remaining_wgs k) - 1) div unat nt"
    and "get_wg_index_range k l nt =
      Wgs (ucast (wgs_dealt k)) (ucast (wgs_dealt k + of_nat m - 1)) (l \<or> m = unat (remaining_wgs k))
        (k\<lparr>remaining_wgs := remaining_wgs k - of_nat m, wgs_dealt := wgs_dealt k + of_nat m\<rparr>)"
proof -
  let ?R = "remaining_wgs k"
  let ?limit = "if ?R \<le> ucast (POCL_PTHREAD_MAX_WGS * nt * nt) then POCL_PTHREAD_MIN_WGS * nt
                else POCL_PTHREAD_MAX_WGS * nt"
  define limit where "limit = ?limit"
  define wpt :: "32 word" where "wpt = ucast (1 + (?R - 1) div ucast nt)"
  define mx where "mx = (if limit < wpt then limit else wpt)"
  define mw :: "32 word" where "mw = ucast (if ucast mx < ?R then ucast mx else ?R)"
  have R: "0 < unat ?R" "unat ?R \<le> 2 ^ 32"
    using rem total by (auto simp: unat_gt_0)
  have max_nt: "unat (POCL_PTHREAD_MAX_WGS * nt) = 256 * unat nt"
    and min_nt: "unat (POCL_PTHREAD_MIN_WGS * nt) = 32 * unat nt"
    unfolding POCL_PTHREAD_MAX_WGS_def POCL_PTHREAD_MIN_WGS_def
    using nt by (subst unat_mult_nowrap; simp)+
  have limit: "0 < unat limit" "unat limit \<le> 256 * unat nt"
    using nt max_nt min_nt by (auto simp: limit_def)
  have R1: "unat (?R - 1) = unat ?R - 1"
    using R by (subst unat_minus_nowrap) simp_all
  have q: "unat ((?R - 1) div ucast nt) = (unat ?R - 1) div unat nt"
    by (simp add: unat_div R1)
  have qle: "1 + (unat ?R - 1) div unat nt < 2 ^ 32"
    using total
  proof
    assume "unat ?R < 2 ^ 32"
    then show ?thesis using R div_le_dividend [of "unat ?R - 1" "unat nt"] by linarith
  next
    assume big: "unat ?R = 2 ^ 32 \<and> 2 \<le> unat nt"
    have "(unat ?R - 1) div unat nt \<le> (unat ?R - 1) div 2"
      using big by (intro div_le_mono2) simp_all
    also have "\<dots> < 2 ^ 31" using big by simp
    finally show ?thesis by simp
  qed
  have "unat (1 + (?R - 1) div ucast nt) = 1 + (unat ?R - 1) div unat nt"
    using q qle by (subst unat_add_nowrap) simp_all
  then have wpt: "unat wpt = 1 + (unat ?R - 1) div unat nt"
    using qle by (simp add: wpt_def unat_ucast_mod)
  have mx: "0 < unat mx" "unat mx \<le> unat limit" "unat mx \<le> unat wpt"
    using limit wpt by (auto simp: mx_def word_less_nat_alt)
  have mw: "unat mw = min (unat mx) (unat ?R)"
  proof (cases "unat mx < unat ?R")
    case True
    then show ?thesis using unsigned_less [of mx, where 'a = nat]
      by (simp add: mw_def word_less_nat_alt unat_ucast_mod)
  next
    case False
    then have "unat ?R < 2 ^ 32" using unsigned_less [of mx, where 'a = nat] by simp
    then show ?thesis using False by (simp add: mw_def word_less_nat_alt unat_ucast_mod)
  qed
  show ?thesis
  proof (rule that [of "unat mw"])
    show "0 < unat mw" "unat mw \<le> unat ?R" "unat mw \<le> 256 * unat nt"
      "unat mw \<le> 1 + (unat ?R - 1) div unat nt"
      using mw mx limit R wpt by auto
    have "mw \<noteq> 0" using \<open>0 < unat mw\<close> by auto
    have sub0: "?R - ucast mw = 0 \<longleftrightarrow> unat mw = unat ?R"
      by (metis right_minus_eq unat_uint_to_size_t unsigned_word_eqI)
    have upd: "remaining_wgs (k\<lparr>remaining_wgs := a, wgs_dealt := b\<rparr>) = a" for a b by simp
    have deal: "get_wg_index_range k l nt = (if mw = 0 then Assert_failed else
        Wgs (ucast (wgs_dealt k)) (ucast (wgs_dealt k + ucast mw - 1)) (l \<or> ?R - ucast mw = 0)
          (k\<lparr>remaining_wgs := ?R - ucast mw, wgs_dealt := wgs_dealt k + ucast mw\<rparr>))"
      unfolding get_wg_index_range_def Let_def limit_def wpt_def mx_def mw_def
      by (simp only: rem if_False upd)
    show "get_wg_index_range k l nt =
      Wgs (ucast (wgs_dealt k)) (ucast (wgs_dealt k + of_nat (unat mw) - 1)) (l \<or> unat mw = unat ?R)
        (k\<lparr>remaining_wgs := ?R - of_nat (unat mw), wgs_dealt := wgs_dealt k + of_nat (unat mw)\<rparr>)"
      using \<open>mw \<noteq> 0\<close> sub0 by (simp add: deal)
  qed
qed

section \<open>Work-group ids\<close>

definition total_wgs :: "size_t \<times> size_t \<times> size_t \<Rightarrow> nat" where
  "total_wgs g = (case g of (nx, ny, nz) \<Rightarrow> unat nx * unat ny * unat nz)"

text \<open>What the 32-bit indices can enumerate: at least one and fewer than $2^{32}$ work-groups.\<close>

definition groups_ok :: "size_t \<times> size_t \<times> size_t \<Rightarrow> bool" where
  "groups_ok g \<longleftrightarrow> 0 < total_wgs g \<and> total_wgs g < 2 ^ 32"

definition in_grid :: "size_t \<times> size_t \<times> size_t \<Rightarrow> size_t \<times> size_t \<times> size_t \<Rightarrow> bool" where
  "in_grid g p = (case g of (nx, ny, nz) \<Rightarrow> case p of (x, y, z) \<Rightarrow> x < nx \<and> y < ny \<and> z < nz)"

definition wg_index :: "size_t \<times> size_t \<times> size_t \<Rightarrow> size_t \<times> size_t \<times> size_t \<Rightarrow> nat" where
  "wg_index g p = (case g of (nx, ny, nz) \<Rightarrow> case p of (x, y, z) \<Rightarrow>
     unat x + unat nx * (unat y + unat ny * unat z))"

lemma groups_ok_bounds:
  assumes "groups_ok (nx, ny, nz)"
  shows "0 < unat nx" and "0 < unat ny" and "0 < unat nz"
    and "unat nx * unat ny < 2 ^ 32" and "unat nx < 2 ^ 32"
    and "unat nx * unat ny * unat nz < 2 ^ 32"
    and "unat (nx * ny) = unat nx * unat ny"
    and "unat (nx * ny * nz) = unat nx * unat ny * unat nz"
proof -
  show pos: "0 < unat nx" "0 < unat ny" "0 < unat nz"
    and prod: "unat nx * unat ny * unat nz < 2 ^ 32"
    using assms by (auto simp: groups_ok_def total_wgs_def)
  have "unat nx * unat ny \<le> unat nx * unat ny * unat nz" using pos by simp
  then show xy: "unat nx * unat ny < 2 ^ 32" using prod by linarith
  have "unat nx \<le> unat nx * unat ny" using pos by simp
  then show "unat nx < 2 ^ 32" using xy by linarith
  show m: "unat (nx * ny) = unat nx * unat ny"
    using xy by (intro unat_mult_nowrap) simp
  show "unat (nx * ny * nz) = unat nx * unat ny * unat nz"
    using prod by (subst unat_mult_nowrap) (simp_all add: m)
qed

lemma wg_ids_in_grid:
  assumes ok: "groups_ok G" and i: "unat i < total_wgs G"
  shows "in_grid G (wg_ids G i)"
    and "wg_index G (wg_ids G i) = unat i"
proof -
  obtain nx ny nz where g: "G = (nx, ny, nz)" by (cases G) auto
  note b = groups_ok_bounds [OF ok [unfolded g]]
  let ?xy = "unat nx * unat ny" and ?i = "unat i"
  have n: "unat (ucast (nx * ny) :: 32 word) = ?xy" "unat (ucast nx :: 32 word) = unat nx"
    using b(4,5,7) by (simp_all add: unat_ucast_nowrap)
  obtain x y z where p: "wg_ids G i = (x, y, z)" by (cases "wg_ids G i") auto
  have xyz: "unat x = ?i mod ?xy mod unat nx" "unat y = ?i mod ?xy div unat nx" "unat z = ?i div ?xy"
    using p by (auto simp: wg_ids_def g translate_wg_index_to_3d_index_def unat_mod unat_div n)
  have lt: "?i < unat nz * ?xy" using i by (simp add: g total_wgs_def mult.commute)
  have "unat z < unat nz" using xyz(3) lt b(1,2) by (simp add: less_mult_imp_div_less)
  moreover have "?i mod ?xy < unat ny * unat nx" using b(1,2) by (simp add: mult.commute)
  then have "unat y < unat ny" using xyz(2) by (simp add: less_mult_imp_div_less)
  moreover have "unat x < unat nx" using xyz(1) b(1) by simp
  ultimately show "in_grid G (wg_ids G i)"
    by (simp add: in_grid_def g p [unfolded g] word_less_nat_alt)
  have "unat x + unat nx * unat y = ?i mod ?xy" by (simp add: xyz)
  then have "unat x + unat nx * (unat y + unat ny * unat z) = ?i mod ?xy + ?xy * (?i div ?xy)"
    by (simp only: distrib_left add.assoc [symmetric] mult.assoc xyz(3))
  then show "wg_index G (wg_ids G i) = unat i"
    by (simp add: wg_index_def g p [unfolded g])
qed

lemma wg_index_bound:
  assumes ok: "groups_ok g" and p: "in_grid g p"
  shows "wg_index g p < total_wgs g"
proof -
  obtain nx ny nz where g: "g = (nx, ny, nz)" by (cases g) auto
  obtain x y z where p': "p = (x, y, z)" by (cases p) auto
  have lt: "unat x < unat nx" "unat y < unat ny" "unat z < unat nz"
    using p by (auto simp: in_grid_def g p' word_less_nat_alt)
  have "unat ny * unat z + unat ny \<le> unat ny * unat nz"
    using lt(3) mult_le_mono2 [of "Suc (unat z)" "unat nz" "unat ny"] by simp
  then have "unat y + unat ny * unat z + 1 \<le> unat ny * unat nz" using lt(2) by linarith
  then have "unat nx * (unat y + unat ny * unat z + 1) \<le> unat nx * (unat ny * unat nz)"
    by (rule mult_le_mono2)
  then show ?thesis using lt(1) by (simp add: wg_index_def total_wgs_def g p' algebra_simps)
qed

lemma wg_index_inj:
  assumes "in_grid g p" and "in_grid g q" and "wg_index g p = wg_index g q"
  shows "p = q"
proof -
  obtain nx ny nz where g: "g = (nx, ny, nz)" by (cases g) auto
  obtain x y z where p: "p = (x, y, z)" by (cases p) auto
  obtain x' y' z' where q: "q = (x', y', z')" by (cases q) auto
  have lt: "unat x < unat nx" "unat y < unat ny" "unat x' < unat nx" "unat y' < unat ny"
    using assms(1,2) by (auto simp: in_grid_def g p q word_less_nat_alt)
  have step: "a = a' \<and> b = b'" if "a < n" "a' < n" "a + n * b = a' + n * b'" for a a' b b' n :: nat
  proof -
    have "(a + n * b) mod n = (a' + n * b') mod n" "(a + n * b) div n = (a' + n * b') div n"
      using that(3) by simp_all
    then show ?thesis using that(1,2) by simp
  qed
  have "unat x = unat x' \<and> unat y + unat ny * unat z = unat y' + unat ny * unat z'"
    using assms(3) by (intro step [OF lt(1,3)]) (simp add: wg_index_def g p q)
  then have "unat x = unat x' \<and> unat y = unat y' \<and> unat z = unat z'"
    using step [OF lt(2,4)] by blast
  then show ?thesis by (simp add: p q word_unat_eq_iff)
qed

section \<open>Dealing all of a command's work-groups\<close>

text \<open>
  The interface the work-group loop relies on: a dealer hands out consecutive chunks until nothing
  is left. \<open>drain\<close> calls it until it has no more, at most \<open>fuel\<close> times.
\<close>

fun drain :: "('k \<Rightarrow> ((nat \<times> nat) \<times> 'k) option) \<Rightarrow> nat \<Rightarrow> 'k \<Rightarrow> (nat \<times> nat) list option" where
  "drain deal 0 k = None"
| "drain deal (Suc fuel) k =
     (case deal k of None \<Rightarrow> Some [] | Some (b, k') \<Rightarrow> map_option (Cons b) (drain deal fuel k'))"

definition chunk_indices :: "nat \<times> nat \<Rightarrow> nat list" where
  "chunk_indices b = [fst b..<Suc (snd b)]"

locale chunk_dealer =
  fixes ok :: "'k \<Rightarrow> bool" and deal :: "'k \<Rightarrow> ((nat \<times> nat) \<times> 'k) option"
    and left dealt :: "'k \<Rightarrow> nat" and biggest :: nat
  assumes deal_none: "ok k \<Longrightarrow> deal k = None \<longleftrightarrow> left k = 0"
    and deal_ok: "ok k \<Longrightarrow> deal k = Some (b, k') \<Longrightarrow> ok k'"
    and deal_chunk: "ok k \<Longrightarrow> deal k = Some (b, k') \<Longrightarrow>
      fst b = dealt k \<and> fst b \<le> snd b \<and> dealt k' = Suc (snd b) \<and> snd b < fst b + biggest \<and>
      left k' + dealt k' = left k + dealt k"
begin

lemma drain_covers:
  assumes "ok k" and "left k < fuel"
  shows "\<exists>cs. drain deal fuel k = Some cs \<and> concat (map chunk_indices cs) = [dealt k..<dealt k + left k] \<and>
    (\<forall>b \<in> set cs. fst b \<le> snd b \<and> snd b < fst b + biggest)"
  using assms
proof (induction fuel arbitrary: k)
  case (Suc fuel)
  show ?case
  proof (cases "deal k")
    case None
    then show ?thesis using Suc deal_none [of k] by simp
  next
    case (Some p)
    then obtain b k' where b: "deal k = Some (b, k')" by (cases p) auto
    note c = deal_chunk [OF Suc(2) b]
    have "left k' < fuel" using c Suc(3) by linarith
    then obtain cs where cs: "drain deal fuel k' = Some cs"
      "concat (map chunk_indices cs) = [dealt k'..<dealt k' + left k']"
      "\<forall>b \<in> set cs. fst b \<le> snd b \<and> snd b < fst b + biggest"
      using Suc.IH [OF deal_ok [OF Suc(2) b]] by blast
    have "[fst b..<Suc (snd b)] @ [Suc (snd b)..<Suc (snd b) + left k'] = [fst b..<Suc (snd b) + left k']"
      using c by (intro upt_add_eq_append [symmetric]) simp
    moreover have "Suc (snd b) + left k' = dealt k + left k" using c by linarith
    moreover have "fst b = dealt k" "dealt k' = Suc (snd b)" using c by blast+
    ultimately have "chunk_indices b @ concat (map chunk_indices cs) = [dealt k..<dealt k + left k]"
      unfolding cs(2) by (simp only: chunk_indices_def)
    then show ?thesis
      using cs(1,3) c by (intro exI [of _ "b # cs"]) (simp add: b)
  qed
qed simp

end

text \<open>The dealer of the pool: \<open>get_wg_index_range\<close> called by \<open>num_threads\<close> threads.\<close>

definition wg_deal :: "32 word \<Rightarrow> kernel_run_command \<Rightarrow> ((nat \<times> nat) \<times> kernel_run_command) option" where
  "wg_deal num_threads k =
     (case get_wg_index_range k False num_threads of
        Wgs b e l k' \<Rightarrow> Some ((unat b, unat e), k') | _ \<Rightarrow> None)"

definition deal_ok :: "32 word \<Rightarrow> kernel_run_command \<Rightarrow> bool" where
  "deal_ok num_threads k \<longleftrightarrow> 0 < unat num_threads \<and> unat num_threads < 2 ^ 24 \<and>
     unat (wgs_dealt k) + unat (remaining_wgs k) \<le> 2 ^ 32 \<and>
     (unat (remaining_wgs k) < 2 ^ 32 \<or> 2 \<le> unat num_threads)"

lemma wg_deal_step:
  assumes "deal_ok nt k" and "wg_deal nt k = Some (b, k')"
  shows "deal_ok nt k' \<and> fst b = unat (wgs_dealt k) \<and> fst b \<le> snd b \<and>
    unat (wgs_dealt k') = Suc (snd b) \<and> snd b < fst b + 256 * unat nt \<and>
    unat (remaining_wgs k') + unat (wgs_dealt k') = unat (remaining_wgs k) + unat (wgs_dealt k)"
proof -
  have nt: "0 < unat nt" "unat nt < 2 ^ 24" and sum: "unat (wgs_dealt k) + unat (remaining_wgs k) \<le> 2 ^ 32"
    and enough: "unat (remaining_wgs k) < 2 ^ 32 \<or> unat (remaining_wgs k) = 2 ^ 32 \<and> 2 \<le> unat nt"
    using assms(1) by (auto simp: deal_ok_def)
  have rem: "remaining_wgs k \<noteq> 0"
    using assms(2) get_wg_index_range_empty [of k False nt] by (auto simp: wg_deal_def)
  from get_wg_index_range_deals [OF nt rem enough, of False]
  obtain m where m: "0 < m" "m \<le> unat (remaining_wgs k)" "m \<le> 256 * unat nt"
    and deal: "get_wg_index_range k False nt =
      Wgs (ucast (wgs_dealt k)) (ucast (wgs_dealt k + of_nat m - 1)) (False \<or> m = unat (remaining_wgs k))
        (k\<lparr>remaining_wgs := remaining_wgs k - of_nat m, wgs_dealt := wgs_dealt k + of_nat m\<rparr>)"
    by metis
  have mw: "unat (of_nat m :: size_t) = m"
    using m(2) unat_less_size_t [of "remaining_wgs k"] by (intro unat_of_nat_nowrap) simp
  have bound: "unat (wgs_dealt k) + m \<le> 2 ^ 32" using m(2) sum by linarith
  have dealt: "unat (wgs_dealt k + of_nat m) = unat (wgs_dealt k) + m"
    using bound mw by (simp add: unat_add_nowrap)
  have dm: "unat (wgs_dealt k + of_nat m - 1) = unat (wgs_dealt k) + m - 1"
    using dealt m by (simp add: nowrap_simps)
  have left: "unat (remaining_wgs k - of_nat m) = unat (remaining_wgs k) - m"
    using m(2) mw by (simp add: nowrap_simps)
  have "unat (wgs_dealt k) < 2 ^ 32" "unat (wgs_dealt k) + m - 1 < 2 ^ 32" using bound m(1) by linarith+
  then have b: "fst b = unat (wgs_dealt k)" "snd b = unat (wgs_dealt k) + m - 1"
    using assms(2) deal dm by (auto simp: wg_deal_def unat_ucast_nowrap)
  have k': "k' = k\<lparr>remaining_wgs := remaining_wgs k - of_nat m, wgs_dealt := wgs_dealt k + of_nat m\<rparr>"
    using assms(2) deal by (simp add: wg_deal_def)
  show ?thesis
    unfolding k' deal_ok_def b kernel_run_command.simps
    using m sum nt dealt left by (intro conjI) (simp_all; linarith)+
qed

lemma wg_deal_none: "deal_ok nt k \<Longrightarrow> wg_deal nt k = None \<longleftrightarrow> unat (remaining_wgs k) = 0"
proof -
  assume ok: "deal_ok nt k"
  show ?thesis
  proof (cases "remaining_wgs k = 0")
    case True
    then show ?thesis using get_wg_index_range_empty [of k False nt] by (simp add: wg_deal_def)
  next
    case False
    have c: "0 < unat nt" "unat nt < 2 ^ 24"
      "unat (remaining_wgs k) < 2 ^ 32 \<or> unat (remaining_wgs k) = 2 ^ 32 \<and> 2 \<le> unat nt"
      using ok by (auto simp: deal_ok_def)
    have "wg_deal nt k \<noteq> None"
      by (rule get_wg_index_range_deals [OF c(1,2) False c(3), of False]) (simp add: wg_deal_def)
    then show ?thesis using False by (simp add: unsigned_eq_0_iff)
  qed
qed

interpretation wgs: chunk_dealer "deal_ok nt" "wg_deal nt" "\<lambda>k. unat (remaining_wgs k)"
  "\<lambda>k. unat (wgs_dealt k)" "256 * unat nt" for nt
  by unfold_locales (use wg_deal_none wg_deal_step in \<open>blast+\<close>)

section \<open>Properties\<close>

definition fresh_run_command :: "size_t \<times> size_t \<times> size_t \<Rightarrow> kernel_run_command" where
  "fresh_run_command g = \<lparr>krc_cmd = 0, krc_device = None, krc_num_groups = g,
     remaining_wgs = of_nat (total_wgs g), wgs_dealt = 0, ref_count = 0\<rparr>"

text \<open>
  C8: Calling \<open>get_wg_index_range\<close> until it has nothing left deals every work-group index of a
  command exactly once, in order, in non-empty chunks of at most \<open>POCL_PTHREAD_MAX_WGS\<close> per thread,
  and ends after at most one call per work-group and a last one.
\<close>

theorem wg_chunks_partition:
  assumes "groups_ok g" and "0 < unat num_threads" and "unat num_threads < 2 ^ 24"
  shows "\<exists>cs. drain (wg_deal num_threads) (total_wgs g + 1) (fresh_run_command g) = Some cs \<and>
    concat (map chunk_indices cs) = [0..<total_wgs g] \<and>
    (\<forall>b \<in> set cs. fst b \<le> snd b \<and> snd b < fst b + 256 * unat num_threads)"
proof -
  have rem: "unat (remaining_wgs (fresh_run_command g)) = total_wgs g"
    using assms(1) by (simp add: fresh_run_command_def groups_ok_def unat_of_nat_nowrap)
  have dealt: "wgs_dealt (fresh_run_command g) = 0" by (simp add: fresh_run_command_def)
  have "deal_ok num_threads (fresh_run_command g)"
    using assms rem dealt by (simp add: deal_ok_def groups_ok_def)
  then show ?thesis
    using wgs.drain_covers [of num_threads "fresh_run_command g" "total_wgs g + 1"] rem dealt by simp
qed

lemma total_wgs_1000: "total_wgs (1000, 1, 1) = 1000"
  by (simp add: total_wgs_def)

theorem wg_chunks_partition_witness:
  "\<exists>cs. drain (wg_deal 8) 1001 (fresh_run_command (1000, 1, 1)) = Some cs \<and>
    concat (map chunk_indices cs) = [0..<1000] \<and> (\<forall>b \<in> set cs. fst b \<le> snd b \<and> snd b < fst b + 2048)"
  using wg_chunks_partition [of "(1000, 1, 1)" 8]
  by (simp only: groups_ok_def total_wgs_1000) simp

text \<open>
  The ids computed for the work-group indices of a command enumerate its grid: distinct indices
  get distinct ids, all inside the grid, and every point of the grid is the ids of one index, with
  the first dimension running fastest.
\<close>

theorem wg_ids_bijection:
  assumes "groups_ok g"
  shows "bij_betw (\<lambda>i. wg_ids g (of_nat i)) {..<total_wgs g} {p. in_grid g p} \<and>
    (\<forall>i < total_wgs g. wg_index g (wg_ids g (of_nat i)) = i)"
proof
  have idx: "in_grid g (wg_ids g (of_nat i)) \<and> wg_index g (wg_ids g (of_nat i)) = i"
    if "i < total_wgs g" for i
  proof -
    have "unat (of_nat i :: 32 word) = i"
      using that assms by (intro unat_of_nat_nowrap) (simp add: groups_ok_def)
    then show ?thesis using wg_ids_in_grid [OF assms, of "of_nat i"] that by simp
  qed
  then show "\<forall>i < total_wgs g. wg_index g (wg_ids g (of_nat i)) = i" by blast
  show "bij_betw (\<lambda>i. wg_ids g (of_nat i)) {..<total_wgs g} {p. in_grid g p}"
  proof (rule bij_betw_byWitness [where f' = "wg_index g"])
    show "\<forall>p \<in> {p. in_grid g p}. wg_ids g (of_nat (wg_index g p)) = p"
    proof
      fix p assume "p \<in> {p. in_grid g p}"
      then have p: "in_grid g p" by simp
      show "wg_ids g (of_nat (wg_index g p)) = p"
        by (rule wg_index_inj [of g]) (use idx [OF wg_index_bound [OF assms p]] p in simp_all)
    qed
  qed (use idx wg_index_bound [OF assms] in auto)
qed

theorem wg_ids_bijection_witness:
  "bij_betw (\<lambda>i. wg_ids (4, 3, 2) (of_nat i)) {..<24} {p. in_grid (4, 3, 2) p} \<and>
    wg_index (4, 3, 2) (wg_ids (4, 3, 2) (of_nat 7)) = 7"
proof -
  have t: "total_wgs (4, 3, 2) = 24" by (simp add: total_wgs_def)
  then have "groups_ok (4, 3, 2)" by (simp add: groups_ok_def)
  moreover have "7 < total_wgs (4, 3, 2)" by (simp add: t)
  ultimately show ?thesis using wg_ids_bijection [of "(4, 3, 2)"] unfolding t by blast
qed









end
