(* ===== verification/PthreadPool.thy ===== *)
theory PthreadPool
  imports PthreadSched
begin

text \<open>
  The invariant of the worker pool of \<open>pthread_scheduler.c\<close> and what follows from it: every
  work-group of a kernel runs exactly once, no run command is used after it is freed, and no thread
  sleeps while there is work for it.
\<close>

section \<open>The invariant of the pool\<close>

text \<open>Threads in a state, and events in the trace, are counted by integers.\<close>

definition threads_where :: "nat \<Rightarrow> (pool_thread_data \<Rightarrow> bool) \<Rightarrow> (nat \<Rightarrow> pool_thread_data) \<Rightarrow> int" where
  "threads_where nt P th = (\<Sum>t<nt. of_bool (P (th t)))"

lemma threads_where_upd:
  assumes "t < nt"
  shows "threads_where nt P (th(t := x)) = threads_where nt P th + of_bool (P x) - of_bool (P (th t))"
proof -
  have "threads_where nt P f = of_bool (P (f t)) + (\<Sum>u\<in>{..<nt} - {t}. of_bool (P (f u)))" for f
    unfolding threads_where_def using assms by (intro sum.remove) auto
  from this [of th] this [of "th(t := x)"] show ?thesis by simp
qed

lemma threads_where_cong:
  "(\<And>t. t < nt \<Longrightarrow> P (th t) = Q (th' t)) \<Longrightarrow> threads_where nt P th = threads_where nt Q th'"
  by (simp add: threads_where_def)

lemma threads_where_nonneg: "0 \<le> threads_where nt P th"
  by (simp add: threads_where_def sum_nonneg)

lemma threads_where_mono:
  "(\<And>td. P td \<Longrightarrow> Q td) \<Longrightarrow> threads_where nt P th \<le> threads_where nt Q th"
  unfolding threads_where_def by (rule sum_mono) auto

lemma threads_where_pos:
  assumes "t < nt" and "P (th t)"
  shows "1 \<le> threads_where nt P th"
proof -
  have "threads_where nt P th = of_bool (P (th t)) + (\<Sum>u\<in>{..<nt} - {t}. of_bool (P (th u)))"
    unfolding threads_where_def using assms(1) by (intro sum.remove) auto
  moreover have "(0::int) \<le> (\<Sum>u\<in>{..<nt} - {t}. of_bool (P (th u)))" by (simp add: sum_nonneg)
  ultimately show ?thesis using assms(2) by simp
qed

lemma threads_where_le: "threads_where nt P th \<le> int nt"
  using sum_mono [of "{..<nt}" "\<lambda>t. of_bool (P (th t)) :: int" "\<lambda>t. 1"]
  by (simp add: threads_where_def)

definition holds_krc :: "nat \<Rightarrow> pool_thread_data \<Rightarrow> bool" where
  "holds_krc k td \<longleftrightarrow> td_run_cmd td = Some k \<and> td_pc td \<in> {DEAL, UNLINK, EXEC, UNREF}"

definition unlinks_krc :: "nat \<Rightarrow> pool_thread_data \<Rightarrow> bool" where
  "unlinks_krc k td \<longleftrightarrow> td_run_cmd td = Some k \<and> td_pc td = UNLINK"

definition finalizes_krc :: "nat \<Rightarrow> pool_thread_data \<Rightarrow> bool" where
  "finalizes_krc k td \<longleftrightarrow> td_run_cmd td = Some k \<and> td_pc td = FINALIZE"

definition pending_wg :: "nat \<Rightarrow> nat \<Rightarrow> pool_thread_data \<Rightarrow> bool" where
  "pending_wg k i td \<longleftrightarrow> td_run_cmd td = Some k \<and> td_pc td \<in> {UNLINK, EXEC} \<and>
     unat (td_index td) \<le> i \<and> i \<le> unat (td_end_index td)"

definition commands :: "nat \<Rightarrow> pool_thread_data \<Rightarrow> bool" where
  "commands c td \<longleftrightarrow> td_pc td = COMMAND \<and> td_cmd td = Some c"

fun is_group :: "nat \<Rightarrow> nat \<Rightarrow> sched_event \<Rightarrow> bool" where
  "is_group c i (Group c' i' g) = (c = c' \<and> i = unat i')"
| "is_group c i (Complete c') = False"

definition executed :: "nat \<Rightarrow> nat \<Rightarrow> sched_event list \<Rightarrow> int" where
  "executed c i tr = int (length (filter (is_group c i) tr))"

definition completions :: "nat \<Rightarrow> sched_event list \<Rightarrow> int" where
  "completions c tr = int (count_list tr (Complete c))"

lemma executed_simps [simp]:
  "executed c i [] = 0"
  "executed c i (tr @ [e]) = executed c i tr + of_bool (is_group c i e)"
  by (simp_all add: executed_def)

lemma completions_simps [simp]:
  "completions c [] = 0"
  "completions c (tr @ [e]) = completions c tr + of_bool (e = Complete c)"
  by (simp_all add: completions_def)

abbreviation krc_total :: "kernel_run_command \<Rightarrow> nat" where
  "krc_total r \<equiv> total_wgs (krc_num_groups r)"

definition thread_ok :: "scheduler_data \<Rightarrow> pool_thread_data \<Rightarrow> bool" where
  "thread_ok s td \<longleftrightarrow>
     (td_pc td \<in> {DEAL, UNLINK, EXEC, UNREF, FINALIZE} \<longrightarrow>
        (\<exists>k r. td_run_cmd td = Some k \<and> kernel_commands s k = Some r \<and>
           (td_pc td = UNREF \<longrightarrow> remaining_wgs r = 0) \<and>
           (td_pc td \<noteq> FINALIZE \<and> td_last_wgs td \<longrightarrow> remaining_wgs r = 0) \<and>
           (td_pc td = UNLINK \<longrightarrow> td_last_wgs td) \<and>
           (td_pc td \<in> {UNLINK, EXEC} \<longrightarrow>
              unat (td_end_index td) < krc_total r \<and> unat (td_index td) \<le> unat (td_end_index td) + 1))) \<and>
     (td_pc td = COMMAND \<longrightarrow> td_cmd td \<noteq> None) \<and>
     (td_pc td = CHECK_CMD \<longrightarrow> td_run_cmd td \<noteq> None)"

text \<open>A run command that thread \<open>t\<close> may run, and is still allocated.\<close>

definition runs_kernel :: "scheduler_data \<Rightarrow> nat \<Rightarrow> nat \<Rightarrow> bool" where
  "runs_kernel s t k =
     (case kernel_commands s k of None \<Rightarrow> False | Some r \<Rightarrow> shall_we_run_this (of_nat t) (krc_device r))"

definition sleep_ok :: "(nat \<Rightarrow> cmd_node) \<Rightarrow> scheduler_data \<Rightarrow> nat \<Rightarrow> bool" where
  "sleep_ok node s t \<longleftrightarrow> (td_pc (thread_pool s t) = SLEEPING \<longrightarrow>
     (\<forall>c \<in> set (work_queue s). \<not> runs_command node t c) \<and>
     (\<forall>k \<in> set (kernel_queue s). \<not> runs_kernel s t k))"

definition krc_ok :: "nat \<Rightarrow> (nat \<Rightarrow> cmd_node) \<Rightarrow> scheduler_data \<Rightarrow> nat \<Rightarrow> bool" where
  "krc_ok nt node s k \<longleftrightarrow> (case kernel_commands s k of
       None \<Rightarrow> threads_where nt (holds_krc k) (thread_pool s) = 0 \<and>
         threads_where nt (finalizes_krc k) (thread_pool s) = 0 \<and> k \<notin> set (kernel_queue s)
     | Some r \<Rightarrow>
         cmd_is_kernel (node (krc_cmd r)) \<and> krc_num_groups r = cmd_num_groups (node (krc_cmd r)) \<and>
         krc_device r = cmd_device (node (krc_cmd r)) \<and>
         unat (remaining_wgs r) + unat (wgs_dealt r) = krc_total r \<and>
         int (unat (ref_count r)) = threads_where nt (holds_krc k) (thread_pool s) \<and>
         int (count_list (kernel_queue s) k) =
           of_bool (remaining_wgs r \<noteq> 0) + threads_where nt (unlinks_krc k) (thread_pool s) \<and>
         int (count_list (kernel_queue s) k) \<le> 1 \<and>
         threads_where nt (finalizes_krc k) (thread_pool s) =
           of_bool (remaining_wgs r = 0 \<and> ref_count r = 0) \<and>
         (\<forall>i. executed (krc_cmd r) i (sched_trace s) + threads_where nt (pending_wg k i) (thread_pool s) =
              of_bool (i < unat (wgs_dealt r))))"

definition in_heap :: "scheduler_data \<Rightarrow> nat \<Rightarrow> bool" where
  "in_heap s c \<longleftrightarrow> (\<exists>k r. kernel_commands s k = Some r \<and> krc_cmd r = c)"

definition cmd_ok :: "nat \<Rightarrow> (nat \<Rightarrow> cmd_node) \<Rightarrow> scheduler_data \<Rightarrow> nat \<Rightarrow> bool" where
  "cmd_ok nt node s c \<longleftrightarrow>
     int (count_list (work_queue s) c) + threads_where nt (commands c) (thread_pool s) +
       of_bool (in_heap s c) + completions c (sched_trace s) = of_bool (c \<in> submitted s) \<and>
     (\<not> in_heap s c \<longrightarrow> (\<forall>i. executed c i (sched_trace s) =
        of_bool (completions c (sched_trace s) \<noteq> 0 \<and> cmd_is_kernel (node c) \<and>
                 i < total_wgs (cmd_num_groups (node c)))))"

definition heap_ok :: "scheduler_data \<Rightarrow> bool" where
  "heap_ok s \<longleftrightarrow> (\<forall>k k' r r'. kernel_commands s k = Some r \<longrightarrow> kernel_commands s k' = Some r' \<longrightarrow>
     krc_cmd r = krc_cmd r' \<longrightarrow> k = k')"

definition trace_ok :: "(nat \<Rightarrow> cmd_node) \<Rightarrow> scheduler_data \<Rightarrow> bool" where
  "trace_ok node s \<longleftrightarrow> (\<forall>c i g. Group c i g \<in> set (sched_trace s) \<longrightarrow>
     g = wg_ids (cmd_num_groups (node c)) i)"

definition core_inv :: "nat \<Rightarrow> (nat \<Rightarrow> cmd_node) \<Rightarrow> scheduler_data \<Rightarrow> bool" where
  "core_inv nt node s \<longleftrightarrow> (\<forall>k. krc_ok nt node s k) \<and> (\<forall>c. cmd_ok nt node s c) \<and>
     (\<forall>t<nt. thread_ok s (thread_pool s t)) \<and> heap_ok s \<and> trace_ok node s"

definition pool_inv :: "nat \<Rightarrow> (nat \<Rightarrow> cmd_node) \<Rightarrow> scheduler_data \<Rightarrow> bool" where
  "pool_inv nt node s \<longleftrightarrow> core_inv nt node s \<and> (\<forall>t<nt. sleep_ok node s t)"

definition nodes_ok :: "(nat \<Rightarrow> cmd_node) \<Rightarrow> bool" where
  "nodes_ok node \<longleftrightarrow> (\<forall>c. cmd_is_kernel (node c) \<longrightarrow> groups_ok (cmd_num_groups (node c)))"

lemmas td_preds = holds_krc_def unlinks_krc_def finalizes_krc_def pending_wg_def commands_def

lemmas inv_defs = krc_ok_def cmd_ok_def thread_ok_def in_heap_def heap_ok_def trace_ok_def

subsection \<open>Waking and starting\<close>

lemma wake_pool_simps [simp]:
  "work_queue (wake_pool s) = work_queue s"
  "kernel_queue (wake_pool s) = kernel_queue s"
  "kernel_commands (wake_pool s) = kernel_commands s"
  "submitted (wake_pool s) = submitted s"
  "sched_trace (wake_pool s) = sched_trace s"
  "thread_pool_shutdown_requested (wake_pool s) = thread_pool_shutdown_requested s"
  by (simp_all add: wake_pool_def)

lemma wake_pool_thread:
  "thread_pool (wake_pool s) t = (let td = thread_pool s t in
     if td_pc td = SLEEPING then td\<lparr>td_pc := GET_WORK\<rparr> else td)"
  by (simp add: wake_pool_def)

lemma wake_pool_not_sleeping [simp]: "td_pc (thread_pool (wake_pool s) t) \<noteq> SLEEPING"
  by (simp add: wake_pool_thread Let_def)

lemma wake_pool_counts [simp]:
  "threads_where nt (holds_krc k) (thread_pool (wake_pool s)) = threads_where nt (holds_krc k) (thread_pool s)"
  "threads_where nt (unlinks_krc k) (thread_pool (wake_pool s)) = threads_where nt (unlinks_krc k) (thread_pool s)"
  "threads_where nt (finalizes_krc k) (thread_pool (wake_pool s)) = threads_where nt (finalizes_krc k) (thread_pool s)"
  "threads_where nt (pending_wg k i) (thread_pool (wake_pool s)) = threads_where nt (pending_wg k i) (thread_pool s)"
  "threads_where nt (commands c) (thread_pool (wake_pool s)) = threads_where nt (commands c) (thread_pool s)"
  by (rule threads_where_cong; simp add: wake_pool_thread Let_def td_preds)+

lemma thread_ok_wake [simp]: "thread_ok (wake_pool s) td = thread_ok s td"
  by (simp add: thread_ok_def)

lemma thread_ok_awake: "thread_ok s td \<Longrightarrow> thread_ok s (td\<lparr>td_pc := GET_WORK\<rparr>)"
  by (simp add: thread_ok_def)

lemma core_inv_wake:
  assumes "core_inv nt node s"
  shows "pool_inv nt node (wake_pool s)"
proof -
  have "thread_ok (wake_pool s) (thread_pool (wake_pool s) t)" if "t < nt" for t
    using assms that thread_ok_awake by (simp add: core_inv_def wake_pool_thread Let_def)
  moreover have "in_heap (wake_pool s) c = in_heap s c" for c by (simp add: in_heap_def)
  ultimately show ?thesis
    using assms by (simp add: pool_inv_def core_inv_def krc_ok_def cmd_ok_def heap_ok_def
      trace_ok_def sleep_ok_def cong: option.case_cong)
qed

lemma pool_inv_init: "pool_inv nt node pthread_scheduler_init"
  by (simp add: pool_inv_def core_inv_def inv_defs sleep_ok_def pthread_scheduler_init_def
      threads_where_def td_preds)

text \<open>Frame facts: what each part of the invariant reads.\<close>

lemma krc_ok_frame:
  assumes "krc_ok nt node s k"
    and "kernel_commands s' k = kernel_commands s k"
    and "count_list (kernel_queue s') k = count_list (kernel_queue s) k"
    and "threads_where nt (holds_krc k) (thread_pool s') = threads_where nt (holds_krc k) (thread_pool s)"
    and "threads_where nt (unlinks_krc k) (thread_pool s') = threads_where nt (unlinks_krc k) (thread_pool s)"
    and "threads_where nt (finalizes_krc k) (thread_pool s') = threads_where nt (finalizes_krc k) (thread_pool s)"
    and "\<And>i. threads_where nt (pending_wg k i) (thread_pool s') = threads_where nt (pending_wg k i) (thread_pool s)"
    and "\<And>r i. kernel_commands s k = Some r \<Longrightarrow>
      executed (krc_cmd r) i (sched_trace s') = executed (krc_cmd r) i (sched_trace s)"
  shows "krc_ok nt node s' k"
  using assms by (cases "kernel_commands s k")
    (simp_all only: krc_ok_def option.case count_list_0_iff [symmetric] simp_thms, simp_all)

lemma cmd_ok_frame:
  assumes "cmd_ok nt node s c"
    and "int (count_list (work_queue s') c) + threads_where nt (commands c) (thread_pool s') =
      int (count_list (work_queue s) c) + threads_where nt (commands c) (thread_pool s)"
    and "in_heap s' c = in_heap s c" and "(c \<in> submitted s') = (c \<in> submitted s)"
    and "completions c (sched_trace s') = completions c (sched_trace s)"
    and "\<And>i. \<not> in_heap s c \<Longrightarrow> executed c i (sched_trace s') = executed c i (sched_trace s)"
  shows "cmd_ok nt node s' c"
  using assms by (simp add: cmd_ok_def)

lemma thread_ok_frame: "kernel_commands s' = kernel_commands s \<Longrightarrow> thread_ok s' td = thread_ok s td"
  by (simp add: thread_ok_def)

lemma in_heap_frame: "kernel_commands s' = kernel_commands s \<Longrightarrow> in_heap s' c = in_heap s c"
  by (simp add: in_heap_def)

lemma core_inv_frame:
  assumes "core_inv nt node s" and "kernel_commands s' = kernel_commands s"
    and "kernel_queue s' = kernel_queue s" and "work_queue s' = work_queue s"
    and "thread_pool s' = thread_pool s" and "sched_trace s' = sched_trace s"
    and "submitted s' = submitted s"
  shows "core_inv nt node s'"
proof -
  have "krc_ok nt node s' k" for k
    by (rule krc_ok_frame [where s = s]) (use assms in \<open>simp_all add: core_inv_def\<close>)
  moreover have "cmd_ok nt node s' c" for c
    by (rule cmd_ok_frame [where s = s]) (use assms in \<open>simp_all add: core_inv_def in_heap_def\<close>)
  ultimately show ?thesis
    using assms by (simp add: core_inv_def thread_ok_frame [of s' s] heap_ok_def trace_ok_def)
qed

lemma pool_inv_uninit: "pool_inv nt node s \<Longrightarrow> pool_inv nt node (pthread_scheduler_uninit s)"
  unfolding pthread_scheduler_uninit_def
  by (rule core_inv_wake, rule core_inv_frame [where s = s]) (simp_all add: pool_inv_def)

lemma count_list_snoc [simp]: "count_list (xs @ [x]) y = count_list xs y + of_bool (x = y)"
  by (induction xs) auto

lemma pool_inv_push_command:
  assumes inv: "pool_inv nt node s" and c: "c \<notin> submitted s"
  shows "pool_inv nt node (pthread_scheduler_push_command s c)"
proof -
  let ?s = "s\<lparr>work_queue := work_queue s @ [c], submitted := insert c (submitted s)\<rparr>"
  have "cmd_ok nt node ?s d" for d
  proof -
    have "cmd_ok nt node s d" using inv by (simp add: pool_inv_def core_inv_def)
    moreover have "in_heap ?s d = in_heap s d" by (simp add: in_heap_def)
    ultimately show ?thesis using c by (cases "c = d") (simp_all add: cmd_ok_def)
  qed
  moreover have "krc_ok nt node ?s k" for k
    by (rule krc_ok_frame [where s = s]) (use inv in \<open>simp_all add: pool_inv_def core_inv_def\<close>)
  ultimately have "core_inv nt node ?s"
    using inv by (simp add: pool_inv_def core_inv_def thread_ok_frame [of ?s s] heap_ok_def trace_ok_def)
  then show ?thesis unfolding pthread_scheduler_push_command_def by (rule core_inv_wake)
qed

subsection \<open>Thread steps\<close>

lemma set_thread_simps [simp]:
  "work_queue (set_thread s t td) = work_queue s"
  "kernel_queue (set_thread s t td) = kernel_queue s"
  "kernel_commands (set_thread s t td) = kernel_commands s"
  "submitted (set_thread s t td) = submitted s"
  "sched_trace (set_thread s t td) = sched_trace s"
  "thread_pool (set_thread s t td) = (thread_pool s)(t := td)"
  by (simp_all add: set_thread_def)

lemma update_krc_simps [simp]:
  "work_queue (update_krc s k r) = work_queue s"
  "kernel_queue (update_krc s k r) = kernel_queue s"
  "kernel_commands (update_krc s k r) = (kernel_commands s)(k := r)"
  "submitted (update_krc s k r) = submitted s"
  "sched_trace (update_krc s k r) = sched_trace s"
  "thread_pool (update_krc s k r) = thread_pool s"
  by (simp_all add: update_krc_def)

lemma set_thread_same: "set_thread s t (thread_pool s t) = s"
  by (simp add: set_thread_def)

definition idle :: "pool_thread_data \<Rightarrow> bool" where
  "idle td \<longleftrightarrow> td_pc td \<in> {GET_WORK, SLEEPING, EXITED} \<or> td_pc td = CHECK_CMD \<and> td_run_cmd td \<noteq> None"

lemma idle_preds:
  assumes "idle td"
  shows "\<not> holds_krc k td" and "\<not> unlinks_krc k td" and "\<not> finalizes_krc k td"
    and "\<not> pending_wg k i td" and "\<not> commands c td" and "thread_ok s td"
  using assms by (auto simp: idle_def td_preds thread_ok_def)

lemma krc_ok_core: "core_inv nt node s \<Longrightarrow> krc_ok nt node s k"
  by (simp add: core_inv_def)

lemma cmd_ok_core: "core_inv nt node s \<Longrightarrow> cmd_ok nt node s c"
  by (simp add: core_inv_def)

lemma thread_ok_core: "core_inv nt node s \<Longrightarrow> t < nt \<Longrightarrow> thread_ok s (thread_pool s t)"
  by (simp add: core_inv_def)

lemma core_inv_idle:
  assumes t: "t < nt" and td: "idle td" "idle td'" and inv: "core_inv nt node (set_thread s t td)"
  shows "core_inv nt node (set_thread s t td')"
proof -
  have "krc_ok nt node (set_thread s t td') k" for k
    by (rule krc_ok_frame [OF krc_ok_core [OF inv]])
      (simp_all add: threads_where_upd [OF t] idle_preds [OF td(1)] idle_preds [OF td(2)])
  moreover have "cmd_ok nt node (set_thread s t td') c" for c
    by (rule cmd_ok_frame [OF cmd_ok_core [OF inv]])
      (simp_all add: threads_where_upd [OF t] in_heap_def idle_preds [OF td(1)] idle_preds [OF td(2)])
  moreover have "thread_ok (set_thread s t td') (thread_pool (set_thread s t td') u)" if "u < nt" for u
    using thread_ok_core [OF inv that] idle_preds(6) [OF td(2)]
    by (cases "u = t") (simp_all add: thread_ok_frame [of "set_thread s t td'" s] thread_ok_frame [of "set_thread s t td" s])
  ultimately show ?thesis
    using inv by (simp add: core_inv_def heap_ok_def trace_ok_def)
qed

lemma count_list_take:
  "x \<in> set xs \<Longrightarrow> int (count_list (remove1 x xs) y) = int (count_list xs y) - of_bool (x = y)"
  using count_list_0_iff [of xs x] by (auto simp: count_list_remove1 of_nat_diff Suc_leI)

lemma core_inv_take_command:
  assumes t: "t < nt" and td: "idle td" and inv: "core_inv nt node (set_thread s t td)"
    and c: "c \<in> set (work_queue s)"
  shows "core_inv nt node (set_thread (s\<lparr>work_queue := remove1 c (work_queue s)\<rparr>) t
    (td\<lparr>td_pc := COMMAND, td_cmd := Some c\<rparr>))" (is "core_inv nt node (set_thread ?s t ?td)")
proof -
  have preds: "\<not> holds_krc k ?td" "\<not> unlinks_krc k ?td" "\<not> finalizes_krc k ?td"
    "\<not> pending_wg k i ?td" "commands d ?td = (c = d)" "thread_ok s' ?td" for k i d s'
    by (auto simp: td_preds thread_ok_def)
  have "krc_ok nt node (set_thread ?s t ?td) k" for k
    by (rule krc_ok_frame [OF krc_ok_core [OF inv]])
      (simp_all add: threads_where_upd [OF t] idle_preds [OF td] preds)
  moreover have "cmd_ok nt node (set_thread ?s t ?td) d" for d
    by (rule cmd_ok_frame [OF cmd_ok_core [OF inv]])
      (simp_all add: threads_where_upd [OF t] in_heap_def idle_preds [OF td] preds count_list_take [OF c] del: count_list_remove1)
  moreover have "thread_ok (set_thread ?s t ?td) (thread_pool (set_thread ?s t ?td) u)" if "u < nt" for u
    using thread_ok_core [OF inv that] preds(6)
    by (cases "u = t") (simp_all add: thread_ok_frame [of "set_thread ?s t ?td" s] thread_ok_frame [of "set_thread s t td" s])
  ultimately show ?thesis
    using inv by (simp add: core_inv_def heap_ok_def trace_ok_def)
qed

lemma find_first_None: "find_first P xs = None \<longleftrightarrow> (\<forall>x \<in> set xs. \<not> P x)"
  by (induction xs) auto

lemma find_first_Some: "find_first P xs = Some x \<Longrightarrow> x \<in> set xs \<and> P x"
  by (induction xs) (auto split: if_splits)

lemma scan_kernel_queue_Some:
  "scan_kernel_queue s t ks = Some c \<Longrightarrow> c = find_first (runs_kernel s t) ks"
  by (induction ks) (auto simp: runs_kernel_def split: option.splits if_splits)

lemma scan_kernel_queue_live:
  "\<forall>k \<in> set ks. kernel_commands s k \<noteq> None \<Longrightarrow>
   scan_kernel_queue s t ks = Some (find_first (runs_kernel s t) ks)"
  by (induction ks) (auto simp: runs_kernel_def)

lemma sleep_ok_frame:
  assumes "sleep_ok node s u" and "thread_pool s' u = thread_pool s u"
    and "set (work_queue s') \<subseteq> set (work_queue s)" and "set (kernel_queue s') \<subseteq> set (kernel_queue s)"
    and "\<And>k. k \<in> set (kernel_queue s') \<Longrightarrow> runs_kernel s' u k = runs_kernel s u k"
  shows "sleep_ok node s' u"
  using assms by (auto simp: sleep_ok_def)

lemma pool_inv_check_commands:
  assumes t: "t < nt" and core: "core_inv nt node (set_thread s t (td\<lparr>td_pc := GET_WORK\<rparr>))"
    and sleep: "\<And>u. u < nt \<Longrightarrow> u \<noteq> t \<Longrightarrow> sleep_ok node s u"
    and none: "td_run_cmd td = None \<Longrightarrow> \<forall>k \<in> set (kernel_queue s). \<not> runs_kernel s t k"
  shows "pool_inv nt node (check_commands node s t td)"
proof (cases "find_first (runs_command node t) (work_queue s)")
  case (Some c)
  have td: "idle (td\<lparr>td_pc := GET_WORK\<rparr>)" by (simp add: idle_def)
  have eq: "check_commands node s t td =
      set_thread (s\<lparr>work_queue := remove1 c (work_queue s)\<rparr>) t (td\<lparr>td_pc := COMMAND, td_cmd := Some c\<rparr>)"
    by (simp add: check_commands_def check_cmd_queue_for_device_def Some)
  have "core_inv nt node (check_commands node s t td)"
    using core_inv_take_command [OF t td core] find_first_Some [OF Some] by (simp add: eq)
  moreover have "sleep_ok node (check_commands node s t td) u" if "u < nt" for u
  proof (cases "u = t")
    case True
    then show ?thesis by (simp add: eq sleep_ok_def)
  next
    case False
    show ?thesis
      by (rule sleep_ok_frame [OF sleep [OF that False]])
        (use False in \<open>auto simp: eq runs_kernel_def dest: set_remove1_subset [THEN subsetD]\<close>)
  qed
  ultimately show ?thesis by (simp add: pool_inv_def)
next
  case None
  define X where "X = (if td_run_cmd td = None \<and> \<not> td_do_exit td then SLEEPING
    else if td_do_exit td then EXITED else GET_WORK)"
  have eq: "check_commands node s t td = set_thread s t (td\<lparr>td_pc := X\<rparr>)"
    by (simp add: check_commands_def check_cmd_queue_for_device_def None X_def leave_get_work_def)
  have idle: "idle (td\<lparr>td_pc := X\<rparr>)" "idle (td\<lparr>td_pc := GET_WORK\<rparr>)" by (simp_all add: idle_def X_def)
  have "core_inv nt node (check_commands node s t td)"
    unfolding eq by (rule core_inv_idle [OF t idle(2,1) core])
  moreover have "sleep_ok node (check_commands node s t td) u" if "u < nt" for u
  proof (cases "u = t")
    case True
    have "X = SLEEPING \<longrightarrow> td_run_cmd td = None" by (simp add: X_def)
    then show ?thesis
      using none True None by (auto simp: eq sleep_ok_def find_first_None runs_kernel_def)
  next
    case False
    then show ?thesis using sleep [OF that False] by (simp add: eq sleep_ok_def runs_kernel_def)
  qed
  ultimately show ?thesis by (simp add: pool_inv_def)
qed

definition works_on :: "nat \<Rightarrow> pool_thread_data \<Rightarrow> bool" where
  "works_on k td \<longleftrightarrow> idle td \<or> td_run_cmd td = Some k \<and> td_pc td \<noteq> COMMAND"

lemma works_on_preds:
  assumes "works_on k td"
  shows "k' \<noteq> k \<Longrightarrow> \<not> holds_krc k' td" and "k' \<noteq> k \<Longrightarrow> \<not> unlinks_krc k' td"
    and "k' \<noteq> k \<Longrightarrow> \<not> finalizes_krc k' td" and "k' \<noteq> k \<Longrightarrow> \<not> pending_wg k' i td"
    and "\<not> commands c td"
  using assms by (auto simp: works_on_def idle_def td_preds)

lemma in_heap_upd:
  assumes "kernel_commands s k = Some r" and "kernel_commands s' = (kernel_commands s)(k := Some r')"
    and "krc_cmd r' = krc_cmd r"
  shows "in_heap s' d = in_heap s d"
proof -
  have "(\<exists>r0. kernel_commands s' k' = Some r0 \<and> krc_cmd r0 = d) \<longleftrightarrow> (\<exists>r0. kernel_commands s k' = Some r0 \<and> krc_cmd r0 = d)" for k'
    using assms by (cases "k' = k") simp_all
  then show ?thesis by (simp add: in_heap_def)
qed

lemma heap_ok_upd:
  assumes "kernel_commands s k = Some r" and "kernel_commands s' = (kernel_commands s)(k := Some r')"
    and "krc_cmd r' = krc_cmd r" and "heap_ok s"
  shows "heap_ok s'"
  unfolding heap_ok_def
proof (intro allI impI)
  fix k1 k2 r1 r2
  assume a: "kernel_commands s' k1 = Some r1" "kernel_commands s' k2 = Some r2" "krc_cmd r1 = krc_cmd r2"
  have "\<exists>r0. kernel_commands s k0 = Some r0 \<and> krc_cmd r0 = krc_cmd q" if "kernel_commands s' k0 = Some q" for k0 q
    using that assms by (cases "k0 = k") auto
  from this [OF a(1)] this [OF a(2)] show "k1 = k2"
    using assms(4) a(3) by (force simp: heap_ok_def)
qed

lemma thread_ok_upd:
  assumes "kernel_commands s k = Some r" and "kernel_commands s' = (kernel_commands s)(k := Some r')"
    and "krc_num_groups r' = krc_num_groups r" and "remaining_wgs r = 0 \<Longrightarrow> remaining_wgs r' = 0"
    and "thread_ok s td"
  shows "thread_ok s' td"
proof (cases "td_pc td \<in> {DEAL, UNLINK, EXEC, UNREF, FINALIZE}")
  case True
  then obtain k0 r0 where "td_run_cmd td = Some k0" "kernel_commands s k0 = Some r0"
    using assms(5) by (auto simp: thread_ok_def)
  then show ?thesis using assms by (cases "k0 = k") (simp_all add: thread_ok_def)
next
  case False
  then show ?thesis using assms(5) by (simp add: thread_ok_def)
qed

lemma core_inv_krc_step:
  assumes t: "t < nt" and inv: "core_inv nt node s" and r: "kernel_commands s k = Some r"
    and old: "works_on k (thread_pool s t)" and new: "works_on k td'"
    and heap: "kernel_commands s' = (kernel_commands s)(k := Some r')"
    and r': "krc_cmd r' = krc_cmd r" "krc_num_groups r' = krc_num_groups r"
      "remaining_wgs r = 0 \<Longrightarrow> remaining_wgs r' = 0"
    and pool: "thread_pool s' = (thread_pool s)(t := td')"
    and same: "work_queue s' = work_queue s" "submitted s' = submitted s"
      "\<And>c. completions c (sched_trace s') = completions c (sched_trace s)"
    and kq: "\<And>k'. k' \<noteq> k \<Longrightarrow> count_list (kernel_queue s') k' = count_list (kernel_queue s) k'"
    and groups: "\<And>c i. c \<noteq> krc_cmd r \<Longrightarrow> executed c i (sched_trace s') = executed c i (sched_trace s)"
    and k_ok: "krc_ok nt node s' k" and td': "thread_ok s' td'" and tr: "trace_ok node s'"
  shows "core_inv nt node s'"
proof -
  note upd = threads_where_upd [OF t]
  have "krc_ok nt node s' k'" for k'
  proof (cases "k' = k")
    case True
    then show ?thesis using k_ok by simp
  next
    case False
    show ?thesis
    proof (rule krc_ok_frame [OF krc_ok_core [OF inv, of k']])
      fix r'' i assume "kernel_commands s k' = Some r''"
      then have "krc_cmd r'' \<noteq> krc_cmd r"
        using inv r False by (auto simp: core_inv_def heap_ok_def)
      then show "executed (krc_cmd r'') i (sched_trace s') = executed (krc_cmd r'') i (sched_trace s)"
        by (rule groups)
    qed (use False in \<open>simp_all add: heap pool kq upd works_on_preds [OF old] works_on_preds [OF new]\<close>)
  qed
  moreover have "cmd_ok nt node s' c" for c
  proof -
    have h: "in_heap s' d = in_heap s d" for d
      by (rule in_heap_upd [OF r heap r'(1)])
    then have "\<not> in_heap s c \<Longrightarrow> c \<noteq> krc_cmd r" using r by (auto simp: in_heap_def)
    then show ?thesis
      by (intro cmd_ok_frame [OF cmd_ok_core [OF inv]])
        (simp_all add: h pool same upd groups works_on_preds [OF old] works_on_preds [OF new])
  qed
  moreover have "thread_ok s' (thread_pool s' u)" if "u < nt" for u
  proof (cases "u = t")
    case True
    then show ?thesis using td' by (simp add: pool)
  next
    case False
    then show ?thesis
      using thread_ok_upd [OF r heap r'(2,3) thread_ok_core [OF inv that]] by (simp add: pool)
  qed
  moreover have "heap_ok s'"
    using heap_ok_upd [OF r heap r'(1)] inv by (simp add: core_inv_def)
  ultimately show ?thesis using tr by (simp add: core_inv_def)
qed

lemma pool_inv_krc_step:
  assumes core: "core_inv nt node s'" and inv: "pool_inv nt node s" and r: "kernel_commands s k = Some r"
    and heap: "kernel_commands s' = (kernel_commands s)(k := Some r')" and dev: "krc_device r' = krc_device r"
    and pool: "thread_pool s' = (thread_pool s)(t := td')" and awake: "td_pc td' \<noteq> SLEEPING"
    and wq: "work_queue s' = work_queue s" and kq: "set (kernel_queue s') \<subseteq> set (kernel_queue s)"
  shows "pool_inv nt node s'"
proof -
  have runs: "runs_kernel s' u k' = runs_kernel s u k'" for u k'
    using r by (simp add: runs_kernel_def heap dev)
  have "sleep_ok node s' u" if "u < nt" for u
  proof (cases "u = t")
    case True
    then show ?thesis using awake by (simp add: sleep_ok_def pool)
  next
    case False
    show ?thesis
      by (rule sleep_ok_frame [of node s]) (use inv that False kq in \<open>simp_all add: pool_inv_def pool wq runs\<close>)
  qed
  with core show ?thesis by (simp add: pool_inv_def)
qed

lemma krc_ok_Some:
  "kernel_commands s k = Some r \<Longrightarrow> krc_ok nt node s k \<longleftrightarrow>
     cmd_is_kernel (node (krc_cmd r)) \<and> krc_num_groups r = cmd_num_groups (node (krc_cmd r)) \<and>
     krc_device r = cmd_device (node (krc_cmd r)) \<and>
     unat (remaining_wgs r) + unat (wgs_dealt r) = krc_total r \<and>
     int (unat (ref_count r)) = threads_where nt (holds_krc k) (thread_pool s) \<and>
     int (count_list (kernel_queue s) k) =
       of_bool (remaining_wgs r \<noteq> 0) + threads_where nt (unlinks_krc k) (thread_pool s) \<and>
     int (count_list (kernel_queue s) k) \<le> 1 \<and>
     threads_where nt (finalizes_krc k) (thread_pool s) =
       of_bool (remaining_wgs r = 0 \<and> ref_count r = 0) \<and>
     (\<forall>i. executed (krc_cmd r) i (sched_trace s) + threads_where nt (pending_wg k i) (thread_pool s) =
          of_bool (i < unat (wgs_dealt r)))"
  by (simp only: krc_ok_def option.case)

lemma unlinks_holds: "unlinks_krc k td \<Longrightarrow> holds_krc k td"
  by (simp add: td_preds)

lemma pending_holds: "pending_wg k i td \<Longrightarrow> holds_krc k td"
  by (auto simp: td_preds)

lemma pool_inv_get_work:
  assumes nt: "nt < 2 ^ 24" and t: "t < nt" and inv: "pool_inv nt node s"
    and pc: "td_pc (thread_pool s t) = GET_WORK" and res: "get_work node s t = Some s'"
  shows "pool_inv nt node s'"
proof (cases "find_first (runs_kernel s t) (kernel_queue s)")
  case None
  have scan: "check_kernel_queue_for_device s t = Some None"
    using res scan_kernel_queue_Some [of s t "kernel_queue s"] None
    by (auto simp: get_work_def check_kernel_queue_for_device_def split: option.splits)
  let ?td = "(thread_pool s t)\<lparr>td_do_exit := thread_pool_shutdown_requested s,
    td_run_cmd := None, td_cmd := None\<rparr>"
  have eq: "s' = check_commands node s t ?td"
    using res by (simp add: get_work_def Let_def scan)
  have core: "core_inv nt node (set_thread s t (thread_pool s t))"
    using inv by (simp add: pool_inv_def set_thread_same)
  show ?thesis
    unfolding eq
  proof (rule pool_inv_check_commands [OF t])
    show "core_inv nt node (set_thread s t (?td\<lparr>td_pc := GET_WORK\<rparr>))"
      by (rule core_inv_idle [OF t _ _ core]) (simp_all add: idle_def pc)
    show "\<forall>k \<in> set (kernel_queue s). \<not> runs_kernel s t k"
      using None by (simp add: find_first_None)
    show "sleep_ok node s u" if "u < nt" for u using inv that by (simp add: pool_inv_def)
  qed
next
  case (Some k)
  have scan: "check_kernel_queue_for_device s t = Some (Some k)"
    using res scan_kernel_queue_Some [of s t "kernel_queue s"] Some
    by (auto simp: get_work_def check_kernel_queue_for_device_def split: option.splits)
  have kq: "k \<in> set (kernel_queue s)" and "runs_kernel s t k"
    using find_first_Some [OF Some] by simp_all
  then obtain r where r: "kernel_commands s k = Some r"
    by (auto simp: runs_kernel_def split: option.splits)
  define td' where "td' = (thread_pool s t)\<lparr>td_do_exit := thread_pool_shutdown_requested s,
    td_run_cmd := Some k, td_cmd := None, td_pc := DEAL, td_last_wgs := False\<rparr>"
  define r' where "r' = r\<lparr>ref_count := ref_count r + 1\<rparr>"
  have eq: "s' = set_thread (update_krc s k (Some r')) t td'"
    using res by (simp add: get_work_def Let_def scan r td'_def r'_def)
  have core: "core_inv nt node s" using inv by (simp add: pool_inv_def)
  note K = krc_ok_core [OF core, of k, unfolded krc_ok_Some [OF r]]
  have idle: "idle (thread_pool s t)" by (simp add: idle_def pc)
  have td': "holds_krc k td'" "\<not> unlinks_krc k td'" "\<not> finalizes_krc k td'" "\<not> pending_wg k i td'"
    "works_on k td'" for i
    by (simp_all add: td'_def td_preds works_on_def idle_def)
  have refn: "unat (ref_count r') = unat (ref_count r) + 1"
  proof -
    have "int (unat (ref_count r)) \<le> int nt"
      using K threads_where_le [of nt "holds_krc k" "thread_pool s"] by linarith
    then have "unat (ref_count r) \<le> nt" by (simp only: of_nat_le_iff)
    then show ?thesis
      using nt unfolding r'_def by (simp add: unat_add_nowrap)
  qed
  then have ref: "int (unat (ref_count r')) = int (unat (ref_count r)) + 1"
    by (simp only: of_nat_add of_nat_1)
  have "1 \<le> int (count_list (kernel_queue s) k)"
    using kq count_list_0_iff [of "kernel_queue s" k] by (cases "count_list (kernel_queue s) k") auto
  then have live: "remaining_wgs r = 0 \<Longrightarrow> ref_count r \<noteq> 0"
    using K threads_where_mono [of "unlinks_krc k" "holds_krc k" nt "thread_pool s"] unlinks_holds [of k]
    by auto
  have k_ok: "krc_ok nt node s' k"
  proof -
    have "ref_count r' \<noteq> 0" using refn by auto
    then show ?thesis
      using K ref live td'
      by (subst krc_ok_Some [of _ _ r']) (auto simp: eq threads_where_upd [OF t] idle_preds [OF idle] r'_def)
  qed
  have "core_inv nt node s'"
    by (rule core_inv_krc_step [OF t core r, where td' = td' and r' = r', OF _ _ _ _ _ _ _ _ _ _ _ _ k_ok])
      (use idle td'(5) core in \<open>simp_all add: works_on_def eq r'_def thread_ok_def td'_def core_inv_def trace_ok_def\<close>)
  then show ?thesis
    by (rule pool_inv_krc_step [OF _ inv r, where r' = r' and t = t and td' = td'])
      (simp_all add: eq r'_def td'_def)
qed

lemma thread_ok_krc:
  assumes "thread_ok s td" and "td_pc td \<in> {DEAL, UNLINK, EXEC, UNREF, FINALIZE}"
  obtains k r where "td_run_cmd td = Some k" and "kernel_commands s k = Some r"
    and "td_pc td = UNREF \<Longrightarrow> remaining_wgs r = 0"
    and "td_pc td \<noteq> FINALIZE \<Longrightarrow> td_last_wgs td \<Longrightarrow> remaining_wgs r = 0"
    and "td_pc td = UNLINK \<Longrightarrow> td_last_wgs td"
    and "td_pc td \<in> {UNLINK, EXEC} \<Longrightarrow> unat (td_end_index td) < krc_total r \<and>
      unat (td_index td) \<le> unat (td_end_index td) + 1"
  using assms unfolding thread_ok_def by blast



lemma pool_inv_deal_none:
  assumes t: "t < nt" and inv: "pool_inv nt node s" and pc: "td_pc (thread_pool s t) = DEAL"
    and k: "td_run_cmd (thread_pool s t) = Some k" and r: "kernel_commands s k = Some r"
    and rem: "remaining_wgs r = 0"
  shows "pool_inv nt node (set_thread s t ((thread_pool s t)\<lparr>td_pc := UNREF\<rparr>))"
proof -
  let ?td = "thread_pool s t"
  define td' where "td' = ?td\<lparr>td_pc := UNREF\<rparr>"
  let ?s = "set_thread s t td'"
  have core: "core_inv nt node s" using inv by (simp add: pool_inv_def)
  note K = krc_ok_core [OF core, of k, unfolded krc_ok_Some [OF r]]
  have heap: "kernel_commands ?s = (kernel_commands s)(k := Some r)"
    using r by (simp add: fun_upd_idem)
  have old: "holds_krc k ?td" "\<not> unlinks_krc k ?td" "\<not> finalizes_krc k ?td" "\<not> pending_wg k i ?td"
    "works_on k ?td" for i
    using pc k by (simp_all add: td_preds works_on_def)
  have new: "holds_krc k td'" "\<not> unlinks_krc k td'" "\<not> finalizes_krc k td'" "\<not> pending_wg k i td'"
    "works_on k td'" for i
    using k by (simp_all add: td'_def td_preds works_on_def)
  have k_ok: "krc_ok nt node ?s k"
    by (rule krc_ok_frame [OF krc_ok_core [OF core]]) (simp_all add: threads_where_upd [OF t] old new)
  have "core_inv nt node ?s"
    by (rule core_inv_krc_step [OF t core r old(5) new(5) heap, OF _ _ _ _ _ _ _ _ _ k_ok])
      (use core r k rem in \<open>simp_all add: thread_ok_def core_inv_def trace_ok_def td'_def\<close>)
  then have "pool_inv nt node ?s"
    by (rule pool_inv_krc_step [OF _ inv r heap, where t = t and td' = td']) (simp_all add: td'_def)
  then show ?thesis by (simp only: td'_def)
qed

lemma pool_inv_deal_wgs:
  assumes nt: "nt < 2 ^ 24" and t: "t < nt" and inv: "pool_inv nt node s"
    and pc: "td_pc (thread_pool s t) = DEAL"
    and k: "td_run_cmd (thread_pool s t) = Some k" and r: "kernel_commands s k = Some r"
    and rem: "remaining_wgs r \<noteq> 0" and total: "krc_total r < 2 ^ 32"
    and m: "0 < m" "m \<le> unat (remaining_wgs r)"
    and r': "r' = r\<lparr>remaining_wgs := remaining_wgs r - of_nat m, wgs_dealt := wgs_dealt r + of_nat m\<rparr>"
    and td': "td' = (thread_pool s t)\<lparr>td_pc := if m = unat (remaining_wgs r) then UNLINK else EXEC,
      td_index := ucast (wgs_dealt r), td_end_index := ucast (wgs_dealt r + of_nat m - 1),
      td_last_wgs := (m = unat (remaining_wgs r))\<rparr>"
  shows "pool_inv nt node (set_thread (update_krc s k (Some r')) t td')"
proof -
  let ?td = "thread_pool s t" and ?s = "set_thread (update_krc s k (Some r')) t td'"
  have core: "core_inv nt node s" using inv by (simp add: pool_inv_def)
  note K = krc_ok_core [OF core, of k, unfolded krc_ok_Some [OF r]]
  have old: "holds_krc k ?td" "\<not> unlinks_krc k ?td" "\<not> finalizes_krc k ?td" "\<not> pending_wg k i ?td"
    "works_on k ?td" for i
    using pc k by (simp_all add: td_preds works_on_def)
  have bound: "unat (wgs_dealt r) + m \<le> krc_total r" using m(2) K by linarith
  have mw: "unat (of_nat m :: size_t) = m"
    using m(2) unat_less_size_t [of "remaining_wgs r"] by (intro unat_of_nat_nowrap) simp
  have rem': "unat (remaining_wgs r') = unat (remaining_wgs r) - m"
    using m(2) mw by (simp add: r' nowrap_simps)
  have dealt: "unat (wgs_dealt r') = unat (wgs_dealt r) + m"
    using bound total mw by (simp add: r' unat_add_nowrap)
  have rem0: "remaining_wgs r' = 0 \<longleftrightarrow> m = unat (remaining_wgs r)"
    using rem' m(2) by (auto simp: word_unat_eq_iff)
  have dm: "unat (wgs_dealt r + of_nat m - 1) = unat (wgs_dealt r) + m - 1"
    using dealt m by (simp add: nowrap_simps r')
  have ends: "unat (ucast (wgs_dealt r) :: 32 word) = unat (wgs_dealt r)"
    "unat (ucast (wgs_dealt r + of_nat m - 1) :: 32 word) = unat (wgs_dealt r) + m - 1"
    using bound total dm by (simp_all add: unat_ucast_nowrap)
  have new: "holds_krc k td'" "unlinks_krc k td' \<longleftrightarrow> m = unat (remaining_wgs r)" "\<not> finalizes_krc k td'"
    "pending_wg k i td' \<longleftrightarrow> unat (wgs_dealt r) \<le> i \<and> i < unat (wgs_dealt r) + m"
    "works_on k td'" "td_run_cmd td' = Some k" for i
    using k m(1) by (auto simp: td' td_preds works_on_def ends)
  have keep: "krc_cmd r' = krc_cmd r" "krc_num_groups r' = krc_num_groups r"
    "krc_device r' = krc_device r" "ref_count r' = ref_count r" by (simp_all add: r')
  have heap: "kernel_commands ?s = (kernel_commands s)(k := Some r')" by simp
  have k_ok: "krc_ok nt node ?s k"
  proof -
    have "executed (krc_cmd r) i (sched_trace s) + threads_where nt (pending_wg k i) (thread_pool s) +
        of_bool (unat (wgs_dealt r) \<le> i \<and> i < unat (wgs_dealt r) + m) =
      of_bool (i < unat (wgs_dealt r) + m)" for i
    proof -
      have "executed (krc_cmd r) i (sched_trace s) + threads_where nt (pending_wg k i) (thread_pool s) =
        of_bool (i < unat (wgs_dealt r))" using K by blast
      then show ?thesis using m(1) by auto
    qed
    moreover have "unat (remaining_wgs r') + unat (wgs_dealt r') = krc_total r"
      using rem' dealt m K by linarith
    moreover have "ref_count r \<noteq> 0"
      using K threads_where_pos [of t nt "holds_krc k" "thread_pool s", OF t old(1)] by auto
    ultimately show ?thesis
      using K rem
      unfolding krc_ok_Some [of ?s k r', OF fun_cong [OF heap, THEN trans, OF fun_upd_same]]
      by (simp add: keep dealt new old threads_where_upd [OF t] rem0)
  qed
  have "core_inv nt node ?s"
    by (rule core_inv_krc_step [OF t core r old(5) new(5) heap keep(1,2), OF _ _ _ _ _ _ _ k_ok])
      (use core rem rem0 k m bound in \<open>auto simp: thread_ok_def core_inv_def trace_ok_def keep td' ends\<close>)
  then show ?thesis
    by (rule pool_inv_krc_step [OF _ inv r heap keep(3), where t = t and td' = td']) (simp_all add: td')
qed

lemma pool_inv_deal_work:
  assumes nt: "nt < 2 ^ 24" and nodes: "nodes_ok node" and t: "t < nt" and inv: "pool_inv nt node s"
    and pc: "td_pc (thread_pool s t) = DEAL"
    and res: "deal_work (of_nat nt) s t (the (td_run_cmd (thread_pool s t))) = Some s'"
  shows "pool_inv nt node s'"
proof -
  let ?td = "thread_pool s t"
  have core: "core_inv nt node s" using inv by (simp add: pool_inv_def)
  obtain k r where k: "td_run_cmd ?td = Some k" and r: "kernel_commands s k = Some r"
    and last: "td_last_wgs ?td \<Longrightarrow> remaining_wgs r = 0"
    using thread_ok_krc [OF thread_ok_core [OF core t]] pc by auto
  note K = krc_ok_core [OF core, of k, unfolded krc_ok_Some [OF r]]
  have total: "krc_total r < 2 ^ 32" using K nodes by (auto simp: nodes_ok_def groups_ok_def)
  have ntw: "0 < unat (of_nat nt :: 32 word)" "unat (of_nat nt :: 32 word) < 2 ^ 24"
    using nt t by (simp_all add: unat_of_nat_nowrap)
  show ?thesis
  proof (cases "remaining_wgs r = 0")
    case True
    then have "get_wg_index_range r (td_last_wgs ?td) (of_nat nt) = No_wgs"
      by (simp add: get_wg_index_range_empty)
    then show ?thesis
      using res pool_inv_deal_none [OF t inv pc k r True] by (simp add: deal_work_def Let_def k r)
  next
    case False
    have sum: "unat (wgs_dealt r) + unat (remaining_wgs r) < 2 ^ 32" using K total by linarith
    then have left: "unat (remaining_wgs r) < 2 ^ 32 \<or>
        unat (remaining_wgs r) = 2 ^ 32 \<and> 2 \<le> unat (of_nat nt :: 32 word)" by linarith
    from get_wg_index_range_deals [OF ntw False left, of "td_last_wgs ?td"]
    obtain m where m: "0 < m" "m \<le> unat (remaining_wgs r)"
      and deal: "get_wg_index_range r (td_last_wgs ?td) (of_nat nt) =
        Wgs (ucast (wgs_dealt r)) (ucast (wgs_dealt r + of_nat m - 1))
          (td_last_wgs ?td \<or> m = unat (remaining_wgs r))
          (r\<lparr>remaining_wgs := remaining_wgs r - of_nat m, wgs_dealt := wgs_dealt r + of_nat m\<rparr>)"
      by metis
    have last': "td_last_wgs ?td = False" using last False by auto
    show ?thesis
      using res pool_inv_deal_wgs [OF nt t inv pc k r False total m refl refl]
      by (simp add: deal_work_def Let_def k r last' deal [unfolded last'])
  qed
qed

lemma pool_inv_unlink:
  assumes t: "t < nt" and inv: "pool_inv nt node s" and pc: "td_pc (thread_pool s t) = UNLINK"
    and res: "unlink_kernel s t (the (td_run_cmd (thread_pool s t))) = Some s'"
  shows "pool_inv nt node s'"
proof -
  let ?td = "thread_pool s t"
  define td' where "td' = ?td\<lparr>td_pc := EXEC\<rparr>"
  have core: "core_inv nt node s" using inv by (simp add: pool_inv_def)
  obtain k r where k: "td_run_cmd ?td = Some k" and r: "kernel_commands s k = Some r"
    and last: "td_last_wgs ?td" "remaining_wgs r = 0"
    and ends: "unat (td_end_index ?td) < krc_total r \<and> unat (td_index ?td) \<le> unat (td_end_index ?td) + 1"
    by (rule thread_ok_krc [OF thread_ok_core [OF core t]]) (use pc that in auto)
  note K = krc_ok_core [OF core, of k, unfolded krc_ok_Some [OF r]]
  have kq: "k \<in> set (kernel_queue s)" and eq: "s' = set_thread (s\<lparr>kernel_queue := remove1 k (kernel_queue s)\<rparr>) t td'"
    using res by (simp_all add: unlink_kernel_def k td'_def split: if_splits)
  have heap: "kernel_commands s' = (kernel_commands s)(k := Some r)"
    using r by (simp add: eq fun_upd_idem)
  have r_eq: "kernel_commands s' k = Some r" by (simp add: heap)
  have old: "holds_krc k ?td" "unlinks_krc k ?td" "\<not> finalizes_krc k ?td" "works_on k ?td"
    using pc k by (simp_all add: td_preds works_on_def)
  have new: "holds_krc k td'" "\<not> unlinks_krc k td'" "\<not> finalizes_krc k td'" "works_on k td'"
    "pending_wg k i td' = pending_wg k i ?td" for i
    using k pc by (simp_all add: td'_def td_preds works_on_def)
  have count: "int (count_list (kernel_queue s') k') = int (count_list (kernel_queue s) k') - of_bool (k = k')" for k'
    by (simp add: eq count_list_take [OF kq] del: count_list_remove1)
  have pool: "thread_pool s' = (thread_pool s)(t := td')" "sched_trace s' = sched_trace s"
    by (simp_all add: eq)
  have k_ok: "krc_ok nt node s' k"
  proof -
    have "int (count_list (kernel_queue s') k) =
        of_bool (remaining_wgs r \<noteq> 0) + (threads_where nt (unlinks_krc k) (thread_pool s) - 1)"
      "int (count_list (kernel_queue s') k) \<le> 1"
      using K count [of k] by simp_all
    then show ?thesis
      unfolding krc_ok_Some [OF r_eq] using K by (simp add: pool threads_where_upd [OF t] old new)
  qed
  have "core_inv nt node s'"
    by (rule core_inv_krc_step [OF t core r old(4) new(4) heap refl refl, OF _ _ _ _ _ _ _ k_ok])
      (use core r k last ends in \<open>simp_all add: eq thread_ok_def core_inv_def trace_ok_def td'_def\<close>)
  then show ?thesis
    by (rule pool_inv_krc_step [OF _ inv r heap, where t = t and td' = td'])
      (simp_all add: eq td'_def set_remove1_subset)
qed

lemma pool_inv_exec:
  assumes nodes: "nodes_ok node" and t: "t < nt" and inv: "pool_inv nt node s"
    and pc: "td_pc (thread_pool s t) = EXEC"
    and res: "exec_wg s t (the (td_run_cmd (thread_pool s t))) = Some s'"
  shows "pool_inv nt node s'"
proof -
  let ?td = "thread_pool s t"
  have core: "core_inv nt node s" using inv by (simp add: pool_inv_def)
  obtain k r where k: "td_run_cmd ?td = Some k" and r: "kernel_commands s k = Some r"
    and last: "td_last_wgs ?td \<Longrightarrow> remaining_wgs r = 0"
    and ends: "unat (td_end_index ?td) < krc_total r" "unat (td_index ?td) \<le> unat (td_end_index ?td) + 1"
    by (rule thread_ok_krc [OF thread_ok_core [OF core t]]) (use pc that in auto)
  note K = krc_ok_core [OF core, of k, unfolded krc_ok_Some [OF r]]
  have total: "krc_total r < 2 ^ 32" using K nodes by (auto simp: nodes_ok_def groups_ok_def)
  have old: "holds_krc k ?td" "\<not> unlinks_krc k ?td" "\<not> finalizes_krc k ?td" "works_on k ?td"
    "pending_wg k i ?td \<longleftrightarrow> unat (td_index ?td) \<le> i \<and> i \<le> unat (td_end_index ?td)" for i
    using pc k by (auto simp: td_preds works_on_def)
  show ?thesis
  proof (cases "td_index ?td \<le> td_end_index ?td")
    case True
    define td' where "td' = ?td\<lparr>td_index := td_index ?td + 1\<rparr>"
    define e where "e = Group (krc_cmd r) (td_index ?td) (wg_ids (krc_num_groups r) (td_index ?td))"
    have eq: "s' = set_thread (s\<lparr>sched_trace := sched_trace s @ [e]\<rparr>) t td'"
      using res True by (simp add: exec_wg_def Let_def k r td'_def e_def)
    have le: "unat (td_index ?td) \<le> unat (td_end_index ?td)" using True by (simp add: word_le_nat_alt)
    have idx: "unat (td_index td') = unat (td_index ?td) + 1"
      using le ends(1) total by (simp add: td'_def unat_add_nowrap)
    have heap: "kernel_commands s' = (kernel_commands s)(k := Some r)"
      using r by (simp add: eq fun_upd_idem)
    have r_eq: "kernel_commands s' k = Some r" by (simp add: heap)
    have new: "holds_krc k td'" "\<not> unlinks_krc k td'" "\<not> finalizes_krc k td'" "works_on k td'"
      "pending_wg k i td' \<longleftrightarrow> unat (td_index ?td) < i \<and> i \<le> unat (td_end_index ?td)" for i
      using k pc idx by (auto simp: td'_def td_preds works_on_def)
    have k_ok: "krc_ok nt node s' k"
    proof -
      have "executed (krc_cmd r) i (sched_trace s) + of_bool (i = unat (td_index ?td)) +
          (threads_where nt (pending_wg k i) (thread_pool s) +
           of_bool (unat (td_index ?td) < i \<and> i \<le> unat (td_end_index ?td)) -
           of_bool (unat (td_index ?td) \<le> i \<and> i \<le> unat (td_end_index ?td))) =
        of_bool (i < unat (wgs_dealt r))" for i
      proof -
        have "executed (krc_cmd r) i (sched_trace s) + threads_where nt (pending_wg k i) (thread_pool s) =
          of_bool (i < unat (wgs_dealt r))" using K by blast
        then show ?thesis using le by auto
      qed
      then show ?thesis
        unfolding krc_ok_Some [OF r_eq] using K
        by (simp add: eq threads_where_upd [OF t] old new e_def)
    qed
    have tr: "trace_ok node s'"
      using core K by (auto simp: core_inv_def trace_ok_def eq e_def)
    have "core_inv nt node s'"
      by (rule core_inv_krc_step [OF t core r old(4) new(4) heap refl refl, OF _ _ _ _ _ _ _ k_ok _ tr])
        (use core r k last ends le idx pc in \<open>simp_all add: eq thread_ok_def td'_def e_def\<close>)
    then show ?thesis
      by (rule pool_inv_krc_step [OF _ inv r heap, where t = t and td' = td'])
        (simp_all add: eq td'_def pc)
  next
    case False
    define td' where "td' = ?td\<lparr>td_pc := DEAL\<rparr>"
    have eq: "s' = set_thread s t td'"
      using res False by (simp add: exec_wg_def Let_def k r td'_def)
    have heap: "kernel_commands s' = (kernel_commands s)(k := Some r)"
      using r by (simp add: eq fun_upd_idem)
    have gt: "\<not> pending_wg k i ?td" for i using False by (auto simp: td_preds word_le_nat_alt)
    have new: "holds_krc k td'" "\<not> unlinks_krc k td'" "\<not> finalizes_krc k td'" "works_on k td'"
      "\<not> pending_wg k i td'" for i
      using k by (simp_all add: td'_def td_preds works_on_def)
    have k_ok: "krc_ok nt node s' k"
      by (rule krc_ok_frame [OF krc_ok_core [OF core]])
        (simp_all add: eq threads_where_upd [OF t] old(1-3) gt new)
    have "core_inv nt node s'"
      by (rule core_inv_krc_step [OF t core r old(4) new(4) heap refl refl, OF _ _ _ _ _ _ _ k_ok])
        (use core r k last in \<open>simp_all add: eq thread_ok_def core_inv_def trace_ok_def td'_def\<close>)
    then show ?thesis
      by (rule pool_inv_krc_step [OF _ inv r heap, where t = t and td' = td'])
        (simp_all add: eq td'_def)
  qed
qed

lemma pool_inv_drop:
  assumes nt: "nt < 2 ^ 24" and t: "t < nt" and inv: "pool_inv nt node s"
    and pc: "td_pc (thread_pool s t) = UNREF"
    and res: "drop_kernel node s t (the (td_run_cmd (thread_pool s t))) = Some s'"
  shows "pool_inv nt node s'"
proof -
  let ?td = "thread_pool s t"
  have core: "core_inv nt node s" using inv by (simp add: pool_inv_def)
  obtain k r where k: "td_run_cmd ?td = Some k" and r: "kernel_commands s k = Some r"
    and rem: "remaining_wgs r = 0"
    by (rule thread_ok_krc [OF thread_ok_core [OF core t]]) (use pc that in auto)
  note K = krc_ok_core [OF core, of k, unfolded krc_ok_Some [OF r]]
  define r' where "r' = r\<lparr>ref_count := ref_count r - 1\<rparr>"
  define td' where "td' = ?td\<lparr>td_pc := if ref_count r' = 0 then FINALIZE else GET_WORK\<rparr>"
  let ?s = "set_thread (update_krc s k (Some r')) t td'"
  have old: "holds_krc k ?td" "\<not> unlinks_krc k ?td" "\<not> finalizes_krc k ?td" "\<not> pending_wg k i ?td"
    "works_on k ?td" for i
    using pc k by (simp_all add: td_preds works_on_def)
  have new: "\<not> holds_krc k td'" "\<not> unlinks_krc k td'" "finalizes_krc k td' \<longleftrightarrow> ref_count r' = 0"
    "\<not> pending_wg k i td'" "works_on k td'" "td_run_cmd td' = Some k" "td_pc td' \<noteq> SLEEPING" for i
    using k by (auto simp: td'_def td_preds works_on_def idle_def)
  have "ref_count r \<noteq> 0"
    using K threads_where_pos [of t nt "holds_krc k" "thread_pool s", OF t old(1)] by auto
  then have pos: "1 \<le> unat (ref_count r)" by (simp add: Suc_le_eq unat_gt_0)
  then have "unat (ref_count r') = unat (ref_count r) - 1"
    by (simp add: r'_def nowrap_simps)
  then have ref: "int (unat (ref_count r')) = int (unat (ref_count r)) - 1"
    using pos by (simp only: of_nat_diff of_nat_1)
  have keep: "krc_cmd r' = krc_cmd r" "krc_num_groups r' = krc_num_groups r" "krc_device r' = krc_device r"
    "remaining_wgs r' = 0" "wgs_dealt r' = wgs_dealt r"
    by (simp_all add: r'_def rem)
  have heap: "kernel_commands ?s = (kernel_commands s)(k := Some r')" by simp
  have r_eq: "kernel_commands ?s k = Some r'" by simp
  have "ref_count r \<noteq> 0" using pos by auto
  then have k_ok: "krc_ok nt node ?s k"
    unfolding krc_ok_Some [OF r_eq] using K ref
    by (simp add: keep threads_where_upd [OF t] old new rem)
  have step: "core_inv nt node ?s"
    by (rule core_inv_krc_step [OF t core r old(5) new(5) heap keep(1,2), OF _ _ _ _ _ _ _ k_ok])
      (use core k keep(4) in \<open>simp_all add: thread_ok_def core_inv_def trace_ok_def td'_def\<close>)
  show ?thesis
  proof (cases "ref_count r' = 0")
    case True
    then have eq: "s' = ?s"
      using res by (simp add: drop_kernel_def Let_def k r r'_def [symmetric] td'_def)
    show ?thesis
      unfolding eq
      by (rule pool_inv_krc_step [OF step inv r heap keep(3), where t = t and td' = td'])
        (simp_all add: new)
  next
    case False
    then have eq: "s' = check_commands node (update_krc s k (Some r')) t ?td"
      using res by (simp add: drop_kernel_def Let_def k r r'_def [symmetric])
    have sleep: "sleep_ok node (update_krc s k (Some r')) u" if "u < nt" for u
      by (rule sleep_ok_frame [of node s])
        (use inv that r keep(3) in \<open>simp_all add: pool_inv_def runs_kernel_def\<close>)
    show ?thesis
      unfolding eq
      by (rule pool_inv_check_commands [OF t]) (use step False sleep k in \<open>simp_all add: td'_def\<close>)
  qed
qed

lemma threads_where_none:
  assumes "\<And>td. P td \<Longrightarrow> Q td" and "threads_where nt Q th = 0"
  shows "threads_where nt P th = 0"
  using threads_where_mono [of P Q nt th, OF assms(1)] threads_where_nonneg [of nt P th] assms(2)
  by simp

lemma thread_ok_mono:
  assumes "thread_ok s td"
    and "\<And>k r. td_pc td \<in> {DEAL, UNLINK, EXEC, UNREF, FINALIZE} \<Longrightarrow> td_run_cmd td = Some k \<Longrightarrow>
      kernel_commands s k = Some r \<Longrightarrow> kernel_commands s' k = Some r"
  shows "thread_ok s' td"
  using assms unfolding thread_ok_def by blast

lemma in_heap_remove:
  assumes "kernel_commands s k = Some r" and "kernel_commands s' = (kernel_commands s)(k := None)"
    and "heap_ok s"
  shows "in_heap s' c \<longleftrightarrow> in_heap s c \<and> c \<noteq> krc_cmd r"
proof
  assume "in_heap s' c"
  then obtain k' r' where k': "kernel_commands s' k' = Some r'" "krc_cmd r' = c" by (auto simp: in_heap_def)
  then have "k' \<noteq> k" and "kernel_commands s k' = Some r'" using assms(2) by (auto split: if_splits)
  then show "in_heap s c \<and> c \<noteq> krc_cmd r"
    using assms(1,3) k'(2) unfolding in_heap_def heap_ok_def by blast
next
  assume a: "in_heap s c \<and> c \<noteq> krc_cmd r"
  then obtain k' r' where k': "kernel_commands s k' = Some r'" "krc_cmd r' = c" by (auto simp: in_heap_def)
  then have "k' \<noteq> k" using a assms(1) by auto
  then show "in_heap s' c" using k' assms(2) by (auto simp: in_heap_def)
qed

lemma pool_inv_finalize:
  assumes t: "t < nt" and nodes: "nodes_ok node" and inv: "pool_inv nt node s"
    and pc: "td_pc (thread_pool s t) = FINALIZE"
    and res: "finalize_kernel_command s t (the (td_run_cmd (thread_pool s t))) = Some s'"
  shows "pool_inv nt node s'"
proof -
  let ?td = "thread_pool s t"
  define td' where "td' = ?td\<lparr>td_pc := CHECK_CMD\<rparr>"
  have core: "core_inv nt node s" using inv by (simp add: pool_inv_def)
  obtain k r where k: "td_run_cmd ?td = Some k" and r: "kernel_commands s k = Some r"
    by (rule thread_ok_krc [OF thread_ok_core [OF core t]]) (use pc that in auto)
  note K = krc_ok_core [OF core, of k, unfolded krc_ok_Some [OF r]]
  have eq: "s' = set_thread (update_krc (s\<lparr>sched_trace := sched_trace s @ [Complete (krc_cmd r)]\<rparr>) k None) t td'"
    using res by (simp add: finalize_kernel_command_def k r td'_def)
  have heap: "in_heap s' c \<longleftrightarrow> in_heap s c \<and> c \<noteq> krc_cmd r" for c
    by (rule in_heap_remove [OF r]) (use core in \<open>simp_all add: eq core_inv_def\<close>)
  have idle: "idle td'" by (simp add: td'_def idle_def k)
  have old: "\<not> holds_krc k' ?td" "\<not> unlinks_krc k' ?td" "finalizes_krc k' ?td \<longleftrightarrow> k' = k"
    "\<not> pending_wg k' i ?td" "\<not> commands c ?td" for k' i c
    using pc k by (auto simp: td_preds)
  have fin: "remaining_wgs r = 0" "ref_count r = 0"
  proof -
    have "threads_where nt (finalizes_krc k) (thread_pool s) = of_bool (remaining_wgs r = 0 \<and> ref_count r = 0)"
      using K by blast
    then have "remaining_wgs r = 0 \<and> ref_count r = 0"
      using threads_where_pos [of t nt "finalizes_krc k" "thread_pool s", OF t] old(3) [of k]
      by (cases "remaining_wgs r = 0 \<and> ref_count r = 0") (simp_all only: of_bool_eq simp_thms, simp)
    then show "remaining_wgs r = 0" "ref_count r = 0" by simp_all
  qed
  then have none: "threads_where nt (holds_krc k) (thread_pool s) = 0"
    "threads_where nt (finalizes_krc k) (thread_pool s) = 1" using K by simp_all
  then have nun: "threads_where nt (unlinks_krc k) (thread_pool s) = 0"
    "threads_where nt (pending_wg k i) (thread_pool s) = 0" for i
    using threads_where_none [of "unlinks_krc k" "holds_krc k", OF unlinks_holds]
      threads_where_none [of "pending_wg k i" "holds_krc k", OF pending_holds] by simp_all
  note upd = threads_where_upd [OF t] old idle_preds [OF idle]
  have k_none: "krc_ok nt node s' k"
  proof -
    have "count_list (kernel_queue s) k = 0" using K fin nun by simp
    then show ?thesis using none by (simp add: krc_ok_def eq upd count_list_0_iff)
  qed
  have "krc_ok nt node s' k'" for k'
  proof (cases "k' = k")
    case True
    then show ?thesis using k_none by simp
  next
    case False
    then show ?thesis by (intro krc_ok_frame [OF krc_ok_core [OF core]]) (simp_all add: eq upd)
  qed
  moreover have "cmd_ok nt node s' c" for c
  proof (cases "c = krc_cmd r")
    case True
    have gone: "\<not> in_heap s' c"
      using heap by (simp add: True)
    have "in_heap s c" using r by (auto simp: in_heap_def True)
    moreover have "executed c i (sched_trace s) = of_bool (i < krc_total r)" for i
    proof -
      have "executed (krc_cmd r) i (sched_trace s) + threads_where nt (pending_wg k i) (thread_pool s) =
        of_bool (i < unat (wgs_dealt r))" using K by blast
      moreover have "unat (wgs_dealt r) = krc_total r" using K fin by simp
      ultimately show ?thesis using nun by (simp add: True)
    qed
    moreover have "0 \<le> completions c (sched_trace s)" by (simp add: completions_def)
    ultimately show ?thesis
      using cmd_ok_core [OF core, of c] gone K
      by (simp add: cmd_ok_def eq upd True)
  next
    case False
    have "in_heap s' c = in_heap s c"
      using False heap by simp
    then show ?thesis
      by (intro cmd_ok_frame [OF cmd_ok_core [OF core]]) (use False in \<open>simp_all add: eq upd\<close>)
  qed
  moreover have "thread_ok s' (thread_pool s' u)" if u: "u < nt" for u
  proof (cases "u = t")
    case True
    then show ?thesis by (simp add: eq idle_preds [OF idle])
  next
    case False
    have "threads_where nt (finalizes_krc k) (thread_pool s') = 0"
      using none by (simp add: eq upd)
    then have "\<not> finalizes_krc k (thread_pool s u)" "\<not> holds_krc k (thread_pool s u)"
      using threads_where_pos [OF u, of "finalizes_krc k" "thread_pool s'"] False
        threads_where_pos [OF u, of "holds_krc k" "thread_pool s"] none
      by (auto simp: eq)
    then have other: "td_run_cmd (thread_pool s u) \<noteq> Some k"
      if "td_pc (thread_pool s u) \<in> {DEAL, UNLINK, EXEC, UNREF, FINALIZE}"
      using that by (auto simp: td_preds)
    have same: "thread_pool s' u = thread_pool s u" using False by (simp add: eq)
    show ?thesis
      unfolding same
    proof (rule thread_ok_mono [OF thread_ok_core [OF core u]])
      fix k0 r0
      assume "td_pc (thread_pool s u) \<in> {DEAL, UNLINK, EXEC, UNREF, FINALIZE}"
        "td_run_cmd (thread_pool s u) = Some k0" "kernel_commands s k0 = Some r0"
      then show "kernel_commands s' k0 = Some r0" using other by (auto simp: eq)
    qed
  qed
  moreover have "heap_ok s'" using core by (auto simp: core_inv_def heap_ok_def eq)
  moreover have "trace_ok node s'" using core by (simp add: core_inv_def trace_ok_def eq)
  ultimately have core': "core_inv nt node s'" by (simp add: core_inv_def)
  have "k \<notin> set (kernel_queue s)" using k_none by (simp add: krc_ok_def eq)
  then have "sleep_ok node s' u" if "u < nt" for u
  proof (cases "u = t")
    case True
    then show ?thesis by (simp add: sleep_ok_def eq td'_def)
  next
    case False
    show ?thesis
      by (rule sleep_ok_frame [of node s])
        (use inv that False \<open>k \<notin> set (kernel_queue s)\<close> in \<open>auto simp: pool_inv_def runs_kernel_def eq\<close>)
  qed
  then show ?thesis using core' by (simp add: pool_inv_def)
qed

lemma command_state:
  assumes t: "t < nt" and core: "core_inv nt node s" and pc: "td_pc (thread_pool s t) = COMMAND"
    and c: "td_cmd (thread_pool s t) = Some c"
  shows "\<not> in_heap s c" and "completions c (sched_trace s) = 0" and "executed c i (sched_trace s) = 0"
    and "count_list (work_queue s) c = 0" and "threads_where nt (commands c) (thread_pool s) = 1"
proof -
  have "1 \<le> threads_where nt (commands c) (thread_pool s)"
    by (rule threads_where_pos [OF t]) (simp add: td_preds pc c)
  moreover have "0 \<le> completions c (sched_trace s)" by (simp add: completions_def)
  moreover have "int (count_list (work_queue s) c) + threads_where nt (commands c) (thread_pool s) +
      of_bool (in_heap s c) + completions c (sched_trace s) \<le> 1"
    using cmd_ok_core [OF core, of c] by (simp add: cmd_ok_def)
  moreover have "(0::int) \<le> of_bool (in_heap s c)" by simp
  ultimately have "of_bool (in_heap s c) = (0::int)" and comp: "completions c (sched_trace s) = 0"
    and "int (count_list (work_queue s) c) = 0"
    and one: "threads_where nt (commands c) (thread_pool s) = 1" by linarith+
  then show nh: "\<not> in_heap s c" and "completions c (sched_trace s) = 0"
    and "count_list (work_queue s) c = 0" and "threads_where nt (commands c) (thread_pool s) = 1"
    by simp_all
  show "executed c i (sched_trace s) = 0"
    using cmd_ok_core [OF core, of c] nh comp by (simp add: cmd_ok_def)
qed

lemma command_preds:
  assumes "td_pc td = COMMAND" and "td_cmd td = Some c"
  shows "\<not> holds_krc k td" and "\<not> unlinks_krc k td" and "\<not> finalizes_krc k td"
    and "\<not> pending_wg k i td" and "commands d td \<longleftrightarrow> d = c"
  using assms by (auto simp: td_preds)

lemma pool_inv_plain_command:
  assumes t: "t < nt" and inv: "pool_inv nt node s" and pc: "td_pc (thread_pool s t) = COMMAND"
    and c: "td_cmd (thread_pool s t) = Some c" and plain: "\<not> cmd_is_kernel (node c)"
    and idle: "idle td'" and awake: "td_pc td' \<noteq> SLEEPING"
  shows "pool_inv nt node (set_thread (s\<lparr>sched_trace := sched_trace s @ [Complete c]\<rparr>) t td')"
    (is "pool_inv nt node ?s")
proof -
  have core: "core_inv nt node s" using inv by (simp add: pool_inv_def)
  note upd = threads_where_upd [OF t] command_preds [OF pc c] idle_preds [OF idle]
  have krc: "krc_ok nt node ?s k" for k
    by (rule krc_ok_frame [OF krc_ok_core [OF core]]) (simp_all add: upd)
  have heap: "in_heap ?s d = in_heap s d" for d by (simp add: in_heap_def)
  have cmd: "cmd_ok nt node ?s d" for d
  proof (cases "d = c")
    case True
    then show ?thesis
      using cmd_ok_core [OF core, of c] command_state [OF t core pc c] plain
      by (simp add: cmd_ok_def upd heap)
  next
    case False
    then show ?thesis
      by (intro cmd_ok_frame [OF cmd_ok_core [OF core]]) (simp_all add: upd heap)
  qed
  have threads: "thread_ok ?s (thread_pool ?s u)" if "u < nt" for u
    using thread_ok_core [OF core that] idle_preds(6) [OF idle]
    by (cases "u = t") (simp_all add: thread_ok_frame [of ?s s])
  have sleep: "sleep_ok node ?s u" if "u < nt" for u
  proof (cases "u = t")
    case True
    then show ?thesis using awake by (simp add: sleep_ok_def)
  next
    case False
    have "sleep_ok node s u" using inv that by (simp add: pool_inv_def)
    then show ?thesis
      by (rule sleep_ok_frame) (use False in \<open>simp_all add: runs_kernel_def\<close>)
  qed
  have "heap_ok ?s" "trace_ok node ?s"
    using core by (simp_all add: core_inv_def heap_ok_def trace_ok_def)
  then show ?thesis
    using krc cmd threads sleep unfolding pool_inv_def core_inv_def by blast
qed

lemma core_inv_new_kernel:
  assumes t: "t < nt" and core: "core_inv nt node s" and nodes: "nodes_ok node"
    and pc: "td_pc (thread_pool s t) = COMMAND"
    and c: "td_cmd (thread_pool s t) = Some c" and kernel: "cmd_is_kernel (node c)"
    and idle: "idle td'" and a: "kernel_commands s a = None"
    and r: "r = \<lparr>krc_cmd = c, krc_device = cmd_device (node c), krc_num_groups = cmd_num_groups (node c),
      remaining_wgs = n, wgs_dealt = 0, ref_count = 0\<rparr>"
    and n: "unat n = total_wgs (cmd_num_groups (node c))"
  shows "core_inv nt node (set_thread ((update_krc s a (Some r))\<lparr>kernel_queue := kernel_queue s @ [a]\<rparr>) t td')"
    (is "core_inv nt node ?s")
proof -
  note upd = threads_where_upd [OF t] command_preds [OF pc c] idle_preds [OF idle]
  note C = command_state [OF t core pc c]
  have A: "threads_where nt (holds_krc a) (thread_pool s) = 0"
    "threads_where nt (finalizes_krc a) (thread_pool s) = 0" "a \<notin> set (kernel_queue s)"
    using krc_ok_core [OF core, of a] a by (simp_all add: krc_ok_def)
  have A': "threads_where nt (unlinks_krc a) (thread_pool s) = 0"
    "threads_where nt (pending_wg a i) (thread_pool s) = 0" for i
    using threads_where_none [of "unlinks_krc a" "holds_krc a", OF unlinks_holds]
      threads_where_none [of "pending_wg a i" "holds_krc a", OF pending_holds] A(1) by simp_all
  have n0: "n \<noteq> 0" using n nodes kernel by (auto simp: nodes_ok_def groups_ok_def)
  have r_eq: "kernel_commands ?s a = Some r" by simp
  have ak: "krc_ok nt node ?s a"
  proof -
    have "count_list (kernel_queue s) a = 0" using A(3) by (simp add: count_list_0_iff)
    then show ?thesis
      unfolding krc_ok_Some [OF r_eq] using A(1,2) A' C(3) n n0 kernel by (simp add: r upd)
  qed
  have krc: "krc_ok nt node ?s k" for k
  proof (cases "k = a")
    case False
    then show ?thesis by (intro krc_ok_frame [OF krc_ok_core [OF core]]) (simp_all add: upd)
  qed (use ak in simp)
  have fresh: "krc_cmd r0 \<noteq> c" if "kernel_commands s k = Some r0" for k r0
    using C(1) that by (auto simp: in_heap_def)
  have heap: "in_heap ?s d \<longleftrightarrow> in_heap s d \<or> d = c" for d
  proof -
    have "in_heap ?s c" using r_eq by (auto simp: in_heap_def r)
    moreover have "(\<exists>r0. kernel_commands ?s k = Some r0 \<and> krc_cmd r0 = d) \<longleftrightarrow>
      (\<exists>r0. kernel_commands s k = Some r0 \<and> krc_cmd r0 = d)" if "d \<noteq> c" for k
      using that a by (cases "k = a") (simp_all add: r)
    ultimately show ?thesis by (cases "d = c") (simp_all add: in_heap_def)
  qed
  have cmd: "cmd_ok nt node ?s d" for d
  proof (cases "d = c")
    case True
    then show ?thesis using cmd_ok_core [OF core, of c] C by (simp add: cmd_ok_def upd heap)
  next
    case False
    then show ?thesis by (intro cmd_ok_frame [OF cmd_ok_core [OF core]]) (simp_all add: upd heap)
  qed
  have threads: "thread_ok ?s (thread_pool ?s u)" if "u < nt" for u
  proof (cases "u = t")
    case True
    then show ?thesis using idle_preds(6) [OF idle] by simp
  next
    case False
    have "kernel_commands ?s k = Some r0" if "kernel_commands s k = Some r0" for k r0
      using that a by auto
    then have "thread_ok ?s (thread_pool s u)"
      by (rule thread_ok_mono [OF thread_ok_core [OF core that]])
    then show ?thesis using False by simp
  qed
  have "heap_ok ?s"
    unfolding heap_ok_def
  proof (intro allI impI)
    fix k1 k2 r1 r2
    assume b: "kernel_commands ?s k1 = Some r1" "kernel_commands ?s k2 = Some r2" "krc_cmd r1 = krc_cmd r2"
    show "k1 = k2"
    proof (cases "k1 = a \<or> k2 = a")
      case True
      then show ?thesis using b fresh [of k1 r1] fresh [of k2 r2] by (auto simp: r split: if_splits)
    next
      case False
      then show ?thesis using b core by (auto simp: core_inv_def heap_ok_def)
    qed
  qed
  moreover have "trace_ok node ?s" using core by (simp add: core_inv_def trace_ok_def)
  ultimately show ?thesis using krc cmd threads unfolding core_inv_def by blast
qed


lemma set_thread_wake:
  "td_pc td \<noteq> SLEEPING \<Longrightarrow> set_thread (wake_pool s) t td = wake_pool (set_thread s t td)"
  by (simp add: set_thread_def wake_pool_def fun_eq_iff)

lemma pool_inv_run_command:
  assumes nodes: "nodes_ok node" and t: "t < nt" and inv: "pool_inv nt node s"
    and a: "kernel_commands s a = None" and pc: "td_pc (thread_pool s t) = COMMAND"
  shows "pool_inv nt node (run_command node a s t (the (td_cmd (thread_pool s t))))"
proof -
  let ?td = "thread_pool s t"
  have core: "core_inv nt node s" using inv by (simp add: pool_inv_def)
  obtain c where c: "td_cmd ?td = Some c"
    using thread_ok_core [OF core t] pc by (auto simp: thread_ok_def)
  define td' where "td' = leave_get_work (?td\<lparr>executed_commands := executed_commands ?td + 1\<rparr>)"
  have idle: "idle td'" "td_pc td' \<noteq> SLEEPING" by (simp_all add: td'_def leave_get_work_def idle_def)
  show ?thesis
  proof (cases "cmd_is_kernel (node c)")
    case False
    then show ?thesis
      using pool_inv_plain_command [OF t inv pc c False idle]
      by (simp add: run_command_def c td'_def Let_def)
  next
    case True
    obtain nx ny nz where g: "cmd_num_groups (node c) = (nx, ny, nz)"
      by (cases "cmd_num_groups (node c)") auto
    have "groups_ok (nx, ny, nz)" using nodes True g by (simp add: nodes_ok_def flip: g)
    then have n: "unat (nx * ny * nz) = total_wgs (cmd_num_groups (node c))"
      using groups_ok_bounds(8) by (simp add: g total_wgs_def)
    define r where "r = \<lparr>krc_cmd = c, krc_device = cmd_device (node c), krc_num_groups = cmd_num_groups (node c),
      remaining_wgs = nx * ny * nz, wgs_dealt = 0, ref_count = 0\<rparr>"
    let ?s = "(update_krc s a (Some r))\<lparr>kernel_queue := kernel_queue s @ [a]\<rparr>"
    have td: "thread_pool (wake_pool ?s) t = ?td" by (simp add: wake_pool_thread pc)
    have "run_command node a s t c = set_thread (wake_pool ?s) t td'"
      using td by (simp add: run_command_def True pocl_pthread_prepare_kernel_def g
        pthread_scheduler_push_kernel_def r_def td'_def Let_def)
    also have "\<dots> = wake_pool (set_thread ?s t td')" by (rule set_thread_wake [OF idle(2)])
    finally show ?thesis
      using core_inv_wake [OF core_inv_new_kernel [OF t core nodes pc c True idle(1) a r_def n]]
      by (simp add: c)
  qed
qed

lemma pool_inv_spurious:
  assumes t: "t < nt" and inv: "pool_inv nt node s" and pc: "td_pc (thread_pool s t) = SLEEPING"
  shows "pool_inv nt node (set_thread s t ((thread_pool s t)\<lparr>td_pc := GET_WORK\<rparr>))"
proof -
  have "core_inv nt node (set_thread s t (thread_pool s t))"
    using inv by (simp add: pool_inv_def set_thread_same)
  then have "core_inv nt node (set_thread s t ((thread_pool s t)\<lparr>td_pc := GET_WORK\<rparr>))"
    by (rule core_inv_idle [OF t, rotated 2]) (simp_all add: idle_def pc)
  moreover have "sleep_ok node (set_thread s t ((thread_pool s t)\<lparr>td_pc := GET_WORK\<rparr>)) u" if "u < nt" for u
    using inv that by (cases "u = t") (simp_all add: pool_inv_def sleep_ok_def runs_kernel_def)
  ultimately show ?thesis by (simp add: pool_inv_def)
qed

lemma pool_inv_check_cmd:
  assumes t: "t < nt" and inv: "pool_inv nt node s" and pc: "td_pc (thread_pool s t) = CHECK_CMD"
  shows "pool_inv nt node (check_commands node s t (thread_pool s t))"
proof (rule pool_inv_check_commands [OF t])
  have "thread_ok s (thread_pool s t)" using inv t by (simp add: pool_inv_def core_inv_def)
  then have run: "td_run_cmd (thread_pool s t) \<noteq> None" using pc by (simp add: thread_ok_def)
  then show "\<forall>k \<in> set (kernel_queue s). \<not> runs_kernel s t k" if "td_run_cmd (thread_pool s t) = None"
    using that by simp
  have "core_inv nt node (set_thread s t (thread_pool s t))"
    using inv by (simp add: pool_inv_def set_thread_same)
  then show "core_inv nt node (set_thread s t ((thread_pool s t)\<lparr>td_pc := GET_WORK\<rparr>))"
    by (rule core_inv_idle [OF t, rotated 2]) (simp_all add: idle_def pc run)
qed (use inv in \<open>simp_all add: pool_inv_def\<close>)

lemma pool_inv_thread_step:
  assumes nt: "nt < 2 ^ 24" and nodes: "nodes_ok node" and t: "t < nt" and inv: "pool_inv nt node s"
    and a: "kernel_commands s a = None" and res: "thread_step (of_nat nt) node a s t = Some s'"
  shows "pool_inv nt node s'"
proof (cases "td_pc (thread_pool s t)")
  case GET_WORK
  then show ?thesis using pool_inv_get_work [OF nt t inv] res by (simp add: thread_step_def Let_def)
next
  case DEAL
  then show ?thesis using pool_inv_deal_work [OF nt nodes t inv] res by (simp add: thread_step_def Let_def)
next
  case UNLINK
  then show ?thesis using pool_inv_unlink [OF t inv] res by (simp add: thread_step_def Let_def)
next
  case EXEC
  then show ?thesis using pool_inv_exec [OF nodes t inv] res by (simp add: thread_step_def Let_def)
next
  case UNREF
  then show ?thesis using pool_inv_drop [OF nt t inv] res by (simp add: thread_step_def Let_def)
next
  case FINALIZE
  then show ?thesis using pool_inv_finalize [OF t nodes inv] res by (simp add: thread_step_def Let_def)
next
  case CHECK_CMD
  then show ?thesis using pool_inv_check_cmd [OF t inv] res by (auto simp: thread_step_def Let_def)
next
  case COMMAND
  then show ?thesis using pool_inv_run_command [OF nodes t inv a] res by (auto simp: thread_step_def Let_def)
qed (use res in \<open>simp_all add: thread_step_def Let_def\<close>)

lemma pool_inv_step:
  assumes "pool_step nt node s s'" and "nt < 2 ^ 24" and "nodes_ok node" and "pool_inv nt node s"
  shows "pool_inv nt node s'"
  using assms
  by (cases rule: pool_step.cases)
    (auto intro: pool_inv_thread_step pool_inv_spurious pool_inv_push_command pool_inv_uninit)

lemma pool_inv_reachable:
  assumes "pool_reachable nt node s" and "nt < 2 ^ 24" and "nodes_ok node"
  shows "pool_inv nt node s"
  using assms by induction (auto intro: pool_inv_init pool_inv_step)

section \<open>What the pool guarantees\<close>

text \<open>The work-group ids run for a command, in order.\<close>

fun groups_run :: "nat \<Rightarrow> sched_event list \<Rightarrow> (size_t \<times> size_t \<times> size_t) list" where
  "groups_run c [] = []"
| "groups_run c (Group d i g # tr) = (if d = c then g # groups_run c tr else groups_run c tr)"
| "groups_run c (Complete d # tr) = groups_run c tr"

lemma executed_Cons: "executed c i (e # tr) = of_bool (is_group c i e) + executed c i tr"
  by (simp add: executed_def)

lemma executed_tail: "executed c i tr \<le> executed c i (e # tr)"
  by (simp add: executed_Cons)

lemma executed_nonneg: "0 \<le> executed c i tr"
  by (simp add: executed_def)

lemma executed_mem: "Group c i g \<in> set tr \<Longrightarrow> 1 \<le> executed c (unat i) tr"
proof (induction tr)
  case (Cons e tr)
  then show ?case using executed_nonneg [of c "unat i" tr] by (auto simp: executed_Cons)
qed simp

lemma executed_pos: "0 < executed c n tr \<Longrightarrow> \<exists>i g. Group c i g \<in> set tr \<and> unat i = n"
proof (induction tr)
  case (Cons e tr)
  show ?case
  proof (cases "is_group c n e")
    case True
    then obtain i g where "e = Group c i g" "unat i = n" by (cases e) auto
    then show ?thesis by (intro exI [of _ i] exI [of _ g]) simp
  next
    case False
    then have "0 < executed c n tr" using Cons(2) by (simp add: executed_Cons)
    then obtain i g where "Group c i g \<in> set tr" "unat i = n" using Cons(1) by blast
    then show ?thesis by (intro exI [of _ i] exI [of _ g]) simp
  qed
qed simp

lemma groups_run_mem: "g \<in> set (groups_run c tr) \<longleftrightarrow> (\<exists>i. Group c i g \<in> set tr)"
  by (induction c tr rule: groups_run.induct) auto

text \<open>A trace that runs each index below \<open>n\<close> once, with the right ids, covers the grid once.\<close>

lemma groups_run_distinct:
  assumes "\<And>i. executed c i tr \<le> 1" and "\<And>i g. Group c i g \<in> set tr \<Longrightarrow> f g = unat i"
  shows "distinct (groups_run c tr)"
  using assms
proof (induction c tr rule: groups_run.induct)
  case (2 c d i g tr)
  have le: "executed c j tr \<le> 1" for j
    by (rule order_trans [OF executed_tail 2(3)])
  have ids: "f g' = unat i'" if "Group c i' g' \<in> set tr" for i' g' using 2(4) that by simp
  show ?case
  proof (cases "d = c")
    case True
    have "g \<notin> set (groups_run c tr)"
    proof
      assume "g \<in> set (groups_run c tr)"
      then obtain j where j: "Group c j g \<in> set tr" by (auto simp: groups_run_mem)
      then have "unat j = unat i" using ids [OF j] 2(4) [of i g] True by simp
      then show False
        using executed_mem [OF j] 2(3) [of "unat i"] True by (simp add: executed_Cons)
    qed
    then show ?thesis using 2(1) True le ids by simp
  next
    case False
    then show ?thesis using 2(2) le ids by simp
  qed
next
  case (3 c d tr)
  have "executed c j tr \<le> 1" for j using 3(2) [of j] by (simp add: executed_Cons)
  then show ?case using 3(1,3) by simp
qed simp


lemma krc_ok_idle_pool:
  assumes "krc_ok nt node s k" and "\<And>t. t < nt \<Longrightarrow> idle (thread_pool s t)"
    and "kernel_commands s k = Some r"
  shows "k \<in> set (kernel_queue s)"
proof -
  have none: "threads_where nt P (thread_pool s) = 0" if "\<And>t. t < nt \<Longrightarrow> \<not> P (thread_pool s t)" for P
    using that by (simp add: threads_where_def)
  have "threads_where nt (holds_krc k) (thread_pool s) = 0"
    "threads_where nt (finalizes_krc k) (thread_pool s) = 0"
    "threads_where nt (unlinks_krc k) (thread_pool s) = 0"
    by (rule none, use assms(2) idle_preds in blast)+
  then have "int (count_list (kernel_queue s) k) = of_bool (remaining_wgs r \<noteq> 0)"
    "remaining_wgs r \<noteq> 0"
    using assms(1) by (auto simp: krc_ok_Some [OF assms(3)] uint_0_iff)
  then have "count_list (kernel_queue s) k \<noteq> 0" by (cases "count_list (kernel_queue s) k") simp_all
  then show ?thesis by (simp add: count_list_0_iff)
qed

text \<open>Runs of a one-thread pool, to exhibit reachable states.\<close>

fun solo_run :: "(nat \<Rightarrow> cmd_node) \<Rightarrow> nat \<Rightarrow> nat \<Rightarrow> scheduler_data \<Rightarrow> scheduler_data option" where
  "solo_run node a 0 s = Some s"
| "solo_run node a (Suc n) s =
     (let a' = (case kernel_commands s a of None \<Rightarrow> a | Some r \<Rightarrow> a + 1) in
      case kernel_commands s a' of
        Some r \<Rightarrow> None
      | None \<Rightarrow> (case thread_step 1 node a' s 0 of None \<Rightarrow> None | Some s' \<Rightarrow> solo_run node a n s'))"

lemma solo_run_reachable:
  "pool_reachable 1 node s \<Longrightarrow> solo_run node a n s = Some s' \<Longrightarrow> pool_reachable 1 node s'"
proof (induction n arbitrary: s)
  case (Suc n)
  then obtain a' s1 where "kernel_commands s a' = None" "thread_step 1 node a' s 0 = Some s1"
    and s1: "solo_run node a n s1 = Some s'"
    by (auto simp: Let_def split: option.splits)
  then have "pool_step 1 node s s1" by (intro Thread [of 0]) simp_all
  then show ?case using Suc.IH [OF Step [OF Suc(2)] s1] by blast
qed simp

definition demo_node :: "nat \<Rightarrow> cmd_node" where
  "demo_node c = \<lparr>cmd_is_kernel = True, cmd_device = None, cmd_num_groups = (2, 1, 1)\<rparr>"

definition demo_start :: scheduler_data where
  "demo_start = pthread_scheduler_push_command pthread_scheduler_init 0"

lemma demo_nodes_ok: "nodes_ok demo_node"
  by (simp add: nodes_ok_def demo_node_def groups_ok_def total_wgs_def)

lemma demo_start_reachable: "pool_reachable 1 demo_node demo_start"
  unfolding demo_start_def
  by (rule Step [OF Init Push]) (simp add: pthread_scheduler_init_def)

lemma demo_trace:
  "map_option sched_trace (solo_run demo_node 0 11 demo_start) =
     Some [Group 0 0 (0, 0, 0), Group 0 1 (1, 0, 0), Complete 0]"
  by code_simp

lemma demo_asleep:
  "map_option (\<lambda>s. (td_pc (thread_pool s 0), submitted s)) (solo_run demo_node 0 13 demo_start) =
     Some (SLEEPING, {0})"
  by code_simp

text \<open>
  C5: Whatever the interleaving of the worker threads, when a kernel command is completed each of
  its work-groups has been run exactly once, with ids that enumerate the whole grid, and the command
  is completed once; nothing is run for it afterwards since this holds of every later state too.
\<close>

theorem work_groups_run_exactly_once:
  assumes "pool_reachable nt node s" and "nt < 2 ^ 24" and "nodes_ok node"
    and "cmd_is_kernel (node c)" and "Complete c \<in> set (sched_trace s)"
  shows "distinct (groups_run c (sched_trace s)) \<and>
    set (groups_run c (sched_trace s)) = {g. in_grid (cmd_num_groups (node c)) g} \<and>
    count_list (sched_trace s) (Complete c) = 1"
proof -
  let ?g = "cmd_num_groups (node c)" and ?tr = "sched_trace s"
  have inv: "core_inv nt node s" using pool_inv_reachable [OF assms(1-3)] by (simp add: pool_inv_def)
  have ok: "groups_ok ?g" using assms(3,4) by (simp add: nodes_ok_def)
  note C = cmd_ok_core [OF inv, of c, unfolded cmd_ok_def]
  have "count_list ?tr (Complete c) \<noteq> 0" using assms(5) by (simp add: count_list_0_iff)
  then have pos: "1 \<le> completions c ?tr" by (simp add: completions_def)
  have "of_bool (in_heap s c) + completions c ?tr \<le> 1"
  proof -
    have "of_bool (c \<in> submitted s) \<le> (1::int)" by simp
    then show ?thesis
      using C [THEN conjunct1] threads_where_nonneg [of nt "commands c" "thread_pool s"] by linarith
  qed
  then have nh: "\<not> in_heap s c" and one: "completions c ?tr = 1"
    using pos by (cases "in_heap s c"; simp)+
  then have ex: "executed c i ?tr = of_bool (i < total_wgs ?g)" for i using C assms(4) by simp
  have ids: "g = wg_ids ?g i \<and> unat i < total_wgs ?g" if "Group c i g \<in> set ?tr" for i g
  proof
    have "trace_ok node s" using inv by (simp add: core_inv_def)
    then show "g = wg_ids ?g i" using that unfolding trace_ok_def by blast
    show "unat i < total_wgs ?g"
      using executed_mem [OF that] ex [of "unat i"] by (cases "unat i < total_wgs ?g") simp_all
  qed
  have idx: "wg_index ?g g = unat i" if "Group c i g \<in> set ?tr" for i g
    using ids [OF that] wg_ids_in_grid(2) [OF ok, of i] by simp
  have "distinct (groups_run c ?tr)"
    by (rule groups_run_distinct [OF _ idx]) (simp_all add: ex)
  moreover have "set (groups_run c ?tr) = {g. in_grid ?g g}"
  proof (intro equalityI subsetI)
    fix g assume "g \<in> set (groups_run c ?tr)"
    then obtain i where "Group c i g \<in> set ?tr" by (auto simp: groups_run_mem)
    then show "g \<in> {g. in_grid ?g g}" using ids wg_ids_in_grid(1) [OF ok] by blast
  next
    fix g assume g: "g \<in> {g. in_grid ?g g}"
    then have lt: "wg_index ?g g < total_wgs ?g" using wg_index_bound [OF ok] by simp
    then obtain i g' where i: "Group c i g' \<in> set ?tr" "unat i = wg_index ?g g"
      using executed_pos [of c "wg_index ?g g" ?tr] ex by auto
    then have "g' = g"
      using ids [OF i(1)] wg_ids_in_grid [OF ok, of i] g by (intro wg_index_inj [of ?g]) auto
    then show "g \<in> set (groups_run c ?tr)" using i by (auto simp: groups_run_mem)
  qed
  moreover have "count_list ?tr (Complete c) = 1" using one by (simp add: completions_def)
  ultimately show ?thesis by blast
qed

theorem work_groups_run_exactly_once_witness:
  "\<exists>s. pool_reachable 1 demo_node s \<and> Complete 0 \<in> set (sched_trace s) \<and>
    distinct (groups_run 0 (sched_trace s)) \<and>
    set (groups_run 0 (sched_trace s)) = {g. in_grid (2, 1, 1) g} \<and>
    count_list (sched_trace s) (Complete 0) = 1"
proof -
  obtain s where run: "solo_run demo_node 0 11 demo_start = Some s"
    and tr: "sched_trace s = [Group 0 0 (0, 0, 0), Group 0 1 (1, 0, 0), Complete 0]"
    using demo_trace by auto
  have reach: "pool_reachable 1 demo_node s" by (rule solo_run_reachable [OF demo_start_reachable run])
  have "Complete 0 \<in> set (sched_trace s)" by (simp add: tr)
  then show ?thesis
    using work_groups_run_exactly_once [OF reach _ demo_nodes_ok, of 0] reach
    by (intro exI [of _ s]) (simp add: demo_node_def)
qed

lemma kernel_queue_scanned:
  assumes "core_inv nt node s"
  shows "check_kernel_queue_for_device s t = Some (find_first (runs_kernel s t) (kernel_queue s))"
proof -
  have "kernel_commands s k \<noteq> None" if "k \<in> set (kernel_queue s)" for k
    using krc_ok_core [OF assms, of k] that by (auto simp: krc_ok_def split: option.splits)
  then show ?thesis by (simp add: check_kernel_queue_for_device_def scan_kernel_queue_live)
qed

text \<open>
  C6: As long as every kernel command has fewer than 2^32 work-groups and the pool fewer than 2^24
  threads, no thread ever touches a freed run command, while it walks the kernel queue or later,
  takes a run command out of the kernel queue that is not in it, or fails the assertion on the chunk
  size: a thread that neither sleeps nor has exited can always take its next step. (A single thread
  fails that assertion on a command of exactly 2^32 work-groups: \<open>wg_loop_termination\<close>.)
\<close>

theorem pool_threads_never_stuck:
  assumes "pool_reachable nt node s" and "nt < 2 ^ 24" and "nodes_ok node" and "t < nt"
    and "td_pc (thread_pool s t) \<notin> {SLEEPING, EXITED}"
  shows "thread_step (of_nat nt) node a s t \<noteq> None"
proof -
  let ?td = "thread_pool s t"
  have inv: "core_inv nt node s" using pool_inv_reachable [OF assms(1-3)] by (simp add: pool_inv_def)
  have krc: "\<exists>k r. td_run_cmd ?td = Some k \<and> kernel_commands s k = Some r"
    if "td_pc ?td \<in> {DEAL, UNLINK, EXEC, UNREF, FINALIZE}"
    using thread_ok_krc [OF thread_ok_core [OF inv assms(4)] that] by metis
  show ?thesis
  proof (cases "td_pc ?td")
    case GET_WORK
    have scan: "check_kernel_queue_for_device s t = Some (find_first (runs_kernel s t) (kernel_queue s))"
      by (rule kernel_queue_scanned [OF inv])
    show ?thesis
    proof (cases "find_first (runs_kernel s t) (kernel_queue s)")
      case (Some k)
      then have "runs_kernel s t k" using find_first_Some [of "runs_kernel s t"] by simp
      then show ?thesis
        using GET_WORK Some
        by (auto simp: thread_step_def Let_def get_work_def scan runs_kernel_def split: option.splits)
    qed (simp add: GET_WORK thread_step_def get_work_def Let_def scan)
  next
    case DEAL
    then obtain k r where k: "td_run_cmd ?td = Some k" "kernel_commands s k = Some r" using krc by auto
    note K = krc_ok_core [OF inv, of k, unfolded krc_ok_Some [OF k(2)]]
    have "krc_total r < 2 ^ 32" using K assms(3) by (auto simp: nodes_ok_def groups_ok_def)
    then have sum: "unat (remaining_wgs r) < 2 ^ 32 \<or>
        unat (remaining_wgs r) = 2 ^ 32 \<and> 2 \<le> unat (of_nat nt :: 32 word)" using K by linarith
    have nt: "0 < unat (of_nat nt :: 32 word)" "unat (of_nat nt :: 32 word) < 2 ^ 24"
      using assms(2,4) by (simp_all add: unat_of_nat_nowrap)
    have "get_wg_index_range r (td_last_wgs ?td) (of_nat nt) \<noteq> Assert_failed"
    proof (cases "remaining_wgs r = 0")
      case True
      then show ?thesis using get_wg_index_range_empty [of r "td_last_wgs ?td" "of_nat nt"] by simp
    next
      case False
      show ?thesis by (rule get_wg_index_range_deals [OF nt False sum, of "td_last_wgs ?td"]) simp
    qed
    then show ?thesis using DEAL k by (simp add: thread_step_def deal_work_def Let_def split: deal.splits)
  next
    case UNLINK
    then obtain k r where k: "td_run_cmd ?td = Some k" "kernel_commands s k = Some r" using krc by auto
    have "1 \<le> threads_where nt (unlinks_krc k) (thread_pool s)"
      by (rule threads_where_pos [OF assms(4)]) (simp add: td_preds k UNLINK)
    moreover have "int (count_list (kernel_queue s) k) =
        of_bool (remaining_wgs r \<noteq> 0) + threads_where nt (unlinks_krc k) (thread_pool s)"
      using krc_ok_core [OF inv, of k] unfolding krc_ok_Some [OF k(2)] by blast
    ultimately have "count_list (kernel_queue s) k \<noteq> 0" by (cases "remaining_wgs r = 0") simp_all
    then show ?thesis
      using UNLINK k by (simp add: thread_step_def unlink_kernel_def Let_def count_list_0_iff)
  next
    case EXEC
    then show ?thesis using krc by (auto simp: thread_step_def exec_wg_def Let_def)
  next
    case UNREF
    then show ?thesis using krc by (auto simp: thread_step_def drop_kernel_def Let_def)
  next
    case FINALIZE
    then show ?thesis using krc by (auto simp: thread_step_def finalize_kernel_command_def Let_def)
  qed (use assms(5) in \<open>simp_all add: thread_step_def Let_def\<close>)
qed

theorem pool_threads_never_stuck_witness:
  "pool_reachable 1 demo_node demo_start \<and> thread_step (of_nat 1) demo_node 0 demo_start 0 \<noteq> None"
  using pool_threads_never_stuck [OF demo_start_reachable _ demo_nodes_ok, of 0 0] demo_start_reachable
  by (simp add: demo_start_def pthread_scheduler_push_command_def wake_pool_thread pthread_scheduler_init_def)

text \<open>
  C7: No wake-up is lost: a thread that sleeps on the condition variable has nothing to run in
  either queue, and when every thread sleeps, each submitted command that some thread may run has
  been completed, exactly once.
\<close>

theorem pool_quiescent_complete:
  assumes "pool_reachable nt node s" and "nt < 2 ^ 24" and "nodes_ok node"
  shows "(\<forall>t<nt. td_pc (thread_pool s t) = SLEEPING \<longrightarrow>
      check_kernel_queue_for_device s t = Some None \<and> fst (check_cmd_queue_for_device node s t) = None) \<and>
    ((\<forall>t<nt. td_pc (thread_pool s t) = SLEEPING) \<longrightarrow>
      (\<forall>c \<in> submitted s. (\<exists>t<nt. runs_command node t c) \<longrightarrow>
         count_list (sched_trace s) (Complete c) = 1))"
proof (intro conjI allI impI ballI)
  have inv: "pool_inv nt node s" by (rule pool_inv_reachable [OF assms])
  then have core: "core_inv nt node s" by (simp add: pool_inv_def)
  have sleep: "sleep_ok node s t" if "t < nt" for t using inv that by (simp add: pool_inv_def)
  show "check_kernel_queue_for_device s t = Some None" if "t < nt" "td_pc (thread_pool s t) = SLEEPING" for t
    using sleep [OF that(1)] that(2)
    by (simp add: kernel_queue_scanned [OF core] sleep_ok_def find_first_None)
  show "fst (check_cmd_queue_for_device node s t) = None" if "t < nt" "td_pc (thread_pool s t) = SLEEPING" for t
  proof -
    have "find_first (runs_command node t) (work_queue s) = None"
      using sleep [OF that(1)] that(2) by (simp add: sleep_ok_def find_first_None)
    then show ?thesis by (simp add: check_cmd_queue_for_device_def)
  qed
  fix c
  assume all: "\<forall>t<nt. td_pc (thread_pool s t) = SLEEPING" and c: "c \<in> submitted s"
    and "\<exists>t<nt. runs_command node t c"
  then obtain t where t: "t < nt" "runs_command node t c" by blast
  have "c \<notin> set (work_queue s)" using sleep [OF t(1)] all t by (auto simp: sleep_ok_def)
  then have wq: "count_list (work_queue s) c = 0" by (simp add: count_list_0_iff)
  have "\<not> in_heap s c"
  proof
    assume "in_heap s c"
    then obtain k r where k: "kernel_commands s k = Some r" "krc_cmd r = c" by (auto simp: in_heap_def)
    have "k \<in> set (kernel_queue s)"
      by (rule krc_ok_idle_pool [OF krc_ok_core [OF core] _ k(1)]) (use all in \<open>simp add: idle_def\<close>)
    moreover have "runs_kernel s t k"
      using krc_ok_core [OF core, of k] t(2) k by (simp add: krc_ok_Some [OF k(1)] runs_kernel_def runs_command_def)
    ultimately show False using sleep [OF t(1)] all t(1) by (auto simp: sleep_ok_def)
  qed
  moreover have "threads_where nt (commands c) (thread_pool s) = 0"
    using all by (simp add: threads_where_def td_preds)
  ultimately have "completions c (sched_trace s) = 1"
    using cmd_ok_core [OF core, of c] wq c by (simp add: cmd_ok_def)
  then show "count_list (sched_trace s) (Complete c) = 1" by (simp add: completions_def)
qed


theorem pool_quiescent_complete_witness:
  "\<exists>s. pool_reachable 1 demo_node s \<and> td_pc (thread_pool s 0) = SLEEPING \<and> 0 \<in> submitted s \<and>
    runs_command demo_node 0 0 \<and> count_list (sched_trace s) (Complete 0) = 1"
proof -
  obtain s where run: "solo_run demo_node 0 13 demo_start = Some s"
    and st: "td_pc (thread_pool s 0) = SLEEPING" "submitted s = {0}"
    using demo_asleep by auto
  have reach: "pool_reachable 1 demo_node s" by (rule solo_run_reachable [OF demo_start_reachable run])
  have runs: "runs_command demo_node 0 0"
    by (simp add: runs_command_def demo_node_def shall_we_run_this_def)
  then have "count_list (sched_trace s) (Complete 0) = 1"
    using pool_quiescent_complete [OF reach _ demo_nodes_ok] st by (auto simp: less_Suc_eq)
  then show ?thesis using reach st runs by blast
qed

end
