(* ===== verification/BasicMem.thy ===== *)
theory BasicMem
  imports Pocl_Prelude
begin

text \<open>
  Data movement of the CPU drivers, \<open>pocl/lib/CL/devices/basic/basic.c\<close>, on a flat byte-addressed
  memory: pointers are 64-bit words, pointer and size arithmetic wraps. \<open>memcpy\<close> is modelled for
  source and destination ranges that do not overlap, as the C standard requires of its callers; the
  lemmas that use it have the disjointness as a hypothesis. Structure parameters (\<open>cl_mem\<close>,
  \<open>pocl_mem_identifier\<close>) are passed as the fields the code reads.
\<close>

section \<open>Memory\<close>

type_synonym byte = "8 word"
type_synonym mem = "size_t \<Rightarrow> byte"

definition memcpy :: "size_t \<Rightarrow> size_t \<Rightarrow> size_t \<Rightarrow> mem \<Rightarrow> mem" where
  "memcpy dst src n m = (\<lambda>a. if a - dst < n then m (src + (a - dst)) else m a)"

section \<open>Buffers\<close>

definition pocl_basic_read :: "size_t \<Rightarrow> size_t \<Rightarrow> size_t \<Rightarrow> size_t \<Rightarrow> mem \<Rightarrow> mem" where
  "pocl_basic_read host_ptr device_ptr offset sz m =
     (if host_ptr = device_ptr then m else memcpy host_ptr (device_ptr + offset) sz m)"

definition pocl_basic_write :: "size_t \<Rightarrow> size_t \<Rightarrow> size_t \<Rightarrow> size_t \<Rightarrow> mem \<Rightarrow> mem" where
  "pocl_basic_write host_ptr device_ptr offset sz m =
     (if host_ptr = device_ptr then m else memcpy (device_ptr + offset) host_ptr sz m)"

definition pocl_basic_copy :: "size_t \<Rightarrow> size_t \<Rightarrow> size_t \<Rightarrow> size_t \<Rightarrow> size_t \<Rightarrow> mem \<Rightarrow> mem" where
  "pocl_basic_copy dst_ptr src_ptr dst_offset src_offset sz m =
     (if src_ptr + src_offset = dst_ptr + dst_offset then m
      else memcpy (dst_ptr + dst_offset) (src_ptr + src_offset) sz m)"

text \<open>The row loop shared by the three rectangle copies, and the pointer to a rectangle's first byte.\<close>

definition copy_rows ::
  "size_t \<Rightarrow> size_t \<Rightarrow> size_t \<Rightarrow> size_t \<Rightarrow> size_t \<Rightarrow> size_t \<Rightarrow> size3 \<Rightarrow> mem \<Rightarrow> mem" where
  "copy_rows dst dst_row_pitch dst_slice_pitch src src_row_pitch src_slice_pitch region m =
     (case region of (r0, r1, r2) \<Rightarrow>
        fold (\<lambda>k. fold (\<lambda>j. memcpy (dst + dst_row_pitch * of_nat j + dst_slice_pitch * of_nat k)
                                   (src + src_row_pitch * of_nat j + src_slice_pitch * of_nat k) r0)
                      [0..<unat r1])
             [0..<unat r2] m)"

definition rect_ptr :: "size_t \<Rightarrow> size3 \<Rightarrow> size_t \<Rightarrow> size_t \<Rightarrow> size_t" where
  "rect_ptr ptr origin row_pitch slice_pitch =
     (case origin of (o0, o1, o2) \<Rightarrow> ptr + o0 + row_pitch * o1 + slice_pitch * o2)"

definition contiguous :: "size_t \<Rightarrow> size_t \<Rightarrow> size_t \<Rightarrow> size_t \<Rightarrow> size3 \<Rightarrow> bool" where
  "contiguous row_pitch slice_pitch row_pitch' slice_pitch' region =
     (case region of (r0, r1, r2) \<Rightarrow> row_pitch = row_pitch' \<and> row_pitch' = r0 \<and>
        slice_pitch = slice_pitch' \<and> slice_pitch' = r1 * r0)"

definition region_bytes :: "size3 \<Rightarrow> size_t" where
  "region_bytes region = (case region of (r0, r1, r2) \<Rightarrow> r2 * r1 * r0)"

definition pocl_basic_copy_rect ::
  "size_t \<Rightarrow> size_t \<Rightarrow> size3 \<Rightarrow> size3 \<Rightarrow> size3 \<Rightarrow> size_t \<Rightarrow> size_t \<Rightarrow> size_t \<Rightarrow> size_t \<Rightarrow> mem \<Rightarrow> mem" where
  "pocl_basic_copy_rect dst_ptr src_ptr dst_origin src_origin region
     dst_row_pitch dst_slice_pitch src_row_pitch src_slice_pitch m =
     (let adjusted_src_ptr = rect_ptr src_ptr src_origin src_row_pitch src_slice_pitch;
          adjusted_dst_ptr = rect_ptr dst_ptr dst_origin dst_row_pitch dst_slice_pitch
      in if contiguous src_row_pitch src_slice_pitch dst_row_pitch dst_slice_pitch region
         then memcpy adjusted_dst_ptr adjusted_src_ptr (region_bytes region) m
         else copy_rows adjusted_dst_ptr dst_row_pitch dst_slice_pitch
                adjusted_src_ptr src_row_pitch src_slice_pitch region m)"

definition pocl_basic_write_rect ::
  "size_t \<Rightarrow> size_t \<Rightarrow> size3 \<Rightarrow> size3 \<Rightarrow> size3 \<Rightarrow> size_t \<Rightarrow> size_t \<Rightarrow> size_t \<Rightarrow> size_t \<Rightarrow> mem \<Rightarrow> mem" where
  "pocl_basic_write_rect host_ptr device_ptr buffer_origin host_origin region
     buffer_row_pitch buffer_slice_pitch host_row_pitch host_slice_pitch m =
     (let adjusted_device_ptr = rect_ptr device_ptr buffer_origin buffer_row_pitch buffer_slice_pitch;
          adjusted_host_ptr = rect_ptr host_ptr host_origin host_row_pitch host_slice_pitch
      in if contiguous buffer_row_pitch buffer_slice_pitch host_row_pitch host_slice_pitch region
         then memcpy adjusted_device_ptr adjusted_host_ptr (region_bytes region) m
         else copy_rows adjusted_device_ptr buffer_row_pitch buffer_slice_pitch
                adjusted_host_ptr host_row_pitch host_slice_pitch region m)"

definition pocl_basic_read_rect ::
  "size_t \<Rightarrow> size_t \<Rightarrow> size3 \<Rightarrow> size3 \<Rightarrow> size3 \<Rightarrow> size_t \<Rightarrow> size_t \<Rightarrow> size_t \<Rightarrow> size_t \<Rightarrow> mem \<Rightarrow> mem" where
  "pocl_basic_read_rect host_ptr device_ptr buffer_origin host_origin region
     buffer_row_pitch buffer_slice_pitch host_row_pitch host_slice_pitch m =
     (let adjusted_device_ptr = rect_ptr device_ptr buffer_origin buffer_row_pitch buffer_slice_pitch;
          adjusted_host_ptr = rect_ptr host_ptr host_origin host_row_pitch host_slice_pitch
      in if contiguous buffer_row_pitch buffer_slice_pitch host_row_pitch host_slice_pitch region
         then memcpy adjusted_host_ptr adjusted_device_ptr (region_bytes region) m
         else copy_rows adjusted_host_ptr host_row_pitch host_slice_pitch
                adjusted_device_ptr buffer_row_pitch buffer_slice_pitch region m)"

section \<open>Filling\<close>

text \<open>\<open>p[i] = *(T * )pattern\<close> for \<open>i < n\<close>, with \<open>p\<close> a pointer to elements of \<open>w\<close> bytes.\<close>

definition fill_elems :: "size_t \<Rightarrow> size_t \<Rightarrow> size_t \<Rightarrow> size_t \<Rightarrow> mem \<Rightarrow> mem" where
  "fill_elems p w pattern n = fold (\<lambda>i. memcpy (p + w * of_nat i) pattern w) [0..<unat n]"

text \<open>The nested loops over \<open>uint64_t\<close> elements: \<open>p[(i << s) + j] = *((uint64_t * )pattern + j)\<close>.\<close>

definition fill_words :: "size_t \<Rightarrow> nat \<Rightarrow> size_t \<Rightarrow> size_t \<Rightarrow> mem \<Rightarrow> mem" where
  "fill_words p s pattern n =
     fold (\<lambda>i. fold (\<lambda>j. memcpy (p + 8 * (push_bit s (of_nat i) + of_nat j)) (pattern + 8 * of_nat j) 8)
                    [0..<2 ^ s]) [0..<unat n]"

definition pocl_basic_memfill :: "size_t \<Rightarrow> size_t \<Rightarrow> size_t \<Rightarrow> size_t \<Rightarrow> size_t \<Rightarrow> mem \<Rightarrow> mem option" where
  "pocl_basic_memfill ptr sz offset pattern pattern_size m =
     (let n = sz div pattern_size; ofs = offset div pattern_size in
      if pattern_size = 1 then Some (fill_elems (ptr + ofs) 1 pattern n m)
      else if pattern_size = 2 then Some (fill_elems (ptr + 2 * ofs) 2 pattern n m)
      else if pattern_size = 4 then Some (fill_elems (ptr + 4 * ofs) 4 pattern n m)
      else if pattern_size = 8 then Some (fill_elems (ptr + 8 * ofs) 8 pattern n m)
      else if pattern_size = 16 then Some (fill_words (ptr + 8 * push_bit 1 ofs) 1 pattern n m)
      else if pattern_size = 32 then Some (fill_words (ptr + 8 * push_bit 2 ofs) 2 pattern n m)
      else if pattern_size = 64 then Some (fill_words (ptr + 8 * push_bit 3 ofs) 3 pattern n m)
      else if pattern_size = 128 then Some (fill_words (ptr + 8 * push_bit 4 ofs) 4 pattern n m)
      else None)"

section \<open>Mapping\<close>

text \<open>The fields of \<open>mem_mapping_t\<close> the driver uses; a null \<open>host_ptr\<close> is \<open>0\<close>.\<close>

record mem_mapping =
  map_host_ptr :: size_t
  map_offset :: size_t
  map_size :: size_t
  map_flags :: "64 word"
  map_origin :: size3
  map_region :: size3
  map_row_pitch :: size_t
  map_slice_pitch :: size_t

definition CL_MAP_READ :: "64 word" where "CL_MAP_READ = 1"
definition CL_MAP_WRITE :: "64 word" where "CL_MAP_WRITE = 2"
definition CL_MAP_WRITE_INVALIDATE_REGION :: "64 word" where "CL_MAP_WRITE_INVALIDATE_REGION = 4"

definition pocl_basic_map_mem :: "size_t \<Rightarrow> mem_mapping \<Rightarrow> mem \<Rightarrow> mem_mapping \<times> mem" where
  "pocl_basic_map_mem src_device_ptr mp m =
     (if map_host_ptr mp = 0 then (mp\<lparr>map_host_ptr := src_device_ptr + map_offset mp\<rparr>, m)
      else if map_flags mp AND CL_MAP_WRITE_INVALIDATE_REGION \<noteq> 0 then (mp, m)
      else if map_host_ptr mp \<noteq> src_device_ptr + map_offset mp
      then (mp, memcpy (map_host_ptr mp) (src_device_ptr + map_offset mp) (map_size mp) m)
      else (mp, m))"

definition pocl_basic_unmap_mem :: "size_t \<Rightarrow> mem_mapping \<Rightarrow> mem \<Rightarrow> mem option" where
  "pocl_basic_unmap_mem dst_device_ptr mp m =
     (if map_flags mp = CL_MAP_READ then Some m
      else if map_host_ptr mp = 0 then None
      else if map_host_ptr mp \<noteq> dst_device_ptr + map_offset mp
      then Some (memcpy (dst_device_ptr + map_offset mp) (map_host_ptr mp) (map_size mp) m)
      else Some m)"

section \<open>Images\<close>

text \<open>The fields of an image's \<open>cl_mem\<close> the routines read.\<close>

record image =
  image_elem_size :: size_t
  image_channels :: size_t
  image_row_pitch :: size_t
  image_slice_pitch :: size_t

definition pixel_size :: "image \<Rightarrow> size_t" where
  "pixel_size im = image_elem_size im * image_channels im"

definition scale_x :: "size_t \<Rightarrow> size3 \<Rightarrow> size3" where
  "scale_x px v = (case v of (x, y, z) \<Rightarrow> (x * px, y, z))"

definition pocl_basic_copy_image_rect ::
  "image \<Rightarrow> image \<Rightarrow> size_t \<Rightarrow> size_t \<Rightarrow> size3 \<Rightarrow> size3 \<Rightarrow> size3 \<Rightarrow> mem \<Rightarrow> mem" where
  "pocl_basic_copy_image_rect src_image dst_image src_ptr dst_ptr src_origin dst_origin region m =
     (let px = pixel_size src_image in
      pocl_basic_copy_rect dst_ptr src_ptr (scale_x px dst_origin) (scale_x px src_origin)
        (scale_x px region) (image_row_pitch dst_image) (image_slice_pitch dst_image)
        (image_row_pitch src_image) (image_slice_pitch src_image) m)"

definition pocl_basic_write_image_rect ::
  "image \<Rightarrow> size_t \<Rightarrow> size_t \<Rightarrow> size_t \<Rightarrow> size3 \<Rightarrow> size3 \<Rightarrow> size_t \<Rightarrow> size_t \<Rightarrow> size_t \<Rightarrow> mem \<Rightarrow> mem" where
  "pocl_basic_write_image_rect dst_image dst_ptr src_host_ptr src_ptr origin region
     src_row_pitch src_slice_pitch src_offset m =
     (let ptr = (if src_host_ptr \<noteq> 0 then src_host_ptr else src_ptr) + src_offset;
          px = pixel_size dst_image;
          rp = (if src_row_pitch = 0 then px * fst region else src_row_pitch);
          sp = (if src_slice_pitch = 0 then rp * fst (snd region) else src_slice_pitch)
      in pocl_basic_write_rect ptr dst_ptr (scale_x px origin) (0, 0, 0) (scale_x px region)
           (image_row_pitch dst_image) (image_slice_pitch dst_image) rp sp m)"

definition pocl_basic_read_image_rect ::
  "image \<Rightarrow> size_t \<Rightarrow> size_t \<Rightarrow> size_t \<Rightarrow> size3 \<Rightarrow> size3 \<Rightarrow> size_t \<Rightarrow> size_t \<Rightarrow> size_t \<Rightarrow> mem \<Rightarrow> mem" where
  "pocl_basic_read_image_rect src_image src_ptr dst_host_ptr dst_ptr origin region
     dst_row_pitch dst_slice_pitch dst_offset m =
     (let ptr = (if dst_host_ptr \<noteq> 0 then dst_host_ptr else dst_ptr) + dst_offset;
          px = pixel_size src_image;
          rp = (if dst_row_pitch = 0 then px * fst region else dst_row_pitch);
          sp = (if dst_slice_pitch = 0 then rp * fst (snd region) else dst_slice_pitch)
      in pocl_basic_read_rect ptr src_ptr (scale_x px origin) (0, 0, 0) (scale_x px region)
           (image_row_pitch src_image) (image_slice_pitch src_image) rp sp m)"

definition pocl_basic_map_image :: "size_t \<Rightarrow> image \<Rightarrow> mem_mapping \<Rightarrow> mem \<Rightarrow> mem_mapping \<times> mem" where
  "pocl_basic_map_image ptr src_image mp m =
     (if map_host_ptr mp = 0 then (mp\<lparr>map_host_ptr := ptr + map_offset mp\<rparr>, m)
      else if map_flags mp AND CL_MAP_WRITE_INVALIDATE_REGION \<noteq> 0 then (mp, m)
      else if map_host_ptr mp \<noteq> ptr + map_offset mp
      then (mp, pocl_basic_read_image_rect src_image ptr (map_host_ptr mp) 0 (map_origin mp)
                   (map_region mp) (map_row_pitch mp) (map_slice_pitch mp) 0 m)
      else (mp, m))"

definition pocl_basic_unmap_image :: "size_t \<Rightarrow> image \<Rightarrow> mem_mapping \<Rightarrow> mem \<Rightarrow> mem" where
  "pocl_basic_unmap_image ptr dst_image mp m =
     (if map_flags mp = CL_MAP_READ then m
      else if map_host_ptr mp \<noteq> ptr + map_offset mp
      then pocl_basic_write_image_rect dst_image ptr (map_host_ptr mp) 0 (map_origin mp)
             (map_region mp) (map_row_pitch mp) (map_slice_pitch mp) 0 m
      else m)"

definition pocl_basic_fill_image ::
  "image \<Rightarrow> size_t \<Rightarrow> size3 \<Rightarrow> size3 \<Rightarrow> size_t \<Rightarrow> size_t \<Rightarrow> mem \<Rightarrow> mem" where
  "pocl_basic_fill_image im ptr origin region fill_pixel px m =
     (case origin of (o0, o1, o2) \<Rightarrow> case region of (r0, r1, r2) \<Rightarrow>
       (let row_pitch = image_row_pitch im; slice_pitch = image_slice_pitch im;
            adjusted_device_ptr = ptr + o0 * px + row_pitch * o1 + slice_pitch * o2
        in fold (\<lambda>k. fold (\<lambda>j. fold (\<lambda>i.
               memcpy (adjusted_device_ptr + px * of_nat i + row_pitch * of_nat j + slice_pitch * of_nat k)
                      fill_pixel px)
             [0..<unat r0]) [0..<unat r1]) [0..<unat r2] m))"

section \<open>Sequences of copies\<close>

lemma memcpy_in: "i < n \<Longrightarrow> memcpy dst src n m (dst + i) = m (src + i)"
  by (simp add: memcpy_def)

lemma memcpy_out: "\<not> a - dst < n \<Longrightarrow> memcpy dst src n m a = m a"
  by (simp add: memcpy_def)

definition copy_list :: "size_t \<Rightarrow> (size_t \<times> size_t) list \<Rightarrow> mem \<Rightarrow> mem" where
  "copy_list n = fold (\<lambda>(d, s). memcpy d s n)"

text \<open>Rows whose destinations do not meet each other nor any source are copied as if at once.\<close>

lemma copy_list_out:
  "(\<forall>(d, s) \<in> set rows. \<not> a - d < n) \<Longrightarrow> copy_list n rows m a = m a"
proof (induction rows arbitrary: m)
  case (Cons r rows)
  then show ?case by (cases r) (simp add: copy_list_def memcpy_out)
qed (simp add: copy_list_def)

lemma copy_list_in:
  assumes "\<And>d s d' s' x. (d, s) \<in> set rows \<Longrightarrow> (d', s') \<in> set rows \<Longrightarrow> x - d < n \<Longrightarrow> \<not> x - s' < n"
    and "sorted_wrt (\<lambda>(d, s) (d', s'). \<forall>x. x - d < n \<longrightarrow> \<not> x - d' < n) rows"
    and "(d, s) \<in> set rows" and "i < n"
  shows "copy_list n rows m (d + i) = m (s + i)"
  using assms
proof (induction rows arbitrary: m)
  case (Cons r rows)
  obtain d0 s0 where r: "r = (d0, s0)" by (cases r)
  have step: "copy_list n (r # rows) m = copy_list n rows (memcpy d0 s0 n m)"
    by (simp add: copy_list_def r)
  have tail: "sorted_wrt (\<lambda>(d, s) (d', s'). \<forall>x. x - d < n \<longrightarrow> \<not> x - d' < n) rows"
    and head: "\<And>d' s' x. (d', s') \<in> set rows \<Longrightarrow> x - d0 < n \<Longrightarrow> \<not> x - d' < n"
    using Cons.prems(2) by (auto simp: r)
  show ?case
  proof (cases "(d, s) \<in> set rows")
    case True
    have "copy_list n rows (memcpy d0 s0 n m) (d + i) = memcpy d0 s0 n m (s + i)"
    proof (rule Cons.IH [OF _ tail True Cons.prems(4)])
      fix d1 s1 d2 s2 x
      assume "(d1, s1) \<in> set rows" "(d2, s2) \<in> set rows" "x - d1 < n"
      then show "\<not> x - s2 < n" using Cons.prems(1) [of d1 s1 d2 s2 x] by simp
    qed
    also have "\<not> s + i - d0 < n"
      using Cons.prems(1) [of d0 s0 d s "s + i"] Cons.prems(4) True by (auto simp: r)
    then have "memcpy d0 s0 n m (s + i) = m (s + i)" by (rule memcpy_out)
    finally show ?thesis by (simp add: step)
  next
    case False
    then have ds: "d = d0" "s = s0" using Cons.prems(3) by (auto simp: r)
    have "\<forall>(d', s') \<in> set rows. \<not> d0 + i - d' < n"
      using head [where x = "d0 + i"] Cons.prems(4) by fastforce
    then have "copy_list n rows (memcpy d0 s0 n m) (d0 + i) = memcpy d0 s0 n m (d0 + i)"
      by (rule copy_list_out)
    then show ?thesis using Cons.prems(4) by (simp add: step ds memcpy_in)
  qed
qed simp

lemma sorted_wrt_distinct: "sorted_wrt (\<noteq>) xs = distinct xs"
  by (induction xs) auto

lemma fold_product:
  "fold (\<lambda>k. fold (\<lambda>j. f k j) js) ks m = fold (\<lambda>(k, j). f k j) (List.product ks js) m"
  by (induction ks arbitrary: m) (simp_all add: fold_map comp_def)

section \<open>Rectangles\<close>

definition rect_off :: "size_t \<Rightarrow> size_t \<Rightarrow> nat \<Rightarrow> nat \<Rightarrow> nat \<Rightarrow> nat" where
  "rect_off row_pitch slice_pitch i j k = i + unat row_pitch * j + unat slice_pitch * k"

text \<open>The index triples of a region, and the byte addresses of a rectangle.\<close>

definition in_region :: "size3 \<Rightarrow> nat \<Rightarrow> nat \<Rightarrow> nat \<Rightarrow> bool" where
  "in_region region i j k = (case region of (r0, r1, r2) \<Rightarrow> i < unat r0 \<and> j < unat r1 \<and> k < unat r2)"

definition rect_addrs :: "size_t \<Rightarrow> size_t \<Rightarrow> size_t \<Rightarrow> size3 \<Rightarrow> size_t set" where
  "rect_addrs base row_pitch slice_pitch region =
     {base + of_nat (rect_off row_pitch slice_pitch i j k) | i j k. in_region region i j k}"

text \<open>Pitches that hold the region, and an extent within the address space.\<close>

definition rect_ok :: "size_t \<Rightarrow> size_t \<Rightarrow> size3 \<Rightarrow> bool" where
  "rect_ok row_pitch slice_pitch region = (case region of (r0, r1, r2) \<Rightarrow>
     unat r0 \<le> unat row_pitch \<and> unat r1 * unat row_pitch \<le> unat slice_pitch \<and>
     (0 < unat r0 \<and> 0 < unat r1 \<and> 0 < unat r2 \<longrightarrow>
       rect_off row_pitch slice_pitch (unat r0 - 1) (unat r1 - 1) (unat r2 - 1) < 2 ^ 64 - 1))"

lemma decode_2:
  fixes a b n :: nat
  assumes "a < n" "a' < n" "a + n * b = a' + n * b'"
  shows "a = a' \<and> b = b'"
proof -
  have "(a + n * b) mod n = (a' + n * b') mod n" "(a + n * b) div n = (a' + n * b') div n"
    using assms(3) by simp_all
  then show ?thesis using assms(1,2) by simp
qed

lemma rect_off_inj:
  assumes ok: "rect_ok rp sp region" and "in_region region i j k" and "in_region region i' j' k'"
    and eq: "rect_off rp sp i j k = rect_off rp sp i' j' k'"
  shows "i = i' \<and> j = j' \<and> k = k'"
proof -
  obtain r0 r1 r2 where r: "region = (r0, r1, r2)" by (cases region) auto
  have lt: "i < unat rp" "i' < unat rp" "j < unat r1" "j' < unat r1"
    using assms by (auto simp: rect_ok_def in_region_def r)
  have row: "a + unat rp * b < unat sp" if "a < unat rp" "b < unat r1" for a b
  proof -
    have "a + unat rp * b < unat rp * Suc b" using that(1) by simp
    also have "\<dots> \<le> unat rp * unat r1" using that(2) by (intro mult_le_mono2) simp
    also have "\<dots> \<le> unat sp" using ok by (simp add: rect_ok_def r mult.commute)
    finally show ?thesis .
  qed
  have "i + unat rp * j = i' + unat rp * j' \<and> k = k'"
    using eq by (intro decode_2 [of _ "unat sp"] row lt) (simp add: rect_off_def)
  then show ?thesis using decode_2 [OF lt(1,2)] by blast
qed

lemma rect_off_bound:
  assumes ok: "rect_ok rp sp region" and "in_region region i j k"
  shows "rect_off rp sp i j k < 2 ^ 64 - 1"
proof -
  obtain r0 r1 r2 where r: "region = (r0, r1, r2)" by (cases region) auto
  have le: "i \<le> unat r0 - 1" "j \<le> unat r1 - 1" "k \<le> unat r2 - 1" "0 < unat r0" "0 < unat r1" "0 < unat r2"
    using assms(2) by (auto simp: in_region_def r)
  have "rect_off rp sp i j k \<le> rect_off rp sp (unat r0 - 1) (unat r1 - 1) (unat r2 - 1)"
    unfolding rect_off_def using le(1-3) by (intro add_mono mult_le_mono2)
  then show ?thesis using ok le(4-6) by (simp add: rect_ok_def r)
qed

lemma of_nat_inj_64:
  "x < 2 ^ 64 \<Longrightarrow> y < 2 ^ 64 \<Longrightarrow> (of_nat x :: size_t) = of_nat y \<Longrightarrow> x = y"
proof -
  assume eq: "(of_nat x :: size_t) = of_nat y"
  assume "x < 2 ^ 64" "y < 2 ^ 64"
  then have "unat (of_nat x :: size_t) = x" "unat (of_nat y :: size_t) = y"
    by (simp_all add: unat_of_nat_nowrap)
  then show "x = y" using eq by metis
qed

lemma rect_addr_inj:
  assumes "rect_ok rp sp region" and "in_region region i j k" and "in_region region i' j' k'"
    and "base + of_nat (rect_off rp sp i j k) = (base :: size_t) + of_nat (rect_off rp sp i' j' k')"
  shows "i = i' \<and> j = j' \<and> k = k'"
proof (rule rect_off_inj [OF assms(1-3)])
  show "rect_off rp sp i j k = rect_off rp sp i' j' k'"
    using assms(4) rect_off_bound [OF assms(1,2)] rect_off_bound [OF assms(1,3)]
    by (intro of_nat_inj_64) simp_all
qed

text \<open>The address of a row, and the bytes in it.\<close>

lemma row_ptr:
  "base + rp * of_nat j + sp * of_nat k = base + of_nat (rect_off rp sp 0 j k)"
  by (simp add: rect_off_def add.assoc)

lemma in_row:
  assumes "x - (base + of_nat (rect_off rp sp 0 j k)) < r0"
  obtains i where "i < unat r0" and "x = base + of_nat (rect_off rp sp i j k)"
    and "x = base + of_nat (rect_off rp sp 0 j k) + of_nat i"
proof
  let ?i = "unat (x - (base + of_nat (rect_off rp sp 0 j k)))"
  show "?i < unat r0" using assms by (simp add: word_less_nat_alt)
  show "x = base + of_nat (rect_off rp sp ?i j k)" by (simp add: rect_off_def)
  show "x = base + of_nat (rect_off rp sp 0 j k) + of_nat ?i" by simp
qed

lemma row_byte:
  "base + of_nat (rect_off rp sp 0 j k) + of_nat i = (base :: size_t) + of_nat (rect_off rp sp i j k)"
  by (simp add: rect_off_def algebra_simps)

text \<open>
  \<open>copied\<close>: the rectangle at \<open>dst\<close> holds what the rectangle at \<open>src\<close> held, every other byte is
  unchanged.
\<close>

definition copied ::
  "size_t \<Rightarrow> size_t \<Rightarrow> size_t \<Rightarrow> size_t \<Rightarrow> size_t \<Rightarrow> size_t \<Rightarrow> size3 \<Rightarrow> mem \<Rightarrow> mem \<Rightarrow> bool" where
  "copied dst drp dsp src srp ssp region m m' \<longleftrightarrow>
     (\<forall>i j k. in_region region i j k \<longrightarrow>
        m' (dst + of_nat (rect_off drp dsp i j k)) = m (src + of_nat (rect_off srp ssp i j k))) \<and>
     (\<forall>a. a \<notin> rect_addrs dst drp dsp region \<longrightarrow> m' a = m a)"

lemma copy_rows_list:
  "copy_rows dst drp dsp src srp ssp (r0, r1, r2) m =
     copy_list r0 (map (\<lambda>(k, j). (dst + of_nat (rect_off drp dsp 0 j k), src + of_nat (rect_off srp ssp 0 j k)))
                    (List.product [0..<unat r2] [0..<unat r1])) m"
  unfolding copy_rows_def copy_list_def prod.case row_ptr
  by (subst fold_product) (simp add: fold_map comp_def case_prod_beta')

lemma copy_rows_copied:
  assumes ok: "rect_ok drp dsp region"
    and apart: "rect_addrs dst drp dsp region \<inter> rect_addrs src srp ssp region = {}"
  shows "copied dst drp dsp src srp ssp region m (copy_rows dst drp dsp src srp ssp region m)"
proof -
  obtain r0 r1 r2 where r: "region = (r0, r1, r2)" by (cases region) auto
  define row where "row = (\<lambda>(k, j). (dst + of_nat (rect_off drp dsp 0 j k), src + of_nat (rect_off srp ssp 0 j k)))"
  define rows where "rows = map row (List.product [0..<unat r2] [0..<unat r1])"
  have eq: "copy_rows dst drp dsp src srp ssp region m = copy_list r0 rows m"
    by (simp add: r copy_rows_list rows_def row_def)
  have mem: "(d, s) \<in> set rows \<longleftrightarrow> (\<exists>j k. j < unat r1 \<and> k < unat r2 \<and>
      d = dst + of_nat (rect_off drp dsp 0 j k) \<and> s = src + of_nat (rect_off srp ssp 0 j k))" for d s
    by (auto simp: rows_def row_def) blast
  have in_dst: "x \<in> rect_addrs dst drp dsp region" if "(d, s) \<in> set rows" "x - d < r0" for d s x
    using that by (auto simp: mem rect_addrs_def r in_region_def elim!: in_row)
  have in_src: "x \<in> rect_addrs src srp ssp region" if "(d, s) \<in> set rows" "x - s < r0" for d s x
    using that by (auto simp: mem rect_addrs_def r in_region_def elim!: in_row)
  have no_src: "\<not> x - s' < r0" if "(d, s) \<in> set rows" "(d', s') \<in> set rows" "x - d < r0" for d s d' s' x
    using in_dst [OF that(1,3)] in_src [OF that(2)] apart by blast
  have dist: "distinct (List.product [0..<unat r2] [0..<unat r1])"
    by (simp add: distinct_product)
  define R where "R = (\<lambda>(d, s :: size_t) (d', s' :: size_t). \<forall>x. x - d < r0 \<longrightarrow> \<not> x - d' < r0)"
  have sorted: "sorted_wrt R rows"
    unfolding rows_def sorted_wrt_map
  proof (rule sorted_wrt_mono_rel [of _ "(\<noteq>)"])
    fix p q :: "nat \<times> nat"
    assume pq: "p \<in> set (List.product [0..<unat r2] [0..<unat r1])"
      "q \<in> set (List.product [0..<unat r2] [0..<unat r1])" "p \<noteq> q"
    obtain k j k' j' where p: "p = (k, j)" and q: "q = (k', j')" by (cases p, cases q) auto
    have "False" if x: "x - (dst + of_nat (rect_off drp dsp 0 j k)) < r0"
        "x - (dst + of_nat (rect_off drp dsp 0 j' k')) < r0" for x
    proof -
      obtain i i' where i: "i < unat r0" "x = dst + of_nat (rect_off drp dsp i j k)"
        and i': "i' < unat r0" "x = dst + of_nat (rect_off drp dsp i' j' k')"
        using in_row [OF x(1)] in_row [OF x(2)] by metis
      have "j = j' \<and> k = k'"
        using rect_addr_inj [OF ok, of i j k i' j' k' dst] i i' pq by (simp add: in_region_def r p q)
      then show False using pq(3) p q by simp
    qed
    then show "R (row p) (row q)" by (auto simp: R_def row_def p q)
  next
    show "sorted_wrt (\<noteq>) (List.product [0..<unat r2] [0..<unat r1])"
      using dist by (simp add: sorted_wrt_distinct)
  qed
  have "m' (dst + of_nat (rect_off drp dsp i j k)) = m (src + of_nat (rect_off srp ssp i j k))"
    if "m' = copy_rows dst drp dsp src srp ssp region m" and ijk: "in_region region i j k" for i j k m'
  proof -
    let ?d = "dst + of_nat (rect_off drp dsp 0 j k)" and ?s = "src + of_nat (rect_off srp ssp 0 j k)"
    have "(of_nat i :: size_t) < r0"
      using ijk unat_less_size_t [of r0] by (simp add: in_region_def r word_less_nat_alt unat_of_nat_nowrap)
    moreover have "(?d, ?s) \<in> set rows" using ijk by (auto simp: mem in_region_def r)
    ultimately have "copy_list r0 rows m (?d + of_nat i) = m (?s + of_nat i)"
      by (intro copy_list_in [OF no_src]) (use sorted in \<open>auto simp: R_def\<close>)
    then show ?thesis by (simp only: that(1) eq row_byte)
  qed
  moreover have "copy_rows dst drp dsp src srp ssp region m a = m a" if "a \<notin> rect_addrs dst drp dsp region" for a
    unfolding eq by (rule copy_list_out) (use that in_dst in blast)
  ultimately show ?thesis by (simp add: copied_def)
qed

lemma rect_off_dense:
  "rect_off rp sp i j k = i + unat rp * (j + n * k)" if "unat sp = unat rp * n"
  using that by (simp add: rect_off_def algebra_simps)

lemma contiguous_region:
  assumes c: "contiguous srp ssp drp dsp region" and ok: "rect_ok drp dsp region"
  shows "srp = drp" and "ssp = dsp"
    and "a - dst < region_bytes region \<longleftrightarrow> a \<in> rect_addrs dst drp dsp region"
proof -
  obtain r0 r1 r2 where r: "region = (r0, r1, r2)" by (cases region) auto
  show "srp = drp" "ssp = dsp" using c by (simp_all add: contiguous_def r)
  have rp: "drp = r0" and sp: "dsp = r1 * r0" using c by (simp_all add: contiguous_def r)
  have "unat (r1 * r0) = unat r1 * unat r0 mod 2 ^ 64"
    by (simp add: unat_word_ariths)
  moreover have "unat r1 * unat r0 \<le> unat (r1 * r0)" using ok by (simp add: rect_ok_def r rp sp)
  ultimately have plane: "unat (r1 * r0) = unat r1 * unat r0"
    by (metis mod_less_eq_dividend le_antisym)
  show "a - dst < region_bytes region \<longleftrightarrow> a \<in> rect_addrs dst drp dsp region"
  proof (cases "0 < unat r0 \<and> 0 < unat r1 \<and> 0 < unat r2")
    case True
    let ?N = "unat r0 * unat r1 * unat r2"
    have dense: "rect_off drp dsp i j k = i + unat r0 * (j + unat r1 * k)" for i j k
      by (subst rect_off_dense [where n = "unat r1"]) (simp_all add: rp sp plane mult.commute [of "unat r1"])
    have below: "rect_off drp dsp i j k < ?N" if "in_region region i j k" for i j k
    proof -
      have lt: "i < unat r0" "j < unat r1" "k < unat r2" using that by (simp_all add: in_region_def r)
      have "j + unat r1 * k < unat r1 * Suc k" using lt by simp
      also have "\<dots> \<le> unat r1 * unat r2" using lt by (intro mult_le_mono2) simp
      finally have "unat r0 * Suc (j + unat r1 * k) \<le> unat r0 * (unat r1 * unat r2)"
        by (intro mult_le_mono2) simp
      then show ?thesis using lt by (simp add: dense)
    qed
    obtain x y z where xyz: "unat r0 = Suc x" "unat r1 = Suc y" "unat r2 = Suc z"
      using True by (metis gr0_conv_Suc)
    have "rect_off drp dsp x y z + 1 = ?N" by (simp add: dense xyz algebra_simps)
    moreover have "rect_off drp dsp x y z < 2 ^ 64 - 1"
      using ok by (simp add: rect_ok_def r xyz)
    ultimately have N: "?N < 2 ^ 64" by simp
    have prod: "unat r2 * unat (r1 * r0) = ?N" unfolding plane by (simp add: ac_simps)
    then have "unat (r2 * (r1 * r0)) = unat r2 * unat (r1 * r0)"
      using N by (intro unat_mult_nowrap) (simp only: prod, simp)
    then have bytes: "unat (region_bytes region) = ?N"
      unfolding region_bytes_def r prod.case mult.assoc prod by simp
    show ?thesis
    proof
      assume "a - dst < region_bytes region"
      then have lt: "unat (a - dst) < ?N" by (simp add: word_less_nat_alt bytes)
      let ?o = "unat (a - dst)"
      let ?i = "?o mod unat r0" and ?j = "?o div unat r0 mod unat r1" and ?k = "?o div unat r0 div unat r1"
      have "in_region region ?i ?j ?k"
        using True lt by (simp add: in_region_def r less_mult_imp_div_less ac_simps)
      moreover have "rect_off drp dsp ?i ?j ?k = ?o" by (simp add: dense)
      then have "a = dst + of_nat (rect_off drp dsp ?i ?j ?k)" by simp
      ultimately show "a \<in> rect_addrs dst drp dsp region" unfolding rect_addrs_def by blast
    next
      assume "a \<in> rect_addrs dst drp dsp region"
      then obtain i j k where ijk: "in_region region i j k" and a: "a = dst + of_nat (rect_off drp dsp i j k)"
        by (auto simp: rect_addrs_def)
      have "unat (a - dst) = rect_off drp dsp i j k"
        using below [OF ijk] N by (simp add: a unat_of_nat_nowrap)
      then show "a - dst < region_bytes region" using below [OF ijk] by (simp add: word_less_nat_alt bytes)
    qed
  next
    case False
    then have "region_bytes region = 0" by (auto simp: region_bytes_def r unat_eq_0)
    moreover have "rect_addrs dst drp dsp region = {}" using False by (auto simp: rect_addrs_def in_region_def r)
    ultimately show ?thesis by simp
  qed
qed

lemma contiguous_copied:
  assumes c: "contiguous srp ssp drp dsp region" and ok: "rect_ok drp dsp region"
  shows "copied dst drp dsp src srp ssp region m (memcpy dst src (region_bytes region) m)"
proof -
  note C = contiguous_region [OF c ok]
  have "memcpy dst src (region_bytes region) m (dst + of_nat (rect_off drp dsp i j k)) =
      m (src + of_nat (rect_off srp ssp i j k))" if "in_region region i j k" for i j k
  proof -
    have "dst + of_nat (rect_off drp dsp i j k) \<in> rect_addrs dst drp dsp region"
      using that by (auto simp: rect_addrs_def)
    then have "of_nat (rect_off drp dsp i j k) < region_bytes region"
      using C(3) [of "dst + of_nat (rect_off drp dsp i j k)" dst] by simp
    then show ?thesis unfolding C(1,2) by (rule memcpy_in)
  qed
  moreover have "memcpy dst src (region_bytes region) m a = m a" if "a \<notin> rect_addrs dst drp dsp region" for a
    by (rule memcpy_out) (use that C(3) in blast)
  ultimately show ?thesis by (simp add: copied_def)
qed

lemma contiguous_sym: "contiguous rp sp rp' sp' region = contiguous rp' sp' rp sp region"
  by (auto simp: contiguous_def split: prod.splits)

text \<open>All three rectangle copies: \<open>dst\<close> and \<open>src\<close> are the adjusted pointers.\<close>

lemma rect_move_copied:
  assumes "rect_ok drp dsp region"
    and "rect_addrs dst drp dsp region \<inter> rect_addrs src srp ssp region = {}"
  shows "copied dst drp dsp src srp ssp region m
    (if contiguous srp ssp drp dsp region then memcpy dst src (region_bytes region) m
     else copy_rows dst drp dsp src srp ssp region m)"
  using contiguous_copied copy_rows_copied assms by simp

section \<open>Filling\<close>

definition byte_range :: "size_t \<Rightarrow> nat \<Rightarrow> size_t set" where
  "byte_range p n = {p + of_nat i | i. i < n}"

lemma byte_range_below:
  assumes "unat p + n \<le> unat q" and "unat q + k \<le> 2 ^ 64"
  shows "byte_range q k \<inter> byte_range p n = {}"
proof -
  have "q + of_nat i \<noteq> p + of_nat j" if "i < k" "j < n" for i j
  proof
    assume "q + of_nat i = p + of_nat j"
    then have "unat (q + of_nat i) = unat (p + of_nat j)" by simp
    moreover have "unat (q + of_nat i) = unat q + i"
      using that assms by (simp add: unat_add_nowrap unat_of_nat_nowrap)
    moreover have "unat (p + of_nat j) = unat p + j"
      using that assms by (simp add: unat_add_nowrap unat_of_nat_nowrap)
    ultimately show False using that assms(1) by linarith
  qed
  then show ?thesis by (auto simp: byte_range_def)
qed

text \<open>\<open>N\<close> elements of \<open>w\<close> bytes, filled from a pattern of \<open>c\<close> elements.\<close>

definition fill_rows :: "size_t \<Rightarrow> size_t \<Rightarrow> nat \<Rightarrow> size_t \<Rightarrow> nat \<Rightarrow> (size_t \<times> size_t) list" where
  "fill_rows p w c pattern N =
     map (\<lambda>q. (p + w * of_nat q, pattern + w * of_nat (q mod c))) [0..<N]"

lemma in_elem:
  assumes "x - (p + w * of_nat q) < w"
  obtains i where "i < unat w" and "x = p + of_nat (unat w * q + i)"
proof
  let ?i = "unat (x - (p + w * of_nat q))"
  show "?i < unat w" using assms by (simp add: word_less_nat_alt)
  show "x = p + of_nat (unat w * q + ?i)" by simp
qed

lemma elem_less: "q < n \<Longrightarrow> j < w \<Longrightarrow> w * q + j < w * (n :: nat)"
proof -
  assume "q < n" "j < w"
  then have "w * Suc q \<le> w * n" by (intro mult_le_mono2) simp
  then show ?thesis using \<open>j < w\<close> by simp
qed

lemma fill_rows_dst:
  assumes "(d, s) \<in> set (fill_rows p w c pattern N)" and "x - d < w"
  shows "x \<in> byte_range p (unat w * N)"
proof -
  obtain q where q: "q < N" "d = p + w * of_nat q" using assms(1) by (auto simp: fill_rows_def)
  have "x - (p + w * of_nat q) < w" using assms(2) q by simp
  then obtain j where j: "j < unat w" "x = p + of_nat (unat w * q + j)"
    by (rule in_elem)
  then show ?thesis unfolding byte_range_def using elem_less [OF q(1) j(1)] by blast
qed

lemma fill_rows_out:
  "a \<notin> byte_range p (unat w * N) \<Longrightarrow> copy_list w (fill_rows p w c pattern N) m a = m a"
  by (rule copy_list_out) (use fill_rows_dst in blast)

lemma fill_rows_copied:
  assumes w: "0 < unat w" and c: "0 < c" and size: "unat w * N < 2 ^ 64"
    and apart: "byte_range p (unat w * N) \<inter> byte_range pattern (unat w * c) = {}"
  shows "(i < unat w * N \<longrightarrow> copy_list w (fill_rows p w c pattern N) m (p + of_nat i) =
      m (pattern + of_nat (i mod (unat w * c)))) \<and>
    (a \<notin> byte_range p (unat w * N) \<longrightarrow> copy_list w (fill_rows p w c pattern N) m a = m a)"
proof -
  let ?rows = "fill_rows p w c pattern N"
  have mem: "(d, s) \<in> set ?rows \<longleftrightarrow> (\<exists>q<N. d = p + w * of_nat q \<and> s = pattern + w * of_nat (q mod c))" for d s
    by (auto simp: fill_rows_def)
  note elem = elem_less [of _ _ _ "unat w"]
  note in_dst = fill_rows_dst
  have in_src: "x \<in> byte_range pattern (unat w * c)" if ds: "(d, s) \<in> set ?rows" and x: "x - s < w" for d s x
  proof -
    obtain q where q: "q < N" "s = pattern + w * of_nat (q mod c)" using iffD1 [OF mem ds] by blast
    have "x - (pattern + w * of_nat (q mod c)) < w" using x q by simp
    then obtain j where j: "j < unat w" "x = pattern + of_nat (unat w * (q mod c) + j)"
      by (rule in_elem)
    have "unat w * (q mod c) + j < unat w * c" using c j(1) by (intro elem) simp_all
    then show ?thesis unfolding byte_range_def using j(2) by blast
  qed
  have no_src: "\<not> x - s' < w" if "(d, s) \<in> set ?rows" "(d', s') \<in> set ?rows" "x - d < w" for d s d' s' x
    using in_dst [OF that(1,3)] in_src [OF that(2)] apart by blast
  have inj: "q = q'" if q: "q < N" "q' < N" and x: "x - (p + w * of_nat q) < w" "x - (p + w * of_nat q') < w" for q q' x
  proof -
    obtain j j' where j: "j < unat w" "x = p + of_nat (unat w * q + j)"
      and j': "j' < unat w" "x = p + of_nat (unat w * q' + j')"
      using in_elem [OF x(1)] in_elem [OF x(2)] by metis
    have "unat w * q + j = unat w * q' + j'"
      using elem [OF q(1) j(1)] elem [OF q(2) j'(1)] size j(2) j'(2)
      by (intro of_nat_inj_64) simp_all
    then show ?thesis using decode_2 [of j "unat w" j' q q'] j(1) j'(1) by simp
  qed
  have sorted: "sorted_wrt (\<lambda>(d, s) (d', s'). \<forall>x. x - d < w \<longrightarrow> \<not> x - d' < w) ?rows"
    unfolding fill_rows_def sorted_wrt_map prod.case
  proof (rule sorted_wrt_mono_rel [of _ "(<)"])
    show "\<forall>x. x - (p + w * of_nat q) < w \<longrightarrow> \<not> x - (p + w * of_nat q') < w"
      if "q \<in> set [0..<N]" "q' \<in> set [0..<N]" "q < q'" for q q'
      using inj [of q q'] that by auto
  qed simp
  have "copy_list w ?rows m (p + of_nat i) = m (pattern + of_nat (i mod (unat w * c)))" if i: "i < unat w * N"
  proof -
    let ?q = "i div unat w" and ?j = "i mod unat w"
    have "?q < N" using i by (simp add: less_mult_imp_div_less mult.commute)
    then have "(p + w * of_nat ?q, pattern + w * of_nat (?q mod c)) \<in> set ?rows"
      unfolding mem by blast
    moreover have "(of_nat ?j :: size_t) < w"
    proof -
      have "?j < 2 ^ 64" using less_trans [OF mod_less_divisor [OF w, of i] unat_less_size_t [of w]] by simp
      then show ?thesis using w by (simp add: word_less_nat_alt unat_of_nat_nowrap)
    qed
    ultimately have "copy_list w ?rows m (p + w * of_nat ?q + of_nat ?j) = m (pattern + w * of_nat (?q mod c) + of_nat ?j)"
      by (intro copy_list_in [OF no_src sorted])
    moreover have "w * of_nat x + of_nat y = (of_nat (unat w * x + y) :: size_t)" for x y by simp
    moreover have "unat w * ?q + ?j = i" by simp
    moreover have "unat w * (?q mod c) + ?j = i mod (unat w * c)" by (simp add: mod_mult2_eq)
    ultimately show ?thesis by (simp only: add.assoc)
  qed
  then show ?thesis using fill_rows_out by blast
qed

lemma fill_elems_rows: "fill_elems p w pattern n m = copy_list w (fill_rows p w 1 pattern (unat n)) m"
  by (simp add: fill_elems_def copy_list_def fill_rows_def fold_map comp_def)

lemma product_upt:
  "map (\<lambda>(i, j). i * c + j) (List.product [0..<n] [0..<c]) = [0..<n * c]"
proof (induction n)
  case (Suc n)
  have "List.product (xs @ ys) zs = List.product xs zs @ List.product ys zs" for xs ys zs :: "nat list"
    by (induction xs) simp_all
  then have "map (\<lambda>(i, j). i * c + j) (List.product [0..<Suc n] [0..<c]) = [0..<n * c] @ map ((+) (n * c)) [0..<c]"
    using Suc by (simp add: comp_def)
  also have "map ((+) (n * c)) [0..<c] = [n * c..<n * c + c]"
  proof -
    have "(+) (n * c) = (\<lambda>i. i + n * c)" by (simp add: fun_eq_iff)
    then show ?thesis using map_add_upt [of "n * c" c] by (simp add: add.commute)
  qed
  also have "[0..<n * c] @ [n * c..<n * c + c] = [0..<n * c + c]"
    by (rule upt_add_eq_append [symmetric]) simp
  finally show ?case by (simp only: mult_Suc add.commute)
qed simp

lemma fill_words_rows:
  "fill_words p s pattern n m = copy_list 8 (fill_rows p 8 (2 ^ s) pattern (unat n * 2 ^ s)) m"
proof -
  define row where "row = (\<lambda>q. (p + 8 * of_nat q, pattern + 8 * of_nat (q mod 2 ^ s)) :: size_t \<times> size_t)"
  have "fill_words p s pattern n m = fold (\<lambda>(i, j). memcpy (p + 8 * (push_bit s (of_nat i) + of_nat j))
      (pattern + 8 * of_nat j) 8) (List.product [0..<unat n] [0..<2 ^ s]) m"
    unfolding fill_words_def by (rule fold_product)
  also have "\<dots> = fold (\<lambda>(i, j). (\<lambda>(d, s). memcpy d s 8) (row (i * 2 ^ s + j)))
      (List.product [0..<unat n] [0..<2 ^ s]) m"
    by (rule fold_cong) (auto simp: row_def push_bit_eq_mult mult.commute)
  also have "\<dots> = copy_list 8 (map row (map (\<lambda>(i, j). i * 2 ^ s + j) (List.product [0..<unat n] [0..<2 ^ s]))) m"
    by (simp add: copy_list_def fold_map comp_def case_prod_beta')
  also have "\<dots> = copy_list 8 (fill_rows p 8 (2 ^ s) pattern (unat n * 2 ^ s)) m"
    unfolding product_upt by (simp add: fill_rows_def row_def)
  finally show ?thesis .
qed

text \<open>The pattern sizes the code handles, with the element width and the elements per pattern.\<close>

lemma mult_div_dvd:
  assumes "unat (w :: size_t) dvd unat x"
  shows "w * (x div w) = x"
proof (rule unsigned_word_eqI [where 'a = nat])
  have "unat w * unat (x div w) = unat x" using assms by (simp add: unat_div)
  then show "unat (w * (x div w)) = unat x"
    using unat_less_size_t [of x] by (subst unat_mult_nowrap) simp_all
qed

lemma memfill_rows:
  assumes "p \<in> {1, 2, 4, 8, 16, 32, 64, 128}" and "unat p dvd unat offset"
  obtains w c where "unat w * c = unat p" and "0 < unat w" and "0 < c"
    and "pocl_basic_memfill ptr sz offset pattern p m =
      Some (copy_list w (fill_rows (ptr + offset) w c pattern (unat (sz div p) * c)) m)"
proof -
  have ofs: "p * (offset div p) = offset" by (rule mult_div_dvd [OF assms(2)])
  consider "p = 1" | "p = 2" | "p = 4" | "p = 8" | "p = 16" | "p = 32" | "p = 64" | "p = 128"
    using assms(1) by blast
  then show ?thesis
  proof cases
    case 1 then show ?thesis using ofs by (intro that [of 1 1]) (simp_all add: pocl_basic_memfill_def Let_def fill_elems_rows)
  next
    case 2 then show ?thesis using ofs by (intro that [of 2 1]) (simp_all add: pocl_basic_memfill_def Let_def fill_elems_rows)
  next
    case 3 then show ?thesis using ofs by (intro that [of 4 1]) (simp_all add: pocl_basic_memfill_def Let_def fill_elems_rows)
  next
    case 4 then show ?thesis using ofs by (intro that [of 8 1]) (simp_all add: pocl_basic_memfill_def Let_def fill_elems_rows)
  next
    case 5 then show ?thesis using ofs by (intro that [of 8 2]) (simp_all add: pocl_basic_memfill_def Let_def fill_words_rows push_bit_eq_mult)
  next
    case 6 then show ?thesis using ofs by (intro that [of 8 4]) (simp_all add: pocl_basic_memfill_def Let_def fill_words_rows push_bit_eq_mult)
  next
    case 7 then show ?thesis using ofs by (intro that [of 8 8]) (simp_all add: pocl_basic_memfill_def Let_def fill_words_rows push_bit_eq_mult)
  next
    case 8 then show ?thesis using ofs by (intro that [of 8 16]) (simp_all add: pocl_basic_memfill_def Let_def fill_words_rows push_bit_eq_mult)
  qed
qed

text \<open>A rectangle lies between its first and its last byte.\<close>

definition rect_extent :: "size_t \<Rightarrow> size_t \<Rightarrow> size3 \<Rightarrow> nat" where
  "rect_extent row_pitch slice_pitch region = (case region of (r0, r1, r2) \<Rightarrow>
     rect_off row_pitch slice_pitch (unat r0 - 1) (unat r1 - 1) (unat r2 - 1) + 1)"

lemma rect_addrs_range: "rect_addrs base rp sp region \<subseteq> byte_range base (rect_extent rp sp region)"
proof
  fix x assume "x \<in> rect_addrs base rp sp region"
  then obtain i j k where ijk: "in_region region i j k" and x: "x = base + of_nat (rect_off rp sp i j k)"
    by (auto simp: rect_addrs_def)
  obtain r0 r1 r2 where r: "region = (r0, r1, r2)" by (cases region) auto
  have "i \<le> unat r0 - 1" "j \<le> unat r1 - 1" "k \<le> unat r2 - 1" using ijk by (auto simp: in_region_def r)
  then have "rect_off rp sp i j k \<le> rect_off rp sp (unat r0 - 1) (unat r1 - 1) (unat r2 - 1)"
    unfolding rect_off_def by (intro add_mono mult_le_mono2)
  then show "x \<in> byte_range base (rect_extent rp sp region)"
    unfolding byte_range_def rect_extent_def r using x by auto
qed

lemma rect_apart:
  assumes "byte_range dst (rect_extent drp dsp region) \<inter> byte_range src (rect_extent srp ssp region) = {}"
  shows "rect_addrs dst drp dsp region \<inter> rect_addrs src srp ssp region = {}"
  using assms rect_addrs_range [of dst drp dsp region] rect_addrs_range [of src srp ssp region] by blast

section \<open>Properties\<close>

text \<open>
  C11: \<open>pocl_basic_memfill\<close> with any of the supported pattern sizes fills the addressed bytes with
  repetitions of the pattern and changes no other byte.
\<close>

theorem basic_memfill_spec:
  assumes "p \<in> {1, 2, 4, 8, 16, 32, 64, 128}" and "unat p dvd unat offset" and "unat p dvd unat sz"
    and "byte_range (ptr + offset) (unat sz) \<inter> byte_range pattern (unat p) = {}"
  shows "\<exists>m'. pocl_basic_memfill ptr sz offset pattern p m = Some m' \<and>
    (\<forall>i < unat sz. m' (ptr + offset + of_nat i) = m (pattern + of_nat (i mod unat p))) \<and>
    (\<forall>a. a \<notin> byte_range (ptr + offset) (unat sz) \<longrightarrow> m' a = m a)"
proof -
  obtain w c where wc: "unat w * c = unat p" "0 < unat w" "0 < c"
    and fill: "pocl_basic_memfill ptr sz offset pattern p m =
      Some (copy_list w (fill_rows (ptr + offset) w c pattern (unat (sz div p) * c)) m)"
    by (rule memfill_rows [OF assms(1,2)])
  have "unat w * (unat (sz div p) * c) = unat (sz div p) * (unat w * c)" by simp
  also have "\<dots> = unat sz" using assms(3) by (simp add: wc unat_div)
  finally have total: "unat w * (unat (sz div p) * c) = unat sz" .
  note rows = fill_rows_copied [OF wc(2,3), of "unat (sz div p) * c" "ptr + offset" pattern,
      unfolded total wc(1), OF _ assms(4)]
  have size: "unat sz < 2 ^ 64" using unat_less_size_t [of sz] by simp
  show ?thesis
    unfolding fill using rows [OF size] by blast
qed

theorem basic_memfill_spec_witness:
  "\<exists>m'. pocl_basic_memfill 4096 96 32 64 32 (\<lambda>a. ucast a) = Some m' \<and>
    (\<forall>i<96. m' (4128 + of_nat i) = ucast (64 + of_nat (i mod 32) :: size_t)) \<and>
    (\<forall>a. a \<notin> byte_range 4128 96 \<longrightarrow> m' a = ucast a)"
proof -
  have "byte_range 4128 96 \<inter> byte_range 64 32 = {}"
    using byte_range_below [of 64 32 4128 96] by simp
  then show ?thesis using basic_memfill_spec [of 32 32 96 4096 64 "\<lambda>a. ucast a"] by simp
qed

text \<open>
  C10: A rectangle copy, on its contiguous fast path as on its row loop, copies exactly the bytes of
  the region between the two rectangles and changes no other byte; the read and write variants are
  the same copy between the device and the host pointer.
\<close>

theorem basic_rect_copy_spec:
  assumes "rect_ok drp dsp region"
    and "rect_addrs (rect_ptr dst dorg drp dsp) drp dsp region \<inter>
      rect_addrs (rect_ptr src sorg srp ssp) srp ssp region = {}"
  shows "copied (rect_ptr dst dorg drp dsp) drp dsp (rect_ptr src sorg srp ssp) srp ssp region m
      (pocl_basic_copy_rect dst src dorg sorg region drp dsp srp ssp m) \<and>
    pocl_basic_write_rect src dst dorg sorg region drp dsp srp ssp m =
      pocl_basic_copy_rect dst src dorg sorg region drp dsp srp ssp m \<and>
    pocl_basic_read_rect dst src sorg dorg region srp ssp drp dsp m =
      pocl_basic_copy_rect dst src dorg sorg region drp dsp srp ssp m"
proof (intro conjI)
  show "copied (rect_ptr dst dorg drp dsp) drp dsp (rect_ptr src sorg srp ssp) srp ssp region m
      (pocl_basic_copy_rect dst src dorg sorg region drp dsp srp ssp m)"
    using rect_move_copied [OF assms] by (simp add: pocl_basic_copy_rect_def Let_def)
  show "pocl_basic_write_rect src dst dorg sorg region drp dsp srp ssp m =
      pocl_basic_copy_rect dst src dorg sorg region drp dsp srp ssp m"
    by (simp add: pocl_basic_write_rect_def pocl_basic_copy_rect_def Let_def
        contiguous_sym [of drp dsp])
  show "pocl_basic_read_rect dst src sorg dorg region srp ssp drp dsp m =
      pocl_basic_copy_rect dst src dorg sorg region drp dsp srp ssp m"
    by (simp add: pocl_basic_read_rect_def pocl_basic_copy_rect_def Let_def)
qed

theorem basic_rect_copy_spec_witness:
  "copied (rect_ptr 4096 (8, 1, 1) 16 64) 16 64 (rect_ptr 64 (0, 0, 0) 8 16) 8 16 (8, 2, 3) (\<lambda>a. ucast a)
     (pocl_basic_copy_rect 4096 64 (8, 1, 1) (0, 0, 0) (8, 2, 3) 16 64 8 16 (\<lambda>a. ucast a))"
proof -
  have "rect_addrs (rect_ptr 4096 (8, 1, 1) 16 64) 16 64 (8, 2, 3) \<inter>
      rect_addrs (rect_ptr 64 (0, 0, 0) 8 16) 8 16 (8, 2, 3) = {}"
    by (rule rect_apart) (simp add: rect_ptr_def rect_extent_def rect_off_def byte_range_below)
  moreover have "rect_ok 16 64 (8, 2, 3)" by (simp add: rect_ok_def rect_off_def)
  ultimately show ?thesis using basic_rect_copy_spec by blast
qed

text \<open>
  C12: Writing a rectangle of a buffer from the host and reading it back into another host area
  returns the data written, for any origins and pitches.
\<close>

theorem basic_rect_roundtrip:
  assumes "rect_ok brp bsp region" and "rect_ok hrp' hsp' region"
    and "rect_addrs (rect_ptr dev borg brp bsp) brp bsp region \<inter>
      rect_addrs (rect_ptr host horg hrp hsp) hrp hsp region = {}"
    and "rect_addrs (rect_ptr host' horg' hrp' hsp') hrp' hsp' region \<inter>
      rect_addrs (rect_ptr dev borg brp bsp) brp bsp region = {}"
    and "in_region region i j k"
  shows "pocl_basic_read_rect host' dev borg horg' region brp bsp hrp' hsp'
      (pocl_basic_write_rect host dev borg horg region brp bsp hrp hsp m)
        (rect_ptr host' horg' hrp' hsp' + of_nat (rect_off hrp' hsp' i j k)) =
    m (rect_ptr host horg hrp hsp + of_nat (rect_off hrp hsp i j k))"
proof -
  have "copied (rect_ptr dev borg brp bsp) brp bsp (rect_ptr host horg hrp hsp) hrp hsp region m
      (pocl_basic_write_rect host dev borg horg region brp bsp hrp hsp m)"
    using rect_move_copied [OF assms(1,3)]
    by (simp add: pocl_basic_write_rect_def Let_def contiguous_sym [of brp bsp])
  moreover have "copied (rect_ptr host' horg' hrp' hsp') hrp' hsp' (rect_ptr dev borg brp bsp) brp bsp region m'
      (pocl_basic_read_rect host' dev borg horg' region brp bsp hrp' hsp' m')" for m'
    using rect_move_copied [OF assms(2,4)] by (simp add: pocl_basic_read_rect_def Let_def)
  ultimately show ?thesis using assms(5) by (simp add: copied_def)
qed

theorem basic_rect_roundtrip_witness:
  "pocl_basic_read_rect 8192 4096 (8, 1, 1) (0, 0, 0) (8, 2, 3) 16 64 8 16
      (pocl_basic_write_rect 64 4096 (8, 1, 1) (4, 0, 0) (8, 2, 3) 16 64 12 24 (\<lambda>a. ucast a))
        (rect_ptr 8192 (0, 0, 0) 8 16 + of_nat (rect_off 8 16 5 1 2)) =
    ucast (rect_ptr 64 (4, 0, 0) 12 24 + of_nat (rect_off 12 24 5 1 2))"
proof (rule basic_rect_roundtrip)
  show "rect_addrs (rect_ptr 4096 (8, 1, 1) 16 64) 16 64 (8, 2, 3) \<inter>
      rect_addrs (rect_ptr 64 (4, 0, 0) 12 24) 12 24 (8, 2, 3) = {}"
    by (rule rect_apart) (simp add: rect_ptr_def rect_extent_def rect_off_def byte_range_below)
  show "rect_addrs (rect_ptr 8192 (0, 0, 0) 8 16) 8 16 (8, 2, 3) \<inter>
      rect_addrs (rect_ptr 4096 (8, 1, 1) 16 64) 16 64 (8, 2, 3) = {}"
    by (rule rect_apart) (simp add: rect_ptr_def rect_extent_def rect_off_def byte_range_below)
qed (simp_all add: rect_ok_def rect_off_def in_region_def)

text \<open>
  Mapping a buffer range to its own host area and unmapping it again brings the device bytes
  to what the host area held at the unmap, whatever the host wrote meanwhile; a mapping of the device
  memory itself needs no copy; a read-only mapping never changes the buffer.
\<close>

theorem basic_map_unmap_spec:
  assumes "pocl_basic_map_mem dev mp m = (mp', m1)"
    and "byte_range (dev + map_offset mp) (unat (map_size mp)) \<inter>
      byte_range (map_host_ptr mp') (unat (map_size mp)) = {} \<or> map_host_ptr mp = 0"
  shows "(\<forall>i < unat (map_size mp). \<not> (map_flags mp AND CL_MAP_WRITE_INVALIDATE_REGION \<noteq> 0) \<longrightarrow>
      m1 (map_host_ptr mp' + of_nat i) = m (dev + map_offset mp + of_nat i)) \<and>
    (map_host_ptr mp' \<noteq> 0 \<longrightarrow> (\<exists>m3. pocl_basic_unmap_mem dev mp' m2 = Some m3 \<and>
      (map_flags mp = CL_MAP_READ \<longrightarrow> m3 = m2) \<and>
      (map_flags mp \<noteq> CL_MAP_READ \<longrightarrow> (\<forall>i < unat (map_size mp).
         m3 (dev + map_offset mp + of_nat i) = m2 (map_host_ptr mp' + of_nat i)))))"
proof -
  have lt: "(of_nat i :: size_t) < n" if "i < unat n" for i n
    using that unat_less_size_t [of n] by (simp add: word_less_nat_alt unat_of_nat_nowrap)
  have mp': "map_offset mp' = map_offset mp" "map_size mp' = map_size mp" "map_flags mp' = map_flags mp"
    using assms(1) by (auto simp: pocl_basic_map_mem_def split: if_splits)
  have copy: "memcpy dst src n f (dst + of_nat i) = f (src + of_nat i)" if "i < unat n" for dst src n f i
    by (rule memcpy_in [OF lt [OF that]])
  have "m1 (map_host_ptr mp' + of_nat i) = m (dev + map_offset mp + of_nat i)"
    if "i < unat (map_size mp)" "map_flags mp AND CL_MAP_WRITE_INVALIDATE_REGION = 0" for i
    using assms(1) that copy [OF that(1)] by (auto simp: pocl_basic_map_mem_def split: if_splits)
  moreover have "\<exists>m3. pocl_basic_unmap_mem dev mp' m2 = Some m3 \<and>
      (map_flags mp = CL_MAP_READ \<longrightarrow> m3 = m2) \<and>
      (map_flags mp \<noteq> CL_MAP_READ \<longrightarrow> (\<forall>i < unat (map_size mp).
         m3 (dev + map_offset mp + of_nat i) = m2 (map_host_ptr mp' + of_nat i)))"
    if "map_host_ptr mp' \<noteq> 0"
    using that by (simp add: pocl_basic_unmap_mem_def mp' copy)
  ultimately show ?thesis by blast
qed

theorem basic_map_unmap_spec_witness:
  "snd (pocl_basic_map_mem 4096 \<lparr>map_host_ptr = 64, map_offset = 32, map_size = 16, map_flags = 3,
      map_origin = (0, 0, 0), map_region = (0, 0, 0), map_row_pitch = 0, map_slice_pitch = 0\<rparr> (\<lambda>a. ucast a))
      (64 + of_nat 5) = ucast (4096 + 32 + of_nat 5 :: size_t) \<and>
   (\<exists>m3. pocl_basic_unmap_mem 4096 \<lparr>map_host_ptr = 64, map_offset = 32, map_size = 16, map_flags = 3,
      map_origin = (0, 0, 0), map_region = (0, 0, 0), map_row_pitch = 0, map_slice_pitch = 0\<rparr> (\<lambda>a. ucast a) = Some m3 \<and>
      m3 (4096 + 32 + of_nat 5) = ucast (64 + of_nat 5 :: size_t))"
proof -
  define mp where "mp = \<lparr>map_host_ptr = 64, map_offset = 32, map_size = 16, map_flags = 3,
      map_origin = (0, 0, 0), map_region = (0, 0, 0), map_row_pitch = 0, map_slice_pitch = 0\<rparr>"
  obtain m1 where map: "pocl_basic_map_mem 4096 mp (\<lambda>a. ucast a) = (mp, m1)"
    by (simp add: pocl_basic_map_mem_def mp_def CL_MAP_WRITE_INVALIDATE_REGION_def)
  have "byte_range (4096 + map_offset mp) (unat (map_size mp)) \<inter> byte_range (map_host_ptr mp) (unat (map_size mp)) = {}"
    by (simp add: mp_def byte_range_below)
  note spec = basic_map_unmap_spec [OF map disjI1 [OF this], of "\<lambda>a. ucast a"]
  have f: "map_host_ptr mp = 64" "map_offset mp = 32" "unat (map_size mp) = 16" "map_flags mp = 3"
    "\<not> (map_flags mp AND CL_MAP_WRITE_INVALIDATE_REGION \<noteq> 0)" "map_flags mp \<noteq> CL_MAP_READ"
    "map_host_ptr mp \<noteq> 0" "5 < unat (map_size mp)"
    by (simp_all add: mp_def CL_MAP_READ_def CL_MAP_WRITE_INVALIDATE_REGION_def)
  have "m1 (64 + of_nat 5) = ucast (4096 + 32 + of_nat 5 :: size_t)"
    using spec f(5,8) unfolding f(1,2) by blast
  moreover have "\<exists>m3. pocl_basic_unmap_mem 4096 mp (\<lambda>a. ucast a) = Some m3 \<and>
      m3 (4096 + 32 + of_nat 5) = ucast (64 + of_nat 5 :: size_t)"
    using spec f(6,7,8) unfolding f(1,2) by blast
  ultimately show ?thesis by (simp only: map snd_conv mp_def [symmetric])
qed

text \<open>The nested loops of \<open>pocl_basic_fill_image\<close> as one sequence of pixel copies.\<close>

definition pixel_rows :: "size_t \<Rightarrow> size_t \<Rightarrow> size_t \<Rightarrow> size_t \<Rightarrow> size3 \<Rightarrow> size_t \<Rightarrow> (size_t \<times> size_t) list" where
  "pixel_rows base px rp sp region fill_pixel = (case region of (r0, r1, r2) \<Rightarrow>
     map (\<lambda>((k, j), i). (base + px * of_nat i + rp * of_nat j + sp * of_nat k, fill_pixel))
       (List.product (List.product [0..<unat r2] [0..<unat r1]) [0..<unat r0]))"

lemma fill_image_rows:
  "pocl_basic_fill_image im ptr (o0, o1, o2) region fill_pixel px m =
     copy_list px (pixel_rows (ptr + o0 * px + image_row_pitch im * o1 + image_slice_pitch im * o2) px
       (image_row_pitch im) (image_slice_pitch im) region fill_pixel) m"
proof -
  obtain r0 r1 r2 where r: "region = (r0, r1, r2)" by (cases region) auto
  show ?thesis
    unfolding pocl_basic_fill_image_def r prod.case Let_def fold_product
    by (simp add: pixel_rows_def copy_list_def fold_map comp_def case_prod_beta' fold_product)
qed

lemma pixel_rows_mem:
  "(d, s) \<in> set (pixel_rows base px rp sp region fp) \<longleftrightarrow> s = fp \<and>
    (\<exists>i j k. in_region region i j k \<and> d = base + px * of_nat i + rp * of_nat j + sp * of_nat k)"
proof -
  obtain r0 r1 r2 where r: "region = (r0, r1, r2)" by (cases region) auto
  define f where "f = (\<lambda>((k, j), i). (base + px * of_nat i + rp * of_nat j + sp * of_nat k :: size_t, fp))"
  have "set (pixel_rows base px rp sp region fp) = f ` (({0..<unat r2} \<times> {0..<unat r1}) \<times> {0..<unat r0})"
    by (simp add: pixel_rows_def r f_def)
  also have "(d, s) \<in> \<dots> \<longleftrightarrow> (\<exists>k<unat r2. \<exists>j<unat r1. \<exists>i<unat r0. (d, s) = f ((k, j), i))"
    by fastforce
  finally show ?thesis unfolding in_region_def r prod.case f_def by blast
qed

text \<open>
  C13: \<open>pocl_basic_fill_image\<close> stores the fill pixel at every pixel of the region and changes no byte
  outside the region's pixels.
\<close>

theorem basic_fill_image_spec:
  assumes ok: "rect_ok (image_row_pitch im) (image_slice_pitch im) (r0 * px, r1, r2)"
    and px: "unat r0 * unat px < 2 ^ 64"
    and base: "base = ptr + o0 * px + image_row_pitch im * o1 + image_slice_pitch im * o2"
    and apart: "rect_addrs base (image_row_pitch im) (image_slice_pitch im) (r0 * px, r1, r2) \<inter>
      byte_range fill_pixel (unat px) = {}"
  shows "(\<forall>i j k b. i < unat r0 \<and> j < unat r1 \<and> k < unat r2 \<and> b < unat px \<longrightarrow>
      pocl_basic_fill_image im ptr (o0, o1, o2) (r0, r1, r2) fill_pixel px m
        (base + of_nat (rect_off (image_row_pitch im) (image_slice_pitch im) (unat px * i + b) j k)) =
      m (fill_pixel + of_nat b)) \<and>
    (\<forall>a. a \<notin> rect_addrs base (image_row_pitch im) (image_slice_pitch im) (r0 * px, r1, r2) \<longrightarrow>
      pocl_basic_fill_image im ptr (o0, o1, o2) (r0, r1, r2) fill_pixel px m a = m a)"
proof -
  let ?rp = "image_row_pitch im" and ?sp = "image_slice_pitch im" and ?R = "(r0 * px, r1, r2)"
  let ?rows = "pixel_rows base px ?rp ?sp (r0, r1, r2) fill_pixel"
  have w: "unat (r0 * px) = unat r0 * unat px" using px by (intro unat_mult_nowrap) simp
  have pix: "base + px * of_nat i + ?rp * of_nat j + ?sp * of_nat k + of_nat b =
      base + of_nat (rect_off ?rp ?sp (unat px * i + b) j k)" for i j k b
    by (simp add: rect_off_def algebra_simps)
  have in_x: "unat px * i + b < unat r0 * unat px" if "i < unat r0" "b < unat px" for i b
  proof -
    have "unat px * Suc i \<le> unat px * unat r0" using that by (intro mult_le_mono2) simp
    then show ?thesis using that(2) by (simp add: mult.commute)
  qed
  have byte: "\<exists>b<unat px. x = base + of_nat (rect_off ?rp ?sp (unat px * i + b) j k)"
    if x: "x - (base + px * of_nat i + ?rp * of_nat j + ?sp * of_nat k) < px" for x i j k
  proof (intro exI conjI)
    let ?b = "unat (x - (base + px * of_nat i + ?rp * of_nat j + ?sp * of_nat k))"
    show "?b < unat px" using x by (simp add: word_less_nat_alt)
    show "x = base + of_nat (rect_off ?rp ?sp (unat px * i + ?b) j k)"
      by (simp only: pix [symmetric]) simp
  qed
  have in_dst: "x \<in> rect_addrs base ?rp ?sp ?R" if ds: "(d, s) \<in> set ?rows" and x: "x - d < px" for d s x
  proof -
    obtain i j k where ijk: "in_region (r0, r1, r2) i j k"
      and d: "d = base + px * of_nat i + ?rp * of_nat j + ?sp * of_nat k"
      using ds pixel_rows_mem by blast
    obtain b where b: "b < unat px" "x = base + of_nat (rect_off ?rp ?sp (unat px * i + b) j k)"
      using byte x d by blast
    have "in_region ?R (unat px * i + b) j k" using ijk in_x b(1) by (simp add: in_region_def w)
    then show ?thesis unfolding rect_addrs_def using b(2) by blast
  qed
  have no_src: "\<not> x - s' < px" if ds: "(d, s) \<in> set ?rows" "(d', s') \<in> set ?rows" "x - d < px" for d s d' s' x
  proof
    assume x: "x - s' < px"
    have s': "s' = fill_pixel" using ds(2) pixel_rows_mem by blast
    have "x = fill_pixel + of_nat (unat (x - fill_pixel))" by simp
    moreover have "unat (x - fill_pixel) < unat px" using x s' by (simp add: word_less_nat_alt)
    ultimately have "x \<in> byte_range fill_pixel (unat px)" unfolding byte_range_def by blast
    then show False using in_dst [OF ds(1,3)] apart by blast
  qed
  define row where "row = (\<lambda>((k, j), i). (base + px * of_nat i + ?rp * of_nat j + ?sp * of_nat k, fill_pixel))"
  define ixs where "ixs = List.product (List.product [0..<unat r2] [0..<unat r1]) [0..<unat r0]"
  define R where "R = (\<lambda>(d, s :: size_t) (d', s' :: size_t). \<forall>x. x - d < px \<longrightarrow> \<not> x - d' < px)"
  have rows: "?rows = map row ixs" by (simp add: pixel_rows_def row_def ixs_def)
  have sorted: "sorted_wrt R ?rows"
    unfolding rows sorted_wrt_map
  proof (rule sorted_wrt_mono_rel [of _ "(\<noteq>)"])
    show "sorted_wrt (\<noteq>) ixs" by (simp add: sorted_wrt_distinct ixs_def distinct_product)
    fix p q assume pq: "p \<in> set ixs" "q \<in> set ixs" "p \<noteq> q"
    obtain k j i k' j' i' where p: "p = ((k, j), i)" and q: "q = ((k', j'), i')"
      by (metis surj_pair)
    have in_p: "in_region (r0, r1, r2) i j k" and in_q: "in_region (r0, r1, r2) i' j' k'"
      using pq by (auto simp: p q ixs_def in_region_def)
    have "False" if x: "x - (base + px * of_nat i + ?rp * of_nat j + ?sp * of_nat k) < px"
        "x - (base + px * of_nat i' + ?rp * of_nat j' + ?sp * of_nat k') < px" for x
    proof -
      obtain b b' where b: "b < unat px" "x = base + of_nat (rect_off ?rp ?sp (unat px * i + b) j k)"
        and b': "b' < unat px" "x = base + of_nat (rect_off ?rp ?sp (unat px * i' + b') j' k')"
        using byte [OF x(1)] byte [OF x(2)] by metis
      have "in_region ?R (unat px * i + b) j k" "in_region ?R (unat px * i' + b') j' k'"
        using in_p in_q in_x b(1) b'(1) by (simp_all add: in_region_def w)
      then have "unat px * i + b = unat px * i' + b' \<and> j = j' \<and> k = k'"
        using rect_addr_inj [OF ok] b(2) b'(2) by metis
      moreover from this have "i = i'" using decode_2 [of b "unat px" b' i i'] b(1) b'(1) by simp
      ultimately show False using pq(3) p q by simp
    qed
    then show "R (row p) (row q)" by (auto simp: R_def row_def p q)
  qed
  have eq: "pocl_basic_fill_image im ptr (o0, o1, o2) (r0, r1, r2) fill_pixel px m = copy_list px ?rows m"
    by (simp add: fill_image_rows base)
  have "copy_list px ?rows m (base + of_nat (rect_off ?rp ?sp (unat px * i + b) j k)) = m (fill_pixel + of_nat b)"
    if ijk: "i < unat r0" "j < unat r1" "k < unat r2" and b: "b < unat px" for i j k b
  proof -
    let ?d = "base + px * of_nat i + ?rp * of_nat j + ?sp * of_nat k"
    have "(?d, fill_pixel) \<in> set ?rows"
      unfolding pixel_rows_mem in_region_def using ijk by auto
    moreover have "(of_nat b :: size_t) < px"
      using b unat_less_size_t [of px] by (simp add: word_less_nat_alt unat_of_nat_nowrap)
    ultimately have "copy_list px ?rows m (?d + of_nat b) = m (fill_pixel + of_nat b)"
      by (intro copy_list_in [OF no_src sorted [unfolded R_def]])
    then show ?thesis by (simp only: pix)
  qed
  moreover have "copy_list px ?rows m a = m a" if "a \<notin> rect_addrs base ?rp ?sp ?R" for a
    by (rule copy_list_out) (use that in_dst in blast)
  ultimately show ?thesis unfolding eq by blast
qed

theorem basic_fill_image_spec_witness:
  "\<exists>im. image_row_pitch im = 32 \<and> image_slice_pitch im = 128 \<and>
    pocl_basic_fill_image im 4096 (1, 1, 0) (5, 2, 2) 64 4 (\<lambda>a. ucast a)
      (4132 + of_nat (rect_off 32 128 (4 * 3 + 2) 1 1)) = 66"
proof -
  define im where "im = \<lparr>image_elem_size = 1, image_channels = 4, image_row_pitch = 32, image_slice_pitch = 128\<rparr>"
  have "rect_addrs 4132 32 128 (20, 2, 2) \<inter> byte_range 64 4 = {}"
    using rect_addrs_range [of 4132 32 128 "(20, 2, 2)"] byte_range_below [of 64 4 4132 "rect_extent 32 128 (20, 2, 2)"]
    by (simp add: rect_extent_def rect_off_def) blast
  moreover have "rect_ok 32 128 (20, 2, 2)" by (simp add: rect_ok_def rect_off_def)
  ultimately have "pocl_basic_fill_image im 4096 (1, 1, 0) (5, 2, 2) 64 4 (\<lambda>a. ucast a)
      (4132 + of_nat (rect_off 32 128 (4 * 3 + 2) 1 1)) = ucast (64 + of_nat 2 :: size_t)"
    using basic_fill_image_spec [of im 5 4 2 2 4132 4096 1 1 0 64 "\<lambda>a. ucast a", THEN conjunct1,
      THEN spec [of _ 3], THEN spec [of _ 1], THEN spec [of _ 1], THEN spec [of _ 2]]
    by (simp add: im_def)
  then show ?thesis by (intro exI [of _ im]) (simp add: im_def)
qed

text \<open>
  Reading a buffer range into a host area and writing it from one copy exactly the range and
  change nothing else, except that both return at once when the host pointer is the buffer's device
  pointer: a read of a range that starts at an offset into that same memory is then silently skipped.
\<close>

theorem basic_read_write_spec:
  assumes "i < unat n"
  shows "(host \<noteq> dev \<longrightarrow>
      pocl_basic_read host dev ofs n m (host + of_nat i) = m (dev + ofs + of_nat i) \<and>
      pocl_basic_write host dev ofs n m (dev + ofs + of_nat i) = m (host + of_nat i) \<and>
      (\<forall>a. a \<notin> byte_range host (unat n) \<longrightarrow> pocl_basic_read host dev ofs n m a = m a) \<and>
      (\<forall>a. a \<notin> byte_range (dev + ofs) (unat n) \<longrightarrow> pocl_basic_write host dev ofs n m a = m a)) \<and>
    (host = dev \<and> m (dev + of_nat i) \<noteq> m (dev + ofs + of_nat i) \<longrightarrow>
      pocl_basic_read host dev ofs n m (host + of_nat i) \<noteq> m (dev + ofs + of_nat i))"
proof -
  have lt: "(of_nat i :: size_t) < n"
    using assms unat_less_size_t [of n] by (simp add: word_less_nat_alt unat_of_nat_nowrap)
  have out: "memcpy d s n m a = m a" if "a \<notin> byte_range d (unat n)" for d s a
  proof (rule memcpy_out)
    show "\<not> a - d < n"
    proof
      assume "a - d < n"
      then have "a = d + of_nat (unat (a - d)) \<and> unat (a - d) < unat n" by (simp add: word_less_nat_alt)
      then show False using that unfolding byte_range_def by blast
    qed
  qed
  show ?thesis
    by (auto simp: pocl_basic_read_def pocl_basic_write_def memcpy_in [OF lt] out)
qed

theorem basic_read_write_spec_witness:
  "pocl_basic_read 4096 4096 16 8 (\<lambda>a. ucast a) (4096 + of_nat 3) \<noteq> (ucast (4096 + 16 + of_nat 3 :: size_t) :: byte) \<and>
   pocl_basic_read 64 4096 16 8 (\<lambda>a. ucast a) (64 + of_nat 3) = (ucast (4096 + 16 + of_nat 3 :: size_t) :: byte)"
  using basic_read_write_spec [of 3 8 4096 4096 16 "\<lambda>a. ucast a"] basic_read_write_spec [of 3 8 64 4096 16 "\<lambda>a. ucast a"]
  by simp

end
