(* ===== verification/CL_Types.thy ===== *)
theory CL_Types
  imports Pocl_Prelude
begin

text \<open>
  OpenCL constants the runtime's API functions share: the error codes they return, in the order of
  \<open>cl.h\<close>, and the memory flags. An error code is a constructor; the code's numeric value is only
  compared with \<open>CL_SUCCESS\<close>.
\<close>

datatype cl_error =
  CL_SUCCESS
| CL_MEM_OBJECT_ALLOCATION_FAILURE
| CL_OUT_OF_RESOURCES
| CL_OUT_OF_HOST_MEMORY
| CL_MEM_COPY_OVERLAP
| CL_IMAGE_FORMAT_MISMATCH
| CL_IMAGE_FORMAT_NOT_SUPPORTED
| CL_MAP_FAILURE
| CL_MISALIGNED_SUB_BUFFER_OFFSET
| CL_INVALID_VALUE
| CL_INVALID_CONTEXT
| CL_INVALID_COMMAND_QUEUE
| CL_INVALID_HOST_PTR
| CL_INVALID_MEM_OBJECT
| CL_INVALID_IMAGE_FORMAT_DESCRIPTOR
| CL_INVALID_IMAGE_SIZE
| CL_INVALID_OPERATION
| CL_INVALID_EVENT
| CL_INVALID_EVENT_WAIT_LIST
| CL_INVALID_BUFFER_SIZE
| CL_INVALID_PROGRAM
| CL_INVALID_KERNEL
| CL_INVALID_KERNEL_NAME
| CL_INVALID_PROGRAM_EXECUTABLE
| CL_INVALID_ARG_INDEX
| CL_INVALID_ARG_VALUE
| CL_INVALID_ARG_SIZE
| CL_INVALID_SAMPLER
| CL_INVALID_KERNEL_ARGS
| CL_INVALID_WORK_DIMENSION
| CL_INVALID_GLOBAL_WORK_SIZE
| CL_INVALID_WORK_GROUP_SIZE
| CL_INVALID_WORK_ITEM_SIZE
| CL_INVALID_IMAGE_DESCRIPTOR

text \<open>A chain of \<open>POCL_RETURN_ERROR_ON\<close> checks: the first condition that holds decides.\<close>

fun first_error :: "(bool \<times> cl_error) list \<Rightarrow> cl_error" where
  "first_error [] = CL_SUCCESS"
| "first_error ((c, e) # cs) = (if c then e else first_error cs)"

lemma first_error_success:
  "CL_SUCCESS \<notin> snd ` set cs \<Longrightarrow> first_error cs = CL_SUCCESS \<longleftrightarrow> (\<forall>(c, e) \<in> set cs. \<not> c)"
  by (induction cs rule: first_error.induct) auto

type_synonym flags = "64 word"

definition CL_MEM_READ_WRITE :: flags where "CL_MEM_READ_WRITE = 1"
definition CL_MEM_WRITE_ONLY :: flags where "CL_MEM_WRITE_ONLY = 2"
definition CL_MEM_READ_ONLY :: flags where "CL_MEM_READ_ONLY = 4"
definition CL_MEM_USE_HOST_PTR :: flags where "CL_MEM_USE_HOST_PTR = 8"
definition CL_MEM_ALLOC_HOST_PTR :: flags where "CL_MEM_ALLOC_HOST_PTR = 16"
definition CL_MEM_COPY_HOST_PTR :: flags where "CL_MEM_COPY_HOST_PTR = 32"
definition CL_MEM_HOST_WRITE_ONLY :: flags where "CL_MEM_HOST_WRITE_ONLY = 128"
definition CL_MEM_HOST_READ_ONLY :: flags where "CL_MEM_HOST_READ_ONLY = 256"
definition CL_MEM_HOST_NO_ACCESS :: flags where "CL_MEM_HOST_NO_ACCESS = 512"

lemmas mem_flag_defs = CL_MEM_READ_WRITE_def CL_MEM_WRITE_ONLY_def CL_MEM_READ_ONLY_def
  CL_MEM_USE_HOST_PTR_def CL_MEM_ALLOC_HOST_PTR_def CL_MEM_COPY_HOST_PTR_def
  CL_MEM_HOST_WRITE_ONLY_def CL_MEM_HOST_READ_ONLY_def CL_MEM_HOST_NO_ACCESS_def

text \<open>\<open>flags & f\<close> used as a truth value.\<close>

definition has_flag :: "flags \<Rightarrow> flags \<Rightarrow> bool" where
  "has_flag fl f \<longleftrightarrow> fl AND f \<noteq> 0"

end
