(* ===== verification/BufferChecks.thy ===== *)
theory BufferChecks
  imports BasicMem CL_Types
begin

text \<open>
  The argument checks of \<open>pocl/lib/CL/pocl_util.c\<close> on buffer ranges and rectangles, with the wrapping
  \<open>size_t\<close> arithmetic of the code. A check returns an error code; \<open>pocl_buffer_boundcheck_3d\<close> also
  returns the pitches it stores through its pointer arguments, and
  \<^const>\<open>None\<close> stands for a division by zero.
\<close>

section \<open>Checks\<close>

record cl_mem_range =
  buf_size :: size_t
  buf_origin :: size_t
  buf_parent :: "nat option"

definition pocl_buffer_boundcheck :: "size_t \<Rightarrow> size_t \<Rightarrow> size_t \<Rightarrow> cl_error" where
  "pocl_buffer_boundcheck buffer_size offset sz = first_error
     [(offset > buffer_size, CL_INVALID_VALUE),
      (sz > buffer_size, CL_INVALID_VALUE),
      (offset + sz > buffer_size, CL_INVALID_VALUE)]"

definition pocl_buffers_boundcheck :: "size_t \<Rightarrow> size_t \<Rightarrow> size_t \<Rightarrow> size_t \<Rightarrow> size_t \<Rightarrow> cl_error" where
  "pocl_buffers_boundcheck src_size dst_size src_offset dst_offset sz = first_error
     [(src_offset > src_size, CL_INVALID_VALUE),
      (sz > src_size, CL_INVALID_VALUE),
      (src_offset + sz > src_size, CL_INVALID_VALUE),
      (dst_offset > dst_size, CL_INVALID_VALUE),
      (sz > dst_size, CL_INVALID_VALUE),
      (dst_offset + sz > dst_size, CL_INVALID_VALUE)]"

definition ranges_meet :: "size_t \<Rightarrow> size_t \<Rightarrow> size_t \<Rightarrow> bool" where
  "ranges_meet src_offset dst_offset sz \<longleftrightarrow>
     src_offset \<le> dst_offset \<and> dst_offset \<le> src_offset + sz - 1 \<or>
     dst_offset \<le> src_offset \<and> src_offset \<le> dst_offset + sz - 1"

text \<open>Buffers are compared by address, \<open>src_id\<close> and \<open>dst_id\<close>.\<close>

definition pocl_buffers_overlap ::
  "nat \<Rightarrow> cl_mem_range \<Rightarrow> nat \<Rightarrow> cl_mem_range \<Rightarrow> size_t \<Rightarrow> size_t \<Rightarrow> size_t \<Rightarrow> cl_error" where
  "pocl_buffers_overlap src_id src dst_id dst src_offset dst_offset sz = first_error
     [(src_id = dst_id \<and> ranges_meet src_offset dst_offset sz, CL_MEM_COPY_OVERLAP),
      (buf_parent src \<noteq> None \<and> buf_parent dst \<noteq> None \<and> buf_parent src = buf_parent dst \<and>
         ranges_meet (buf_origin src + src_offset) (buf_origin dst + dst_offset) sz, CL_MEM_COPY_OVERLAP)]"

definition pocl_buffer_boundcheck_3d ::
  "size_t \<Rightarrow> size3 \<Rightarrow> size3 \<Rightarrow> size_t \<Rightarrow> size_t \<Rightarrow> (cl_error \<times> size_t \<times> size_t) option" where
  "pocl_buffer_boundcheck_3d buffer_size origin region row_pitch slice_pitch =
     (case origin of (o0, o1, o2) \<Rightarrow> case region of (r0, r1, r2) \<Rightarrow>
      if row_pitch \<noteq> 0 \<and> row_pitch < r0 then Some (CL_INVALID_VALUE, row_pitch, slice_pitch)
      else let rp = (if row_pitch = 0 then r0 else row_pitch) in
      if slice_pitch \<noteq> 0 \<and> slice_pitch < r1 * rp then Some (CL_INVALID_VALUE, row_pitch, slice_pitch)
      else if slice_pitch \<noteq> 0 \<and> rp = 0 then None
      else if slice_pitch \<noteq> 0 \<and> slice_pitch mod rp \<noteq> 0 then Some (CL_INVALID_VALUE, row_pitch, slice_pitch)
      else let sp = (if slice_pitch = 0 then r1 * rp else slice_pitch);
               byte_offset_begin = o2 * sp + o1 * rp + o0;
               byte_offset_end = o0 + r0 - 1 + rp * (o1 + r1 - 1) + sp * (o2 + r2 - 1)
      in if byte_offset_begin > buffer_size then Some (CL_INVALID_VALUE, rp, sp)
      else if byte_offset_end \<ge> buffer_size then Some (CL_INVALID_VALUE, rp, sp)
      else Some (CL_SUCCESS, rp, sp))"

definition check_copy_overlap :: "size3 \<Rightarrow> size3 \<Rightarrow> size3 \<Rightarrow> size_t \<Rightarrow> size_t \<Rightarrow> bool option" where
  "check_copy_overlap src_offset dst_offset region row_pitch slice_pitch =
     (case src_offset of (s0, s1, s2) \<Rightarrow> case dst_offset of (d0, d1, d2) \<Rightarrow>
      case region of (r0, r1, r2) \<Rightarrow>
      let overlap = (s0 < d0 + r0 \<and> s0 + r0 > d0) \<and> (s1 < d1 + r1 \<and> s1 + r1 > d1) \<and>
                    (s2 < d2 + r2 \<and> s2 + r2 > d2);
          dst_start = d2 * slice_pitch + d1 * row_pitch + d0;
          dst_end = dst_start + (r2 * slice_pitch + r1 * row_pitch + r0);
          src_start = s2 * slice_pitch + s1 * row_pitch + s0;
          src_end = src_start + (r2 * slice_pitch + r1 * row_pitch + r0);
          meet = (src_start \<le> dst_start \<and> dst_start < src_end \<or> dst_start \<le> src_start \<and> src_start < dst_end)
      in if overlap then Some True
      else if r2 > 1 \<and> row_pitch = 0 then None
      else let delta_src_x = (if s0 + r0 > row_pitch then s0 + r0 - row_pitch else 0);
               delta_dst_x = (if d0 + r0 > row_pitch then d0 + r0 - row_pitch else 0);
               x_wraps = ((delta_src_x > 0 \<and> delta_src_x > d0) \<or> (delta_dst_x > 0 \<and> delta_dst_x > s0));
               src_height = slice_pitch div row_pitch;
               dst_height = slice_pitch div row_pitch;
               delta_src_y = (if s1 + r1 > src_height then s1 + r1 - src_height else 0);
               delta_dst_y = (if d1 + r1 > dst_height then d1 + r1 - dst_height else 0);
               y_wraps = ((delta_src_y > 0 \<and> delta_src_y > d1) \<or> (delta_dst_y > 0 \<and> delta_dst_y > s1))
      in Some (x_wraps \<and> meet \<or> r2 > 1 \<and> y_wraps \<and> meet))"

text \<open>The access flags a sub-buffer or image view takes from the buffer it is made from.\<close>

definition pocl_cl_mem_inherit_flags :: "flags \<Rightarrow> flags \<Rightarrow> flags" where
  "pocl_cl_mem_inherit_flags from_flags fl =
     (let access = (\<lambda>f. (f AND CL_MEM_READ_WRITE) OR (f AND CL_MEM_READ_ONLY) OR (f AND CL_MEM_WRITE_ONLY));
          host = (\<lambda>f. (f AND CL_MEM_HOST_NO_ACCESS) OR (f AND CL_MEM_HOST_READ_ONLY) OR (f AND CL_MEM_HOST_WRITE_ONLY));
          mf = (if access fl \<noteq> 0 then access fl else access from_flags);
          mf = mf OR (if host fl \<noteq> 0 then host fl else host from_flags)
      in mf OR (from_flags AND CL_MEM_USE_HOST_PTR) OR (from_flags AND CL_MEM_ALLOC_HOST_PTR)
            OR (from_flags AND CL_MEM_COPY_HOST_PTR))"

section \<open>Ranges\<close>

lemma in_buffer_iff:
  fixes size offset n :: size_t
  assumes "unat size < 2 ^ 63"
  shows "offset \<le> size \<and> n \<le> size \<and> offset + n \<le> size \<longleftrightarrow> unat offset + unat n \<le> unat size"
proof -
  have sum: "unat (offset + n) = unat offset + unat n" if "offset \<le> size" "n \<le> size"
    using that assms by (intro unat_add_nowrap) (simp add: word_le_nat_alt)
  show ?thesis using sum by (auto simp: word_le_nat_alt)
qed

lemma ranges_meet_iff:
  assumes "0 < unat n" and "unat s + unat n \<le> 2 ^ 64" and "unat d + unat n \<le> 2 ^ 64"
  shows "ranges_meet s d n \<longleftrightarrow> (\<exists>a. unat s \<le> a \<and> a < unat s + unat n \<and> unat d \<le> a \<and> a < unat d + unat n)"
proof -
  have one: "unat (n - 1) = unat n - 1" using assms(1) by (intro trans [OF unat_minus_nowrap]) simp_all
  have e: "unat (x + n - 1) = unat x + unat n - 1" if "unat x + unat n \<le> 2 ^ 64" for x
  proof -
    have "unat (x + (n - 1)) = unat x + unat (n - 1)"
      using that assms(1) by (intro unat_add_nowrap) (simp add: one)
    then show ?thesis using assms(1) by (simp add: one algebra_simps)
  qed
  have "ranges_meet s d n \<longleftrightarrow> unat s < unat d + unat n \<and> unat d < unat s + unat n"
    unfolding ranges_meet_def word_le_nat_alt e [OF assms(2)] e [OF assms(3)] using assms(1) by linarith
  also have "\<dots> \<longleftrightarrow> (\<exists>a. unat s \<le> a \<and> a < unat s + unat n \<and> unat d \<le> a \<and> a < unat d + unat n)"
  proof
    assume "unat s < unat d + unat n \<and> unat d < unat s + unat n"
    then show "\<exists>a. unat s \<le> a \<and> a < unat s + unat n \<and> unat d \<le> a \<and> a < unat d + unat n"
      using assms(1) by (intro exI [of _ "max (unat s) (unat d)"]) auto
  qed auto
  finally show ?thesis .
qed

text \<open>
  For buffers smaller than $2^{63}$ bytes the one-dimensional checks accept a copy exactly when both
  ranges lie inside their buffers and, within one buffer, have no byte in common.
\<close>

theorem buffer_range_checks_exact:
  assumes "unat src_size < 2 ^ 63" and "unat dst_size < 2 ^ 63" and "0 < unat n"
    and "src_id = dst_id \<longrightarrow> src_size = dst_size" and "buf_parent src = None"
  shows "(pocl_buffer_boundcheck src_size s n = CL_SUCCESS \<longleftrightarrow> unat s + unat n \<le> unat src_size) \<and>
    (pocl_buffers_boundcheck src_size dst_size s d n = CL_SUCCESS \<and>
       pocl_buffers_overlap src_id src dst_id dst s d n = CL_SUCCESS \<longleftrightarrow>
     unat s + unat n \<le> unat src_size \<and> unat d + unat n \<le> unat dst_size \<and>
       (src_id = dst_id \<longrightarrow>
         \<not> (\<exists>a. unat s \<le> a \<and> a < unat s + unat n \<and> unat d \<le> a \<and> a < unat d + unat n)))"
proof (intro conjI)
  note one = in_buffer_iff [OF assms(1), of s n] and two = in_buffer_iff [OF assms(2), of d n]
  show "pocl_buffer_boundcheck src_size s n = CL_SUCCESS \<longleftrightarrow> unat s + unat n \<le> unat src_size"
    using one by (auto simp: pocl_buffer_boundcheck_def not_less)
  have "pocl_buffers_boundcheck src_size dst_size s d n = CL_SUCCESS \<longleftrightarrow>
      unat s + unat n \<le> unat src_size \<and> unat d + unat n \<le> unat dst_size"
    using one two by (auto simp: pocl_buffers_boundcheck_def not_less)
  moreover have "pocl_buffers_overlap src_id src dst_id dst s d n = CL_SUCCESS \<longleftrightarrow>
      \<not> (src_id = dst_id \<and> ranges_meet s d n)"
    using assms(5) by (simp add: pocl_buffers_overlap_def)
  moreover have "ranges_meet s d n \<longleftrightarrow>
      (\<exists>a. unat s \<le> a \<and> a < unat s + unat n \<and> unat d \<le> a \<and> a < unat d + unat n)"
    if "unat s + unat n \<le> unat src_size" "unat d + unat n \<le> unat dst_size"
    using that assms(1-3) by (intro ranges_meet_iff) simp_all
  ultimately show "pocl_buffers_boundcheck src_size dst_size s d n = CL_SUCCESS \<and>
       pocl_buffers_overlap src_id src dst_id dst s d n = CL_SUCCESS \<longleftrightarrow>
     unat s + unat n \<le> unat src_size \<and> unat d + unat n \<le> unat dst_size \<and>
       (src_id = dst_id \<longrightarrow>
         \<not> (\<exists>a. unat s \<le> a \<and> a < unat s + unat n \<and> unat d \<le> a \<and> a < unat d + unat n))"
    by blast
qed

theorem buffer_range_checks_exact_witness:
  "pocl_buffers_boundcheck 100 100 10 60 40 = CL_SUCCESS \<and>
   pocl_buffers_overlap 1 \<lparr>buf_size = 100, buf_origin = 0, buf_parent = None\<rparr> 1
     \<lparr>buf_size = 100, buf_origin = 0, buf_parent = None\<rparr> 10 60 40 = CL_SUCCESS"
proof -
  have "\<not> (\<exists>a. 10 \<le> a \<and> a < 50 \<and> 60 \<le> a \<and> a < (100::nat))" by auto
  then show ?thesis
    using buffer_range_checks_exact [of 100 100 40 1 1 "\<lparr>buf_size = 100, buf_origin = 0, buf_parent = None\<rparr>" 10 60
      "\<lparr>buf_size = 100, buf_origin = 0, buf_parent = None\<rparr>"] by simp
qed

section \<open>Rectangles\<close>

text \<open>The pitches the check goes on with, and the condition that none of its terms wraps.\<close>

definition eff_row_pitch :: "size3 \<Rightarrow> size_t \<Rightarrow> size_t" where
  "eff_row_pitch region row_pitch = (if row_pitch = 0 then fst region else row_pitch)"

definition eff_slice_pitch :: "size3 \<Rightarrow> size_t \<Rightarrow> size_t \<Rightarrow> size_t" where
  "eff_slice_pitch region row_pitch slice_pitch =
     (if slice_pitch = 0 then fst (snd region) * eff_row_pitch region row_pitch else slice_pitch)"

definition rect_no_wrap :: "size_t \<Rightarrow> size_t \<Rightarrow> size3 \<Rightarrow> size3 \<Rightarrow> bool" where
  "rect_no_wrap rp sp origin region =
     (case origin of (o0, o1, o2) \<Rightarrow> case region of (r0, r1, r2) \<Rightarrow>
        unat r1 * unat rp < 2 ^ 64 \<and>
        unat o0 + unat r0 + unat rp * (unat o1 + unat r1) + unat sp * (unat o2 + unat r2) < 2 ^ 64 - 1 \<and>
        unat o1 + unat r1 < 2 ^ 64 \<and> unat o2 + unat r2 < 2 ^ 64)"

definition last_byte :: "size_t \<Rightarrow> size_t \<Rightarrow> size3 \<Rightarrow> size3 \<Rightarrow> nat" where
  "last_byte rp sp origin region =
     (case origin of (o0, o1, o2) \<Rightarrow> case region of (r0, r1, r2) \<Rightarrow>
        rect_off rp sp (unat o0 + unat r0 - 1) (unat o1 + unat r1 - 1) (unat o2 + unat r2 - 1))"

lemma unat_add_minus_1:
  fixes a b :: size_t
  assumes "0 < unat b" and "unat a + unat b < 2 ^ 64"
  shows "unat (a + b - 1) = unat a + unat b - 1"
proof -
  have "unat (a + b) = unat a + unat b" using assms by (intro unat_add_nowrap) simp
  then show ?thesis using assms(1) by (subst unat_minus_nowrap) simp_all
qed

lemma last_byte_word:
  assumes nw: "rect_no_wrap rp sp (o0, o1, o2) (r0, r1, r2)"
    and r: "0 < unat r0" "0 < unat r1" "0 < unat r2"
  shows "unat (o0 + r0 - 1 + rp * (o1 + r1 - 1) + sp * (o2 + r2 - 1)) =
    last_byte rp sp (o0, o1, o2) (r0, r1, r2)"
    and "unat (o2 * sp + o1 * rp + o0) \<le> last_byte rp sp (o0, o1, o2) (r0, r1, r2)"
    and "last_byte rp sp (o0, o1, o2) (r0, r1, r2) < 2 ^ 64 - 1"
proof -
  let ?R1 = "unat o1 + unat r1" and ?R2 = "unat o2 + unat r2"
  have b: "unat o0 + unat r0 + unat rp * ?R1 + unat sp * ?R2 < 18446744073709551615"
    "?R1 < 2 ^ 64" "?R2 < 2 ^ 64"
    using nw by (simp_all add: rect_no_wrap_def)
  have le: "unat rp * (?R1 - 1) \<le> unat rp * ?R1" "unat sp * (?R2 - 1) \<le> unat sp * ?R2"
    "unat rp * unat o1 \<le> unat rp * (?R1 - 1)" "unat sp * unat o2 \<le> unat sp * (?R2 - 1)"
    using r by (intro mult_le_mono2; simp)+
  have e0: "unat (o0 + r0 - 1) = unat o0 + unat r0 - 1"
    using b r by (intro unat_add_minus_1) simp_all
  have e1: "unat (o1 + r1 - 1) = ?R1 - 1" and e2: "unat (o2 + r2 - 1) = ?R2 - 1"
    using b r by (intro unat_add_minus_1; simp)+
  have lt: "unat o0 + unat r0 - 1 + unat rp * (?R1 - 1) + unat sp * (?R2 - 1) < 18446744073709551615"
    using b(1) le(1,2) by linarith
  then have lt1: "unat rp * (?R1 - 1) < 2 ^ 64" and lt2: "unat sp * (?R2 - 1) < 2 ^ 64"
    and lt3: "unat o0 + unat r0 - 1 + unat rp * (?R1 - 1) < 2 ^ 64"
    and lt4: "unat o0 + unat r0 - 1 + unat rp * (?R1 - 1) + unat sp * (?R2 - 1) < 2 ^ 64"
    by simp_all
  have m1: "unat (rp * (o1 + r1 - 1)) = unat rp * (?R1 - 1)"
    using lt1 by (subst unat_mult_nowrap) (simp_all only: e1 len_size_t)
  have m2: "unat (sp * (o2 + r2 - 1)) = unat sp * (?R2 - 1)"
    using lt2 by (subst unat_mult_nowrap) (simp_all only: e2 len_size_t)
  have s1: "unat (o0 + r0 - 1 + rp * (o1 + r1 - 1)) = unat o0 + unat r0 - 1 + unat rp * (?R1 - 1)"
    using lt3 by (subst unat_add_nowrap) (simp_all only: e0 m1 len_size_t)
  show "unat (o0 + r0 - 1 + rp * (o1 + r1 - 1) + sp * (o2 + r2 - 1)) =
      last_byte rp sp (o0, o1, o2) (r0, r1, r2)"
    using lt4 by (subst unat_add_nowrap) (simp_all only: s1 m2 last_byte_def rect_off_def prod.case len_size_t)
  have lo: "unat sp * unat o2 + unat rp * unat o1 + unat o0 < 18446744073709551615"
    using lt le(3,4) r(1) by linarith
  then have "unat o2 * unat sp < 2 ^ 64" "unat o1 * unat rp < 2 ^ 64" by (simp_all add: mult.commute)
  then have n2: "unat (o2 * sp) = unat sp * unat o2" and n1: "unat (o1 * rp) = unat rp * unat o1"
    by (simp_all add: unat_mult_nowrap mult.commute)
  have "unat (o2 * sp + o1 * rp) = unat sp * unat o2 + unat rp * unat o1"
    using lo by (subst unat_add_nowrap) (simp_all add: n1 n2)
  then have "unat (o2 * sp + o1 * rp + o0) = unat sp * unat o2 + unat rp * unat o1 + unat o0"
    using lo by (subst unat_add_nowrap) simp_all
  also have "\<dots> \<le> last_byte rp sp (o0, o1, o2) (r0, r1, r2)"
    using le(3,4) r(1) unfolding last_byte_def rect_off_def prod.case by linarith
  finally show "unat (o2 * sp + o1 * rp + o0) \<le> last_byte rp sp (o0, o1, o2) (r0, r1, r2)" .
  show "last_byte rp sp (o0, o1, o2) (r0, r1, r2) < 2 ^ 64 - 1"
    using lt unfolding last_byte_def rect_off_def prod.case by simp
qed

text \<open>The pitch rules of the OpenCL specification, over the natural numbers.\<close>

definition pitches_legal :: "size3 \<Rightarrow> size_t \<Rightarrow> size_t \<Rightarrow> bool" where
  "pitches_legal region row_pitch slice_pitch =
     (let rp = unat (eff_row_pitch region row_pitch) in
      (row_pitch = 0 \<or> unat (fst region) \<le> unat row_pitch) \<and>
      (slice_pitch = 0 \<or> unat (fst (snd region)) * rp \<le> unat slice_pitch \<and> rp dvd unat slice_pitch))"

definition rect_inside :: "nat \<Rightarrow> size_t \<Rightarrow> size_t \<Rightarrow> size3 \<Rightarrow> size3 \<Rightarrow> bool" where
  "rect_inside n rp sp origin region =
     (case origin of (o0, o1, o2) \<Rightarrow> \<forall>i j k. in_region region i j k \<longrightarrow>
        rect_off rp sp (unat o0 + i) (unat o1 + j) (unat o2 + k) < n)"

lemma rect_inside_iff:
  assumes r: "0 < unat r0" "0 < unat r1" "0 < unat r2"
  shows "rect_inside n rp sp (o0, o1, o2) (r0, r1, r2) \<longleftrightarrow> last_byte rp sp (o0, o1, o2) (r0, r1, r2) < n"
proof
  assume "rect_inside n rp sp (o0, o1, o2) (r0, r1, r2)"
  then have "rect_off rp sp (unat o0 + (unat r0 - 1)) (unat o1 + (unat r1 - 1)) (unat o2 + (unat r2 - 1)) < n"
    using r unfolding rect_inside_def prod.case in_region_def by (metis diff_less zero_less_one)
  then show "last_byte rp sp (o0, o1, o2) (r0, r1, r2) < n" using r by (simp add: last_byte_def)
next
  assume lt: "last_byte rp sp (o0, o1, o2) (r0, r1, r2) < n"
  have "rect_off rp sp (unat o0 + i) (unat o1 + j) (unat o2 + k) \<le> last_byte rp sp (o0, o1, o2) (r0, r1, r2)"
    if "i < unat r0" "j < unat r1" "k < unat r2" for i j k
    unfolding last_byte_def rect_off_def prod.case
    using that by (intro add_mono mult_le_mono2) linarith+
  then show "rect_inside n rp sp (o0, o1, o2) (r0, r1, r2)"
    using lt unfolding rect_inside_def prod.case in_region_def by (meson le_less_trans)
qed

lemma boundcheck_3d_success:
  assumes nw: "rect_no_wrap rp sp (o0, o1, o2) (r0, r1, r2)"
    and r: "0 < unat r0" "0 < unat r1" "0 < unat r2"
    and rp: "rp = eff_row_pitch (r0, r1, r2) row_pitch"
    and sp: "sp = eff_slice_pitch (r0, r1, r2) row_pitch slice_pitch"
  shows "pocl_buffer_boundcheck_3d size' (o0, o1, o2) (r0, r1, r2) row_pitch slice_pitch =
      Some (CL_SUCCESS, rp, sp) \<longleftrightarrow>
    pitches_legal (r0, r1, r2) row_pitch slice_pitch \<and> last_byte rp sp (o0, o1, o2) (r0, r1, r2) < unat size'"
    (is "?check = _ \<longleftrightarrow> ?legal \<and> ?last")
    and "pocl_buffer_boundcheck_3d size' (o0, o1, o2) (r0, r1, r2) row_pitch slice_pitch =
        Some (CL_SUCCESS, rp, sp) \<or>
      (\<exists>a b. pocl_buffer_boundcheck_3d size' (o0, o1, o2) (r0, r1, r2) row_pitch slice_pitch =
        Some (CL_INVALID_VALUE, a, b))"
proof -
  have plane: "unat (r1 * rp) = unat r1 * unat rp"
    using nw by (intro unat_mult_nowrap) (simp add: rect_no_wrap_def)
  have rp': "rp = (if row_pitch = 0 then r0 else row_pitch)"
    and sp': "sp = (if slice_pitch = 0 then r1 * rp else slice_pitch)"
    by (simp_all add: rp sp eff_row_pitch_def eff_slice_pitch_def)
  have pos: "rp \<noteq> 0" using r(1) by (auto simp: rp')
  have legal: "?legal \<longleftrightarrow> \<not> (row_pitch \<noteq> 0 \<and> row_pitch < r0) \<and>
      \<not> (slice_pitch \<noteq> 0 \<and> slice_pitch < r1 * rp) \<and> \<not> (slice_pitch \<noteq> 0 \<and> slice_pitch mod rp \<noteq> 0)"
    by (auto simp: pitches_legal_def rp [symmetric] word_less_nat_alt plane unat_mod dvd_eq_mod_eq_0
      word_unat_eq_iff [of _ 0] simp del: unat_eq_zero)
  note ends = last_byte_word [OF nw r]
  have begin_le: "\<not> o2 * sp + o1 * rp + o0 > size'" if "?last"
    using ends(2) that by (simp add: word_less_nat_alt)
  have last: "?last \<longleftrightarrow> \<not> o0 + r0 - 1 + rp * (o1 + r1 - 1) + sp * (o2 + r2 - 1) \<ge> size'"
    using ends(1) by (simp add: word_le_nat_alt not_le)
  show "?check = Some (CL_SUCCESS, rp, sp) \<longleftrightarrow> ?legal \<and> ?last"
    unfolding pocl_buffer_boundcheck_3d_def prod.case Let_def rp' [symmetric] sp' [symmetric]
    using legal last begin_le pos by simp
  show "?check = Some (CL_SUCCESS, rp, sp) \<or> (\<exists>a b. ?check = Some (CL_INVALID_VALUE, a, b))"
    unfolding pocl_buffer_boundcheck_3d_def prod.case Let_def rp' [symmetric] sp' [symmetric]
    using pos by simp
qed

lemma legal_rect_ok:
  assumes nw: "rect_no_wrap rp sp (o0, o1, o2) (r0, r1, r2)"
    and pos: "0 < unat r0" "0 < unat r1" "0 < unat r2"
    and rp: "rp = eff_row_pitch (r0, r1, r2) row_pitch"
    and sp: "sp = eff_slice_pitch (r0, r1, r2) row_pitch slice_pitch"
    and legal: "pitches_legal (r0, r1, r2) row_pitch slice_pitch"
  shows "rect_ok rp sp (r0, r1, r2)"
proof -
  have "unat r0 \<le> unat rp" using legal by (auto simp: pitches_legal_def rp eff_row_pitch_def Let_def)
  moreover have "unat (r1 * rp) = unat r1 * unat rp"
    using nw by (intro unat_mult_nowrap) (simp add: rect_no_wrap_def)
  then have "unat r1 * unat rp \<le> unat sp"
    using legal by (auto simp: pitches_legal_def rp sp eff_slice_pitch_def Let_def)
  moreover have "rect_off rp sp (unat r0 - 1) (unat r1 - 1) (unat r2 - 1) \<le>
      last_byte rp sp (o0, o1, o2) (r0, r1, r2)"
    unfolding last_byte_def rect_off_def prod.case by (intro add_mono mult_le_mono2) linarith+
  then have "rect_off rp sp (unat r0 - 1) (unat r1 - 1) (unat r2 - 1) < 2 ^ 64 - 1"
    using last_byte_word(3) [OF nw pos] by (rule le_less_trans)
  ultimately show ?thesis unfolding rect_ok_def prod.case by blast
qed

text \<open>
  C14: As long as no term of its offset sums wraps, the rectangle check accepts a non-empty rectangle
  exactly when the pitches obey the rules of the specification and every byte of the rectangle lies
  inside the buffer; it hands back the effective pitches, for which the rectangle's rows are disjoint,
  and rejects everything else with \<open>CL_INVALID_VALUE\<close>.
\<close>

theorem rect_check_exact:
  assumes "rect_no_wrap rp sp origin region"
    and "rp = eff_row_pitch region row_pitch" and "sp = eff_slice_pitch region row_pitch slice_pitch"
    and "\<forall>i \<in> {fst region, fst (snd region), snd (snd region)}. i \<noteq> 0"
  shows "(pocl_buffer_boundcheck_3d buffer_size origin region row_pitch slice_pitch = Some (CL_SUCCESS, rp, sp) \<longleftrightarrow>
      pitches_legal region row_pitch slice_pitch \<and> rect_inside (unat buffer_size) rp sp origin region) \<and>
    (pocl_buffer_boundcheck_3d buffer_size origin region row_pitch slice_pitch = Some (CL_SUCCESS, rp, sp) \<or>
      (\<exists>a b. pocl_buffer_boundcheck_3d buffer_size origin region row_pitch slice_pitch =
        Some (CL_INVALID_VALUE, a, b))) \<and>
    (pitches_legal region row_pitch slice_pitch \<longrightarrow> rect_ok rp sp region)"
proof -
  obtain o0 o1 o2 r0 r1 r2 where o: "origin = (o0, o1, o2)" and r: "region = (r0, r1, r2)"
    by (cases origin; cases region) auto
  have pos: "0 < unat r0" "0 < unat r1" "0 < unat r2"
    using assms(4) by (auto simp: r unat_gt_0)
  note nw = assms(1) [unfolded o r] and eff = assms(2,3) [unfolded r]
  note check = boundcheck_3d_success [OF nw pos eff, of buffer_size]
  show ?thesis using check rect_inside_iff [OF pos] legal_rect_ok [OF nw pos eff] unfolding o r by blast
qed

theorem rect_check_exact_witness:
  "pocl_buffer_boundcheck_3d 4096 (8, 1, 1) (8, 2, 3) 16 0 = Some (CL_SUCCESS, 16, 32) \<and>
   rect_inside 4096 16 32 (8, 1, 1) (8, 2, 3) \<and> rect_ok 16 32 (8, 2, 3)"
proof -
  have "rect_no_wrap 16 32 (8, 1, 1) (8, 2, 3)" by (simp add: rect_no_wrap_def)
  moreover have "pitches_legal (8, 2, 3) 16 0" by (simp add: pitches_legal_def eff_row_pitch_def)
  moreover have "pocl_buffer_boundcheck_3d 4096 (8, 1, 1) (8, 2, 3) 16 0 = Some (CL_SUCCESS, 16, 32)"
    by (simp add: pocl_buffer_boundcheck_3d_def)
  moreover have "16 = eff_row_pitch (8, 2, 3) 16" "32 = eff_slice_pitch (8, 2, 3) 16 0"
    by (simp_all add: eff_row_pitch_def eff_slice_pitch_def)
  moreover have "\<forall>i \<in> {fst (8, 2, 3), fst (snd (8, 2, 3)), snd (snd (8, 2, 3))}. i \<noteq> (0 :: size_t)" by simp
  moreover have "unat (4096 :: size_t) = 4096" by simp
  ultimately show ?thesis
    using rect_check_exact [of 16 32 "(8, 1, 1)" "(8, 2, 3)" 16 0 4096] by (simp only:) blast
qed

text \<open>
  Without that proviso the check is unsound: the offsets are added in wrapping arithmetic, so three
  rows of one byte with a row pitch of $2^{63}$ pass for every non-empty buffer although the second row
  is $2^{63}$ bytes past its start. A region of zero width with a slice pitch makes the check divide by
  the row pitch of zero.
\<close>

theorem rect_check_unsound_on_wrap:
  "(\<forall>buffer_size. buffer_size \<noteq> 0 \<longrightarrow>
      pocl_buffer_boundcheck_3d buffer_size (0, 0, 0) (1, 3, 1) (2 ^ 63) 0 = Some (CL_SUCCESS, 2 ^ 63, 2 ^ 63)) \<and>
   \<not> rect_inside (2 ^ 63) (2 ^ 63) (2 ^ 63) (0, 0, 0) (1, 3, 1) \<and>
   (\<forall>buffer_size origin r1 r2 slice_pitch. slice_pitch \<noteq> 0 \<longrightarrow>
      pocl_buffer_boundcheck_3d buffer_size origin (0, r1, r2) 0 slice_pitch = None)"
proof (intro conjI allI impI)
  fix buffer_size :: size_t
  assume "buffer_size \<noteq> 0"
  then show "pocl_buffer_boundcheck_3d buffer_size (0, 0, 0) (1, 3, 1) (2 ^ 63) 0 =
      Some (CL_SUCCESS, 2 ^ 63, 2 ^ 63)"
    by (simp add: pocl_buffer_boundcheck_3d_def word_less_nat_alt word_le_nat_alt unat_gt_0)
next
  have "in_region (1, 3, 1) 0 1 0" by (simp add: in_region_def)
  moreover have "\<not> rect_off (2 ^ 63) (2 ^ 63) 0 1 0 < 2 ^ 63" by (simp add: rect_off_def)
  ultimately show "\<not> rect_inside (2 ^ 63) (2 ^ 63) (2 ^ 63) (0, 0, 0) (1, 3, 1)"
    unfolding rect_inside_def by auto
next
  fix buffer_size r1 r2 slice_pitch :: size_t and origin :: size3
  assume "slice_pitch \<noteq> 0"
  then show "pocl_buffer_boundcheck_3d buffer_size origin (0, r1, r2) 0 slice_pitch = None"
    by (cases origin) (simp add: pocl_buffer_boundcheck_3d_def)
qed

theorem rect_check_unsound_on_wrap_witness:
  "pocl_buffer_boundcheck_3d 1 (0, 0, 0) (1, 3, 1) (2 ^ 63) 0 = Some (CL_SUCCESS, 2 ^ 63, 2 ^ 63) \<and>
   pocl_buffer_boundcheck_3d 1 (0, 0, 0) (0, 1, 1) 0 8 = None"
proof -
  have "(1 :: size_t) \<noteq> 0" "(8 :: size_t) \<noteq> 0" by simp_all
  then show ?thesis using rect_check_unsound_on_wrap by blast
qed

section \<open>Overlapping rectangles\<close>

lemma interval_meet_iff:
  fixes a b n :: nat
  shows "a < b + n \<and> b < a + n \<longleftrightarrow> (\<exists>i i'. i < n \<and> i' < n \<and> a + i = b + i')"
proof
  assume "a < b + n \<and> b < a + n"
  then show "\<exists>i i'. i < n \<and> i' < n \<and> a + i = b + i'"
    by (intro exI [of _ "max a b - a"] exI [of _ "max a b - b"]) auto
qed auto

lemma pitch_decode:
  assumes "x < unat rp" "x' < unat rp" "Suc y * unat rp \<le> unat sp" "Suc y' * unat rp \<le> unat sp"
    and eq: "rect_off rp sp x y z = rect_off rp sp x' y' z'"
  shows "x = x' \<and> y = y' \<and> z = z'"
proof -
  have "x + unat rp * y < unat sp" "x' + unat rp * y' < unat sp"
    using assms(1-4) by (simp_all add: mult.commute)
  then have "x + unat rp * y = x' + unat rp * y' \<and> z = z'"
    using eq by (intro decode_2 [of _ "unat sp"]) (simp_all add: rect_off_def)
  then show ?thesis using decode_2 [OF assms(1,2)] by blast
qed

text \<open>A region that stays within the row and slice pitch at its origin.\<close>

definition in_pitch :: "size_t \<Rightarrow> size_t \<Rightarrow> size3 \<Rightarrow> size3 \<Rightarrow> bool" where
  "in_pitch rp sp origin region =
     (case origin of (o0, o1, o2) \<Rightarrow> case region of (r0, r1, r2) \<Rightarrow>
        0 < unat rp \<and> unat o0 + unat r0 \<le> unat rp \<and> (unat o1 + unat r1) * unat rp \<le> unat sp \<and>
        unat o2 + unat r2 < 2 ^ 64)"

definition rects_share_byte :: "size_t \<Rightarrow> size_t \<Rightarrow> size3 \<Rightarrow> size3 \<Rightarrow> size3 \<Rightarrow> bool" where
  "rects_share_byte rp sp src_offset dst_offset region =
     (case src_offset of (s0, s1, s2) \<Rightarrow> case dst_offset of (d0, d1, d2) \<Rightarrow>
      \<exists>i j k i' j' k'. in_region region i j k \<and> in_region region i' j' k' \<and>
        rect_off rp sp (unat s0 + i) (unat s1 + j) (unat s2 + k) =
        rect_off rp sp (unat d0 + i') (unat d1 + j') (unat d2 + k'))"

lemma in_pitch_rows:
  assumes "in_pitch rp sp (o0, o1, o2) (r0, r1, r2)" and "i < unat r0" "j < unat r1"
  shows "unat o0 + i < unat rp" and "Suc (unat o1 + j) * unat rp \<le> unat sp"
proof -
  show "unat o0 + i < unat rp" using assms by (simp add: in_pitch_def)
  have "Suc (unat o1 + j) * unat rp \<le> (unat o1 + unat r1) * unat rp"
    using assms(3) by (intro mult_le_mono1) simp
  then show "Suc (unat o1 + j) * unat rp \<le> unat sp" using assms(1) by (simp add: in_pitch_def)
qed

lemma share_byte_iff:
  assumes s: "in_pitch rp sp (s0, s1, s2) (r0, r1, r2)" and d: "in_pitch rp sp (d0, d1, d2) (r0, r1, r2)"
  shows "rects_share_byte rp sp (s0, s1, s2) (d0, d1, d2) (r0, r1, r2) \<longleftrightarrow>
    (unat s0 < unat d0 + unat r0 \<and> unat d0 < unat s0 + unat r0) \<and>
    (unat s1 < unat d1 + unat r1 \<and> unat d1 < unat s1 + unat r1) \<and>
    (unat s2 < unat d2 + unat r2 \<and> unat d2 < unat s2 + unat r2)"
proof -
  have "rects_share_byte rp sp (s0, s1, s2) (d0, d1, d2) (r0, r1, r2) \<longleftrightarrow>
      (\<exists>i j k i' j' k'. in_region (r0, r1, r2) i j k \<and> in_region (r0, r1, r2) i' j' k' \<and>
        unat s0 + i = unat d0 + i' \<and> unat s1 + j = unat d1 + j' \<and> unat s2 + k = unat d2 + k')"
  proof -
    have "rect_off rp sp (unat s0 + i) (unat s1 + j) (unat s2 + k) =
          rect_off rp sp (unat d0 + i') (unat d1 + j') (unat d2 + k') \<longleftrightarrow>
        unat s0 + i = unat d0 + i' \<and> unat s1 + j = unat d1 + j' \<and> unat s2 + k = unat d2 + k'"
      if "in_region (r0, r1, r2) i j k" "in_region (r0, r1, r2) i' j' k'" for i j k i' j' k'
      using that pitch_decode [OF in_pitch_rows(1) [OF s, of i j] in_pitch_rows(1) [OF d, of i' j']
          in_pitch_rows(2) [OF s, of i j] in_pitch_rows(2) [OF d, of i' j'], of "unat s2 + k" "unat d2 + k'"]
      by (auto simp: in_region_def)
    then show ?thesis unfolding rects_share_byte_def prod.case by blast
  qed
  then show ?thesis unfolding interval_meet_iff in_region_def prod.case by blast
qed

lemma in_pitch_nowrap:
  assumes "in_pitch rp sp (o0, o1, o2) (r0, r1, r2)"
  shows "unat (o0 + r0) = unat o0 + unat r0" and "unat (o1 + r1) = unat o1 + unat r1"
    and "unat (o2 + r2) = unat o2 + unat r2" and "\<not> o0 + r0 > rp" and "\<not> o1 + r1 > sp div rp"
proof -
  have b: "unat o0 + unat r0 \<le> unat rp" "(unat o1 + unat r1) * unat rp \<le> unat sp"
    "unat o2 + unat r2 < 2 ^ 64" "0 < unat rp"
    using assms by (simp_all add: in_pitch_def)
  show e0: "unat (o0 + r0) = unat o0 + unat r0"
    using b(1) unat_less_size_t [of rp] by (intro unat_add_nowrap) simp
  have "unat o1 + unat r1 \<le> (unat o1 + unat r1) * unat rp"
    using b(4) by simp
  then have "unat o1 + unat r1 < 18446744073709551616"
    using b(2) unat_less_size_t [of sp] by linarith
  then show e1: "unat (o1 + r1) = unat o1 + unat r1" by (intro unat_add_nowrap) simp
  show "unat (o2 + r2) = unat o2 + unat r2" using b(3) by (intro unat_add_nowrap) simp
  show "\<not> o0 + r0 > rp" using b(1) by (simp add: word_less_nat_alt e0)
  have "unat o1 + unat r1 \<le> unat sp div unat rp"
    using b(2,4) by (simp add: less_eq_div_iff_mult_less_eq)
  then show "\<not> o1 + r1 > sp div rp" by (simp add: word_less_nat_alt e1 unat_div)
qed

text \<open>
  C15: For two regions of one buffer that stay within their row and slice pitch, the overlap check
  answers, without dividing by zero, whether the two rectangles have a byte in common.
\<close>

theorem copy_overlap_exact:
  assumes "in_pitch rp sp src_offset region" and "in_pitch rp sp dst_offset region"
  shows "check_copy_overlap src_offset dst_offset region rp sp =
    Some (rects_share_byte rp sp src_offset dst_offset region)"
proof -
  obtain s0 s1 s2 d0 d1 d2 r0 r1 r2
    where p: "src_offset = (s0, s1, s2)" "dst_offset = (d0, d1, d2)" "region = (r0, r1, r2)"
    by (cases src_offset; cases dst_offset; cases region) auto
  note s = assms(1) [unfolded p] and d = assms(2) [unfolded p]
  have rp: "rp \<noteq> 0" using s by (auto simp: in_pitch_def)
  note nw = in_pitch_nowrap [OF s] in_pitch_nowrap [OF d]
  have box: "(s0 < d0 + r0 \<and> s0 + r0 > d0) \<and> (s1 < d1 + r1 \<and> s1 + r1 > d1) \<and> (s2 < d2 + r2 \<and> s2 + r2 > d2) \<longleftrightarrow>
      rects_share_byte rp sp (s0, s1, s2) (d0, d1, d2) (r0, r1, r2)"
    unfolding share_byte_iff [OF s d] word_less_nat_alt nw(1-3,6-8) ..
  show ?thesis
    unfolding p check_copy_overlap_def prod.case Let_def box using rp nw(4,5,9,10) by simp
qed

theorem copy_overlap_exact_witness:
  "check_copy_overlap (0, 0, 0) (4, 1, 0) (8, 2, 3) 16 64 =
    Some (rects_share_byte 16 64 (0, 0, 0) (4, 1, 0) (8, 2, 3))"
  by (rule copy_overlap_exact) (simp_all add: in_pitch_def)

end
