(* ===== verification/LocalSize.thy ===== *)
theory LocalSize
  imports Pocl_Prelude
begin

text \<open>
  The work-group size heuristics of \<open>pocl/lib/CL/devices/pocl_local_size.c\<close>, which pick a local size
  when the application leaves it to the runtime. \<^const>\<open>None\<close> stands for a failed assertion or a
  division by zero.
\<close>

section \<open>Arithmetic helpers\<close>

type_synonym dims = "size_t \<times> size_t \<times> size_t"

text \<open>The device limits the heuristics read; \<open>max_item_sizes\<close> is \<open>max_work_item_sizes\<close>.\<close>

record wg_device =
  max_item_sizes :: dims
  preferred_wg_size_multiple :: size_t
  max_work_group_size :: size_t
  max_compute_units :: cl_uint

definition vol :: "dims \<Rightarrow> size_t" where
  "vol d = (case d of (x, y, z) \<Rightarrow> x * y * z)"

text \<open>Euclid's algorithm; the loop keeps \<open>a\<close> in an \<open>int\<close>.\<close>

function gcd_c :: "size_t \<Rightarrow> size_t \<Rightarrow> size_t" where
  "gcd_c a b = (if a = 0 then b else gcd_c (b mod a) (scast (ucast a :: 32 word)))"
  by auto
termination
  by (relation "measure (\<lambda>(a, b). unat a)") (simp_all add: unat_mod unat_gt_0)

declare gcd_c.simps [simp del]

function upper_divisor_loop :: "size_t \<Rightarrow> size_t \<Rightarrow> size_t option" where
  "upper_divisor_loop dividend limit =
     (if limit = 0 then None
      else if dividend mod limit = 0 then Some limit
      else upper_divisor_loop dividend (limit - 1))"
  by auto
termination
  by (relation "measure (\<lambda>(d, l). unat l)") (auto simp: unat_minus_one unat_gt_0)

declare upper_divisor_loop.simps [simp del]

definition upper_divisor :: "size_t \<Rightarrow> size_t \<Rightarrow> size_t option" where
  "upper_divisor dividend limit =
     (if dividend < limit then Some dividend else upper_divisor_loop dividend limit)"

definition divide_chain :: "size_t \<Rightarrow> size_t \<Rightarrow> size_t \<Rightarrow> bool" where
  "divide_chain a b c \<longleftrightarrow> b mod a = 0 \<and> c mod b = 0"

section \<open>The default optimizer\<close>

text \<open>The largest multiple of the grain below the limit that divides the global size.\<close>

definition grain_multiple :: "size_t \<Rightarrow> size_t \<Rightarrow> size_t \<Rightarrow> size_t option" where
  "grain_multiple grain max_local global =
     (if grain = 0 then None
      else map_option (\<lambda>k. k * grain) (upper_divisor (global div grain) (max_local div grain)))"

definition try_halve :: "size_t \<Rightarrow> size_t \<Rightarrow> size_t \<Rightarrow> size_t option" where
  "try_halve grain local global =
     (if local AND 1 = 0 \<and> divide_chain grain (local div 2) global then Some (local div 2) else None)"

text \<open>One iteration of the loop that shrinks the work-group to the device's limit.\<close>

definition shrink_step :: "dims \<Rightarrow> dims \<Rightarrow> dims \<Rightarrow> dims" where
  "shrink_step grain global local =
     (case grain of (gx, gy, gz) \<Rightarrow> case global of (nx, ny, nz) \<Rightarrow> case local of (lx, ly, lz) \<Rightarrow>
      case try_halve gz lz nz of Some l \<Rightarrow> (lx, ly, l) | None \<Rightarrow>
      case try_halve gy ly ny of Some l \<Rightarrow> (lx, l, lz) | None \<Rightarrow>
      case try_halve gx lx nx of Some l \<Rightarrow> (l, ly, lz) | None \<Rightarrow>
      if lz > 1 \<and> gz \<le> gx \<and> gz \<le> gy then (lx, ly, 1)
      else if ly > 1 \<and> gy \<le> gz \<and> gy \<le> gx then (lx, 1, lz)
      else if lx > 1 \<and> gx \<le> gy \<and> gx \<le> gz then (1, ly, lz)
      else if lz > 1 then (lx, ly, 1)
      else if ly > 1 then (lx, 1, lz)
      else if lx > 1 then (1, ly, lz)
      else (lx, ly, lz))"

partial_function (option) shrink_loop :: "size_t \<Rightarrow> dims \<Rightarrow> dims \<Rightarrow> dims \<Rightarrow> dims option" where
  "shrink_loop max_group_size grain global local =
     (if vol local > max_group_size
      then shrink_loop max_group_size grain global (shrink_step grain global local)
      else Some local)"

definition try_split :: "size_t \<Rightarrow> size_t \<Rightarrow> size_t \<Rightarrow> size_t \<Rightarrow> bool" where
  "try_split splits grain local global \<longleftrightarrow>
     local mod splits = 0 \<and> divide_chain grain (local div splits) global"

text \<open>The inner loop: the largest number of splits, at most \<open>splits\<close>, that some dimension takes.\<close>

function split_some :: "dims \<Rightarrow> dims \<Rightarrow> size_t \<Rightarrow> dims \<times> dims \<Rightarrow> (dims \<times> dims) option" where
  "split_some grain global splits st =
     (if splits \<le> 1 then None
      else case grain of (gx, gy, gz) \<Rightarrow> case global of (nx, ny, nz) \<Rightarrow>
           case st of ((lx, ly, lz), (wx, wy, wz)) \<Rightarrow>
           if try_split splits gz lz nz then Some ((lx, ly, lz div splits), (wx, wy, wz * splits))
           else if try_split splits gy ly ny then Some ((lx, ly div splits, lz), (wx, wy * splits, wz))
           else if try_split splits gx lx nx then Some ((lx div splits, ly, lz), (wx * splits, wy, wz))
           else split_some grain global (splits - 1) st)"
  by auto
termination
proof (relation "measure (\<lambda>(g, n, s, st). unat s)", goal_cases)
  case (2 grain global splits st)
  then have "splits \<noteq> 0" by auto
  then show ?case by (simp add: unat_minus_one unat_gt_0)
qed simp

declare split_some.simps [simp del]

definition least_dim :: "size_t \<Rightarrow> size_t \<Rightarrow> size_t \<Rightarrow> size_t \<Rightarrow> bool" where
  "least_dim min_group_size l l' l'' \<longleftrightarrow> l > 1 \<and> l \<le> l' \<and> l \<le> l'' \<and> l' * l'' \<ge> min_group_size"

text \<open>The loop that splits the work-group while compute units are left without one.\<close>

partial_function (option) split_loop :: "size_t \<Rightarrow> cl_uint \<Rightarrow> dims \<Rightarrow> dims \<Rightarrow> dims \<times> dims \<Rightarrow> dims option" where
  "split_loop min_group_size ncus grain global st =
     (case st of (local, nwg) \<Rightarrow>
      if vol nwg = 0 then None
      else let splits = ucast ncus div vol nwg in
      if splits > 1 \<and> vol local \<ge> splits * min_group_size
      then case split_some grain global splits st of
             Some st' \<Rightarrow> split_loop min_group_size ncus grain global st'
           | None \<Rightarrow>
             (case global of (nx, ny, nz) \<Rightarrow> case local of (lx, ly, lz) \<Rightarrow> case nwg of (wx, wy, wz) \<Rightarrow>
              if least_dim min_group_size lz lx ly
              then split_loop min_group_size ncus grain global ((lx, ly, 1), (wx, wy, nz))
              else if least_dim min_group_size ly lz lx
              then split_loop min_group_size ncus grain global ((lx, 1, lz), (wx, ny, wz))
              else if least_dim min_group_size lx ly lz
              then split_loop min_group_size ncus grain global ((1, ly, lz), (nx, wy, wz))
              else Some local)
      else Some local)"

definition pocl_default_local_size_optimizer :: "wg_device \<Rightarrow> dims \<Rightarrow> dims option" where
  "pocl_default_local_size_optimizer dev global =
     (case global of (nx, ny, nz) \<Rightarrow> case max_item_sizes dev of (sx, sy, sz) \<Rightarrow>
      let max_x = min sx nx; max_y = min sy ny; max_z = min sz nz;
          preferred = (if preferred_wg_size_multiple dev = 0 then 1 else preferred_wg_size_multiple dev);
          max_group_size = max_work_group_size dev;
          gx = gcd_c preferred nx; gy = gcd_c preferred ny; gz = gcd_c preferred nz
      in case grain_multiple gx max_x nx of None \<Rightarrow> None | Some lx \<Rightarrow>
         case (if max_y > 1 then grain_multiple gy max_y ny else Some 1) of None \<Rightarrow> None | Some ly \<Rightarrow>
         case (if max_z > 1 then grain_multiple gz max_z nz else Some 1) of None \<Rightarrow> None | Some lz \<Rightarrow>
         case shrink_loop max_group_size (gx, gy, gz) global (lx, ly, lz) of None \<Rightarrow> None | Some (lx, ly, lz) \<Rightarrow>
         split_loop (min (4 * preferred) max_group_size) (max_compute_units dev) (gx, gy, gz) global
           ((lx, ly, lz), (nx div lx, ny div ly, nz div lz)))"

section \<open>The utilization maximizer\<close>

definition trivial_size :: "wg_device \<Rightarrow> dims \<Rightarrow> dims" where
  "trivial_size dev global =
     (case global of (nx, ny, nz) \<Rightarrow> case max_item_sizes dev of (sx, sy, sz) \<Rightarrow>
      let n = max_work_group_size dev in
      if nx mod n = 0 \<and> n \<le> sx then (n, 1, 1)
      else if ny mod n = 0 \<and> n \<le> sy then (1, n, 1)
      else if nz mod n = 0 \<and> n \<le> sz then (1, 1, n)
      else (1, 1, 1))"

definition better :: "size_t \<Rightarrow> dims \<Rightarrow> dims \<Rightarrow> dims" where
  "better max_group_size cand best =
     (if vol cand \<le> max_group_size \<and> vol cand > vol best then cand else best)"

text \<open>
  The three nested loops. A loop counter runs up to a bound below $2^{64} - 1$; the guard of the
  outermost loop on the volume found so far is tested at every value of its counter.
\<close>

definition search_x :: "size_t \<Rightarrow> size_t \<Rightarrow> size_t \<Rightarrow> size_t \<Rightarrow> size_t \<Rightarrow> dims \<Rightarrow> dims" where
  "search_x n max_x nx y_c z_c =
     fold (\<lambda>x best. let x_c = of_nat x in if nx mod x_c = 0 then better n (x_c, y_c, z_c) best else best)
       (rev [1..<Suc (unat max_x)])"

definition search_y :: "size_t \<Rightarrow> size_t \<Rightarrow> size_t \<Rightarrow> size_t \<Rightarrow> size_t \<Rightarrow> size_t \<Rightarrow> dims \<Rightarrow> dims" where
  "search_y n max_x nx max_y ny z_c =
     fold (\<lambda>y best. let y_c = of_nat y in if ny mod y_c = 0 then search_x n max_x nx y_c z_c best else best)
       [1..<Suc (unat max_y)]"

definition search_z :: "size_t \<Rightarrow> size_t \<Rightarrow> size_t \<Rightarrow> size_t \<Rightarrow> size_t \<Rightarrow> size_t \<Rightarrow> size_t \<Rightarrow> dims \<Rightarrow> dims" where
  "search_z n max_x nx max_y ny max_z nz =
     fold (\<lambda>z best. let z_c = of_nat z in
             if vol best < n \<and> nz mod z_c = 0 then search_y n max_x nx max_y ny z_c best else best)
       [1..<Suc (unat max_z)]"

definition pocl_wg_utilization_maximizer :: "wg_device \<Rightarrow> dims \<Rightarrow> dims option" where
  "pocl_wg_utilization_maximizer dev global =
     (case global of (nx, ny, nz) \<Rightarrow> case max_item_sizes dev of (sx, sy, sz) \<Rightarrow>
      let n = max_work_group_size dev in
      if n = 0 then None
      else Some (search_z n (min sx nx) nx (min sy ny) ny (min sz nz) nz (trivial_size dev global)))"

section \<open>Correctness of the helpers\<close>

lemma int_keeps_small:
  fixes a :: size_t
  assumes "unat a < 2 ^ 31"
  shows "scast (ucast a :: 32 word) = a"
proof -
  let ?c = "ucast a :: 32 word"
  have u: "unat ?c = unat a" using assms by (intro unat_ucast_nowrap) simp
  have "int (unat ?c) < int 2147483648" using assms unfolding u of_nat_less_iff by simp
  then have "uint ?c < 2147483648" by (simp only: uint_nat of_nat_numeral)
  moreover have "- 2147483648 \<le> uint ?c"
    using uint_nonnegative [of ?c] by linarith
  ultimately have "signed_take_bit 31 (uint ?c) = uint ?c"
    by (intro signed_take_bit_int_eq_self) simp_all
  then have "sint ?c = uint ?c" by (simp add: sint_uint)
  then show ?thesis using u by (metis of_int_sint scast_eq uint_nat word_of_int_uint)
qed

lemma gcd_c_correct: "unat a < 2 ^ 31 \<Longrightarrow> unat (gcd_c a b) = gcd (unat a) (unat b)"
proof (induction a b rule: gcd_c.induct)
  case (1 a b)
  show ?case
  proof (cases "a = 0")
    case True
    then show ?thesis by (simp add: gcd_c.simps)
  next
    case False
    have small: "scast (ucast a :: 32 word) = a" using 1(2) by (rule int_keeps_small)
    have "unat (b mod a) < unat a" using False by (simp add: unat_mod unat_gt_0)
    then have "unat (gcd_c (b mod a) a) = gcd (unat (b mod a)) (unat a)"
      using 1(1) [OF False] 1(2) unfolding small by linarith
    then show ?thesis
      using False by (subst gcd_c.simps) (simp add: small unat_mod gcd.commute [of "unat a"] gcd_red_nat [of "unat b"])
  qed
qed

lemma upper_divisor_loop_spec:
  "limit \<noteq> 0 \<Longrightarrow> \<exists>k. upper_divisor_loop d limit = Some k \<and> 0 < unat k \<and> unat k \<le> unat limit \<and> unat k dvd unat d"
proof (induction d limit rule: upper_divisor_loop.induct)
  case (1 d limit)
  show ?case
  proof (cases "d mod limit = 0")
    case True
    then have "unat limit dvd unat d" by (metis dvd_eq_mod_eq_0 unat_0 unat_mod)
    then show ?thesis using 1(2) True by (subst upper_divisor_loop.simps) (simp add: unat_gt_0)
  next
    case False
    then have "limit \<noteq> 1" by (auto simp: word_unat_eq_iff [of "d mod limit"] unat_mod)
    then have "limit - 1 \<noteq> 0" by simp
    then show ?thesis using 1(1) [OF 1(2) False] 1(2) False
      by (subst upper_divisor_loop.simps) (auto simp: unat_minus_one)
  qed
qed

text \<open>A local size that divides the global size and respects the limit of its dimension.\<close>

definition dim_ok :: "size_t \<Rightarrow> size_t \<Rightarrow> size_t \<Rightarrow> bool" where
  "dim_ok max_local global local \<longleftrightarrow>
     0 < unat local \<and> unat local dvd unat global \<and> unat local \<le> unat max_local"

lemma upper_divisor_spec:
  assumes "limit \<noteq> 0" and "d \<noteq> 0"
  shows "\<exists>k. upper_divisor d limit = Some k \<and> 0 < unat k \<and> unat k \<le> unat limit \<and> unat k dvd unat d"
  using upper_divisor_loop_spec [OF assms(1), of d] assms(2)
  by (auto simp: upper_divisor_def word_less_nat_alt unat_gt_0)

lemma grain_multiple_spec:
  assumes grain: "0 < unat grain" "unat grain dvd unat global" and "0 < unat global"
    and le: "unat grain \<le> unat max_local" "max_local \<le> global"
  shows "\<exists>l. grain_multiple grain max_local global = Some l \<and> dim_ok max_local global l"
proof -
  let ?K = "global div grain" and ?k = "max_local div grain"
  obtain c where c: "unat global = unat grain * c" using grain(2) by (auto elim: dvdE)
  then have K: "unat ?K = c" using grain(1) by (simp add: unat_div)
  have "c \<noteq> 0" using c assms(3) by (cases c) auto
  then have "?K \<noteq> 0" using K by auto
  moreover have "0 < unat ?k" using grain(1) le(1) by (simp add: unat_div div_greater_zero_iff)
  then have "?k \<noteq> 0" by auto
  ultimately obtain k where k: "upper_divisor ?K ?k = Some k" "0 < unat k" "unat k \<le> unat ?k" "unat k dvd c"
    using upper_divisor_spec [of ?k ?K] K by auto
  have "unat k * unat grain \<le> unat max_local div unat grain * unat grain"
    using k(3) by (intro mult_le_mono1) (simp add: unat_div)
  also have "\<dots> \<le> unat max_local" by simp
  finally have bound: "unat k * unat grain \<le> unat max_local" .
  then have e: "unat (k * grain) = unat k * unat grain"
    using unat_less_size_t [of max_local] by (intro unat_mult_nowrap) simp
  have "unat k * unat grain dvd unat global" using k(4) by (simp add: c mult.commute mult_dvd_mono)
  moreover have "0 < unat k * unat grain" using k(2) grain(1) by simp
  ultimately have "dim_ok max_local global (k * grain)"
    unfolding dim_ok_def e using bound by blast
  then show ?thesis using grain(1) k(1) by (auto simp: grain_multiple_def unat_gt_0)
qed

lemma grain_multiple_None:
  "unat max_local < unat grain \<Longrightarrow> grain_multiple grain max_local global = None"
proof -
  assume lt: "unat max_local < unat grain"
  then have "max_local div grain = 0" by (simp add: word_unat_eq_iff [of "max_local div grain"] unat_div del: unat_eq_zero)
  then show ?thesis using lt
    by (auto simp: grain_multiple_def upper_divisor_def upper_divisor_loop.simps)
qed

lemma dim_ok_one: "0 < unat max_local \<Longrightarrow> dim_ok max_local global 1"
  by (simp add: dim_ok_def)

lemma dim_ok_div:
  assumes "dim_ok m n l" and "unat s dvd unat l" and "unat (l div s) dvd unat n" and "0 < unat s"
  shows "dim_ok m n (l div s)"
proof -
  have "unat l div unat s * unat s = unat l" using assms(2) by simp
  then have "0 < unat l div unat s" using assms(1) by (cases "unat l div unat s") (auto simp: dim_ok_def)
  moreover have "unat l div unat s \<le> unat m"
    using assms(1) by (intro le_trans [OF div_le_dividend]) (simp add: dim_ok_def)
  ultimately show ?thesis using assms by (simp add: dim_ok_def unat_div)
qed

lemma mod_0_dvd: "n mod (l :: size_t) = 0 \<longleftrightarrow> unat l dvd unat n"
  by (metis dvd_eq_mod_eq_0 unat_eq_zero unat_mod)

lemma even_and_1: "l AND 1 = (0 :: size_t) \<longleftrightarrow> 2 dvd unat l"
proof -
  have "l AND 1 = l mod 2" by (rule and_one_eq)
  then show ?thesis using mod_0_dvd [of l 2] by simp
qed

lemma try_halve_ok:
  assumes "try_halve grain l n = Some l'" and "dim_ok m n l"
  shows "dim_ok m n l' \<and> unat l' < unat l"
proof -
  have l': "l' = l div 2" and "2 dvd unat l" "unat (l div 2) dvd unat n"
    using assms(1) by (auto simp: try_halve_def divide_chain_def mod_0_dvd even_and_1 split: if_splits)
  then have "dim_ok m n l'" using dim_ok_div [OF assms(2), of 2] by simp
  moreover have "unat l' < unat l" using assms(2) by (simp add: l' unat_div dim_ok_def)
  ultimately show ?thesis by blast
qed

section \<open>The loops of the optimizer\<close>

definition nat_vol :: "dims \<Rightarrow> nat" where
  "nat_vol d = (case d of (x, y, z) \<Rightarrow> unat x * unat y * unat z)"

definition dims_ok :: "dims \<Rightarrow> dims \<Rightarrow> dims \<Rightarrow> bool" where
  "dims_ok max_local global local =
     (case max_local of (mx, my, mz) \<Rightarrow> case global of (nx, ny, nz) \<Rightarrow> case local of (lx, ly, lz) \<Rightarrow>
        dim_ok mx nx lx \<and> dim_ok my ny ly \<and> dim_ok mz nz lz)"

lemma dims_ok_iff [simp]:
  "dims_ok (mx, my, mz) (nx, ny, nz) (lx, ly, lz) \<longleftrightarrow> dim_ok mx nx lx \<and> dim_ok my ny ly \<and> dim_ok mz nz lz"
  by (simp add: dims_ok_def)

lemma nat_vol_triple [simp]: "nat_vol (x, y, z) = unat x * unat y * unat z"
  by (simp add: nat_vol_def)

lemma vol_nat: "nat_vol d < 2 ^ 64 \<Longrightarrow> unat (vol d) = nat_vol d"
proof -
  obtain x y z where d: "d = (x, y, z)" by (cases d) auto
  assume lt: "nat_vol d < 2 ^ 64"
  show ?thesis
  proof (cases "z = 0")
    case True
    then show ?thesis by (simp add: vol_def d)
  next
    case False
    then have "1 \<le> unat z" by (simp add: unat_gt_0 Suc_le_eq)
    then have "unat x * unat y * 1 \<le> unat x * unat y * unat z" by (rule mult_le_mono2)
    moreover have "unat x * unat y * unat z < 18446744073709551616" using lt by (simp add: d)
    ultimately have "unat x * unat y < 18446744073709551616" by linarith
    then have "unat (x * y) = unat x * unat y" by (intro unat_mult_nowrap) simp
    then show ?thesis using lt by (simp add: vol_def d nowrap_simps)
  qed
qed

lemma dim_ok_le: "dim_ok m n l \<Longrightarrow> 0 < unat n \<Longrightarrow> unat l \<le> unat n"
  by (simp add: dim_ok_def dvd_imp_le)

lemma dims_ok_vol:
  assumes "dims_ok m (nx, ny, nz) l" and "0 < unat nx" "0 < unat ny" "0 < unat nz"
  shows "0 < nat_vol l" and "nat_vol l \<le> nat_vol (nx, ny, nz)"
proof -
  obtain mx my mz lx ly lz where e: "m = (mx, my, mz)" "l = (lx, ly, lz)" by (cases m; cases l) auto
  show "nat_vol l \<le> nat_vol (nx, ny, nz)"
    using assms unfolding e nat_vol_triple dims_ok_iff by (intro mult_le_mono) (auto intro: dim_ok_le)
  show "0 < nat_vol l" using assms(1) by (simp add: e dim_ok_def)
qed

lemma vol_less:
  fixes a b c :: nat
  assumes "0 < a" "0 < b" "0 < c"
  shows "a' < a \<Longrightarrow> a' * b * c < a * b * c" "b' < b \<Longrightarrow> a * b' * c < a * b * c"
    "c' < c \<Longrightarrow> a * b * c' < a * b * c"
  using assms by simp_all

text \<open>One step keeps the sizes legal and, unless all are 1 already, shrinks the volume.\<close>

lemma shrink_step_ok:
  assumes ok: "dims_ok (mx, my, mz) (nx, ny, nz) (lx, ly, lz)"
    and m: "0 < unat mx" "0 < unat my" "0 < unat mz"
  shows "dims_ok (mx, my, mz) (nx, ny, nz) (shrink_step (gx, gy, gz) (nx, ny, nz) (lx, ly, lz)) \<and>
    (1 < nat_vol (lx, ly, lz) \<longrightarrow>
      nat_vol (shrink_step (gx, gy, gz) (nx, ny, nz) (lx, ly, lz)) < nat_vol (lx, ly, lz))"
proof -
  have d: "dim_ok mx nx lx" "dim_ok my ny ly" "dim_ok mz nz lz" using ok by simp_all
  then have pos: "0 < unat lx" "0 < unat ly" "0 < unat lz" by (simp_all add: dim_ok_def)
  note one = dim_ok_one [OF m(1), of nx] dim_ok_one [OF m(2), of ny] dim_ok_one [OF m(3), of nz]
  have gt: "1 < l \<longleftrightarrow> 1 < unat l" for l :: size_t by (simp add: word_less_nat_alt)
  have "unat lx = 1 \<and> unat ly = 1 \<and> unat lz = 1" if "\<not> 1 < lx" "\<not> 1 < ly" "\<not> 1 < lz"
    using that pos unfolding gt by linarith
  then have stop: "\<not> 1 < nat_vol (lx, ly, lz)" if "\<not> 1 < lx" "\<not> 1 < ly" "\<not> 1 < lz"
    using that by simp
  note kill = vol_less(1) [OF pos, of 1] vol_less(2) [OF pos, of 1] vol_less(3) [OF pos, of 1]
  show ?thesis
  proof (cases "try_halve gz lz nz")
    case (Some l)
    note this and try_halve_ok [OF this d(3)]
    then show ?thesis using d vol_less(3) [OF pos, of "unat l"] by (simp add: shrink_step_def)
  next
    case z: None
    show ?thesis
    proof (cases "try_halve gy ly ny")
      case (Some l)
      note this and try_halve_ok [OF this d(2)]
      then show ?thesis using d z vol_less(2) [OF pos, of "unat l"] by (simp add: shrink_step_def)
    next
      case y: None
      show ?thesis
      proof (cases "try_halve gx lx nx")
        case (Some l)
        note this and try_halve_ok [OF this d(1)]
        then show ?thesis using d z y vol_less(1) [OF pos, of "unat l"] by (simp add: shrink_step_def)
      next
        case None
        then show ?thesis using d one z y stop kill unfolding gt by (auto simp: shrink_step_def gt)
      qed
    qed
  qed
qed

lemma shrink_loop_ok:
  assumes "dims_ok (mx, my, mz) (nx, ny, nz) l" and m: "0 < unat mx" "0 < unat my" "0 < unat mz"
    and n: "0 < unat nx" "0 < unat ny" "0 < unat nz" and vol: "nat_vol (nx, ny, nz) < 2 ^ 64"
    and group: "0 < unat max_group_size"
  shows "\<exists>l'. shrink_loop max_group_size (gx, gy, gz) (nx, ny, nz) l = Some l' \<and>
    dims_ok (mx, my, mz) (nx, ny, nz) l' \<and> nat_vol l' \<le> unat max_group_size"
  using assms(1)
proof (induction "nat_vol l" arbitrary: l rule: less_induct)
  case less
  let ?step = "shrink_step (gx, gy, gz) (nx, ny, nz) l"
  have v: "unat (vol l) = nat_vol l"
    using dims_ok_vol(2) [OF less.prems n] vol by (intro vol_nat) linarith
  show ?case
  proof (cases "vol l > max_group_size")
    case True
    then have "1 < nat_vol l" using group by (simp add: word_less_nat_alt v)
    then have "dims_ok (mx, my, mz) (nx, ny, nz) ?step" "nat_vol ?step < nat_vol l"
      using shrink_step_ok [OF _ m] less.prems by (cases l; blast)+
    from less.hyps [OF this(2,1)] show ?thesis using True by (subst shrink_loop.simps) simp
  next
    case False
    then show ?thesis using less.prems by (subst shrink_loop.simps) (simp add: word_less_nat_alt v)
  qed
qed

text \<open>\<open>nwg_*\<close> is the number of work-groups the local sizes make.\<close>

definition groups_match :: "dims \<Rightarrow> dims \<Rightarrow> dims \<Rightarrow> bool" where
  "groups_match global local nwg =
     (case global of (nx, ny, nz) \<Rightarrow> case local of (lx, ly, lz) \<Rightarrow> case nwg of (wx, wy, wz) \<Rightarrow>
        unat lx * unat wx = unat nx \<and> unat ly * unat wy = unat ny \<and> unat lz * unat wz = unat nz)"

lemma groups_match_iff [simp]:
  "groups_match (nx, ny, nz) (lx, ly, lz) (wx, wy, wz) \<longleftrightarrow>
     unat lx * unat wx = unat nx \<and> unat ly * unat wy = unat ny \<and> unat lz * unat wz = unat nz"
  by (simp add: groups_match_def)

lemma groups_match_div:
  assumes "dims_ok m (nx, ny, nz) (lx, ly, lz)"
  shows "groups_match (nx, ny, nz) (lx, ly, lz) (nx div lx, ny div ly, nz div lz)"
  using assms by (cases m) (simp add: dim_ok_def unat_div)

lemma try_split_ok:
  assumes "try_split s grain l n" and "dim_ok m n l" and "1 < s" and "unat l * unat w = unat n" and "n \<noteq> 0"
  shows "dim_ok m n (l div s) \<and> unat (l div s) < unat l \<and> unat (l div s) * unat (w * s) = unat n"
proof -
  have s: "1 < unat s" using assms(3) by (simp add: word_less_nat_alt)
  have dvd: "unat s dvd unat l" "unat (l div s) dvd unat n"
    using assms(1) by (simp_all add: try_split_def divide_chain_def mod_0_dvd)
  have ok: "dim_ok m n (l div s)" using dim_ok_div [OF assms(2) dvd] s by simp
  have e: "unat (l div s) * unat s = unat l" using dvd(1) by (simp add: unat_div)
  have lt: "unat (l div s) < unat l" using assms(2) s by (simp add: unat_div dim_ok_def)
  have n: "unat (l div s) * (unat w * unat s) = unat n" using e assms(4) by (metis mult.assoc mult.commute)
  have "unat w * unat s \<le> unat n"
    using n ok by (metis dim_ok_def mult.commute mult_le_mono1 nat_mult_1 Suc_leI One_nat_def)
  then have "unat (w * s) = unat w * unat s"
    using unat_less_size_t [of n] by (intro unat_mult_nowrap) simp
  then show ?thesis using ok lt n by simp
qed

lemma split_some_unfold:
  "1 < s \<Longrightarrow> split_some (gx, gy, gz) (nx, ny, nz) s ((lx, ly, lz), (wx, wy, wz)) =
     (if try_split s gz lz nz then Some ((lx, ly, lz div s), (wx, wy, wz * s))
      else if try_split s gy ly ny then Some ((lx, ly div s, lz), (wx, wy * s, wz))
      else if try_split s gx lx nx then Some ((lx div s, ly, lz), (wx * s, wy, wz))
      else split_some (gx, gy, gz) (nx, ny, nz) (s - 1) ((lx, ly, lz), (wx, wy, wz)))"
  by (subst split_some.simps) (simp add: not_le [symmetric])

lemma split_some_ok:
  assumes "split_some (gx, gy, gz) (nx, ny, nz) s (l, w) = Some (l', w')"
    and "dims_ok m (nx, ny, nz) l" and "groups_match (nx, ny, nz) l w"
    and "nx \<noteq> 0" "ny \<noteq> 0" "nz \<noteq> 0"
  shows "dims_ok m (nx, ny, nz) l' \<and> groups_match (nx, ny, nz) l' w' \<and> nat_vol l' < nat_vol l"
  using assms(1)
proof (induction "unat s" arbitrary: s rule: less_induct)
  case less
  obtain mx my mz lx ly lz wx wy wz
    where e: "m = (mx, my, mz)" "l = (lx, ly, lz)" "w = (wx, wy, wz)" by (cases m; cases l; cases w) auto
  have d: "dim_ok mx nx lx" "dim_ok my ny ly" "dim_ok mz nz lz" using assms(2) by (simp_all add: e)
  have g: "unat lx * unat wx = unat nx" "unat ly * unat wy = unat ny" "unat lz * unat wz = unat nz"
    using assms(3) by (simp_all add: e)
  have pos: "0 < unat lx" "0 < unat ly" "0 < unat lz" using d by (simp_all add: dim_ok_def)
  have s: "1 < s"
  proof (rule ccontr)
    assume "\<not> 1 < s"
    then have "s \<le> 1" by (simp only: not_less)
    then have "split_some (gx, gy, gz) (nx, ny, nz) s (l, w) = None"
      by (subst split_some.simps) (simp only: if_True)
    then show False using less.prems by simp
  qed
  note eq = less.prems [unfolded e split_some_unfold [OF s]]
  note split = try_split_ok [OF _ d(1) s g(1) assms(4)] try_split_ok [OF _ d(2) s g(2) assms(5)]
    try_split_ok [OF _ d(3) s g(3) assms(6)]
  consider (z) "try_split s gz lz nz" "l' = (lx, ly, lz div s)" "w' = (wx, wy, wz * s)"
    | (y) "try_split s gy ly ny" "l' = (lx, ly div s, lz)" "w' = (wx, wy * s, wz)"
    | (x) "try_split s gx lx nx" "l' = (lx div s, ly, lz)" "w' = (wx * s, wy, wz)"
    | (rec) "split_some (gx, gy, gz) (nx, ny, nz) (s - 1) (l, w) = Some (l', w')"
    using eq unfolding e
    by (cases "try_split s gz lz nz"; cases "try_split s gy ly ny"; cases "try_split s gx lx nx") simp_all
  then show ?case
  proof cases
    case z
    then show ?thesis using split(3) d g vol_less(3) [OF pos, of "unat (lz div s)"] by (simp add: e)
  next
    case y
    then show ?thesis using split(2) d g vol_less(2) [OF pos, of "unat (ly div s)"] by (simp add: e)
  next
    case x
    then show ?thesis using split(1) d g vol_less(1) [OF pos, of "unat (lx div s)"] by (simp add: e)
  next
    case rec
    have "s \<noteq> 0" using s by auto
    then have "unat (s - 1) < unat s" by (simp add: unat_minus_one unat_gt_0)
    from less.hyps [OF this rec] show ?thesis .
  qed
qed

lemma split_loop_unfold:
  "vol w \<noteq> 0 \<Longrightarrow> split_loop min_size ncus grain (nx, ny, nz) ((lx, ly, lz), w) =
     (let splits = ucast ncus div vol w in
      if splits > 1 \<and> vol (lx, ly, lz) \<ge> splits * min_size
      then case split_some grain (nx, ny, nz) splits ((lx, ly, lz), w) of
             Some st' \<Rightarrow> split_loop min_size ncus grain (nx, ny, nz) st'
           | None \<Rightarrow>
             (case w of (wx, wy, wz) \<Rightarrow>
              if least_dim min_size lz lx ly
              then split_loop min_size ncus grain (nx, ny, nz) ((lx, ly, 1), (wx, wy, nz))
              else if least_dim min_size ly lz lx
              then split_loop min_size ncus grain (nx, ny, nz) ((lx, 1, lz), (wx, ny, wz))
              else if least_dim min_size lx ly lz
              then split_loop min_size ncus grain (nx, ny, nz) ((1, ly, lz), (nx, wy, wz))
              else Some (lx, ly, lz))
      else Some (lx, ly, lz))"
  by (subst split_loop.simps) (simp only: prod.case if_False)

lemma split_loop_ok:
  assumes "dims_ok (mx, my, mz) (nx, ny, nz) l" and "groups_match (nx, ny, nz) l w"
    and m: "0 < unat mx" "0 < unat my" "0 < unat mz"
    and n: "0 < unat nx" "0 < unat ny" "0 < unat nz" and vol: "nat_vol (nx, ny, nz) < 2 ^ 64"
  shows "\<exists>l'. split_loop min_size ncus (gx, gy, gz) (nx, ny, nz) (l, w) = Some l' \<and>
    dims_ok (mx, my, mz) (nx, ny, nz) l' \<and> nat_vol l' \<le> nat_vol l"
  using assms(1,2)
proof (induction "nat_vol l" arbitrary: l w rule: less_induct)
  case less
  obtain lx ly lz wx wy wz where e: "l = (lx, ly, lz)" "w = (wx, wy, wz)" by (cases l; cases w) auto
  have d: "dim_ok mx nx lx" "dim_ok my ny ly" "dim_ok mz nz lz" using less.prems(1) by (simp_all add: e)
  have pos: "0 < unat lx" "0 < unat ly" "0 < unat lz" using d by (simp_all add: dim_ok_def)
  have g: "unat lx * unat wx = unat nx" "unat ly * unat wy = unat ny" "unat lz * unat wz = unat nz"
    using less.prems(2) by (simp_all add: e)
  have n0: "nx \<noteq> 0" "ny \<noteq> 0" "nz \<noteq> 0" using n by auto
  have "nat_vol w * nat_vol l = nat_vol (nx, ny, nz)"
    unfolding e nat_vol_triple g [symmetric] by (simp only: ac_simps)
  moreover have "0 < nat_vol (nx, ny, nz)" "0 < nat_vol l" using n pos by (simp_all add: e)
  ultimately have w: "0 < nat_vol w" "nat_vol w \<le> nat_vol (nx, ny, nz)"
    by (metis gr0I mult_0 less_nat_zero_code, metis dvd_triv_left dvd_imp_le)
  have "unat (vol w) = nat_vol w" using w(2) vol by (intro vol_nat) linarith
  then have w0: "vol w \<noteq> 0" using w(1) by auto
  note one = dim_ok_one [OF m(1), of nx] dim_ok_one [OF m(2), of ny] dim_ok_one [OF m(3), of nz]
  have step: "\<exists>l'. split_loop min_size ncus (gx, gy, gz) (nx, ny, nz) (l1, w1) = Some l' \<and>
      dims_ok (mx, my, mz) (nx, ny, nz) l' \<and> nat_vol l' \<le> nat_vol l"
    if "dims_ok (mx, my, mz) (nx, ny, nz) l1" "groups_match (nx, ny, nz) l1 w1" "nat_vol l1 < nat_vol l" for l1 w1
    using less.hyps [OF that(3,1,2)] that(3) by fastforce
  let ?s = "ucast ncus div vol w"
  show ?case
  proof (cases "?s > 1 \<and> vol l \<ge> ?s * min_size")
    case False
    then have "split_loop min_size ncus (gx, gy, gz) (nx, ny, nz) (l, w) = Some l"
      unfolding e(1) by (simp only: split_loop_unfold [OF w0] Let_def if_False)
    then show ?thesis using less.prems(1) by blast
  next
    case True
    show ?thesis
    proof (cases "split_some (gx, gy, gz) (nx, ny, nz) ?s (l, w)")
      case (Some p)
      obtain l1 w1 where p: "p = (l1, w1)" by (cases p)
      show ?thesis
        using split_some_ok [OF Some [unfolded p] less.prems n0] step [of l1 w1] Some True
        unfolding e(1) split_loop_unfold [OF w0] Let_def p by simp
    next
      case None
      have lt: "1 < lx \<Longrightarrow> 1 < unat lx" "1 < ly \<Longrightarrow> 1 < unat ly" "1 < lz \<Longrightarrow> 1 < unat lz"
        by (simp_all add: word_less_nat_alt)
      have z: "least_dim min_size lz lx ly \<Longrightarrow> nat_vol (lx, ly, 1) < nat_vol l"
        and y: "least_dim min_size ly lz lx \<Longrightarrow> nat_vol (lx, 1, lz) < nat_vol l"
        and x: "least_dim min_size lx ly lz \<Longrightarrow> nat_vol (1, ly, lz) < nat_vol l"
        using lt vol_less(3) [OF pos, of 1] vol_less(2) [OF pos, of 1] vol_less(1) [OF pos, of 1]
        by (simp_all add: e least_dim_def)
      note z = step [OF _ _ z, of "(wx, wy, nz)"] and y = step [OF _ _ y, of "(wx, ny, wz)"]
        and x = step [OF _ _ x, of "(nx, wy, wz)"]
      have eq: "split_loop min_size ncus (gx, gy, gz) (nx, ny, nz) (l, w) =
          (if least_dim min_size lz lx ly
           then split_loop min_size ncus (gx, gy, gz) (nx, ny, nz) ((lx, ly, 1), (wx, wy, nz))
           else if least_dim min_size ly lz lx
           then split_loop min_size ncus (gx, gy, gz) (nx, ny, nz) ((lx, 1, lz), (wx, ny, wz))
           else if least_dim min_size lx ly lz
           then split_loop min_size ncus (gx, gy, gz) (nx, ny, nz) ((1, ly, lz), (nx, wy, wz))
           else Some (lx, ly, lz))"
        using True None unfolding e(1) split_loop_unfold [OF w0] Let_def
        by (simp only: if_True simp_thms option.case) (simp only: e(2) prod.case)
      show ?thesis
      proof (cases "least_dim min_size lz lx ly")
        case True
        then show ?thesis using z d one(3) g unfolding eq by simp
      next
        case no_z: False
        show ?thesis
        proof (cases "least_dim min_size ly lz lx")
          case True
          then show ?thesis using y d one(2) g no_z unfolding eq by simp
        next
          case no_y: False
          show ?thesis
          proof (cases "least_dim min_size lx ly lz")
            case True
            then show ?thesis using x d one(1) g no_z no_y unfolding eq by simp
          next
            case False
            then show ?thesis using d no_z no_y unfolding eq by (simp add: e)
          qed
        qed
      qed
    qed
  qed
qed

section \<open>The default optimizer\<close>

definition legal_local :: "wg_device \<Rightarrow> dims \<Rightarrow> dims \<Rightarrow> bool" where
  "legal_local dev global local \<longleftrightarrow>
     dims_ok (max_item_sizes dev) global local \<and> nat_vol local \<le> unat (max_work_group_size dev)"

definition all_pos :: "dims \<Rightarrow> bool" where
  "all_pos d = (case d of (x, y, z) \<Rightarrow> 0 < unat x \<and> 0 < unat y \<and> 0 < unat z)"

text \<open>Non-empty ranges and limits, and a number of work-items that fits \<open>size_t\<close>.\<close>

definition size_request_ok :: "wg_device \<Rightarrow> dims \<Rightarrow> bool" where
  "size_request_ok dev global \<longleftrightarrow>
     all_pos global \<and> all_pos (max_item_sizes dev) \<and> nat_vol global < 2 ^ 64 \<and>
     0 < unat (max_work_group_size dev) \<and> unat (preferred_wg_size_multiple dev) < 2 ^ 31"

definition preferred :: "wg_device \<Rightarrow> nat" where
  "preferred dev = max 1 (unat (preferred_wg_size_multiple dev))"

text \<open>The granularity of a dimension is above its limit, which the code asserts not to happen.\<close>

definition grain_fits :: "wg_device \<Rightarrow> dims \<Rightarrow> bool" where
  "grain_fits dev global =
     (case global of (nx, ny, nz) \<Rightarrow> case max_item_sizes dev of (sx, sy, sz) \<Rightarrow>
        gcd (preferred dev) (unat nx) \<le> unat sx \<and>
        (sy \<le> 1 \<or> ny \<le> 1 \<or> gcd (preferred dev) (unat ny) \<le> unat sy) \<and>
        (sz \<le> 1 \<or> nz \<le> 1 \<or> gcd (preferred dev) (unat nz) \<le> unat sz))"

lemma unat_min: "unat (min a b) = min (unat a) (unat (b :: size_t))"
  by (simp add: min_def word_le_nat_alt)

lemma dim_ok_min: "dim_ok (min s n) n l \<Longrightarrow> dim_ok s n l"
  by (simp add: dim_ok_def unat_min)

text \<open>One dimension: the grain is found, or the limit is 1, or the grain does not fit.\<close>

lemma first_dim:
  assumes "unat p < 2 ^ 31" "0 < unat p" "0 < unat n" "0 < unat s"
  shows "if gcd (unat p) (unat n) \<le> unat s
    then \<exists>l. grain_multiple (gcd_c p n) (min s n) n = Some l \<and> dim_ok (min s n) n l
    else grain_multiple (gcd_c p n) (min s n) n = None"
proof -
  have g: "unat (gcd_c p n) = gcd (unat p) (unat n)" by (rule gcd_c_correct [OF assms(1)])
  have le: "gcd (unat p) (unat n) \<le> unat n" using assms(3) by (simp add: dvd_imp_le)
  show ?thesis
  proof (cases "gcd (unat p) (unat n) \<le> unat s")
    case True
    then show ?thesis
      using grain_multiple_spec [of "gcd_c p n" n "min s n"] le assms by (simp add: g unat_min)
  next
    case False
    then show ?thesis using grain_multiple_None [of "min s n" "gcd_c p n" n] by (simp add: g unat_min)
  qed
qed

lemma other_dim:
  assumes "unat p < 2 ^ 31" "0 < unat p" "0 < unat n" "0 < unat s"
  shows "if s \<le> 1 \<or> n \<le> 1 \<or> gcd (unat p) (unat n) \<le> unat s
    then \<exists>l. (if min s n > 1 then grain_multiple (gcd_c p n) (min s n) n else Some 1) = Some l \<and>
      dim_ok (min s n) n l
    else (if min s n > 1 then grain_multiple (gcd_c p n) (min s n) n else Some 1) = None"
proof (cases "min s n > 1")
  case True
  then have "\<not> s \<le> 1" "\<not> n \<le> 1" by (simp_all add: not_le)
  then show ?thesis using True first_dim [OF assms] by (simp only: if_True simp_thms)
next
  case False
  then have c: "s \<le> 1 \<or> n \<le> 1 \<or> gcd (unat p) (unat n) \<le> unat s" by (auto simp: not_less min_le_iff_disj)
  have "dim_ok (min s n) n 1" using assms by (intro dim_ok_one) (simp add: unat_min)
  then show ?thesis unfolding if_P [OF c] if_not_P [OF False] by blast
qed

lemma optimizer_legal:
  assumes "size_request_ok dev global"
  shows "if grain_fits dev global
    then \<exists>local. pocl_default_local_size_optimizer dev global = Some local \<and> legal_local dev global local
    else pocl_default_local_size_optimizer dev global = None"
proof -
  obtain nx ny nz sx sy sz where e: "global = (nx, ny, nz)" "max_item_sizes dev = (sx, sy, sz)"
    by (cases global; cases "max_item_sizes dev") auto
  have n: "0 < unat nx" "0 < unat ny" "0 < unat nz" and s: "0 < unat sx" "0 < unat sy" "0 < unat sz"
    and vol: "nat_vol (nx, ny, nz) < 2 ^ 64" and group: "0 < unat (max_work_group_size dev)"
    and p31: "unat (preferred_wg_size_multiple dev) < 2 ^ 31"
    using assms by (simp_all add: size_request_ok_def all_pos_def e)
  define p where "p = (if preferred_wg_size_multiple dev = 0 then 1 else preferred_wg_size_multiple dev)"
  have p: "unat p < 2 ^ 31" "0 < unat p" using p31 by (auto simp: p_def unat_gt_0)
  have pref: "preferred dev = unat p" by (auto simp: preferred_def p_def unat_gt_0 max_def Suc_le_eq)
  define X where "X = grain_multiple (gcd_c p nx) (min sx nx) nx"
  define Y where "Y = (if min sy ny > 1 then grain_multiple (gcd_c p ny) (min sy ny) ny else Some 1)"
  define Z where "Z = (if min sz nz > 1 then grain_multiple (gcd_c p nz) (min sz nz) nz else Some 1)"
  let ?g = "(gcd_c p nx, gcd_c p ny, gcd_c p nz)" and ?m = "(min sx nx, min sy ny, min sz nz)"
  let ?n = "(nx, ny, nz)"
  have m: "0 < unat (min sx nx)" "0 < unat (min sy ny)" "0 < unat (min sz nz)"
    using n s by (simp_all add: unat_min)
  have opt: "pocl_default_local_size_optimizer dev global =
      (case X of None \<Rightarrow> None | Some lx \<Rightarrow> case Y of None \<Rightarrow> None | Some ly \<Rightarrow> case Z of None \<Rightarrow> None | Some lz \<Rightarrow>
       case shrink_loop (max_work_group_size dev) ?g ?n (lx, ly, lz) of None \<Rightarrow> None | Some (lx, ly, lz) \<Rightarrow>
       split_loop (min (4 * p) (max_work_group_size dev)) (max_compute_units dev) ?g ?n
         ((lx, ly, lz), (nx div lx, ny div ly, nz div lz)))"
    unfolding pocl_default_local_size_optimizer_def e prod.case Let_def X_def Y_def Z_def p_def ..
  note dims = first_dim [OF p n(1) s(1), folded X_def] other_dim [OF p n(2) s(2), folded Y_def]
    other_dim [OF p n(3) s(3), folded Z_def]
  show ?thesis
  proof (cases "grain_fits dev global")
    case False
    then have "X = None \<or> Y = None \<or> Z = None"
      using dims unfolding grain_fits_def e prod.case pref by (meson)
    then have "pocl_default_local_size_optimizer dev global = None"
      unfolding opt by (auto split: option.split)
    then show ?thesis using False by (simp only: if_False)
  next
    case True
    then obtain lx ly lz where l: "X = Some lx" "Y = Some ly" "Z = Some lz"
      and "dim_ok (min sx nx) nx lx" "dim_ok (min sy ny) ny ly" "dim_ok (min sz nz) nz lz"
      using dims unfolding grain_fits_def e prod.case pref by (auto split: if_splits)
    then have "dims_ok ?m ?n (lx, ly, lz)" by simp
    from shrink_loop_ok [OF this m n vol group] obtain l1 l2 l3
      where shrunk: "shrink_loop (max_work_group_size dev) ?g ?n (lx, ly, lz) = Some (l1, l2, l3)"
        "dims_ok ?m ?n (l1, l2, l3)" "nat_vol (l1, l2, l3) \<le> unat (max_work_group_size dev)"
      by (metis prod_cases3)
    from split_loop_ok [OF shrunk(2) groups_match_div [OF shrunk(2)] m n vol] obtain local
      where r: "split_loop (min (4 * p) (max_work_group_size dev)) (max_compute_units dev) ?g ?n
          ((l1, l2, l3), (nx div l1, ny div l2, nz div l3)) = Some local"
        "dims_ok ?m ?n local" "nat_vol local \<le> nat_vol (l1, l2, l3)"
      by blast
    have "dims_ok (sx, sy, sz) ?n local" using r(2) by (cases local) (auto intro: dim_ok_min)
    then have "legal_local dev global local" using r(3) shrunk(3) by (simp add: legal_local_def e)
    moreover have "pocl_default_local_size_optimizer dev global = Some local"
      unfolding opt by (simp only: l option.case shrunk(1) prod.case r(1))
    ultimately show ?thesis using True by (simp only: if_True) blast
  qed
qed

text \<open>
  C16: For every non-empty range whose number of work-items fits a \<open>size_t\<close>, the optimizer returns, and
  the local size it picks divides the global size in each dimension, respects the device's limit per
  dimension and the device's work-group size; or the granularity of a dimension exceeds the device's
  limit there and the assertion in \<open>upper_divisor\<close> fails.
\<close>

theorem local_size_optimizer_legal:
  assumes "size_request_ok dev global"
  shows "if grain_fits dev global
    then \<exists>local. pocl_default_local_size_optimizer dev global = Some local \<and> legal_local dev global local
    else pocl_default_local_size_optimizer dev global = None"
  by (rule optimizer_legal [OF assms])

theorem local_size_optimizer_legal_witness:
  "\<exists>local. pocl_default_local_size_optimizer
      \<lparr>max_item_sizes = (4096, 4096, 4096), preferred_wg_size_multiple = 8,
       max_work_group_size = 4096, max_compute_units = 4\<rparr> (1000, 24, 1) = Some local \<and>
    legal_local \<lparr>max_item_sizes = (4096, 4096, 4096), preferred_wg_size_multiple = 8,
       max_work_group_size = 4096, max_compute_units = 4\<rparr> (1000, 24, 1) local"
proof -
  let ?dev = "\<lparr>max_item_sizes = (4096, 4096, 4096), preferred_wg_size_multiple = 8,
       max_work_group_size = 4096, max_compute_units = 4\<rparr>"
  have gcd: "gcd 8 1000 = (8 :: nat)" "gcd 8 24 = (8 :: nat)" by (simp_all add: gcd_red_nat [of 8])
  have "size_request_ok ?dev (1000, 24, 1)" by (simp add: size_request_ok_def all_pos_def)
  moreover have "grain_fits ?dev (1000, 24, 1)" by (simp add: grain_fits_def preferred_def gcd)
  ultimately show ?thesis using local_size_optimizer_legal [of ?dev "(1000, 24, 1)"] by (simp only: if_True)
qed

section \<open>The utilization maximizer\<close>

lemma fold_best:
  fixes v :: "'b \<Rightarrow> nat"
  assumes "\<And>x b. x \<in> set xs \<Longrightarrow> ok b \<Longrightarrow> ok (f x b) \<and> v b \<le> v (f x b) \<and> (\<forall>c. ok c \<and> C x c \<longrightarrow> v c \<le> v (f x b))"
    and "ok b"
  shows "ok (fold f xs b) \<and> v b \<le> v (fold f xs b) \<and>
    (\<forall>c. ok c \<and> (\<exists>x \<in> set xs. C x c) \<longrightarrow> v c \<le> v (fold f xs b))"
  using assms
proof (induction xs arbitrary: b)
  case (Cons x xs)
  have fx: "ok (f x b)" "v b \<le> v (f x b)" "\<And>c. ok c \<Longrightarrow> C x c \<Longrightarrow> v c \<le> v (f x b)"
    using Cons.prems by auto
  have "ok (fold f xs (f x b)) \<and> v (f x b) \<le> v (fold f xs (f x b)) \<and>
      (\<forall>c. ok c \<and> (\<exists>x \<in> set xs. C x c) \<longrightarrow> v c \<le> v (fold f xs (f x b)))"
    using Cons.prems(1) fx(1) by (intro Cons.IH) auto
  then show ?case using fx(2,3) by (auto intro: order_trans)
qed simp

lemma mod_of_nat_dvd:
  fixes n m :: size_t
  assumes "k \<in> set [1..<Suc (unat m)]"
  shows "unat (of_nat k :: size_t) = k" and "n mod of_nat k = 0 \<longleftrightarrow> k dvd unat n"
proof -
  show e: "unat (of_nat k :: size_t) = k"
  proof (rule unat_of_nat_nowrap)
    have "k \<le> unat m" using assms by simp linarith
    then show "k < 2 ^ LENGTH(64)" using unat_less_size_t [of m] by simp
  qed
  show "n mod of_nat k = 0 \<longleftrightarrow> k dvd unat n" by (simp add: mod_0_dvd e)
qed

lemma dims_vol:
  assumes "dims_ok m global d" and "nat_vol global < 2 ^ 64" "all_pos global"
  shows "unat (vol d) = nat_vol d"
proof -
  obtain nx ny nz where g: "global = (nx, ny, nz)" by (cases global)
  have "nat_vol d \<le> nat_vol (nx, ny, nz)"
    using assms(3) unfolding g all_pos_def prod.case by (intro dims_ok_vol(2) [OF assms(1) [unfolded g]]) blast+
  then show ?thesis using assms(2) unfolding g by (intro vol_nat) (rule le_less_trans)
qed

lemma better_ok:
  assumes ok: "legal_local dev global b" and n: "n = max_work_group_size dev"
    and cand: "dims_ok (max_item_sizes dev) global c" and vol: "nat_vol global < 2 ^ 64" "all_pos global"
  shows "legal_local dev global (better n c b) \<and> nat_vol b \<le> nat_vol (better n c b) \<and>
    (legal_local dev global c \<longrightarrow> nat_vol c \<le> nat_vol (better n c b))"
proof -
  have "dims_ok (max_item_sizes dev) global b" using ok by (simp add: legal_local_def)
  note v = dims_vol [OF this vol] dims_vol [OF cand vol]
  show ?thesis using ok cand
    by (auto simp: better_def n legal_local_def word_less_nat_alt word_le_nat_alt v)
qed

lemma dim_ok_candidate:
  "k \<in> set [1..<Suc (unat (min s n))] \<Longrightarrow> k dvd unat n \<Longrightarrow> dim_ok s n (of_nat k)"
  by (frule mod_of_nat_dvd(1)) (auto simp: dim_ok_def unat_min)

lemma dim_ok_searched:
  assumes "dim_ok s n l" and "0 < unat n"
  shows "unat l \<in> set [1..<Suc (unat (min s n))]" and "unat l dvd unat n"
  using assms dim_ok_le [OF assms] by (auto simp: dim_ok_def unat_min)

text \<open>Each loop improves on its start and covers every legal candidate it ranges over.\<close>

lemma search_x_ok:
  assumes e: "global = (nx, ny, nz)" "max_item_sizes dev = (sx, sy, sz)" and n: "n = max_work_group_size dev"
    and vol: "nat_vol global < 2 ^ 64" "all_pos global"
    and yz: "dim_ok sy ny y" "dim_ok sz nz z" and ok: "legal_local dev global b"
  shows "legal_local dev global (search_x n (min sx nx) nx y z b) \<and>
    nat_vol b \<le> nat_vol (search_x n (min sx nx) nx y z b) \<and>
    (\<forall>c. legal_local dev global c \<and> snd c = (y, z) \<longrightarrow> nat_vol c \<le> nat_vol (search_x n (min sx nx) nx y z b))"
proof -
  let ?xs = "rev [1..<Suc (unat (min sx nx))]"
  let ?f = "\<lambda>x best. let x_c = of_nat x in if nx mod x_c = 0 then better n (x_c, y, z) best else best"
  let ?C = "\<lambda>x c. c = (of_nat x, y, z)"
  have step: "legal_local dev global (?f x b) \<and> nat_vol b \<le> nat_vol (?f x b) \<and>
      (\<forall>c. legal_local dev global c \<and> ?C x c \<longrightarrow> nat_vol c \<le> nat_vol (?f x b))"
    if x: "x \<in> set ?xs" and b: "legal_local dev global b" for x b
  proof -
    have x': "x \<in> set [1..<Suc (unat (min sx nx))]" using x by simp
    note d = mod_of_nat_dvd(1) [OF x'] mod_of_nat_dvd(2) [OF x', of nx]
    show ?thesis
    proof (cases "x dvd unat nx")
      case True
      then have "dims_ok (max_item_sizes dev) global (of_nat x, y, z)"
        using dim_ok_candidate [OF x'] yz by (simp add: e)
      from better_ok [OF b n this vol] show ?thesis using True by (simp add: d(2))
    next
      case False
      then have "\<not> legal_local dev global (of_nat x, y, z)"
        by (auto simp: legal_local_def e dim_ok_def d(1))
      then show ?thesis using False b by (simp add: d(2))
    qed
  qed
  have "\<exists>x \<in> set ?xs. ?C x c" if l: "legal_local dev global c" and yz': "snd c = (y, z)" for c
  proof -
    obtain x where c: "c = (x, y, z)" using yz' by (cases c) auto
    have "dim_ok sx nx x" using l by (simp add: c legal_local_def e)
    then have "unat x \<in> set ?xs"
      using dim_ok_searched(1) vol(2) unfolding set_rev by (simp only: e all_pos_def prod.case)
    then show ?thesis by (intro bexI [of _ "unat x"]) (simp add: c)
  qed
  then show ?thesis using fold_best [of ?xs _ ?f nat_vol ?C b, OF step ok] unfolding search_x_def by blast
qed

lemma search_y_ok:
  assumes e: "global = (nx, ny, nz)" "max_item_sizes dev = (sx, sy, sz)" and n: "n = max_work_group_size dev"
    and vol: "nat_vol global < 2 ^ 64" "all_pos global"
    and z: "dim_ok sz nz z" and ok: "legal_local dev global b"
  shows "legal_local dev global (search_y n (min sx nx) nx (min sy ny) ny z b) \<and>
    nat_vol b \<le> nat_vol (search_y n (min sx nx) nx (min sy ny) ny z b) \<and>
    (\<forall>c. legal_local dev global c \<and> snd (snd c) = z \<longrightarrow>
      nat_vol c \<le> nat_vol (search_y n (min sx nx) nx (min sy ny) ny z b))"
proof -
  let ?ys = "[1..<Suc (unat (min sy ny))]"
  let ?f = "\<lambda>y best. let y_c = of_nat y in if ny mod y_c = 0 then search_x n (min sx nx) nx y_c z best else best"
  let ?C = "\<lambda>y c. snd c = (of_nat y, z)"
  have step: "legal_local dev global (?f y b) \<and> nat_vol b \<le> nat_vol (?f y b) \<and>
      (\<forall>c. legal_local dev global c \<and> ?C y c \<longrightarrow> nat_vol c \<le> nat_vol (?f y b))"
    if y: "y \<in> set ?ys" and b: "legal_local dev global b" for y b
  proof -
    note d = mod_of_nat_dvd(1) [OF y] mod_of_nat_dvd(2) [OF y, of ny]
    show ?thesis
    proof (cases "y dvd unat ny")
      case True
      from search_x_ok [OF e n vol dim_ok_candidate [OF y True] z b] show ?thesis
        using True by (simp add: d(2))
    next
      case False
      then have "\<not> legal_local dev global c" if "?C y c" for c
        using that by (cases c) (auto simp: legal_local_def e dim_ok_def d(1))
      then show ?thesis using False b by (simp add: d(2))
    qed
  qed
  have "\<exists>y \<in> set ?ys. ?C y c" if l: "legal_local dev global c" and yz: "snd (snd c) = z" for c
  proof -
    obtain x y where c: "c = (x, y, z)" using yz by (cases c) auto
    have "dim_ok sy ny y" using l by (simp add: c legal_local_def e)
    then have "unat y \<in> set ?ys"
      using dim_ok_searched(1) vol(2) by (simp only: e all_pos_def prod.case)
    then show ?thesis by (intro bexI [of _ "unat y"]) (simp add: c)
  qed
  then show ?thesis using fold_best [of ?ys _ ?f nat_vol ?C b, OF step ok] unfolding search_y_def by blast
qed

lemma search_z_ok:
  assumes e: "global = (nx, ny, nz)" "max_item_sizes dev = (sx, sy, sz)" and n: "n = max_work_group_size dev"
    and vol: "nat_vol global < 2 ^ 64" "all_pos global" and ok: "legal_local dev global b"
  shows "legal_local dev global (search_z n (min sx nx) nx (min sy ny) ny (min sz nz) nz b) \<and>
    (\<forall>c. legal_local dev global c \<longrightarrow>
      nat_vol c \<le> nat_vol (search_z n (min sx nx) nx (min sy ny) ny (min sz nz) nz b))"
proof -
  let ?zs = "[1..<Suc (unat (min sz nz))]"
  let ?f = "\<lambda>z best. let z_c = of_nat z in
     if vol best < n \<and> nz mod z_c = 0 then search_y n (min sx nx) nx (min sy ny) ny z_c best else best"
  let ?C = "\<lambda>z c. snd (snd c) = of_nat z"
  have step: "legal_local dev global (?f z b) \<and> nat_vol b \<le> nat_vol (?f z b) \<and>
      (\<forall>c. legal_local dev global c \<and> ?C z c \<longrightarrow> nat_vol c \<le> nat_vol (?f z b))"
    if z: "z \<in> set ?zs" and b: "legal_local dev global b" for z b
  proof -
    note d = mod_of_nat_dvd(1) [OF z] mod_of_nat_dvd(2) [OF z, of nz]
    have "unat (vol b) = nat_vol b"
      using b unfolding legal_local_def by (intro dims_vol [OF _ vol]) blast
    then have full: "nat_vol c \<le> nat_vol b" if "\<not> vol b < n" "legal_local dev global c" for c
      using that by (simp add: n legal_local_def word_less_nat_alt)
    consider (search) "z dvd unat nz" "vol b < n" | (enough) "\<not> vol b < n" | (no) "\<not> z dvd unat nz" by blast
    then show ?thesis
    proof cases
      case search
      from search_y_ok [OF e n vol dim_ok_candidate [OF z search(1)] b] show ?thesis
        using search by (simp add: d(2))
    next
      case enough
      then show ?thesis using b full by simp
    next
      case no
      then have "\<not> legal_local dev global c" if "?C z c" for c
        using that by (cases c) (auto simp: legal_local_def e dim_ok_def d(1))
      then show ?thesis using no b by (simp add: d(2))
    qed
  qed
  have "\<exists>z \<in> set ?zs. ?C z c" if "legal_local dev global c" for c
  proof -
    obtain x y z where c: "c = (x, y, z)" by (cases c)
    have "dim_ok sz nz z" using that by (simp add: c legal_local_def e)
    then have "unat z \<in> set ?zs"
      using dim_ok_searched(1) vol(2) by (simp only: e all_pos_def prod.case)
    then show ?thesis by (intro bexI [of _ "unat z"]) (simp add: c)
  qed
  then show ?thesis using fold_best [of ?zs _ ?f nat_vol ?C b, OF step ok] unfolding search_z_def by blast
qed

lemma trivial_size_legal:
  assumes "all_pos global" and "all_pos (max_item_sizes dev)" and "0 < unat (max_work_group_size dev)"
  shows "legal_local dev global (trivial_size dev global)"
  using assms
  by (cases global; cases "max_item_sizes dev")
    (auto simp: trivial_size_def legal_local_def Let_def all_pos_def mod_0_dvd dim_ok_def word_le_nat_alt Suc_le_eq)

text \<open>
  C17: The utilization maximizer returns a legal local size of the largest possible volume: no local size
  that divides the range and respects the limits has more work-items.
\<close>

theorem wg_utilization_maximal:
  assumes "all_pos global" and "all_pos (max_item_sizes dev)" and "0 < unat (max_work_group_size dev)"
    and "nat_vol global < 2 ^ 64 - 1"
  shows "\<exists>local. pocl_wg_utilization_maximizer dev global = Some local \<and> legal_local dev global local \<and>
    (\<forall>l. legal_local dev global l \<longrightarrow> nat_vol l \<le> nat_vol local)"
proof -
  obtain nx ny nz sx sy sz where e: "global = (nx, ny, nz)" "max_item_sizes dev = (sx, sy, sz)"
    by (cases global; cases "max_item_sizes dev") auto
  have "nat_vol global < 2 ^ 64" using assms(4) by simp
  from search_z_ok [OF e refl this assms(1) trivial_size_legal [OF assms(1-3)]] show ?thesis
    using assms(3) unfolding pocl_wg_utilization_maximizer_def e prod.case Let_def by (metis less_irrefl unat_0)
qed

theorem wg_utilization_maximal_witness:
  "\<exists>local. pocl_wg_utilization_maximizer
      \<lparr>max_item_sizes = (4096, 4096, 4096), preferred_wg_size_multiple = 8,
       max_work_group_size = 100, max_compute_units = 4\<rparr> (30, 14, 1) = Some local \<and>
     84 \<le> nat_vol local"
proof -
  let ?dev = "\<lparr>max_item_sizes = (4096, 4096, 4096), preferred_wg_size_multiple = 8,
       max_work_group_size = 100, max_compute_units = 4\<rparr>"
  have "\<exists>local. pocl_wg_utilization_maximizer ?dev (30, 14, 1) = Some local \<and>
      legal_local ?dev (30, 14, 1) local \<and>
      (\<forall>l. legal_local ?dev (30, 14, 1) l \<longrightarrow> nat_vol l \<le> nat_vol local)"
    by (rule wg_utilization_maximal) (simp_all add: all_pos_def)
  moreover have "legal_local ?dev (30, 14, 1) (6, 14, 1)" by (simp add: legal_local_def dim_ok_def)
  moreover have "nat_vol (6, 14, 1) = 84" by simp
  ultimately show ?thesis by metis
qed

end
