(* ===== verification/Events.thy ===== *)
theory Events
  imports CL_Types "HOL-Library.Monad_Syntax"
begin

text \<open>
  Events and command queues: \<open>pocl_util.c\<close> (creation, synchronisation and status updates),
  \<open>pocl_broadcast\<close> of \<open>devices/common.c\<close>, submission and notification of the pthread driver
  (\<open>devices/pthread/pthread.c\<close>) and the event functions of the API.

  Events and queues are named by numbers; an event's name counts the events created before it. A state holds the live events,
  the queues, the driver's work queue and the locks held, so that a second acquisition of a lock, an
  access to a freed event and a failed assertion are all \<^const>\<open>None\<close>. The log is a ghost: it
  records enqueued, started and finished commands, newest first. Profiling, callbacks and buffer
  references are not part of the state.
\<close>

section \<open>State\<close>

datatype command_type = CL_COMMAND_USER | CL_COMMAND_BARRIER | CL_COMMAND_MARKER | CL_COMMAND_OTHER nat

text \<open>\<open>struct _cl_event\<close> with the fields of its command node; the queue of a user event is \<open>None\<close>.\<close>

record event =
  ev_queue :: "nat option"
  ev_type :: command_type
  ev_status :: int
  ev_refcount :: int
  ev_wait_list :: "nat list"
  ev_notify_list :: "nat list"
  ev_ready :: bool
  ev_has_wait_list :: bool

record queue =
  cq_out_of_order :: bool
  cq_events :: "nat list"
  cq_barrier :: "nat option"
  cq_last_event :: "nat option"
  cq_command_count :: int

datatype log_item =
  Enqueued nat nat bool command_type bool "nat list"
| Started nat
| Finished nat int

record rt =
  rt_events :: "nat \<rightharpoonup> event"
  rt_queues :: "nat \<rightharpoonup> queue"
  rt_next_id :: nat
  rt_work_queue :: "nat list"
  rt_locked :: "nat set"
  rt_cq_locked :: "nat set"
  rt_log :: "log_item list"

definition CL_QUEUED :: int where "CL_QUEUED = 3"
definition CL_SUBMITTED :: int where "CL_SUBMITTED = 2"
definition CL_RUNNING :: int where "CL_RUNNING = 1"
definition CL_COMPLETE :: int where "CL_COMPLETE = 0"
definition CL_FAILED :: int where "CL_FAILED = - 1"

lemmas status_defs = CL_QUEUED_def CL_SUBMITTED_def CL_RUNNING_def CL_COMPLETE_def CL_FAILED_def

section \<open>Locks and fields\<close>

definition lock_event :: "nat \<Rightarrow> rt \<Rightarrow> rt option" where
  "lock_event e s = do {
     ev \<leftarrow> rt_events s e;
     if e \<in> rt_locked s \<or> ev_refcount ev \<le> 0 then None
     else Some (s\<lparr>rt_locked := insert e (rt_locked s)\<rparr>)}"

definition unlock_event :: "nat \<Rightarrow> rt \<Rightarrow> rt option" where
  "unlock_event e s = do {
     ev \<leftarrow> rt_events s e;
     if e \<notin> rt_locked s \<or> ev_refcount ev < 0 then None
     else Some (s\<lparr>rt_locked := rt_locked s - {e}\<rparr>)}"

definition lock_queue :: "nat \<Rightarrow> rt \<Rightarrow> rt option" where
  "lock_queue q s = do {
     cq \<leftarrow> rt_queues s q;
     if q \<in> rt_cq_locked s then None else Some (s\<lparr>rt_cq_locked := insert q (rt_cq_locked s)\<rparr>)}"

definition unlock_queue :: "nat \<Rightarrow> rt \<Rightarrow> rt option" where
  "unlock_queue q s = do {
     cq \<leftarrow> rt_queues s q;
     if q \<notin> rt_cq_locked s then None else Some (s\<lparr>rt_cq_locked := rt_cq_locked s - {q}\<rparr>)}"

definition update_event :: "nat \<Rightarrow> (event \<Rightarrow> event) \<Rightarrow> rt \<Rightarrow> rt option" where
  "update_event e f s = do {
     ev \<leftarrow> rt_events s e; Some (s\<lparr>rt_events := (rt_events s)(e \<mapsto> f ev)\<rparr>)}"

definition update_queue :: "nat \<Rightarrow> (queue \<Rightarrow> queue) \<Rightarrow> rt \<Rightarrow> rt option" where
  "update_queue q f s = do {
     cq \<leftarrow> rt_queues s q; Some (s\<lparr>rt_queues := (rt_queues s)(q \<mapsto> f cq)\<rparr>)}"

definition add_log :: "log_item \<Rightarrow> rt \<Rightarrow> rt" where
  "add_log i s = s\<lparr>rt_log := i # rt_log s\<rparr>"

text \<open>
  The \<open>id\<close> of an event: \<open>POCL_ATOMIC_INC\<close> of a 32-bit counter, which wraps. Two events are locked in the
  order of their ids, which the assertion wants to differ.
\<close>

definition event_id :: "nat \<Rightarrow> 32 word" where
  "event_id e = of_nat (e + 1)"

definition pocl_lock_events_inorder :: "nat \<Rightarrow> nat \<Rightarrow> rt \<Rightarrow> rt option" where
  "pocl_lock_events_inorder ev1 ev2 s =
     (if ev1 = ev2 \<or> event_id ev1 = event_id ev2 then None
      else if event_id ev1 < event_id ev2 then do {s \<leftarrow> lock_event ev1 s; lock_event ev2 s}
      else do {s \<leftarrow> lock_event ev2 s; lock_event ev1 s})"

definition pocl_unlock_events_inorder :: "nat \<Rightarrow> nat \<Rightarrow> rt \<Rightarrow> rt option" where
  "pocl_unlock_events_inorder ev1 ev2 s =
     (if ev1 = ev2 \<or> event_id ev1 = event_id ev2 then None
      else if event_id ev1 < event_id ev2 then do {s \<leftarrow> unlock_event ev1 s; unlock_event ev2 s}
      else do {s \<leftarrow> unlock_event ev2 s; unlock_event ev1 s})"

section \<open>Creation and synchronisation\<close>

definition pocl_create_event :: "nat option \<Rightarrow> command_type \<Rightarrow> rt \<Rightarrow> nat \<times> rt" where
  "pocl_create_event command_queue ty s =
     (let e = rt_next_id s in
      (e, s\<lparr>rt_next_id := e + 1,
            rt_events := (rt_events s)(e \<mapsto>
              \<lparr>ev_queue = command_queue, ev_type = ty, ev_status = CL_QUEUED, ev_refcount = 1,
               ev_wait_list = [], ev_notify_list = [], ev_ready = False, ev_has_wait_list = False\<rparr>)\<rparr>))"

definition pocl_create_event_sync :: "nat \<Rightarrow> nat \<Rightarrow> rt \<Rightarrow> rt option" where
  "pocl_create_event_sync waiting_event notifier_event s = do {
     s \<leftarrow> pocl_lock_events_inorder waiting_event notifier_event s;
     w \<leftarrow> rt_events s waiting_event;
     n \<leftarrow> rt_events s notifier_event;
     s \<leftarrow> (if notifier_event \<in> set (ev_wait_list w) then Some s
          else if ev_status n = CL_COMPLETE then Some s
          else do {
            s \<leftarrow> update_event notifier_event (\<lambda>ev. ev\<lparr>ev_notify_list := waiting_event # ev_notify_list ev\<rparr>) s;
            update_event waiting_event (\<lambda>ev. ev\<lparr>ev_wait_list := notifier_event # ev_wait_list ev\<rparr>) s});
     pocl_unlock_events_inorder waiting_event notifier_event s}"

text \<open>\<open>pocl_create_event_sync (e, n)\<close> for every \<open>n\<close> of a list.\<close>

fun sync_all :: "nat \<Rightarrow> nat list \<Rightarrow> rt \<Rightarrow> rt option" where
  "sync_all e [] s = Some s"
| "sync_all e (n # ns) s = do {s \<leftarrow> pocl_create_event_sync e n s; sync_all e ns s}"

definition pocl_create_command :: "nat \<Rightarrow> command_type \<Rightarrow> bool \<Rightarrow> nat list \<Rightarrow> rt \<Rightarrow> (nat \<times> rt) option" where
  "pocl_create_command q ty event_p wait_list s = do {
     let (e, s) = pocl_create_event (Some q) ty s;
     s \<leftarrow> update_event e (\<lambda>ev. ev\<lparr>ev_refcount := (if event_p then 2 else 1)\<rparr>) s;
     cq \<leftarrow> rt_queues s q;
     s \<leftarrow> (if \<not> cq_out_of_order cq then do {
             s \<leftarrow> lock_queue q s;
             s \<leftarrow> (case cq_last_event cq of None \<Rightarrow> Some s | Some l \<Rightarrow> pocl_create_event_sync e l s);
             unlock_queue q s}
           else Some s);
     s \<leftarrow> sync_all e wait_list s;
     Some (e, s)}"

section \<open>Status updates and the pthread driver\<close>

definition pocl_command_is_ready :: "event \<Rightarrow> bool" where
  "pocl_command_is_ready ev \<longleftrightarrow> ev_wait_list ev = []"

definition pocl_update_event_queued :: "nat \<Rightarrow> rt \<Rightarrow> rt option" where
  "pocl_update_event_queued e = update_event e (\<lambda>ev. ev\<lparr>ev_status := CL_QUEUED\<rparr>)"

definition pocl_update_event_submitted :: "nat \<Rightarrow> rt \<Rightarrow> rt option" where
  "pocl_update_event_submitted e s = do {
     ev \<leftarrow> rt_events s e;
     if ev_status ev = CL_QUEUED then update_event e (\<lambda>ev. ev\<lparr>ev_status := CL_SUBMITTED\<rparr>) s else None}"

definition pocl_update_event_running_unlocked :: "nat \<Rightarrow> rt \<Rightarrow> rt option" where
  "pocl_update_event_running_unlocked e s = do {
     ev \<leftarrow> rt_events s e;
     if ev_status ev = CL_SUBMITTED then update_event e (\<lambda>ev. ev\<lparr>ev_status := CL_RUNNING\<rparr>) s else None}"

definition pocl_update_event_running :: "nat \<Rightarrow> rt \<Rightarrow> rt option" where
  "pocl_update_event_running e s = do {
     s \<leftarrow> lock_event e s;
     s \<leftarrow> pocl_update_event_running_unlocked e s;
     unlock_event e s}"

definition pthread_scheduler_push :: "nat \<Rightarrow> rt \<Rightarrow> rt" where
  "pthread_scheduler_push e s = s\<lparr>rt_work_queue := rt_work_queue s @ [e]\<rparr>"

definition pocl_pthread_submit :: "nat \<Rightarrow> rt \<Rightarrow> rt option" where
  "pocl_pthread_submit e s = do {
     s \<leftarrow> update_event e (\<lambda>ev. ev\<lparr>ev_ready := True\<rparr>) s;
     ev \<leftarrow> rt_events s e;
     s \<leftarrow> (if pocl_command_is_ready ev
          then map_option (pthread_scheduler_push e) (pocl_update_event_submitted e s)
          else Some s);
     unlock_event e s}"

definition pocl_command_enqueue :: "nat \<Rightarrow> nat \<Rightarrow> rt \<Rightarrow> rt option" where
  "pocl_command_enqueue q e s = do {
     s \<leftarrow> lock_event e s;
     ev \<leftarrow> rt_events s e;
     s \<leftarrow> (if ev_status ev = CL_QUEUED \<and> ev_queue ev = Some q then unlock_event e s else None);
     s \<leftarrow> lock_queue q s;
     s \<leftarrow> update_queue q (\<lambda>cq. cq\<lparr>cq_command_count := cq_command_count cq + 1\<rparr>) s;
     cq \<leftarrow> rt_queues s q;
     s \<leftarrow> (if (ev_type ev = CL_COMMAND_BARRIER \<or> ev_type ev = CL_COMMAND_MARKER) \<and> \<not> ev_has_wait_list ev
          then sync_all e (cq_events cq) s else Some s);
     s \<leftarrow> (if ev_type ev = CL_COMMAND_BARRIER then update_queue q (\<lambda>cq. cq\<lparr>cq_barrier := Some e\<rparr>) s
          else case cq_barrier cq of None \<Rightarrow> Some s | Some b \<Rightarrow> pocl_create_event_sync e b s);
     s \<leftarrow> update_queue q (\<lambda>cq. cq\<lparr>cq_events := cq_events cq @ [e], cq_last_event := Some e\<rparr>) s;
     s \<leftarrow> unlock_queue q s;
     s \<leftarrow> lock_event e s;
     s \<leftarrow> pocl_update_event_queued e s;
     pocl_pthread_submit e s}"

text \<open>
  An API call that enqueues a command: create it, set the command's fields, enqueue it. Of the commands
  only the barrier sets \<open>has_wait_list\<close>.
\<close>

definition enqueue_command :: "nat \<Rightarrow> command_type \<Rightarrow> bool \<Rightarrow> nat list \<Rightarrow> rt \<Rightarrow> (nat \<times> rt) option" where
  "enqueue_command q ty event_p wait_list s = do {
     (e, s) \<leftarrow> pocl_create_command q ty event_p wait_list s;
     s \<leftarrow> (if ty = CL_COMMAND_BARRIER
          then update_event e (\<lambda>ev. ev\<lparr>ev_has_wait_list := (wait_list \<noteq> [])\<rparr>) s else Some s);
     s \<leftarrow> pocl_command_enqueue q e s;
     cq \<leftarrow> rt_queues s q;
     Some (e, add_log (Enqueued e q (cq_out_of_order cq) ty
       (ty = CL_COMMAND_BARRIER \<and> wait_list \<noteq> []) wait_list) s)}"

section \<open>Completion\<close>

definition clReleaseEvent :: "nat \<Rightarrow> rt \<Rightarrow> rt option" where
  "clReleaseEvent e s = do {
     s \<leftarrow> lock_event e s;
     s \<leftarrow> update_event e (\<lambda>ev. ev\<lparr>ev_refcount := ev_refcount ev - 1\<rparr>) s;
     ev \<leftarrow> rt_events s e;
     s \<leftarrow> unlock_event e s;
     Some (if ev_refcount ev = 0 then s\<lparr>rt_events := (rt_events s)(e := None)\<rparr> else s)}"

definition clRetainEvent :: "nat \<Rightarrow> rt \<Rightarrow> rt option" where
  "clRetainEvent e s = do {
     s \<leftarrow> lock_event e s;
     s \<leftarrow> update_event e (\<lambda>ev. ev\<lparr>ev_refcount := ev_refcount ev + 1\<rparr>) s;
     unlock_event e s}"

text \<open>\<open>pocl_update_event_finished_msg\<close> up to the unlocking of the event.\<close>

definition finish_event :: "int \<Rightarrow> nat \<Rightarrow> rt \<Rightarrow> rt option" where
  "finish_event status e s = do {
     ev \<leftarrow> rt_events s e;
     q \<leftarrow> ev_queue ev;
     s \<leftarrow> (if ev_status ev > CL_COMPLETE then lock_queue q s else None);
     s \<leftarrow> lock_event e s;
     s \<leftarrow> update_event e (\<lambda>ev. ev\<lparr>ev_status := status\<rparr>) s;
     s \<leftarrow> update_queue q (\<lambda>cq. cq\<lparr>cq_command_count := cq_command_count cq - 1,
            cq_barrier := (if cq_barrier cq = Some e then None else cq_barrier cq),
            cq_last_event := (if cq_last_event cq = Some e then None else cq_last_event cq),
            cq_events := remove1 e (cq_events cq)\<rparr>) s;
     cq \<leftarrow> rt_queues s q;
     s \<leftarrow> (if cq_command_count cq \<ge> 0 then unlock_queue q s else None);
     unlock_event e (add_log (Finished e status) s)}"

text \<open>\<open>pocl_pthread_notify\<close> after its test that the finished event has not failed.\<close>

definition notify_ready :: "nat \<Rightarrow> rt \<Rightarrow> rt option" where
  "notify_ready t s = do {
     ev \<leftarrow> rt_events s t;
     if \<not> ev_ready ev then Some s
     else if pocl_command_is_ready ev \<and> ev_status ev = CL_QUEUED
     then map_option (pthread_scheduler_push t) (pocl_update_event_submitted t s)
     else Some s}"

text \<open>
  \<open>pocl_broadcast\<close>, with \<open>pocl_pthread_notify\<close> and \<open>pocl_update_event_failed\<close>, which call it back, in
  line. The failed branch unlocks the target, finishes it, broadcasts and releases it, and locks it again.
\<close>

partial_function (option) pocl_broadcast :: "nat \<Rightarrow> rt \<Rightarrow> rt option" where
  "pocl_broadcast e s = do {
     ev \<leftarrow> rt_events s e;
     (case ev_notify_list ev of
        [] \<Rightarrow> Some s
      | t # _ \<Rightarrow> do {
          s \<leftarrow> pocl_lock_events_inorder e t s;
          s \<leftarrow> update_event t (\<lambda>ev. ev\<lparr>ev_wait_list := remove1 e (ev_wait_list ev)\<rparr>) s;
          target \<leftarrow> rt_events s t;
          s \<leftarrow> (if ev_status target = CL_SUBMITTED \<or> ev_status target = CL_QUEUED
               then if ev_status ev < CL_COMPLETE
                    then do {
                      s \<leftarrow> unlock_event t s;
                      s \<leftarrow> finish_event CL_FAILED t s;
                      s \<leftarrow> pocl_broadcast t s;
                      s \<leftarrow> clReleaseEvent t s;
                      lock_event t s}
                    else notify_ready t s
               else Some s);
          s \<leftarrow> update_event e (\<lambda>ev. ev\<lparr>ev_notify_list := remove1 t (ev_notify_list ev)\<rparr>) s;
          s \<leftarrow> pocl_unlock_events_inorder e t s;
          pocl_broadcast e s})}"

definition pocl_update_event_finished :: "int \<Rightarrow> nat \<Rightarrow> rt \<Rightarrow> rt option" where
  "pocl_update_event_finished status e s = do {
     s \<leftarrow> finish_event status e s;
     s \<leftarrow> pocl_broadcast e s;
     clReleaseEvent e s}"

text \<open>A worker takes a command off the work queue and starts it; later it completes it.\<close>

definition exec_start :: "nat \<Rightarrow> rt \<Rightarrow> rt option" where
  "exec_start e s = do {
     ev \<leftarrow> rt_events s e;
     if e \<in> set (rt_work_queue s) \<and> pocl_command_is_ready ev
     then map_option (add_log (Started e))
            (pocl_update_event_running e (s\<lparr>rt_work_queue := remove1 e (rt_work_queue s)\<rparr>))
     else None}"

definition exec_finish :: "nat \<Rightarrow> rt \<Rightarrow> rt option" where
  "exec_finish e s = do {
     ev \<leftarrow> rt_events s e;
     if ev_status ev = CL_RUNNING then pocl_update_event_finished CL_COMPLETE e s else None}"

section \<open>User events\<close>

definition clCreateUserEvent :: "rt \<Rightarrow> nat \<times> rt" where
  "clCreateUserEvent s =
     (let (e, s) = pocl_create_event None CL_COMMAND_USER s in
      (e, s\<lparr>rt_events := (rt_events s)(e \<mapsto>
         (the (rt_events s e))\<lparr>ev_refcount := 1, ev_status := CL_SUBMITTED\<rparr>)\<rparr>))"

definition clSetUserEventStatus :: "nat \<Rightarrow> int \<Rightarrow> rt \<Rightarrow> (cl_error \<times> rt) option" where
  "clSetUserEventStatus e execution_status s =
     (if execution_status > CL_COMPLETE then Some (CL_INVALID_VALUE, s)
      else do {
        s \<leftarrow> lock_event e s;
        ev \<leftarrow> rt_events s e;
        if ev_type ev \<noteq> CL_COMMAND_USER then map_option (Pair CL_INVALID_EVENT) (unlock_event e s)
        else if ev_status ev \<le> CL_COMPLETE then map_option (Pair CL_INVALID_OPERATION) (unlock_event e s)
        else do {
          s \<leftarrow> update_event e (\<lambda>ev. ev\<lparr>ev_status := execution_status\<rparr>) s;
          s \<leftarrow> unlock_event e (add_log (Finished e execution_status) s);
          s \<leftarrow> pocl_broadcast e s;
          s \<leftarrow> lock_event e s;
          map_option (Pair CL_SUCCESS) (unlock_event e s)}})"

section \<open>The order the OpenCL queues promise\<close>

text \<open>
  What the log of enqueued commands says must be finished before a command starts: its explicit wait
  list; in an in-order queue, and for a marker or a barrier without wait list, all commands enqueued
  before; and the last barrier enqueued before, unless the command is a barrier itself.
\<close>

fun enq_of :: "log_item list \<Rightarrow> nat \<Rightarrow> (nat \<times> bool \<times> command_type \<times> bool \<times> nat list) option" where
  "enq_of [] e = None"
| "enq_of (Enqueued a q ooo ty hw ws # l) e = (if a = e then Some (q, ooo, ty, hw, ws) else enq_of l e)"
| "enq_of (_ # l) e = enq_of l e"

fun enqueued_in :: "log_item list \<Rightarrow> nat \<Rightarrow> nat list" where
  "enqueued_in [] q = []"
| "enqueued_in (Enqueued a q' ooo ty hw ws # l) q = (if q' = q then a # enqueued_in l q else enqueued_in l q)"
| "enqueued_in (_ # l) q = enqueued_in l q"

fun barriers_in :: "log_item list \<Rightarrow> nat \<Rightarrow> nat list" where
  "barriers_in [] q = []"
| "barriers_in (Enqueued a q' ooo ty hw ws # l) q =
     (if q' = q \<and> ty = CL_COMMAND_BARRIER then a # barriers_in l q else barriers_in l q)"
| "barriers_in (_ # l) q = barriers_in l q"

fun finished_in :: "log_item list \<Rightarrow> nat \<Rightarrow> bool" where
  "finished_in [] a = False"
| "finished_in (Finished b st # l) a = (a = b \<or> finished_in l a)"
| "finished_in (_ # l) a = finished_in l a"

definition waits_for_all :: "bool \<Rightarrow> command_type \<Rightarrow> bool \<Rightarrow> bool" where
  "waits_for_all ooo ty hw \<longleftrightarrow> \<not> ooo \<or> (ty = CL_COMMAND_BARRIER \<or> ty = CL_COMMAND_MARKER) \<and> \<not> hw"

definition must_precede :: "log_item list \<Rightarrow> nat \<Rightarrow> nat list" where
  "must_precede l e =
     (case enq_of l e of
        None \<Rightarrow> []
      | Some (q, ooo, ty, hw, ws) \<Rightarrow> ws @
          (if waits_for_all ooo ty hw then filter (\<lambda>a. a < e) (enqueued_in l q) else []) @
          (if ty \<noteq> CL_COMMAND_BARRIER then take 1 (filter (\<lambda>b. b < e) (barriers_in l q)) else []))"

fun ordered_log :: "log_item list \<Rightarrow> bool" where
  "ordered_log [] = True"
| "ordered_log (Started e # l) = (list_all (finished_in l) (must_precede l e) \<and> ordered_log l)"
| "ordered_log (_ # l) = ordered_log l"

end
