(* ===== verification/EventInv.thy ===== *)
theory EventInv
  imports Events
begin

text \<open>
  The invariant of the event state between two operations and the proof that every operation keeps it.
  Each operation is first reduced, under the invariant, to one closed update of the state (the lemmas
  named \<open>_eq\<close>), whose effect on every field is a list of equations (\<open>view_\<close>), from which the parts
  of the invariant follow one by one.
\<close>

section \<open>The invariant\<close>

text \<open>The fields of an event as total functions; a freed event has empty lists.\<close>

definition live :: "rt \<Rightarrow> nat \<Rightarrow> bool" where
  "live s a \<longleftrightarrow> rt_events s a \<noteq> None"

definition waits :: "rt \<Rightarrow> nat \<Rightarrow> nat list" where
  "waits s a = (case rt_events s a of None \<Rightarrow> [] | Some ev \<Rightarrow> ev_wait_list ev)"

definition notifs :: "rt \<Rightarrow> nat \<Rightarrow> nat list" where
  "notifs s a = (case rt_events s a of None \<Rightarrow> [] | Some ev \<Rightarrow> ev_notify_list ev)"

definition stat :: "rt \<Rightarrow> nat \<Rightarrow> int" where
  "stat s a = (case rt_events s a of None \<Rightarrow> 0 | Some ev \<Rightarrow> ev_status ev)"

definition refs :: "rt \<Rightarrow> nat \<Rightarrow> int" where
  "refs s a = (case rt_events s a of None \<Rightarrow> 0 | Some ev \<Rightarrow> ev_refcount ev)"

definition queue_of :: "rt \<Rightarrow> nat \<Rightarrow> nat option" where
  "queue_of s a = (case rt_events s a of None \<Rightarrow> None | Some ev \<Rightarrow> ev_queue ev)"

definition ready :: "rt \<Rightarrow> nat \<Rightarrow> bool" where
  "ready s a = (case rt_events s a of None \<Rightarrow> False | Some ev \<Rightarrow> ev_ready ev)"

definition type_of :: "rt \<Rightarrow> nat \<Rightarrow> command_type" where
  "type_of s a = (case rt_events s a of None \<Rightarrow> CL_COMMAND_USER | Some ev \<Rightarrow> ev_type ev)"

lemmas view_defs = live_def waits_def notifs_def stat_def refs_def queue_of_def ready_def type_of_def

text \<open>
  \<open>x\<close> holds the event being broadcast, whose dependants may still list it although it has completed;
  \<open>y\<close> the event under construction, not yet in its queue.
\<close>

definition deps_inv :: "nat set \<Rightarrow> rt \<Rightarrow> bool" where
  "deps_inv x s \<longleftrightarrow>
     (\<forall>a. distinct (waits s a) \<and> distinct (notifs s a)) \<and>
     (\<forall>a n. n \<in> set (waits s a) \<longleftrightarrow> a \<in> set (notifs s n)) \<and>
     (\<forall>a n. n \<in> set (waits s a) \<longrightarrow> live s n \<and> n < a \<and> (0 < stat s n \<or> n \<in> x))"

definition status_inv :: "nat option \<Rightarrow> rt \<Rightarrow> bool" where
  "status_inv y s \<longleftrightarrow> rt_next_id s \<le> 2 ^ 32 \<and>
     (\<forall>a. live s a \<longrightarrow> a < rt_next_id s \<and> 0 < refs s a \<and> (stat s a = 0 \<longrightarrow> finished_in (rt_log s) a)) \<and>
     (\<forall>a. live s a \<and> queue_of s a = None \<longrightarrow> stat s a \<in> {0, 2} \<and> waits s a = [] \<and> type_of s a = CL_COMMAND_USER) \<and>
     (\<forall>a q. queue_of s a = Some q \<longrightarrow> rt_queues s q \<noteq> None \<and> type_of s a \<noteq> CL_COMMAND_USER) \<and>
     (\<forall>a. queue_of s a \<noteq> None \<and> y \<noteq> Some a \<longrightarrow>
        ready s a \<and> stat s a \<in> {0, 1, 2, 3} \<and> (stat s a = 3 \<longleftrightarrow> waits s a \<noteq> [])) \<and>
     distinct (rt_work_queue s) \<and>
     (\<forall>a. a \<in> set (rt_work_queue s) \<longleftrightarrow> queue_of s a \<noteq> None \<and> y \<noteq> Some a \<and> stat s a = 2) \<and>
     (\<forall>e. y = Some e \<longrightarrow> queue_of s e \<noteq> None \<and> stat s e = 3 \<and> rt_next_id s = Suc e)"

definition cq_inv :: "nat option \<Rightarrow> rt \<Rightarrow> nat \<Rightarrow> queue \<Rightarrow> bool" where
  "cq_inv y s q cq \<longleftrightarrow>
     (\<forall>a. a \<in> set (cq_events cq) \<longleftrightarrow> queue_of s a = Some q \<and> y \<noteq> Some a \<and> 0 < stat s a) \<and>
     cq_command_count cq = int (length (cq_events cq)) \<and>
     sorted_wrt (<) (cq_events cq) \<and>
     (\<forall>b. cq_barrier cq = Some b \<longrightarrow> b \<in> set (cq_events cq)) \<and>
     (\<not> cq_out_of_order cq \<longrightarrow>
        cq_last_event cq = (if cq_events cq = [] then None else Some (last (cq_events cq))) \<and>
        (\<forall>us p a vs. cq_events cq = us @ p # a # vs \<longrightarrow> p \<in> set (waits s a)))"

definition queue_inv :: "nat option \<Rightarrow> rt \<Rightarrow> bool" where
  "queue_inv y s \<longleftrightarrow> (\<forall>q cq. rt_queues s q = Some cq \<longrightarrow> cq_inv y s q cq)"

definition barrier_inv :: "log_item list \<Rightarrow> nat \<Rightarrow> queue \<Rightarrow> bool" where
  "barrier_inv l q cq \<longleftrightarrow>
     (case barriers_in l q of
        [] \<Rightarrow> cq_barrier cq = None
      | b # _ \<Rightarrow> cq_barrier cq = Some b \<or> cq_barrier cq = None \<and> finished_in l b)"

text \<open>What must precede a command that has not started is finished, or still holds it back.\<close>

definition held_back :: "rt \<Rightarrow> nat \<Rightarrow> nat \<Rightarrow> nat \<Rightarrow> bool" where
  "held_back s q a b \<longleftrightarrow> finished_in (rt_log s) b \<or> b \<in> set (waits s a) \<or>
     (\<exists>cq. rt_queues s q = Some cq \<and> \<not> cq_out_of_order cq \<and> b < a \<and> b \<in> set (cq_events cq))"

definition log_inv :: "nat option \<Rightarrow> rt \<Rightarrow> bool" where
  "log_inv y s \<longleftrightarrow>
     ordered_log (rt_log s) \<and>
     (\<forall>q a. a \<in> set (enqueued_in (rt_log s) q) \<longrightarrow> a < rt_next_id s \<and>
        (\<exists>cq. rt_queues s q = Some cq \<and> (finished_in (rt_log s) a \<or> a \<in> set (cq_events cq)))) \<and>
     (\<forall>a q. queue_of s a = Some q \<and> y \<noteq> Some a \<and> 2 \<le> stat s a \<longrightarrow>
        (\<forall>b \<in> set (must_precede (rt_log s) a). held_back s q a b)) \<and>
     (\<forall>q cq. rt_queues s q = Some cq \<longrightarrow> barrier_inv (rt_log s) q cq) \<and>
     (\<forall>e q. y = Some e \<longrightarrow> (\<forall>a \<in> set (enqueued_in (rt_log s) q). a < e))"

definition ev_inv :: "nat set \<Rightarrow> nat option \<Rightarrow> rt \<Rightarrow> bool" where
  "ev_inv x y s \<longleftrightarrow> rt_locked s = {} \<and> deps_inv x s \<and> status_inv y s \<and> queue_inv y s \<and> log_inv y s"

section \<open>Views of updated states\<close>

definition put :: "nat \<Rightarrow> event \<Rightarrow> rt \<Rightarrow> rt" where
  "put e ev s = s\<lparr>rt_events := (rt_events s)(e \<mapsto> ev)\<rparr>"

definition get :: "rt \<Rightarrow> nat \<Rightarrow> event" where
  "get s e = the (rt_events s e)"

lemma view_frame [simp]:
  "live (rt_queues_update fq s) = live s" "live (rt_next_id_update fn s) = live s" "live (rt_work_queue_update fw s) = live s" "live (rt_locked_update fl s) = live s" "live (rt_cq_locked_update fc s) = live s" "live (rt_log_update fg s) = live s"
  "waits (rt_queues_update fq s) = waits s" "waits (rt_next_id_update fn s) = waits s" "waits (rt_work_queue_update fw s) = waits s" "waits (rt_locked_update fl s) = waits s" "waits (rt_cq_locked_update fc s) = waits s" "waits (rt_log_update fg s) = waits s"
  "notifs (rt_queues_update fq s) = notifs s" "notifs (rt_next_id_update fn s) = notifs s" "notifs (rt_work_queue_update fw s) = notifs s" "notifs (rt_locked_update fl s) = notifs s" "notifs (rt_cq_locked_update fc s) = notifs s" "notifs (rt_log_update fg s) = notifs s"
  "stat (rt_queues_update fq s) = stat s" "stat (rt_next_id_update fn s) = stat s" "stat (rt_work_queue_update fw s) = stat s" "stat (rt_locked_update fl s) = stat s" "stat (rt_cq_locked_update fc s) = stat s" "stat (rt_log_update fg s) = stat s"
  "refs (rt_queues_update fq s) = refs s" "refs (rt_next_id_update fn s) = refs s" "refs (rt_work_queue_update fw s) = refs s" "refs (rt_locked_update fl s) = refs s" "refs (rt_cq_locked_update fc s) = refs s" "refs (rt_log_update fg s) = refs s"
  "queue_of (rt_queues_update fq s) = queue_of s" "queue_of (rt_next_id_update fn s) = queue_of s" "queue_of (rt_work_queue_update fw s) = queue_of s" "queue_of (rt_locked_update fl s) = queue_of s" "queue_of (rt_cq_locked_update fc s) = queue_of s" "queue_of (rt_log_update fg s) = queue_of s"
  "ready (rt_queues_update fq s) = ready s" "ready (rt_next_id_update fn s) = ready s" "ready (rt_work_queue_update fw s) = ready s" "ready (rt_locked_update fl s) = ready s" "ready (rt_cq_locked_update fc s) = ready s" "ready (rt_log_update fg s) = ready s"
  "type_of (rt_queues_update fq s) = type_of s" "type_of (rt_next_id_update fn s) = type_of s" "type_of (rt_work_queue_update fw s) = type_of s" "type_of (rt_locked_update fl s) = type_of s" "type_of (rt_cq_locked_update fc s) = type_of s" "type_of (rt_log_update fg s) = type_of s"
  by (simp_all add: view_defs fun_eq_iff)

lemma view_put [simp]:
  "live (put e v s) = (live s)(e := True)"
  "waits (put e v s) = (waits s)(e := ev_wait_list v)"
  "notifs (put e v s) = (notifs s)(e := ev_notify_list v)"
  "stat (put e v s) = (stat s)(e := ev_status v)"
  "refs (put e v s) = (refs s)(e := ev_refcount v)"
  "queue_of (put e v s) = (queue_of s)(e := ev_queue v)"
  "ready (put e v s) = (ready s)(e := ev_ready v)"
  "type_of (put e v s) = (type_of s)(e := ev_type v)"
  by (simp_all add: view_defs put_def fun_eq_iff)

lemma put_frame [simp]:
  "rt_queues (put e v s) = rt_queues s"
  "rt_next_id (put e v s) = rt_next_id s"
  "rt_work_queue (put e v s) = rt_work_queue s"
  "rt_locked (put e v s) = rt_locked s"
  "rt_cq_locked (put e v s) = rt_cq_locked s"
  "rt_log (put e v s) = rt_log s"
  by (simp_all add: put_def)

lemma get_put [simp]: "get (put e v s) a = (if a = e then v else get s a)"
  by (simp add: get_def put_def)

lemma get_frame [simp]:
  "get (rt_queues_update fq s) = get s"
  "get (rt_next_id_update fn s) = get s"
  "get (rt_work_queue_update fw s) = get s"
  "get (rt_locked_update fl s) = get s"
  "get (rt_cq_locked_update fc s) = get s"
  "get (rt_log_update fg s) = get s"
  by (simp_all add: get_def fun_eq_iff)

lemma view_get:
  assumes "live s e"
  shows "ev_wait_list (get s e) = waits s e" and "ev_notify_list (get s e) = notifs s e" and "ev_status (get s e) = stat s e" and "ev_refcount (get s e) = refs s e" and "ev_queue (get s e) = queue_of s e" and "ev_ready (get s e) = ready s e" and "ev_type (get s e) = type_of s e"
  using assms by (auto simp: view_defs get_def)

lemma events_get: "live s e \<Longrightarrow> rt_events s e = Some (get s e)"
  by (auto simp: live_def get_def)

lemma not_live_views:
  assumes "\<not> live s e"
  shows "waits s e = []" "notifs s e = []" "stat s e = 0" "queue_of s e = None"
  using assms by (simp_all add: view_defs)

lemma queue_of_live: "queue_of s e = Some q \<Longrightarrow> live s e"
  by (auto simp: view_defs split: option.splits)

lemma notifs_live: "a \<in> set (notifs s e) \<Longrightarrow> live s e"
  by (cases "rt_events s e") (simp_all add: view_defs)

lemma waits_live: "a \<in> set (waits s e) \<Longrightarrow> live s e"
  by (cases "rt_events s e") (simp_all add: view_defs)

section \<open>Net effect of the basic operations\<close>

lemma update_event_put: "live s e \<Longrightarrow> update_event e f s = Some (put e (f (get s e)) s)"
  by (simp add: update_event_def events_get put_def)

lemma lock_event_eq:
  "live s e \<Longrightarrow> 0 < refs s e \<Longrightarrow> e \<notin> rt_locked s \<Longrightarrow>
   lock_event e s = Some (s\<lparr>rt_locked := insert e (rt_locked s)\<rparr>)"
  by (simp add: lock_event_def events_get view_get)

lemma unlock_event_eq:
  "live s e \<Longrightarrow> 0 \<le> refs s e \<Longrightarrow> e \<in> rt_locked s \<Longrightarrow>
   unlock_event e s = Some (s\<lparr>rt_locked := rt_locked s - {e}\<rparr>)"
  by (simp add: unlock_event_def events_get view_get)

lemma put_locked [simp]: "rt_locked_update fl (put e v s) = put e v (rt_locked_update fl s)"
  by (simp add: put_def)

lemma locked_id: "rt_locked s = {} \<Longrightarrow> s\<lparr>rt_locked := {}\<rparr> = s"
  by (cases s) simp

lemma put_get_id: "live s e \<Longrightarrow> put e (get s e) s = s"
  by (cases s) (auto simp: put_def get_def live_def)

lemma event_id_inj: "a \<noteq> b \<Longrightarrow> a < 2 ^ 32 \<Longrightarrow> b < 2 ^ 32 \<Longrightarrow> event_id a \<noteq> event_id b"
proof
  assume ne: "a \<noteq> b" and le: "a < 2 ^ 32" "b < 2 ^ 32" and eq: "event_id a = event_id b"
  have "(of_nat a :: 32 word) = of_nat b" using eq by (simp add: event_id_def)
  then have "unat (of_nat a :: 32 word) = unat (of_nat b :: 32 word)" by simp
  then show False using ne le by (simp add: unat_of_nat)
qed

lemma lock_inorder_eq:
  assumes "a \<noteq> b" "a < 2 ^ 32" "b < 2 ^ 32" "live s a" "live s b" "0 < refs s a" "0 < refs s b" "rt_locked s = {}"
  shows "pocl_lock_events_inorder a b s = Some (s\<lparr>rt_locked := {a, b}\<rparr>)"
  using assms(1,4-) event_id_inj [OF assms(1-3)] by (simp add: pocl_lock_events_inorder_def lock_event_eq insert_commute)

lemma unlock_inorder_eq:
  assumes "a \<noteq> b" "a < 2 ^ 32" "b < 2 ^ 32" "live s a" "live s b" "0 < refs s a" "0 < refs s b" "rt_locked s = {a, b}"
  shows "pocl_unlock_events_inorder a b s = Some (s\<lparr>rt_locked := {}\<rparr>)"
  using assms(1,4-) event_id_inj [OF assms(1-3)]
  by (cases "event_id a < event_id b") (simp_all add: pocl_unlock_events_inorder_def unlock_event_eq insert_Diff_if)

definition add_dep :: "nat \<Rightarrow> nat \<Rightarrow> rt \<Rightarrow> rt" where
  "add_dep w n s =
     put w ((get s w)\<lparr>ev_wait_list := n # waits s w\<rparr>)
       (put n ((get s n)\<lparr>ev_notify_list := w # notifs s n\<rparr>) s)"

lemma sync_eq:
  assumes "w \<noteq> n" "w < 2 ^ 32" "n < 2 ^ 32" "live s w" "live s n" "0 < refs s w" "0 < refs s n" "rt_locked s = {}"
  shows "pocl_create_event_sync w n s =
    Some (if n \<in> set (waits s w) \<or> stat s n = 0 then s else add_dep w n s)"
  using assms
  by (simp add: pocl_create_event_sync_def lock_inorder_eq unlock_inorder_eq update_event_put events_get
      view_get add_dep_def CL_COMPLETE_def locked_id)

lemma view_add_dep:
  assumes "live s w" "live s n" "w \<noteq> n"
  shows "live (add_dep w n s) = live s" "stat (add_dep w n s) = stat s" "refs (add_dep w n s) = refs s"
    "queue_of (add_dep w n s) = queue_of s" "ready (add_dep w n s) = ready s" "type_of (add_dep w n s) = type_of s"
    "waits (add_dep w n s) = (waits s)(w := n # waits s w)"
    "notifs (add_dep w n s) = (notifs s)(n := w # notifs s n)"
  using assms by (simp_all add: add_dep_def fun_eq_iff view_get)

lemma add_dep_frame [simp]:
  "rt_queues (add_dep w n s) = rt_queues s" "rt_next_id (add_dep w n s) = rt_next_id s"
  "rt_work_queue (add_dep w n s) = rt_work_queue s" "rt_locked (add_dep w n s) = rt_locked s"
  "rt_cq_locked (add_dep w n s) = rt_cq_locked s" "rt_log (add_dep w n s) = rt_log s"
  by (simp_all add: add_dep_def)

section \<open>Building the dependencies of a new command\<close>

lemma inv_parts:
  assumes "ev_inv x y s"
  shows "rt_locked s = {}" "deps_inv x s" "status_inv y s" "queue_inv y s" "log_inv y s"
  using assms by (simp_all add: ev_inv_def)

lemma deps_waits:
  assumes "deps_inv x s" and "n \<in> set (waits s a)"
  shows "live s n" "n < a" "0 < stat s n \<or> n \<in> x" "a \<in> set (notifs s n)" "live s a"
  using assms waits_live by (auto simp: deps_inv_def)

lemma deps_notifs:
  assumes "deps_inv x s" and "a \<in> set (notifs s n)"
  shows "n \<in> set (waits s a)"
  using assms by (auto simp: deps_inv_def)

lemma status_live:
  assumes "status_inv y s" and "live s a"
  shows "a < rt_next_id s" "0 < refs s a" "stat s a = 0 \<Longrightarrow> finished_in (rt_log s) a"
    "y \<noteq> Some a \<Longrightarrow> stat s a \<in> {0, 1, 2, 3}"
  using assms by (cases "queue_of s a"; auto simp: status_inv_def)+

lemma status_bound:
  assumes "status_inv y s" and "live s a"
  shows "a < 2 ^ 32"
proof -
  have "rt_next_id s \<le> 2 ^ 32" using assms(1) unfolding status_inv_def by blast
  with status_live(1) [OF assms] show ?thesis by (rule less_le_trans)
qed

lemma status_cmd:
  assumes "status_inv y s" and "queue_of s a = Some q" and "y \<noteq> Some a"
  shows "ready s a" "stat s a \<in> {0, 1, 2, 3}" "stat s a = 3 \<longleftrightarrow> waits s a \<noteq> []"
    "a \<in> set (rt_work_queue s) \<longleftrightarrow> stat s a = 2"
  using assms by (auto simp: status_inv_def)

lemma status_queue:
  assumes "status_inv y s" and "queue_of s a = Some q"
  obtains cq where "rt_queues s q = Some cq" and "type_of s a \<noteq> CL_COMMAND_USER"
  using assms unfolding status_inv_def by (metis not_None_eq)

lemma status_user:
  assumes "status_inv y s" and "live s a" and "queue_of s a = None"
  shows "stat s a \<in> {0, 2}" "waits s a = []" "type_of s a = CL_COMMAND_USER" "a \<notin> set (rt_work_queue s)"
  using assms by (auto simp: status_inv_def)

lemma cq_events:
  assumes "cq_inv y s q cq"
  shows "a \<in> set (cq_events cq) \<longleftrightarrow> queue_of s a = Some q \<and> y \<noteq> Some a \<and> 0 < stat s a"
    "cq_command_count cq = int (length (cq_events cq))" "sorted_wrt (<) (cq_events cq)"
    "cq_barrier cq = Some b \<Longrightarrow> b \<in> set (cq_events cq)"
    "\<not> cq_out_of_order cq \<Longrightarrow>
       cq_last_event cq = (if cq_events cq = [] then None else Some (last (cq_events cq)))"
    "\<not> cq_out_of_order cq \<Longrightarrow> cq_events cq = us @ p # c # vs \<Longrightarrow> p \<in> set (waits s c)"
  using assms unfolding cq_inv_def by blast+

lemma cq_inv_cong:
  assumes "cq_inv y s q cq"
    and "\<And>a. queue_of s' a = Some q \<and> y' \<noteq> Some a \<and> 0 < stat s' a \<longleftrightarrow>
      queue_of s a = Some q \<and> y \<noteq> Some a \<and> 0 < stat s a"
    and "\<And>a p. a \<in> set (cq_events cq) \<Longrightarrow> p \<in> set (cq_events cq) \<Longrightarrow> p \<in> set (waits s a) \<Longrightarrow>
      p \<in> set (waits s' a)"
  shows "cq_inv y' s' q cq"
proof -
  have "p \<in> set (waits s' a)" if "\<not> cq_out_of_order cq" "cq_events cq = us @ p # a # vs" for us p a vs
    using assms(3) [of a p] cq_events(6) [OF assms(1) that] that(2) by simp
  then show ?thesis using assms(1) unfolding cq_inv_def assms(2) by blast
qed

lemma cq_inv_mono:
  assumes "cq_inv y s q cq" and "queue_of s' = queue_of s" "stat s' = stat s"
    and "\<And>a. set (waits s a) \<subseteq> set (waits s' a)"
  shows "cq_inv y s' q cq"
  using assms(1,4) unfolding cq_inv_def assms(2,3) by blast

lemma add_dep_deps:
  assumes d: "deps_inv {} s" and e: "live s e" and n: "live s n" "n < e" "0 < stat s n" "n \<notin> set (waits s e)"
  shows "deps_inv {} (add_dep e n s)"
proof -
  have "e \<notin> set (notifs s n)" using n(4) d by (simp add: deps_inv_def)
  then show ?thesis
    using assms by (auto simp: deps_inv_def view_add_dep)
qed

lemma add_dep_inv:
  assumes inv: "ev_inv {} (Some e) s" and n: "live s n" "n < e" "stat s n \<noteq> 0" "n \<notin> set (waits s e)"
  shows "ev_inv {} (Some e) (add_dep e n s)"
proof -
  note p = inv_parts [OF inv]
  have e: "live s e" "queue_of s e \<noteq> None" using p(3) queue_of_live by (auto simp: status_inv_def)
  have ne: "e \<noteq> n" using n(2) by simp
  note v = view_add_dep [OF e(1) n(1) ne]
  have "0 < stat s n" using status_live(4) [OF p(3) n(1)] n(3) ne by auto
  then have "deps_inv {} (add_dep e n s)" using add_dep_deps [OF p(2) e(1) n(1,2) _ n(4)] by blast
  moreover have "status_inv (Some e) (add_dep e n s)"
    using p(3) e(2) unfolding status_inv_def v by (auto simp del: not_None_eq)
  moreover have "queue_inv (Some e) (add_dep e n s)"
    unfolding queue_inv_def
    by (intro allI impI, rule cq_inv_mono [where s = s]) (use p(4) in \<open>auto simp: queue_inv_def v\<close>)
  moreover have "log_inv (Some e) (add_dep e n s)"
    using p(5) by (auto simp: log_inv_def held_back_def v)
  ultimately show ?thesis using p(1) by (simp add: ev_inv_def)
qed

text \<open>What the synchronisations of an event under construction change: only its own dependencies.\<close>

definition sync_frame :: "nat \<Rightarrow> rt \<Rightarrow> rt \<Rightarrow> bool" where
  "sync_frame e s s' \<longleftrightarrow>
     live s' = live s \<and> stat s' = stat s \<and> refs s' = refs s \<and> queue_of s' = queue_of s \<and>
     ready s' = ready s \<and> type_of s' = type_of s \<and> set (waits s e) \<subseteq> set (waits s' e) \<and>
     rt_queues s' = rt_queues s \<and> rt_next_id s' = rt_next_id s \<and> rt_work_queue s' = rt_work_queue s \<and>
     rt_cq_locked s' = rt_cq_locked s \<and> rt_log s' = rt_log s \<and>
     (\<forall>a. ev_has_wait_list (get s' a) = ev_has_wait_list (get s a))"

lemma sync_frame_refl [simp]: "sync_frame e s s"
  by (simp add: sync_frame_def)

lemma sync_frame_trans: "sync_frame e s s' \<Longrightarrow> sync_frame e s' s'' \<Longrightarrow> sync_frame e s s''"
  by (auto simp: sync_frame_def)

lemma sync_ok:
  assumes inv: "ev_inv {} (Some e) s" and n: "live s n" "n < e"
  shows "\<exists>s'. pocl_create_event_sync e n s = Some s' \<and> ev_inv {} (Some e) s' \<and> sync_frame e s s' \<and>
    (n \<in> set (waits s' e) \<or> stat s' n = 0)"
proof -
  note p = inv_parts [OF inv]
  have e: "live s e" using p(3) queue_of_live by (auto simp: status_inv_def)
  have ne: "e \<noteq> n" using n(2) by simp
  note eq = sync_eq [OF ne status_bound [OF p(3) e] status_bound [OF p(3) n(1)] e n(1) status_live(2) [OF p(3) e] status_live(2) [OF p(3) n(1)] p(1)]
  show ?thesis
  proof (cases "n \<in> set (waits s e) \<or> stat s n = 0")
    case True
    then show ?thesis using inv by (auto simp: eq)
  next
    case False
    then have "ev_inv {} (Some e) (add_dep e n s)" using add_dep_inv [OF inv n] by blast
    moreover have hw: "ev_has_wait_list (get (add_dep e n s) a) = ev_has_wait_list (get s a)" for a
      by (cases "a = e"; cases "a = n") (simp_all add: add_dep_def)
    have "sync_frame e s (add_dep e n s)"
      using hw by (auto simp: sync_frame_def view_add_dep [OF e n(1) ne])
    ultimately show ?thesis using False by (simp add: eq view_add_dep [OF e n(1) ne])
  qed
qed

lemma sync_all_ok:
  assumes "ev_inv {} (Some e) s" and "\<forall>n \<in> set ns. live s n \<and> n < e"
  shows "\<exists>s'. sync_all e ns s = Some s' \<and> ev_inv {} (Some e) s' \<and> sync_frame e s s' \<and>
    (\<forall>n \<in> set ns. n \<in> set (waits s' e) \<or> stat s' n = 0)"
  using assms
proof (induction ns arbitrary: s)
  case (Cons n ns)
  obtain s1 where s1: "pocl_create_event_sync e n s = Some s1" "ev_inv {} (Some e) s1" "sync_frame e s s1"
    "n \<in> set (waits s1 e) \<or> stat s1 n = 0"
    using sync_ok [OF Cons.prems(1)] Cons.prems(2) by auto
  obtain s2 where s2: "sync_all e ns s1 = Some s2" "ev_inv {} (Some e) s2" "sync_frame e s1 s2"
    "\<forall>n \<in> set ns. n \<in> set (waits s2 e) \<or> stat s2 n = 0"
    using Cons.IH [OF s1(2)] Cons.prems(2) s1(3) by (auto simp: sync_frame_def)
  have "n \<in> set (waits s2 e) \<or> stat s2 n = 0" using s1(4) s2(3) by (auto simp: sync_frame_def)
  then show ?case using s1(1) s2 sync_frame_trans [OF s1(3) s2(3)] by auto
qed auto

section \<open>Enqueueing a command\<close>

lemma ev_inv_cq_locked [simp]: "ev_inv x y (s\<lparr>rt_cq_locked := L\<rparr>) = ev_inv x y s"
  by (simp add: ev_inv_def deps_inv_def status_inv_def queue_inv_def cq_inv_def log_inv_def held_back_def)

lemma sync_frame_cq_locked:
  "sync_frame e (s\<lparr>rt_cq_locked := L\<rparr>) s' \<Longrightarrow> rt_cq_locked s = L' \<Longrightarrow> sync_frame e s (s'\<lparr>rt_cq_locked := L'\<rparr>)"
  by (simp add: sync_frame_def)

lemma created_inv:
  assumes inv: "ev_inv {} None s" and few: "rt_next_id s < 2 ^ 32" and q: "rt_queues s q \<noteq> None" and ty: "ty \<noteq> CL_COMMAND_USER" and r: "0 < r"
  shows "ev_inv {} (Some (rt_next_id s)) (put (rt_next_id s)
    \<lparr>ev_queue = Some q, ev_type = ty, ev_status = CL_QUEUED, ev_refcount = r,
     ev_wait_list = [], ev_notify_list = [], ev_ready = False, ev_has_wait_list = hw\<rparr>
    (s\<lparr>rt_next_id := rt_next_id s + 1\<rparr>))"
    (is "ev_inv {} (Some ?e) ?s")
proof -
  note p = inv_parts [OF inv]
  have e: "\<not> live s ?e" using status_live(1) [OF p(3)] by blast
  note none = not_live_views [OF e]
  have w: "?e \<notin> set (waits s a)" "?e \<notin> set (notifs s a)" for a
    using deps_waits(1) [OF p(2)] deps_waits(5) [OF p(2) deps_notifs [OF p(2)]] e by blast+
  have "deps_inv {} ?s"
    using p(2) e w not_live_views [OF e] unfolding deps_inv_def view_put view_frame
    by (auto simp: fun_upd_def)
  moreover have "status_inv (Some ?e) ?s"
    using p(3) q ty r e few not_live_views [OF e] less_SucI
    unfolding status_inv_def view_put view_frame put_frame
    by (auto simp: fun_upd_def CL_QUEUED_def simp del: not_None_eq) 
  moreover have "cq_inv (Some ?e) ?s q' cq" if "rt_queues s q' = Some cq" for q' cq
    by (rule cq_inv_cong [where y = None and s = s]) (use p(4) that none in \<open>auto simp: queue_inv_def CL_QUEUED_def\<close>)
  then have "queue_inv (Some ?e) ?s" by (simp add: queue_inv_def)
  moreover have "log_inv (Some ?e) ?s"
    using p(5) not_live_views [OF e] unfolding log_inv_def held_back_def view_put view_frame put_frame
    by (auto simp: fun_upd_def CL_QUEUED_def intro: less_SucI)
  ultimately show ?thesis using p(1) by (simp add: ev_inv_def)
qed

text \<open>Synchronising does not touch the queues, so it commutes with an update of them.\<close>

lemma update_event_queues:
  "update_event e f (s\<lparr>rt_queues := Q\<rparr>) = map_option (\<lambda>s. s\<lparr>rt_queues := Q\<rparr>) (update_event e f s)"
  by (simp add: update_event_def split: bind_split)

lemma lock_inorder_queues:
  "pocl_lock_events_inorder a b (s\<lparr>rt_queues := Q\<rparr>) =
     map_option (\<lambda>s. s\<lparr>rt_queues := Q\<rparr>) (pocl_lock_events_inorder a b s)"
  by (auto simp: pocl_lock_events_inorder_def lock_event_def split: bind_split)

lemma unlock_inorder_queues:
  "pocl_unlock_events_inorder a b (s\<lparr>rt_queues := Q\<rparr>) =
     map_option (\<lambda>s. s\<lparr>rt_queues := Q\<rparr>) (pocl_unlock_events_inorder a b s)"
  by (auto simp: pocl_unlock_events_inorder_def unlock_event_def split: bind_split)

lemma sync_queues:
  "pocl_create_event_sync w n (s\<lparr>rt_queues := Q\<rparr>) =
     map_option (\<lambda>s. s\<lparr>rt_queues := Q\<rparr>) (pocl_create_event_sync w n s)"
  unfolding pocl_create_event_sync_def lock_inorder_queues
  by (auto simp: unlock_inorder_queues update_event_queues split: bind_split)

lemma sync_all_queues:
  "sync_all w ns (s\<lparr>rt_queues := Q\<rparr>) = map_option (\<lambda>s. s\<lparr>rt_queues := Q\<rparr>) (sync_all w ns s)"
  by (induction ns arbitrary: s) (auto simp: sync_queues split: bind_split)

definition enq_queue :: "command_type \<Rightarrow> nat \<Rightarrow> queue \<Rightarrow> queue" where
  "enq_queue ty e cq = cq\<lparr>cq_command_count := cq_command_count cq + 1,
     cq_barrier := (if ty = CL_COMMAND_BARRIER then Some e else cq_barrier cq),
     cq_events := cq_events cq @ [e], cq_last_event := Some e\<rparr>"

text \<open>The state after the command has entered its queue and was submitted if it waits for nothing.\<close>

definition enq_final :: "nat \<Rightarrow> nat \<Rightarrow> queue \<Rightarrow> rt \<Rightarrow> rt" where
  "enq_final q e cq s =
     (put e ((get s e)\<lparr>ev_ready := True, ev_status := (if waits s e = [] then CL_SUBMITTED else CL_QUEUED)\<rparr>) s)
       \<lparr>rt_queues := (rt_queues s)(q \<mapsto> enq_queue (type_of s e) e cq),
        rt_work_queue := rt_work_queue s @ (if waits s e = [] then [e] else [])\<rparr>"

definition enq_deps :: "command_type \<Rightarrow> bool \<Rightarrow> queue \<Rightarrow> nat list" where
  "enq_deps ty hw cq =
     (if (ty = CL_COMMAND_BARRIER \<or> ty = CL_COMMAND_MARKER) \<and> \<not> hw then cq_events cq else []) @
     (if ty = CL_COMMAND_BARRIER then [] else case cq_barrier cq of None \<Rightarrow> [] | Some b \<Rightarrow> [b])"

lemma sync_all_append: "sync_all e (ms @ ns) s = sync_all e ms s \<bind> sync_all e ns"
  by (induction ms arbitrary: s) (auto split: bind_split)

lemma put_put [simp]: "put e v (put e v' s) = put e v s"
  by (simp add: put_def)

lemma put_queues [simp]:
  "rt_queues_update fq (put e v s) = put e v (rt_queues_update fq s)"
  "rt_work_queue_update fw (put e v s) = put e v (rt_work_queue_update fw s)"
  "rt_cq_locked_update fc (put e v s) = put e v (rt_cq_locked_update fc s)"
  by (simp_all add: put_def)

lemma live_events [simp]: "rt_events (put e v s) e = Some v"
  by (simp add: put_def)

text \<open>The last part of \<open>pocl_command_enqueue\<close>: status update and submission with the event locked.\<close>

lemma submit_eq:
  assumes e: "live s e" "0 < refs s e" "rt_locked s = {}"
  shows "(lock_event e s \<bind> (\<lambda>s. pocl_update_event_queued e s \<bind> (\<lambda>s. pocl_pthread_submit e s))) =
    Some ((put e ((get s e)\<lparr>ev_ready := True, ev_status := (if waits s e = [] then CL_SUBMITTED else CL_QUEUED)\<rparr>) s)
      \<lparr>rt_work_queue := rt_work_queue s @ (if waits s e = [] then [e] else [])\<rparr>)"
proof -
  have swap: "(get s e)\<lparr>ev_status := CL_QUEUED, ev_ready := True\<rparr> = (get s e)\<lparr>ev_ready := True, ev_status := CL_QUEUED\<rparr>"
    by (cases "get s e") simp
  show ?thesis
    using e
    by (cases "waits s e = []")
      (simp_all add: lock_event_eq pocl_update_event_queued_def update_event_put pocl_pthread_submit_def
        pocl_command_is_ready_def view_get pocl_update_event_submitted_def pthread_scheduler_push_def
        unlock_event_eq locked_id swap)
qed

lemma queues_locked_commute:
  "s\<lparr>rt_queues := Q, rt_cq_locked := L\<rparr> = s\<lparr>rt_cq_locked := L, rt_queues := Q\<rparr>"
  by (cases s) simp

lemma enqueue_syncs:
  assumes inv: "ev_inv {} (Some e) s" and q: "queue_of s e = Some q" "rt_queues s q = Some cq"
  shows "\<exists>s'. sync_all e (enq_deps ty hw cq) s = Some s' \<and> ev_inv {} (Some e) s' \<and> sync_frame e s s' \<and>
    (\<forall>n \<in> set (enq_deps ty hw cq). n \<in> set (waits s' e) \<or> stat s' n = 0)"
proof (rule sync_all_ok [OF inv])
  note p = inv_parts [OF inv]
  have cq: "cq_inv (Some e) s q cq" using p(4) q(2) by (simp add: queue_inv_def)
  have "live s a \<and> a < e" if "a \<in> set (cq_events cq)" for a
  proof -
    have a: "queue_of s a = Some q" "a \<noteq> e" using cq_events(1) [OF cq] that by auto
    then have "a < Suc e" using p(3) status_live(1) [OF p(3) queue_of_live [OF a(1)]] by (simp add: status_inv_def)
    then show ?thesis using a queue_of_live [OF a(1)] by simp
  qed
  then show "\<forall>n \<in> set (enq_deps ty hw cq). live s n \<and> n < e"
    using cq_events(4) [OF cq] by (auto simp: enq_deps_def split: if_splits option.splits)
qed

lemma command_enqueue_eq:
  assumes inv: "ev_inv {} (Some e) s" and q: "queue_of s e = Some q" "rt_queues s q = Some cq"
    and unlocked: "rt_cq_locked s = {}"
  shows "\<exists>s'. pocl_command_enqueue q e s = Some (enq_final q e cq s') \<and> ev_inv {} (Some e) s' \<and> sync_frame e s s' \<and>
    (\<forall>n \<in> set (enq_deps (type_of s e) (ev_has_wait_list (get s e)) cq). n \<in> set (waits s' e) \<or> stat s' n = 0)"
proof -
  let ?ty = "type_of s e" and ?hw = "ev_has_wait_list (get s e)"
  note p = inv_parts [OF inv]
  have e: "live s e" "0 < refs s e" "stat s e = CL_QUEUED"
    using p(3) queue_of_live [OF q(1)] status_live(2) [OF p(3)] by (auto simp: status_inv_def CL_QUEUED_def)
  let ?s1 = "s\<lparr>rt_cq_locked := {q}\<rparr>" and ?Q1 = "(rt_queues s)(q \<mapsto> cq\<lparr>cq_command_count := cq_command_count cq + 1\<rparr>)"
  obtain s2 where s2: "sync_all e (enq_deps ?ty ?hw cq) ?s1 = Some s2" "ev_inv {} (Some e) s2" "sync_frame e ?s1 s2"
    "\<forall>n \<in> set (enq_deps ?ty ?hw cq). n \<in> set (waits s2 e) \<or> stat s2 n = 0"
    using enqueue_syncs [of e ?s1 q cq ?ty ?hw] inv q by auto
  define s' where "s' = s2\<lparr>rt_cq_locked := {}\<rparr>"
  have fr: "sync_frame e s s'" unfolding s'_def by (rule sync_frame_cq_locked [OF s2(3) unlocked])
  have f2: "rt_queues s2 = rt_queues s" "rt_cq_locked s2 = {q}" "rt_locked s2 = {}" "live s2 e" "0 < refs s2 e"
    "type_of s2 e = ?ty"
    using s2(3) e inv_parts(1) [OF s2(2)] by (simp_all add: sync_frame_def)
  have check: "(lock_event e s \<bind> (\<lambda>s. rt_events s e \<bind> (\<lambda>ev.
      (if ev_status ev = CL_QUEUED \<and> ev_queue ev = Some q then unlock_event e s else None) \<bind> f ev))) =
      f (get s e) s" for f :: "event \<Rightarrow> rt \<Rightarrow> rt option"
    using e p(1) q(1) by (simp add: lock_event_eq unlock_event_eq events_get view_get locked_id)
  have id: "cq_barrier cq = b \<Longrightarrow> cq\<lparr>cq_command_count := c, cq_barrier := b\<rparr> = cq\<lparr>cq_command_count := c\<rparr>" for b c
    by (cases cq) simp
  have syncs: "((if (?ty = CL_COMMAND_BARRIER \<or> ?ty = CL_COMMAND_MARKER) \<and> \<not> ?hw
        then sync_all e (cq_events cq) (?s1\<lparr>rt_queues := ?Q1\<rparr>) else Some (?s1\<lparr>rt_queues := ?Q1\<rparr>)) \<bind>
      (\<lambda>s. (if ?ty = CL_COMMAND_BARRIER then update_queue q (\<lambda>cq. cq\<lparr>cq_barrier := Some e\<rparr>) s
            else case cq_barrier cq of None \<Rightarrow> Some s | Some b \<Rightarrow> pocl_create_event_sync e b s) \<bind> f)) =
      f (s2\<lparr>rt_queues := (rt_queues s)(q \<mapsto> cq\<lparr>cq_command_count := cq_command_count cq + 1,
         cq_barrier := (if ?ty = CL_COMMAND_BARRIER then Some e else cq_barrier cq)\<rparr>)\<rparr>)" for f
    using s2(1) unfolding enq_deps_def sync_all_append
    by (cases "cq_barrier cq")
      (auto simp: sync_all_queues sync_queues update_queue_def bind_eq_Some_conv f2 id split: if_splits)
  let ?Q3 = "(rt_queues s)(q \<mapsto> enq_queue ?ty e cq)"
  have enter: "(update_queue q (\<lambda>cq. cq\<lparr>cq_events := cq_events cq @ [e], cq_last_event := Some e\<rparr>)
        (s2\<lparr>rt_queues := (rt_queues s)(q \<mapsto> cq\<lparr>cq_command_count := cq_command_count cq + 1,
           cq_barrier := (if ?ty = CL_COMMAND_BARRIER then Some e else cq_barrier cq)\<rparr>)\<rparr>) \<bind>
      (\<lambda>s. unlock_queue q s \<bind> f)) = f (s'\<lparr>rt_queues := ?Q3\<rparr>)" for f
    by (simp add: update_queue_def unlock_queue_def enq_queue_def f2 s'_def queues_locked_commute)
  have sub: "(lock_event e (s'\<lparr>rt_queues := ?Q3\<rparr>) \<bind> (\<lambda>s. pocl_update_event_queued e s \<bind>
      (\<lambda>s. pocl_pthread_submit e s))) = Some (enq_final q e cq s')"
    using f2 by (subst submit_eq) (simp_all add: s'_def enq_final_def)
  have l1: "lock_queue q s = Some ?s1"
    and l2: "update_queue q (\<lambda>cq. cq\<lparr>cq_command_count := cq_command_count cq + 1\<rparr>) ?s1 = Some (?s1\<lparr>rt_queues := ?Q1\<rparr>)"
    and l3: "rt_queues (?s1\<lparr>rt_queues := ?Q1\<rparr>) q = Some (cq\<lparr>cq_command_count := cq_command_count cq + 1\<rparr>)"
    and t: "ev_type (get s e) = ?ty"
    using q(2) unlocked e(1) by (simp_all add: lock_queue_def update_queue_def view_get)
  have sel: "cq_events (cq\<lparr>cq_command_count := c\<rparr>) = cq_events cq" "cq_barrier (cq\<lparr>cq_command_count := c\<rparr>) = cq_barrier cq" for c
    by simp_all
  have "pocl_command_enqueue q e s = Some (enq_final q e cq s')"
    unfolding pocl_command_enqueue_def check l1 l2 l3 bind.bind_lunit t sel syncs enter sub ..
  moreover have "ev_inv {} (Some e) s'" using s2(2) by (simp add: s'_def)
  moreover have "\<forall>n \<in> set (enq_deps ?ty ?hw cq). n \<in> set (waits s' e) \<or> stat s' n = 0"
    using s2(4) by (simp add: s'_def)
  ultimately show ?thesis using fr by blast
qed

lemma add_log_frame [simp]:
  "rt_queues (add_log i s) = rt_queues s" "rt_next_id (add_log i s) = rt_next_id s"
  "rt_work_queue (add_log i s) = rt_work_queue s" "rt_locked (add_log i s) = rt_locked s"
  "rt_cq_locked (add_log i s) = rt_cq_locked s" "rt_log (add_log i s) = i # rt_log s"
  by (simp_all add: add_log_def)

lemma add_log_views [simp]:
  "live (add_log i s) = live s" "waits (add_log i s) = waits s" "notifs (add_log i s) = notifs s"
  "stat (add_log i s) = stat s" "refs (add_log i s) = refs s" "queue_of (add_log i s) = queue_of s"
  "ready (add_log i s) = ready s" "type_of (add_log i s) = type_of s"
  by (simp_all add: add_log_def)

lemma view_enq_final:
  assumes "live s e"
  shows "live (enq_final q e cq s) = live s" "refs (enq_final q e cq s) = refs s"
    "queue_of (enq_final q e cq s) = queue_of s" "type_of (enq_final q e cq s) = type_of s"
    "waits (enq_final q e cq s) = waits s" "notifs (enq_final q e cq s) = notifs s"
    "stat (enq_final q e cq s) = (stat s)(e := (if waits s e = [] then 2 else 3))"
    "ready (enq_final q e cq s) = (ready s)(e := True)"
    "rt_queues (enq_final q e cq s) = (rt_queues s)(q \<mapsto> enq_queue (type_of s e) e cq)"
    "rt_work_queue (enq_final q e cq s) = rt_work_queue s @ (if waits s e = [] then [e] else [])"
    "rt_next_id (enq_final q e cq s) = rt_next_id s" "rt_locked (enq_final q e cq s) = rt_locked s"
    "rt_cq_locked (enq_final q e cq s) = rt_cq_locked s" "rt_log (enq_final q e cq s) = rt_log s"
  using assms
  by (simp_all add: enq_final_def view_get [OF assms] fun_upd_idem status_defs del: not_None_eq)

lemma barriers_enqueued: "set (barriers_in l q) \<subseteq> set (enqueued_in l q)"
  by (induction l q rule: barriers_in.induct) auto

lemma enq_of_None: "(\<And>q. a \<notin> set (enqueued_in l q)) \<Longrightarrow> enq_of l a = None"
proof (induction l a rule: enq_of.induct)
  case (2 b q ooo ty hw ws l e)
  have "e \<notin> set (enqueued_in l q')" for q' using 2(2) [of q'] by (auto split: if_splits)
  moreover have "b \<noteq> e" using 2(2) [of q] by auto
  ultimately show ?case using 2(1) by simp
qed auto

lemma enq_of_enqueued: "enq_of l a = Some (q, r) \<Longrightarrow> a \<in> set (enqueued_in l q)"
  by (induction l a rule: enq_of.induct) (auto split: if_splits)

text \<open>A later command does not change what must precede an earlier one.\<close>

lemma must_precede_later:
  "a < e \<Longrightarrow> must_precede (Enqueued e q ooo ty hw ws # l) a = must_precede l a"
  by (auto simp: must_precede_def split: option.split prod.split)

lemma must_precede_cons [simp]:
  "must_precede (Started e # l) a = must_precede l a"
  "must_precede (Finished e st # l) a = must_precede l a"
  by (auto simp: must_precede_def split: option.split prod.split)

lemma held_back_cong:
  assumes "held_back s q a b"
    and "\<And>b. finished_in (rt_log s) b \<Longrightarrow> finished_in (rt_log s') b"
    and "b \<in> set (waits s a) \<Longrightarrow> b \<in> set (waits s' a) \<or> finished_in (rt_log s') b"
    and "\<And>cq. rt_queues s q = Some cq \<Longrightarrow> \<exists>cq'. rt_queues s' q = Some cq' \<and>
      cq_out_of_order cq' = cq_out_of_order cq \<and>
      (\<forall>b \<in> set (cq_events cq). b \<in> set (cq_events cq') \<or> finished_in (rt_log s') b)"
  shows "held_back s' q a b"
  using assms unfolding held_back_def by blast

lemma enq_queue_sel [simp]:
  "cq_events (enq_queue ty e cq) = cq_events cq @ [e]" "cq_out_of_order (enq_queue ty e cq) = cq_out_of_order cq"
  "cq_last_event (enq_queue ty e cq) = Some e" "cq_command_count (enq_queue ty e cq) = cq_command_count cq + 1"
  "cq_barrier (enq_queue ty e cq) = (if ty = CL_COMMAND_BARRIER then Some e else cq_barrier cq)"
  by (simp_all add: enq_queue_def)

lemma under_construction:
  assumes "status_inv (Some e) s"
  shows "live s e" "stat s e = 3" "rt_next_id s = Suc e" "e \<notin> set (rt_work_queue s)" "0 < refs s e"
proof -
  show "live s e" using assms queue_of_live by (auto simp: status_inv_def)
  then show "0 < refs s e" by (rule status_live(2) [OF assms])
  show "stat s e = 3" "rt_next_id s = Suc e" "e \<notin> set (rt_work_queue s)"
    using assms by (auto simp: status_inv_def)
qed

lemma enq_final_status:
  assumes st: "status_inv (Some e) s" and q: "queue_of s e = Some q" "rt_queues s q = Some cq"
  shows "status_inv None (add_log (Enqueued e q' ooo ty hw ws) (enq_final q e cq s))"
proof -
  note uc = under_construction [OF st]
  have wq: "a \<in> set (rt_work_queue s) \<longleftrightarrow> queue_of s a \<noteq> None \<and> e \<noteq> a \<and> stat s a = 2" for a
    using st by (simp add: status_inv_def)
  show ?thesis
    using st uc q(1) wq unfolding status_inv_def view_enq_final [OF uc(1)] add_log_views add_log_frame
    by (intro conjI allI impI) (auto simp del: not_None_eq split: if_splits)
qed

lemma enq_final_queue:
  assumes inv: "ev_inv {} (Some e) s" and q: "queue_of s e = Some q" "rt_queues s q = Some cq"
    and last: "\<And>l. \<not> cq_out_of_order cq \<Longrightarrow> cq_last_event cq = Some l \<Longrightarrow> l \<in> set (waits s e) \<or> stat s l = 0"
  shows "queue_inv None (add_log (Enqueued e q' ooo ty hw ws) (enq_final q e cq s))"
proof -
  note p = inv_parts [OF inv] and uc = under_construction [OF inv_parts(3) [OF inv]]
  let ?t = "add_log (Enqueued e q' ooo ty hw ws) (enq_final q e cq s)"
  have ci: "cq_inv (Some e) s q cq" using p(4) q(2) by (simp add: queue_inv_def)
  have lt: "a < e" if "a \<in> set (cq_events cq)" for a
  proof -
    have a: "queue_of s a = Some q" "a \<noteq> e" using cq_events(1) [OF ci] that by auto
    then show ?thesis using status_live(1) [OF p(3) queue_of_live [OF a(1)]] uc(3) by simp
  qed
  have chain: "p \<in> set (waits s a)"
    if "\<not> cq_out_of_order cq" "cq_events cq @ [e] = us @ p # a # vs" for us p a vs
  proof (cases vs rule: rev_cases)
    case Nil
    then have ev: "cq_events cq = us @ [p]" and a: "a = e" using that(2) by auto
    have "cq_last_event cq = Some p" using cq_events(5) [OF ci that(1)] by (simp add: ev)
    moreover have "0 < stat s p" using cq_events(1) [OF ci, of p] by (simp add: ev)
    ultimately show ?thesis using last that(1) a by fastforce
  next
    case (snoc vs' z)
    then have "cq_events cq = us @ p # a # vs'" using that(2) by simp
    then show ?thesis by (rule cq_events(6) [OF ci that(1)])
  qed
  have "cq_inv None ?t q (enq_queue (type_of s e) e cq)"
    unfolding cq_inv_def add_log_views view_enq_final [OF uc(1)] enq_queue_sel
    using cq_events(1-3) [OF ci] cq_events(4) [OF ci] lt chain q(1) uc(2)
    by (auto simp: sorted_wrt_append)
  moreover have "cq_inv None ?t q'' cq''" if "q'' \<noteq> q" "rt_queues s q'' = Some cq''" for q'' cq''
  proof (rule cq_inv_cong [where s = s and y = "Some e"])
    show "cq_inv (Some e) s q'' cq''" using p(4) that(2) by (simp add: queue_inv_def)
  qed (use that(1) q(1) uc(1) in \<open>auto simp: view_enq_final\<close>)
  ultimately show ?thesis by (simp add: queue_inv_def view_enq_final [OF uc(1)])
qed

lemma log_facts:
  assumes "log_inv y s"
  shows "ordered_log (rt_log s)"
    "a \<in> set (enqueued_in (rt_log s) q) \<Longrightarrow> a < rt_next_id s"
    "a \<in> set (enqueued_in (rt_log s) q) \<Longrightarrow> rt_queues s q = Some cq \<Longrightarrow>
       finished_in (rt_log s) a \<or> a \<in> set (cq_events cq)"
    "a \<in> set (enqueued_in (rt_log s) q) \<Longrightarrow> rt_queues s q \<noteq> None"
    "queue_of s a = Some q \<Longrightarrow> y \<noteq> Some a \<Longrightarrow> 2 \<le> stat s a \<Longrightarrow> b \<in> set (must_precede (rt_log s) a) \<Longrightarrow>
       held_back s q a b"
    "rt_queues s q = Some cq \<Longrightarrow> barrier_inv (rt_log s) q cq"
    "y = Some e \<Longrightarrow> a \<in> set (enqueued_in (rt_log s) q) \<Longrightarrow> a < e"
  using assms unfolding log_inv_def by (blast | fastforce)+

lemma barrier_inv_iff:
  "barrier_inv l q cq \<longleftrightarrow> (barriers_in l q = [] \<longrightarrow> cq_barrier cq = None) \<and>
     (\<forall>b bs. barriers_in l q = b # bs \<longrightarrow> cq_barrier cq = Some b \<or> cq_barrier cq = None \<and> finished_in l b)"
  by (auto simp: barrier_inv_def split: list.split)

text \<open>Steps that start nothing keep the log part of the invariant.\<close>

lemma log_inv_step:
  assumes inv: "log_inv None s" and "rt_queues s' = rt_queues s" and "rt_next_id s \<le> rt_next_id s'"
    and log: "rt_log s' = rt_log s \<or> rt_log s' = Finished e st # rt_log s"
    and kept: "\<And>a q. queue_of s' a = Some q \<Longrightarrow> 2 \<le> stat s' a \<Longrightarrow> queue_of s a = Some q \<and> 2 \<le> stat s a"
    and waits: "\<And>a q b. queue_of s' a = Some q \<Longrightarrow> b \<in> set (waits s a) \<Longrightarrow>
      b \<in> set (waits s' a) \<or> finished_in (rt_log s') b"
  shows "log_inv None s'"
proof -
  have fin: "finished_in (rt_log s') b" if "finished_in (rt_log s) b" for b using log that by auto
  have same: "enqueued_in (rt_log s') = enqueued_in (rt_log s)" "barriers_in (rt_log s') = barriers_in (rt_log s)"
    "must_precede (rt_log s') = must_precede (rt_log s)" "ordered_log (rt_log s') = ordered_log (rt_log s)"
    using log by (auto simp: fun_eq_iff)
  have "held_back s' q a b"
    if a: "queue_of s' a = Some q" "2 \<le> stat s' a" and b: "b \<in> set (must_precede (rt_log s) a)" for a q b
  proof -
    have "held_back s q a b" using log_facts(5) [OF inv, of a q b] kept [OF a] b by blast
    then show ?thesis using fin waits [OF a(1), of b] by (rule held_back_cong) (auto simp: assms(2))
  qed
  moreover have "a < rt_next_id s' \<and> (\<exists>cq. rt_queues s' q = Some cq \<and> (finished_in (rt_log s') a \<or> a \<in> set (cq_events cq)))"
    if "a \<in> set (enqueued_in (rt_log s) q)" for a q
    using that log_facts(2) [OF inv that] log_facts(3,4) [OF inv that] fin assms(2,3) by fastforce
  moreover have "barrier_inv (rt_log s') q cq" if "rt_queues s q = Some cq" for q cq
    using log_facts(6) [OF inv that] fin unfolding barrier_inv_iff same by blast
  ultimately show ?thesis
    using log_facts(1) [OF inv] unfolding log_inv_def same assms(2) by blast
qed

lemma must_precede_new:
  assumes "b \<in> set (must_precede (Enqueued e q ooo ty hw ws # l) e)"
    and lt: "\<And>a. a \<in> set (enqueued_in l q) \<Longrightarrow> a < e"
  shows "b \<in> set ws \<or> waits_for_all ooo ty hw \<and> b < e \<and> b \<in> set (enqueued_in l q) \<or>
    ty \<noteq> CL_COMMAND_BARRIER \<and> (\<exists>bs. barriers_in l q = b # bs)"
proof -
  have "filter (\<lambda>b. b < e) (barriers_in l q) = barriers_in l q"
    using lt barriers_enqueued by (intro filter_True) blast
  then show ?thesis using assms(1)
    by (cases "barriers_in l q") (auto simp: must_precede_def split: if_splits)
qed

lemma enq_final_log:
  assumes inv: "ev_inv {} (Some e) s" and q: "queue_of s e = Some q" "rt_queues s q = Some cq"
    and deps: "\<And>n. n \<in> set (enq_deps (type_of s e) hw cq) \<Longrightarrow> n \<in> set (waits s e) \<or> stat s n = 0"
    and ws: "\<And>n. n \<in> set ws \<Longrightarrow> live s n \<and> (n \<in> set (waits s e) \<or> stat s n = 0)"
  shows "log_inv None (add_log (Enqueued e q (cq_out_of_order cq) (type_of s e) hw ws) (enq_final q e cq s))"
proof -
  note p = inv_parts [OF inv] and uc = under_construction [OF inv_parts(3) [OF inv]]
  let ?i = "Enqueued e q (cq_out_of_order cq) (type_of s e) hw ws"
  let ?t = "add_log ?i (enq_final q e cq s)"
  note v = add_log_views add_log_frame view_enq_final [OF uc(1)]
  note lf = log_facts [OF p(5)]
  have ci: "cq_inv (Some e) s q cq" using p(4) q(2) by (simp add: queue_inv_def)
  have kept: "\<exists>cq'. rt_queues ?t q' = Some cq' \<and> cq_out_of_order cq' = cq_out_of_order cq'' \<and>
      (\<forall>b \<in> set (cq_events cq''). b \<in> set (cq_events cq'))" if "rt_queues s q' = Some cq''" for q' cq''
    using that q(2) by (auto simp: v)
  have old: "held_back ?t q' a b"
    if a: "queue_of s a = Some q'" "a \<noteq> e" "2 \<le> stat s a" and b: "b \<in> set (must_precede (rt_log ?t) a)" for a q' b
  proof -
    have "a < e" using status_live(1) [OF p(3) queue_of_live [OF a(1)]] uc(3) a(2) by simp
    then have "held_back s q' a b" using lf(5) [OF a(1) _ a(3)] a(2) b by (simp add: v must_precede_later)
    then show ?thesis
    proof (rule held_back_cong)
      fix cq''
      assume "rt_queues s q' = Some cq''"
      from kept [OF this] show "\<exists>cq'. rt_queues ?t q' = Some cq' \<and> cq_out_of_order cq' = cq_out_of_order cq'' \<and>
          (\<forall>b \<in> set (cq_events cq''). b \<in> set (cq_events cq') \<or> finished_in (rt_log ?t) b)"
        by blast
    qed (simp_all add: v)
  qed
  have new: "held_back ?t q e b" if b: "b \<in> set (must_precede (rt_log ?t) e)" for b
  proof -
    have lt: "a < e" if "a \<in> set (enqueued_in (rt_log s) q)" for a using lf(7) that by blast
    have unfinished: "b \<in> set (waits s e)" if "b \<in> set (enq_deps (type_of s e) hw cq)" "b \<in> set (cq_events cq)"
      using deps [OF that(1)] cq_events(1) [OF ci] that(2) by auto
    from must_precede_new [OF b [unfolded v] lt]
    consider (ws) "b \<in> set ws"
      | (all) "waits_for_all (cq_out_of_order cq) (type_of s e) hw" "b < e" "b \<in> set (enqueued_in (rt_log s) q)"
      | (barrier) bs where "type_of s e \<noteq> CL_COMMAND_BARRIER" "barriers_in (rt_log s) q = b # bs"
      by blast
    then show ?thesis
    proof cases
      case ws
      then show ?thesis using assms(5) [OF ws] status_live(3) [OF p(3)] by (auto simp: held_back_def v)
    next
      case all
      then consider "finished_in (rt_log s) b" | "b \<in> set (cq_events cq)" using lf(3) q(2) by blast
      then show ?thesis
      proof cases
        case 2
        then show ?thesis using all unfinished
          by (auto simp: held_back_def v waits_for_all_def enq_deps_def)
      qed (simp add: held_back_def v)
    next
      case barrier
      then have "cq_barrier cq = Some b \<or> finished_in (rt_log s) b"
        using lf(6) [OF q(2)] by (auto simp: barrier_inv_iff)
      then show ?thesis
      proof
        assume "cq_barrier cq = Some b"
        then show ?thesis using barrier(1) unfinished cq_events(4) [OF ci]
          by (simp add: held_back_def v enq_deps_def)
      qed (simp add: held_back_def v)
    qed
  qed
  show ?thesis
    unfolding log_inv_def
  proof (intro conjI allI impI ballI)
    show "ordered_log (rt_log ?t)" using lf(1) by (simp add: v)
  next
    fix q' a
    assume "a \<in> set (enqueued_in (rt_log ?t) q')"
    then consider "q' = q" "a = e" | "a \<in> set (enqueued_in (rt_log s) q')"
      by (auto simp: v split: if_splits)
    then have "a < rt_next_id s \<and> (\<exists>cq. rt_queues ?t q' = Some cq \<and> (finished_in (rt_log s) a \<or> a \<in> set (cq_events cq)))"
    proof cases
      case 1
      then show ?thesis using uc(3) by (simp add: v)
    next
      case 2
      then obtain cq'' where cq'': "rt_queues s q' = Some cq''" using lf(4) by blast
      then show ?thesis using lf(2) [OF 2] lf(3) [OF 2 cq''] kept [OF cq''] by blast
    qed
    then show "a < rt_next_id ?t" "\<exists>cq. rt_queues ?t q' = Some cq \<and>
        (finished_in (rt_log ?t) a \<or> a \<in> set (cq_events cq))"
      by (simp_all add: v)
  next
    fix a q' b
    assume a: "queue_of ?t a = Some q' \<and> None \<noteq> Some a \<and> 2 \<le> stat ?t a"
      and b: "b \<in> set (must_precede (rt_log ?t) a)"
    show "held_back ?t q' a b"
    proof (cases "a = e")
      case True
      then show ?thesis using new b a q(1) by (simp add: v)
    next
      case False
      then show ?thesis using a old [OF _ False _ b] by (simp add: v)
    qed
  next
    fix q' cq'
    assume "rt_queues ?t q' = Some cq'"
    then show "barrier_inv (rt_log ?t) q' cq'"
      using lf(6) [of q'] lf(6) [OF q(2)] by (auto simp: v barrier_inv_iff split: if_splits)
  qed simp
qed

lemma enq_final_inv:
  assumes "ev_inv {} (Some e) s" and "queue_of s e = Some q" "rt_queues s q = Some cq"
    and "\<And>n. n \<in> set (enq_deps (type_of s e) hw cq) \<Longrightarrow> n \<in> set (waits s e) \<or> stat s n = 0"
    and "\<And>n. n \<in> set ws \<Longrightarrow> live s n \<and> (n \<in> set (waits s e) \<or> stat s n = 0)"
    and "\<And>l. \<not> cq_out_of_order cq \<Longrightarrow> cq_last_event cq = Some l \<Longrightarrow> l \<in> set (waits s e) \<or> stat s l = 0"
  shows "ev_inv {} None (add_log (Enqueued e q (cq_out_of_order cq) (type_of s e) hw ws) (enq_final q e cq s))"
proof -
  note p = inv_parts [OF assms(1)] and uc = under_construction [OF inv_parts(3) [OF assms(1)]]
  have "deps_inv {} (enq_final q e cq s)"
    using p(2) uc(2) unfolding deps_inv_def view_enq_final [OF uc(1)] by auto
  then show ?thesis
    using p(1) enq_final_status [OF p(3) assms(2,3)] enq_final_queue [OF assms(1,2,3,6)]
      enq_final_log [OF assms(1,2,3,4,5)]
    by (simp add: ev_inv_def view_enq_final [OF uc(1)] deps_inv_def)
qed

lemma flag_views:
  assumes "live s e"
  shows "live (put e ((get s e)\<lparr>ev_has_wait_list := b\<rparr>) s) = live s"
    "waits (put e ((get s e)\<lparr>ev_has_wait_list := b\<rparr>) s) = waits s"
    "notifs (put e ((get s e)\<lparr>ev_has_wait_list := b\<rparr>) s) = notifs s"
    "stat (put e ((get s e)\<lparr>ev_has_wait_list := b\<rparr>) s) = stat s"
    "refs (put e ((get s e)\<lparr>ev_has_wait_list := b\<rparr>) s) = refs s"
    "queue_of (put e ((get s e)\<lparr>ev_has_wait_list := b\<rparr>) s) = queue_of s"
    "ready (put e ((get s e)\<lparr>ev_has_wait_list := b\<rparr>) s) = ready s"
    "type_of (put e ((get s e)\<lparr>ev_has_wait_list := b\<rparr>) s) = type_of s"
  using view_get [OF assms] assms by (auto simp: fun_upd_idem_iff)

lemma flag_inv:
  "live s e \<Longrightarrow> ev_inv x y (put e ((get s e)\<lparr>ev_has_wait_list := b\<rparr>) s) = ev_inv x y s"
  by (simp add: ev_inv_def deps_inv_def status_inv_def queue_inv_def cq_inv_def log_inv_def held_back_def flag_views
      del: view_put)

lemma create_command_ok:
  assumes inv: "ev_inv {} None s" and few: "rt_next_id s < 2 ^ 32" and free: "rt_cq_locked s = {}" and q: "rt_queues s q = Some cq"
    and ty: "ty \<noteq> CL_COMMAND_USER" and ws: "\<forall>n \<in> set ws. live s n"
  shows "\<exists>s'. pocl_create_command q ty event_p ws s = Some (rt_next_id s, s') \<and>
    ev_inv {} (Some (rt_next_id s)) s' \<and> rt_cq_locked s' = {} \<and> rt_queues s' = rt_queues s \<and>
    queue_of s' (rt_next_id s) = Some q \<and> type_of s' (rt_next_id s) = ty \<and>
    \<not> ev_has_wait_list (get s' (rt_next_id s)) \<and>
    (\<forall>n \<in> set ws. live s' n \<and> (n \<in> set (waits s' (rt_next_id s)) \<or> stat s' n = 0)) \<and>
    (\<not> cq_out_of_order cq \<longrightarrow> (\<forall>l. cq_last_event cq = Some l \<longrightarrow>
       l \<in> set (waits s' (rt_next_id s)) \<or> stat s' l = 0))"
proof -
  note p = inv_parts [OF inv]
  define e where "e = rt_next_id s"
  define ev where "ev = \<lparr>ev_queue = Some q, ev_type = ty, ev_status = CL_QUEUED,
     ev_refcount = (if event_p then 2 else 1), ev_wait_list = [], ev_notify_list = [], ev_ready = False,
     ev_has_wait_list = False\<rparr>"
  define s0 where "s0 = put e ev (s\<lparr>rt_next_id := e + 1\<rparr>)"
  have i0: "ev_inv {} (Some e) s0"
    using created_inv [OF inv few, of q ty "if event_p then 2 else 1" False] q ty by (simp add: s0_def ev_def e_def)
  have v0: "queue_of s0 e = Some q" "type_of s0 e = ty" "rt_queues s0 = rt_queues s" "rt_cq_locked s0 = {}"
    "\<not> ev_has_wait_list (get s0 e)"
    using free by (simp_all add: s0_def ev_def)
  have lt: "live s0 n \<and> n < e" if "live s n" for n
    using that status_live(1) [OF p(3)] by (auto simp: s0_def e_def)
  define last where "last = (if cq_out_of_order cq then [] else case cq_last_event cq of None \<Rightarrow> [] | Some l \<Rightarrow> [l])"
  have "live s n" if "n \<in> set last" for n
  proof -
    have ci: "cq_inv None s q cq" using p(4) q by (simp add: queue_inv_def)
    have "\<not> cq_out_of_order cq" "cq_last_event cq = Some n"
      using that by (auto simp: last_def split: if_splits option.splits)
    then have "n \<in> set (cq_events cq)" using cq_events(5) [OF ci] by (auto split: if_splits)
    then show ?thesis using cq_events(1) [OF ci] queue_of_live by blast
  qed
  then obtain s1 where s1: "sync_all e last (s0\<lparr>rt_cq_locked := {q}\<rparr>) = Some s1" "ev_inv {} (Some e) s1"
    "sync_frame e (s0\<lparr>rt_cq_locked := {q}\<rparr>) s1" "\<forall>n \<in> set last. n \<in> set (waits s1 e) \<or> stat s1 n = 0"
    using sync_all_ok [of e "s0\<lparr>rt_cq_locked := {q}\<rparr>" last] i0 lt by auto
  define s2 where "s2 = s1\<lparr>rt_cq_locked := {}\<rparr>"
  have f1: "sync_frame e s0 s2"
    unfolding s2_def by (rule sync_frame_cq_locked [OF s1(3) v0(4)])
  have i2: "ev_inv {} (Some e) s2" using s1(2) by (simp add: s2_def)
  obtain s3 where s3: "sync_all e ws s2 = Some s3" "ev_inv {} (Some e) s3" "sync_frame e s2 s3"
    "\<forall>n \<in> set ws. n \<in> set (waits s3 e) \<or> stat s3 n = 0"
    using sync_all_ok [OF i2, of ws] ws lt f1 by (auto simp: sync_frame_def)
  have f: "sync_frame e s0 s3" by (rule sync_frame_trans [OF f1 s3(3)])
  have cq0: "rt_queues s0 q = Some cq" using q v0(3) by simp
  have fl: "rt_cq_locked s1 = {q}" "rt_queues s1 = rt_queues s0" using s1(3) by (simp_all add: sync_frame_def)
  have id0: "s0\<lparr>rt_cq_locked := {}\<rparr> = s0" using v0(4) by (cases s0) simp
  have step: "((if \<not> cq_out_of_order cq then do {
             s \<leftarrow> lock_queue q s0;
             s \<leftarrow> (case cq_last_event cq of None \<Rightarrow> Some s | Some l \<Rightarrow> pocl_create_event_sync e l s);
             unlock_queue q s} else Some s0)) = Some s2"
  proof (cases "cq_out_of_order cq")
    case True
    then have "s1 = s0\<lparr>rt_cq_locked := {q}\<rparr>" using s1(1) by (simp add: last_def)
    then show ?thesis using True by (simp add: s2_def id0)
  next
    case False
    have "lock_queue q s0 = Some (s0\<lparr>rt_cq_locked := {q}\<rparr>)" using cq0 v0(4) by (simp add: lock_queue_def)
    moreover have "(case cq_last_event cq of None \<Rightarrow> Some (s0\<lparr>rt_cq_locked := {q}\<rparr>)
        | Some l \<Rightarrow> pocl_create_event_sync e l (s0\<lparr>rt_cq_locked := {q}\<rparr>)) = Some s1"
      using s1(1) False by (auto simp: last_def bind_eq_Some_conv split: option.splits)
    moreover have "unlock_queue q s1 = Some s2" using cq0 fl by (simp add: unlock_queue_def s2_def)
    ultimately show ?thesis using False by simp
  qed
  define s00 where "s00 = snd (pocl_create_event (Some q) ty s)"
  have pair: "pocl_create_event (Some q) ty s = (e, s00)"
    by (simp add: s00_def pocl_create_event_def e_def Let_def)
  have set: "update_event e (\<lambda>ev. ev\<lparr>ev_refcount := (if event_p then 2 else 1)\<rparr>) s00 = Some s0"
    by (simp add: update_event_def pocl_create_event_def s00_def s0_def ev_def e_def put_def Let_def)
  have "pocl_create_command q ty event_p ws s = Some (e, s3)"
    unfolding pocl_create_command_def pair Let_def prod.case set bind.bind_lunit cq0 step s3(1) ..
  moreover have "\<forall>l. cq_last_event cq = Some l \<longrightarrow> l \<in> set (waits s3 e) \<or> stat s3 l = 0"
    if "\<not> cq_out_of_order cq"
    using s1(4) that s3(3) f1 by (auto simp: last_def s2_def sync_frame_def)
  moreover have "rt_cq_locked s3 = {}" "rt_queues s3 = rt_queues s" "queue_of s3 e = Some q" "type_of s3 e = ty"
    "\<not> ev_has_wait_list (get s3 e)" "\<forall>n \<in> set ws. live s3 n"
    using f v0 ws lt by (auto simp: sync_frame_def)
  ultimately show ?thesis using s3(2,4) unfolding e_def [symmetric] by blast
qed

lemma enqueue_command_ok:
  assumes inv: "ev_inv {} None s" and few: "rt_next_id s < 2 ^ 32" and free: "rt_cq_locked s = {}" and q: "rt_queues s q = Some cq"
    and ty: "ty \<noteq> CL_COMMAND_USER" and ws: "\<forall>n \<in> set ws. live s n"
  shows "\<exists>s'. enqueue_command q ty event_p ws s = Some (rt_next_id s, s') \<and> ev_inv {} None s' \<and> rt_cq_locked s' = {}"
proof -
  define e where "e = rt_next_id s"
  let ?hw = "ty = CL_COMMAND_BARRIER \<and> ws \<noteq> []"
  from create_command_ok [OF inv few free q ty ws, of event_p, folded e_def] obtain s1
    where c: "pocl_create_command q ty event_p ws s = Some (e, s1)" "ev_inv {} (Some e) s1" "rt_cq_locked s1 = {}"
      "rt_queues s1 = rt_queues s" "queue_of s1 e = Some q" "type_of s1 e = ty" "\<not> ev_has_wait_list (get s1 e)"
      "\<forall>n \<in> set ws. live s1 n \<and> (n \<in> set (waits s1 e) \<or> stat s1 n = 0)"
      "\<not> cq_out_of_order cq \<longrightarrow> (\<forall>l. cq_last_event cq = Some l \<longrightarrow> l \<in> set (waits s1 e) \<or> stat s1 l = 0)"
    by blast
  have live: "live s1 e" using c(5) by (rule queue_of_live)
  define s2 where "s2 = (if ty = CL_COMMAND_BARRIER
    then put e ((get s1 e)\<lparr>ev_has_wait_list := (ws \<noteq> [])\<rparr>) s1 else s1)"
  have set: "(if ty = CL_COMMAND_BARRIER then update_event e (\<lambda>ev. ev\<lparr>ev_has_wait_list := (ws \<noteq> [])\<rparr>) s1
      else Some s1) = Some s2"
    using live by (simp add: s2_def update_event_put)
  note fv = flag_views [OF live]
  have i2: "ev_inv {} (Some e) s2" using c(2) flag_inv [OF live] by (simp add: s2_def)
  have v2: "live s2 = live s1" "waits s2 = waits s1" "stat s2 = stat s1" "queue_of s2 = queue_of s1"
    "type_of s2 = type_of s1" "rt_queues s2 = rt_queues s1" "rt_cq_locked s2 = {}"
    "ev_has_wait_list (get s2 e) = ?hw"
    using c(3,7) by (simp_all add: s2_def fv del: view_put)
  from command_enqueue_eq [OF i2, of q cq] obtain s3
    where s3: "pocl_command_enqueue q e s2 = Some (enq_final q e cq s3)" "ev_inv {} (Some e) s3" "sync_frame e s2 s3"
      "\<forall>n \<in> set (enq_deps ty ?hw cq). n \<in> set (waits s3 e) \<or> stat s3 n = 0"
    using c(4,5,6) v2 q by auto
  have live3: "live s3 e" using s3(3) v2(1) live by (simp add: sync_frame_def)
  let ?s4 = "add_log (Enqueued e q (cq_out_of_order cq) (type_of s3 e) ?hw ws) (enq_final q e cq s3)"
  have f: "type_of s3 e = ty" "queue_of s3 e = Some q" "rt_queues s3 q = Some cq"
    using s3(3) v2 c(4,5,6) q by (simp_all add: sync_frame_def)
  have ws3: "\<And>n. n \<in> set ws \<Longrightarrow> live s3 n \<and> (n \<in> set (waits s3 e) \<or> stat s3 n = 0)"
    and last3: "\<And>l. \<not> cq_out_of_order cq \<Longrightarrow> cq_last_event cq = Some l \<Longrightarrow> l \<in> set (waits s3 e) \<or> stat s3 l = 0"
    using s3(3) v2 c(8,9) by (auto simp: sync_frame_def)
  have "ev_inv {} None ?s4"
    using s3(4) by (intro enq_final_inv [OF s3(2) f(2,3) _ ws3 last3]) (simp_all add: f(1))
  moreover have "rt_cq_locked ?s4 = {}"
    using s3(3) v2(7) by (simp add: view_enq_final [OF live3] sync_frame_def)
  moreover have "enqueue_command q ty event_p ws s = Some (e, ?s4)"
    unfolding enqueue_command_def c(1) bind.bind_lunit prod.case set s3(1)
    by (simp add: view_enq_final [OF live3] f(1))
  ultimately show ?thesis unfolding e_def by blast
qed

section \<open>Broadcasting a completion\<close>

text \<open>One iteration of \<open>pocl_broadcast\<close> for an event that has not failed.\<close>

definition notify_one :: "nat \<Rightarrow> nat \<Rightarrow> rt \<Rightarrow> rt" where
  "notify_one e t s =
     (let ws = remove1 e (waits s t) in
      (put e ((get s e)\<lparr>ev_notify_list := remove1 t (notifs s e)\<rparr>)
        (put t ((get s t)\<lparr>ev_wait_list := ws, ev_status := (if ws = [] then CL_SUBMITTED else CL_QUEUED)\<rparr>) s))
        \<lparr>rt_work_queue := rt_work_queue s @ (if ws = [] then [t] else [])\<rparr>)"

lemma view_notify_one:
  assumes "live s e" "live s t" "e \<noteq> t" "stat s t = 3"
  shows "live (notify_one e t s) = live s" "refs (notify_one e t s) = refs s"
    "queue_of (notify_one e t s) = queue_of s" "type_of (notify_one e t s) = type_of s"
    "ready (notify_one e t s) = ready s"
    "waits (notify_one e t s) = (waits s)(t := remove1 e (waits s t))"
    "notifs (notify_one e t s) = (notifs s)(e := remove1 t (notifs s e))"
    "stat (notify_one e t s) = (stat s)(t := (if remove1 e (waits s t) = [] then 2 else 3))"
    "rt_queues (notify_one e t s) = rt_queues s" "rt_next_id (notify_one e t s) = rt_next_id s"
    "rt_work_queue (notify_one e t s) = rt_work_queue s @ (if remove1 e (waits s t) = [] then [t] else [])"
    "rt_locked (notify_one e t s) = rt_locked s" "rt_cq_locked (notify_one e t s) = rt_cq_locked s"
    "rt_log (notify_one e t s) = rt_log s"
  using assms view_get [OF assms(1)] view_get [OF assms(2)]
  by (auto simp: notify_one_def Let_def status_defs fun_eq_iff)

lemma notify_eq:
  assumes "live s t" "stat s t = 3" "ready s t"
  shows "notify_ready t s =
    Some ((put t ((get s t)\<lparr>ev_status := (if waits s t = [] then CL_SUBMITTED else CL_QUEUED)\<rparr>) s)
      \<lparr>rt_work_queue := rt_work_queue s @ (if waits s t = [] then [t] else [])\<rparr>)"
proof -
  have id: "put t ((get s t)\<lparr>ev_status := 3\<rparr>) (s\<lparr>rt_work_queue := rt_work_queue s\<rparr>) = s"
  proof -
    have "(get s t)\<lparr>ev_status := 3\<rparr> = get s t" using assms(2) view_get(3) [OF assms(1)] by (cases "get s t") simp
    then show ?thesis using put_get_id [OF assms(1)] by simp
  qed
  show ?thesis
    using assms id
    by (simp add: notify_ready_def events_get view_get pocl_command_is_ready_def pocl_update_event_submitted_def
        update_event_put pthread_scheduler_push_def status_defs)
qed

lemma broadcast_step:
  assumes e: "live s e" "0 < refs s e" "stat s e = 0" and t: "live s t" "0 < refs s t" "stat s t = 3" "ready s t"
    and n: "notifs s e = t # ts" and ne: "e \<noteq> t" and free: "rt_locked s = {}" and lt: "e < 2 ^ 32" "t < 2 ^ 32"
  shows "pocl_broadcast e s = pocl_broadcast e (notify_one e t s)"
proof -
  let ?ws = "remove1 e (waits s t)"
  let ?s1 = "s\<lparr>rt_locked := {e, t}\<rparr>"
  let ?s2 = "put t ((get s t)\<lparr>ev_wait_list := ?ws\<rparr>) ?s1"
  let ?s3 = "(put t ((get s t)\<lparr>ev_wait_list := ?ws, ev_status := (if ?ws = [] then CL_SUBMITTED else CL_QUEUED)\<rparr>) ?s1)
      \<lparr>rt_work_queue := rt_work_queue s @ (if ?ws = [] then [t] else [])\<rparr>"
  let ?s4 = "put e ((get s e)\<lparr>ev_notify_list := remove1 t (notifs s e)\<rparr>) ?s3"
  have r: "ev_notify_list (get s e) = t # ts" "ev_status (get s e) = 0" "ev_status (get s t) = 3"
    using view_get [OF e(1)] view_get [OF t(1)] e n t by simp_all
  have l1: "pocl_lock_events_inorder e t s = Some ?s1"
    using e t ne free lt by (intro lock_inorder_eq) simp_all
  have l2: "update_event t (\<lambda>ev. ev\<lparr>ev_wait_list := remove1 e (ev_wait_list ev)\<rparr>) ?s1 = Some ?s2"
    using t(1) by (simp add: update_event_put view_get)
  have l3: "notify_ready t ?s2 = Some ?s3"
    using t by (subst notify_eq) (simp_all add: view_get)
  have l4: "update_event e (\<lambda>ev. ev\<lparr>ev_notify_list := remove1 t (ev_notify_list ev)\<rparr>) ?s3 = Some ?s4"
    using e(1) ne by (subst update_event_put) (simp_all add: view_get)
  have l5: "pocl_unlock_events_inorder e t ?s4 = Some (?s4\<lparr>rt_locked := {}\<rparr>)"
    using e t ne lt by (intro unlock_inorder_eq) (simp_all add: view_get)
  have id: "?s4\<lparr>rt_locked := {}\<rparr> = notify_one e t s"
    using free ne by (cases s) (simp add: notify_one_def Let_def put_def)
  show ?thesis
    by (subst pocl_broadcast.simps)
      (simp add: events_get [OF e(1)] r l1 l2 l3 l4 l5 id status_defs del: put_locked put_queues)
qed

lemma notify_one_inv:
  assumes inv: "ev_inv {e} None s" and e: "live s e" "stat s e = 0" and n: "notifs s e = t # ts"
  shows "ev_inv {e} None (notify_one e t s)"
    and "live s t \<and> e \<noteq> t \<and> stat s t = 3 \<and> ready s t"
proof -
  note p = inv_parts [OF inv]
  have w: "e \<in> set (waits s t)" using deps_notifs [OF p(2), of t e] n by simp
  note dw = deps_waits [OF p(2) w]
  have q: "queue_of s t \<noteq> None" using status_user(2) [OF p(3) dw(5)] w by (cases "queue_of s t") auto
  then obtain qt where qt: "queue_of s t = Some qt" by auto
  have t: "stat s t = 3" "ready s t" using status_cmd [OF p(3) qt] w by auto
  have ne: "e \<noteq> t" using dw(2) by simp
  show "live s t \<and> e \<noteq> t \<and> stat s t = 3 \<and> ready s t" using dw(5) ne t by blast
  note v = view_notify_one [OF e(1) dw(5) ne t(1)]
  let ?t = "notify_one e t s"
  have dist: "distinct (waits s a)" "distinct (notifs s a)" for a using p(2) by (simp_all add: deps_inv_def)
  have sym: "m \<in> set (waits s a) \<longleftrightarrow> a \<in> set (notifs s m)" for a m using p(2) by (simp add: deps_inv_def)
  have ws: "n \<in> set (waits ?t a) \<longleftrightarrow> n \<in> set (waits s a) \<and> \<not> (a = t \<and> n = e)" for a n
    using dist(1) [of t] by (auto simp: v)
  have ns: "a \<in> set (notifs ?t n) \<longleftrightarrow> a \<in> set (notifs s n) \<and> \<not> (a = t \<and> n = e)" for a n
    using dist(2) [of e] by (auto simp: v)
  have "0 < stat ?t n \<or> n \<in> {e}" if "n \<in> set (waits s a)" for a n
    using deps_waits(3) [OF p(2) that] by (simp add: v)
  moreover have "distinct (waits ?t a)" "distinct (notifs ?t a)" for a
    using dist [of a] dist [of t] dist [of e] by (simp_all add: v)
  ultimately have "deps_inv {e} ?t"
    unfolding deps_inv_def ws ns using sym deps_waits(1,2) [OF p(2)] v(1) by auto
  moreover have "status_inv None ?t"
  proof -
    have st: "a < rt_next_id s \<and> 0 < refs s a \<and> (stat s a = 0 \<longrightarrow> finished_in (rt_log s) a)" if "live s a" for a
      using status_live [OF p(3) that] by blast
    have user: "stat s a \<in> {0, 2} \<and> waits s a = [] \<and> type_of s a = CL_COMMAND_USER"
      if "live s a" "queue_of s a = None" for a using status_user [OF p(3) that] by blast
    have cmd: "ready s a \<and> stat s a \<in> {0, 1, 2, 3} \<and> (stat s a = 3 \<longleftrightarrow> waits s a \<noteq> [])" if "queue_of s a \<noteq> None" for a
      using status_cmd(1-3) [OF p(3)] that by blast
    have wq: "distinct (rt_work_queue s)" "a \<in> set (rt_work_queue s) \<longleftrightarrow> queue_of s a \<noteq> None \<and> stat s a = 2" for a
      using p(3) by (auto simp: status_inv_def)
    have qs: "rt_queues s q \<noteq> None \<and> type_of s a \<noteq> CL_COMMAND_USER" if "queue_of s a = Some q" for a q
      using p(3) that by (auto simp: status_inv_def)
    show ?thesis
      unfolding status_inv_def v
    proof (intro conjI allI impI)
      fix a
      assume "live s a"
      then show "a < rt_next_id s" "0 < refs s a" using st by blast+
      assume "((stat s)(t := (if remove1 e (waits s t) = [] then 2 else 3))) a = 0"
      then show "finished_in (rt_log s) a" using st [OF \<open>live s a\<close>] by (simp split: if_splits)
    next
      fix a
      assume a: "live s a \<and> queue_of s a = None"
      then have "a \<noteq> t" using q by auto
      then show "((stat s)(t := (if remove1 e (waits s t) = [] then 2 else 3))) a \<in> {0, 2}"
        "((waits s)(t := remove1 e (waits s t))) a = []" "type_of s a = CL_COMMAND_USER"
        using user [of a] a by simp_all
    next
      fix a
      assume a: "queue_of s a \<noteq> None \<and> None \<noteq> Some a"
      then show "ready s a"
        "((stat s)(t := (if remove1 e (waits s t) = [] then 2 else 3))) a \<in> {0, 1, 2, 3}"
        "(((stat s)(t := (if remove1 e (waits s t) = [] then 2 else 3))) a = 3) =
           (((waits s)(t := remove1 e (waits s t))) a \<noteq> [])"
        using cmd [of a] by (auto split: if_splits)
    next
      show "distinct (rt_work_queue s @ (if remove1 e (waits s t) = [] then [t] else []))"
        using wq t(1) by simp
    next
      fix a
      show "(a \<in> set (rt_work_queue s @ (if remove1 e (waits s t) = [] then [t] else []))) =
        (queue_of s a \<noteq> None \<and> None \<noteq> Some a \<and>
         ((stat s)(t := (if remove1 e (waits s t) = [] then 2 else 3))) a = 2)"
        using wq(2) q t(1) by (auto split: if_splits)
    next
      show "rt_next_id s \<le> 2 ^ 32" using p(3) by (simp add: status_inv_def)
    qed (use qs in auto)
  qed
  moreover have "queue_inv None ?t"
    unfolding queue_inv_def
  proof (intro allI impI)
    fix q' cq
    assume "rt_queues ?t q' = Some cq"
    then have ci: "cq_inv None s q' cq" using p(4) by (simp add: queue_inv_def v)
    have "e \<notin> set (cq_events cq)" using cq_events(1) [OF ci] e(2) by simp
    show "cq_inv None ?t q' cq"
    proof (rule cq_inv_cong [OF ci])
      fix a p
      assume "p \<in> set (cq_events cq)" "p \<in> set (waits s a)"
      then show "p \<in> set (waits ?t a)" using \<open>e \<notin> set (cq_events cq)\<close> by (auto simp: ws)
    qed (use t(1) in \<open>auto simp: v\<close>)
  qed
  moreover have "log_inv None ?t"
  proof (rule log_inv_step [OF p(5)])
    fix a b
    assume "b \<in> set (waits s a)"
    then show "b \<in> set (waits ?t a) \<or> finished_in (rt_log ?t) b"
      using status_live(3) [OF p(3) e(1)] e(2) by (cases "b = e") (simp_all add: ws v(14))
  qed (use t(1) in \<open>auto simp: v split: if_splits\<close>)
  ultimately show "ev_inv {e} None ?t" using p(1) by (simp add: ev_inv_def v)
qed

lemma broadcast_ok:
  assumes "ev_inv {e} None s" and "live s e" "stat s e = 0"
  shows "\<exists>s'. pocl_broadcast e s = Some s' \<and> ev_inv {} None s' \<and> notifs s' e = [] \<and>
    live s' = live s \<and> refs s' = refs s \<and> queue_of s' = queue_of s \<and> stat s' e = 0 \<and>
    rt_cq_locked s' = rt_cq_locked s \<and> rt_log s' = rt_log s \<and> rt_queues s' = rt_queues s \<and>
    rt_next_id s' = rt_next_id s \<and> (\<forall>a. stat s' a \<le> stat s a)"
  using assms
proof (induction "notifs s e" arbitrary: s)
  case Nil
  have "pocl_broadcast e s = Some s"
    using Nil.hyps view_get [OF Nil.prems(2)]
    by (subst pocl_broadcast.simps) (simp add: events_get [OF Nil.prems(2)])
  moreover have "ev_inv {} None s"
    using Nil.prems(1) Nil.hyps by (simp add: ev_inv_def deps_inv_def) (metis list.set(1) empty_iff)
  ultimately show ?case using Nil by simp
next
  case (Cons t ts)
  note n = Cons.hyps(2) [symmetric]
  note one = notify_one_inv [OF Cons.prems n]
  note p = inv_parts [OF Cons.prems(1)]
  from one(2) have t: "live s t" "e \<noteq> t" "stat s t = 3" "ready s t" by blast+
  note v = view_notify_one [OF Cons.prems(2) t(1,2,3)]
  have "pocl_broadcast e s = pocl_broadcast e (notify_one e t s)"
    using Cons.prems t p(1) status_live(2) [OF p(3)] n status_bound [OF p(3)] by (intro broadcast_step) simp_all
  moreover have "ts = notifs (notify_one e t s) e" by (simp add: v n)
  from Cons.hyps(1) [OF this one(1)] Cons.prems(2,3) t(2) v obtain s' where
    "pocl_broadcast e (notify_one e t s) = Some s' \<and> ev_inv {} None s' \<and> notifs s' e = [] \<and>
    live s' = live s \<and> refs s' = refs s \<and> queue_of s' = queue_of s \<and> stat s' e = 0 \<and>
    rt_cq_locked s' = rt_cq_locked s \<and> rt_log s' = rt_log s \<and> rt_queues s' = rt_queues s \<and>
    rt_next_id s' = rt_next_id s" and mono: "\<forall>a. stat s' a \<le> stat (notify_one e t s) a"
    by auto
  moreover have "stat s' a \<le> stat s a" for a
    using mono [rule_format, of a] t(3) by (cases "a = t") (auto simp: v split: if_splits)
  ultimately show ?case by metis
qed

section \<open>Starting, finishing and releasing\<close>

lemma exec_start_eq:
  assumes "live s e" "0 < refs s e" "stat s e = 2" "waits s e = []" "e \<in> set (rt_work_queue s)" "rt_locked s = {}"
  shows "exec_start e s = Some (add_log (Started e)
    (put e ((get s e)\<lparr>ev_status := CL_RUNNING\<rparr>) (s\<lparr>rt_work_queue := remove1 e (rt_work_queue s)\<rparr>)))"
  using assms
  by (simp add: exec_start_def events_get view_get pocl_command_is_ready_def pocl_update_event_running_def
      lock_event_eq pocl_update_event_running_unlocked_def update_event_put unlock_event_eq CL_SUBMITTED_def locked_id)

text \<open>A step on \<open>e\<close> brings \<open>e\<close> closer to completion and no other event further from it.\<close>

definition advances :: "nat \<Rightarrow> rt \<Rightarrow> rt \<Rightarrow> bool" where
  "advances e s s' \<longleftrightarrow> rt_next_id s' = rt_next_id s \<and> stat s' e < stat s e \<and> (\<forall>a. stat s' a \<le> stat s a)"

lemma advancesI:
  assumes "rt_next_id s' = rt_next_id s" "stat s' e = 0" "0 < stat s e" "\<And>a. a \<noteq> e \<Longrightarrow> stat s' a \<le> stat s a"
  shows "advances e s s'"
  using assms unfolding advances_def by (metis less_imp_le)

text \<open>In an in-order queue a command that waits for nothing is the oldest one.\<close>

lemma in_order_head:
  assumes ci: "cq_inv y s q cq" and "\<not> cq_out_of_order cq" and "e \<in> set (cq_events cq)" and "waits s e = []"
  obtains rest where "cq_events cq = e # rest"
proof -
  obtain us vs where ev: "cq_events cq = us @ e # vs" using assms(3) by (auto dest: split_list)
  have "us = []"
  proof (rule ccontr)
    assume "us \<noteq> []"
    then obtain us' r where "us = us' @ [r]" by (cases us rule: rev_cases) auto
    then have "r \<in> set (waits s e)" using cq_events(6) [OF ci assms(2), of us' r e vs] ev by simp
    then show False using assms(4) by simp
  qed
  then show thesis using that ev by simp
qed

lemma exec_start_ok:
  assumes inv: "ev_inv {} None s" and e: "e \<in> set (rt_work_queue s)"
  shows "\<exists>s'. exec_start e s = Some s' \<and> ev_inv {} None s' \<and> rt_cq_locked s' = rt_cq_locked s \<and> advances e s s'"
proof -
  note p = inv_parts [OF inv]
  have st: "stat s e = 2" "queue_of s e \<noteq> None" using p(3) e by (auto simp: status_inv_def)
  then obtain q where q: "queue_of s e = Some q" by auto
  have live: "live s e" using q by (rule queue_of_live)
  have w: "waits s e = []" using status_cmd(3) [OF p(3) q] st(1) by auto
  let ?t = "add_log (Started e) (put e ((get s e)\<lparr>ev_status := CL_RUNNING\<rparr>)
    (s\<lparr>rt_work_queue := remove1 e (rt_work_queue s)\<rparr>))"
  have v: "live ?t = live s" "refs ?t = refs s" "queue_of ?t = queue_of s" "type_of ?t = type_of s"
    "ready ?t = ready s" "waits ?t = waits s" "notifs ?t = notifs s" "stat ?t = (stat s)(e := 1)"
    "rt_queues ?t = rt_queues s" "rt_next_id ?t = rt_next_id s" "rt_work_queue ?t = remove1 e (rt_work_queue s)"
    "rt_locked ?t = rt_locked s" "rt_cq_locked ?t = rt_cq_locked s" "rt_log ?t = Started e # rt_log s"
    using view_get [OF live] live by (auto simp: fun_eq_iff CL_RUNNING_def)
  have fin: "finished_in (rt_log s) b" if b: "b \<in> set (must_precede (rt_log s) e)" for b
  proof (rule ccontr)
    assume unfinished: "\<not> finished_in (rt_log s) b"
    obtain cq where cq: "rt_queues s q = Some cq" using p(3) q by (rule status_queue)
    have ci: "cq_inv None s q cq" using p(4) cq by (simp add: queue_inv_def)
    have "held_back s q e b" using log_facts(5) [OF p(5) q _ _ b] st(1) by simp
    then have b: "\<not> cq_out_of_order cq" "b < e" "b \<in> set (cq_events cq)"
      using unfinished w cq by (auto simp: held_back_def)
    have "e \<in> set (cq_events cq)" using cq_events(1) [OF ci] q st(1) by simp
    from in_order_head [OF ci b(1) this w] obtain rest where "cq_events cq = e # rest" .
    then show False using b(2,3) cq_events(3) [OF ci] by auto
  qed
  have "deps_inv {} ?t" using p(2) unfolding deps_inv_def v by auto
  moreover have "status_inv None ?t"
    using p(3) st q w unfolding status_inv_def v by (intro conjI allI impI) (auto split: if_splits)
  moreover have "queue_inv None ?t"
    unfolding queue_inv_def
  proof (intro allI impI)
    fix q' cq
    assume "rt_queues ?t q' = Some cq"
    then have "cq_inv None s q' cq" using p(4) by (simp add: queue_inv_def v)
    then show "cq_inv None ?t q' cq" by (rule cq_inv_cong, unfold v) (use st(1) in auto)
  qed
  moreover have "log_inv None ?t"
    unfolding log_inv_def
  proof (intro conjI allI impI ballI)
    show "ordered_log (rt_log ?t)" using fin log_facts(1) [OF p(5)] by (auto simp: v list_all_iff)
  next
    fix a q' b
    assume a: "queue_of ?t a = Some q' \<and> None \<noteq> Some a \<and> 2 \<le> stat ?t a" and b: "b \<in> set (must_precede (rt_log ?t) a)"
    have "queue_of s a = Some q'" "2 \<le> stat s a" using a unfolding v by (auto split: if_splits)
    moreover have "b \<in> set (must_precede (rt_log s) a)" using b unfolding v by simp
    ultimately have "held_back s q' a b" using log_facts(5) [OF p(5)] by blast
    then show "held_back ?t q' a b" by (rule held_back_cong, unfold v) simp_all
  qed (use p(5) [unfolded log_inv_def] in \<open>auto simp: v barrier_inv_iff\<close>)
  ultimately have "ev_inv {} None ?t" using p(1) by (simp add: ev_inv_def v)
  moreover have "exec_start e s = Some ?t"
    using live status_live(2) [OF p(3) live] st(1) w e p(1) by (intro exec_start_eq) simp_all
  moreover have "advances e s ?t" using st(1) unfolding advances_def v by simp
  ultimately show ?thesis by (simp add: v)
qed

definition released :: "nat \<Rightarrow> rt \<Rightarrow> rt" where
  "released e s =
     (if refs s e = 1 then s\<lparr>rt_events := (rt_events s)(e := None)\<rparr>
      else put e ((get s e)\<lparr>ev_refcount := refs s e - 1\<rparr>) s)"

lemma release_eq:
  assumes "live s e" "0 < refs s e" "rt_locked s = {}"
  shows "clReleaseEvent e s = Some (released e s)"
proof -
  have del: "(put e v s)\<lparr>rt_events := ((rt_events s)(e \<mapsto> v))(e := None)\<rparr> = s\<lparr>rt_events := (rt_events s)(e := None)\<rparr>" for v
    by (simp add: put_def)
  have ev: "rt_events (put e v s) = (rt_events s)(e \<mapsto> v)" for v by (simp add: put_def)
  show ?thesis
    using assms
    by (simp add: clReleaseEvent_def lock_event_eq update_event_put unlock_event_eq view_get locked_id
        released_def ev del del: put_locked [symmetric])
qed

lemma retain_eq:
  assumes "live s e" "0 < refs s e" "rt_locked s = {}"
  shows "clRetainEvent e s = Some (put e ((get s e)\<lparr>ev_refcount := refs s e + 1\<rparr>) s)"
  using assms by (simp add: clRetainEvent_def lock_event_eq update_event_put unlock_event_eq view_get locked_id)

lemma refcount_inv:
  assumes inv: "ev_inv {} None s" and live: "live s e" and r: "0 < r"
  shows "ev_inv {} None (put e ((get s e)\<lparr>ev_refcount := r\<rparr>) s)" (is "ev_inv _ _ ?t")
proof -
  note p = inv_parts [OF inv]
  have v: "live ?t = live s" "waits ?t = waits s" "notifs ?t = notifs s" "stat ?t = stat s"
    "queue_of ?t = queue_of s" "type_of ?t = type_of s" "ready ?t = ready s" "refs ?t = (refs s)(e := r)"
    using view_get [OF live] live by (auto simp: fun_eq_iff)
  have "status_inv None ?t"
    using p(3) r unfolding status_inv_def v put_frame by (intro conjI allI impI) (auto split: if_splits)
  then show ?thesis
    using p unfolding ev_inv_def deps_inv_def queue_inv_def cq_inv_def log_inv_def held_back_def v put_frame
    by blast
qed

lemma deleted_inv:
  assumes inv: "ev_inv {} None s" and live: "live s e" and st: "stat s e = 0"
  shows "ev_inv {} None (s\<lparr>rt_events := (rt_events s)(e := None)\<rparr>)" (is "ev_inv _ _ ?t")
proof -
  note p = inv_parts [OF inv]
  have v: "live ?t = (live s)(e := False)" "waits ?t = (waits s)(e := [])" "notifs ?t = (notifs s)(e := [])"
    "stat ?t = (stat s)(e := 0)" "refs ?t = (refs s)(e := 0)" "queue_of ?t = (queue_of s)(e := None)"
    "type_of ?t = (type_of s)(e := CL_COMMAND_USER)" "ready ?t = (ready s)(e := False)"
    by (auto simp: view_defs fun_eq_iff)
  have w: "waits s e = []"
  proof (cases "queue_of s e")
    case None
    then show ?thesis by (rule status_user(2) [OF p(3) live])
  next
    case (Some q)
    then show ?thesis using status_cmd(3) [OF p(3) Some] st by simp
  qed
  have no: "e \<notin> set (waits s a)" for a using deps_waits(3) [OF p(2)] st by fastforce
  then have n: "notifs s e = []" using p(2) by (metis deps_inv_def last_in_set)
  have no': "e \<notin> set (notifs s a)" for a using deps_notifs [OF p(2)] w by fastforce
  have "deps_inv {} ?t" using p(2) no no' unfolding deps_inv_def v by auto
  moreover have "status_inv None ?t"
    using p(3) st unfolding status_inv_def v by (intro conjI allI impI) (auto split: if_splits)
  moreover have "queue_inv None ?t"
    unfolding queue_inv_def
  proof (intro allI impI)
    fix q cq
    assume "rt_queues ?t q = Some cq"
    then have ci: "cq_inv None s q cq" using p(4) by (simp add: queue_inv_def)
    have "e \<notin> set (cq_events cq)" using cq_events(1) [OF ci] st by simp
    then show "cq_inv None ?t q cq" by (intro cq_inv_cong [OF ci]) (use st in \<open>auto simp: v\<close>)
  qed
  moreover have "log_inv None ?t"
    using p(5) unfolding log_inv_def held_back_def v by (auto split: if_splits)
  ultimately show ?thesis using p(1) by (simp add: ev_inv_def)
qed

lemma stat_released:
  assumes "live s e" and "stat s e = 0"
  shows "stat (released e s) = stat s" "rt_next_id (released e s) = rt_next_id s"
  using assms view_get(3) [OF assms(1)] by (auto simp: released_def stat_def put_def fun_eq_iff split: option.splits)

lemma released_ok:
  assumes inv: "ev_inv {} None s" and e: "live s e" and legal: "1 < refs s e \<or> stat s e = 0"
  shows "clReleaseEvent e s = Some (released e s)" "ev_inv {} None (released e s)"
    "rt_cq_locked (released e s) = rt_cq_locked s" "rt_queues (released e s) = rt_queues s"
proof -
  note p = inv_parts [OF inv]
  have r: "0 < refs s e" by (rule status_live(2) [OF p(3) e])
  show "clReleaseEvent e s = Some (released e s)" by (rule release_eq [OF e r p(1)])
  show "ev_inv {} None (released e s)"
    using deleted_inv [OF inv e] refcount_inv [OF inv e, of "refs s e - 1"] legal r
    by (auto simp: released_def)
  show "rt_cq_locked (released e s) = rt_cq_locked s" "rt_queues (released e s) = rt_queues s"
    by (simp_all add: released_def)
qed

definition fin_queue :: "nat \<Rightarrow> queue \<Rightarrow> queue" where
  "fin_queue e cq = cq\<lparr>cq_command_count := cq_command_count cq - 1,
     cq_barrier := (if cq_barrier cq = Some e then None else cq_barrier cq),
     cq_last_event := (if cq_last_event cq = Some e then None else cq_last_event cq),
     cq_events := remove1 e (cq_events cq)\<rparr>"

lemma fin_queue_sel [simp]:
  "cq_events (fin_queue e cq) = remove1 e (cq_events cq)" "cq_out_of_order (fin_queue e cq) = cq_out_of_order cq"
  "cq_last_event (fin_queue e cq) = (if cq_last_event cq = Some e then None else cq_last_event cq)"
  "cq_barrier (fin_queue e cq) = (if cq_barrier cq = Some e then None else cq_barrier cq)"
  "cq_command_count (fin_queue e cq) = cq_command_count cq - 1"
  by (simp_all add: fin_queue_def)

definition finished_state :: "nat \<Rightarrow> nat \<Rightarrow> queue \<Rightarrow> rt \<Rightarrow> rt" where
  "finished_state q e cq s = add_log (Finished e CL_COMPLETE)
     ((put e ((get s e)\<lparr>ev_status := CL_COMPLETE\<rparr>) s)\<lparr>rt_queues := (rt_queues s)(q \<mapsto> fin_queue e cq)\<rparr>)"

lemma view_finished_state:
  assumes "live s e"
  shows "live (finished_state q e cq s) = live s" "refs (finished_state q e cq s) = refs s"
    "queue_of (finished_state q e cq s) = queue_of s" "type_of (finished_state q e cq s) = type_of s"
    "ready (finished_state q e cq s) = ready s" "waits (finished_state q e cq s) = waits s"
    "notifs (finished_state q e cq s) = notifs s" "stat (finished_state q e cq s) = (stat s)(e := 0)"
    "rt_queues (finished_state q e cq s) = (rt_queues s)(q \<mapsto> fin_queue e cq)"
    "rt_next_id (finished_state q e cq s) = rt_next_id s" "rt_locked (finished_state q e cq s) = rt_locked s"
    "rt_work_queue (finished_state q e cq s) = rt_work_queue s"
    "rt_cq_locked (finished_state q e cq s) = rt_cq_locked s"
    "rt_log (finished_state q e cq s) = Finished e 0 # rt_log s"
  using view_get [OF assms] assms by (auto simp: finished_state_def fun_eq_iff CL_COMPLETE_def)

lemma finish_event_eq:
  assumes e: "live s e" "0 < refs s e" "0 < stat s e" "queue_of s e = Some q" and q: "rt_queues s q = Some cq"
    and free: "rt_locked s = {}" "rt_cq_locked s = {}" and count: "1 \<le> cq_command_count cq"
  shows "finish_event CL_COMPLETE e s = Some (finished_state q e cq s)"
proof -
  let ?s1 = "s\<lparr>rt_cq_locked := {q}\<rparr>" and ?s2 = "s\<lparr>rt_cq_locked := {q}, rt_locked := {e}\<rparr>"
  let ?s3 = "put e ((get s e)\<lparr>ev_status := CL_COMPLETE\<rparr>) ?s2"
  let ?s4 = "?s3\<lparr>rt_queues := (rt_queues s)(q \<mapsto> fin_queue e cq)\<rparr>"
  have l1: "lock_queue q s = Some ?s1" using q free by (simp add: lock_queue_def)
  have l2: "lock_event e ?s1 = Some ?s2" using e free by (subst lock_event_eq) simp_all
  have l3: "update_event e (\<lambda>ev. ev\<lparr>ev_status := CL_COMPLETE\<rparr>) ?s2 = Some ?s3"
    using e(1) by (subst update_event_put) simp_all
  have l4: "update_queue q (\<lambda>cq. cq\<lparr>cq_command_count := cq_command_count cq - 1,
            cq_barrier := (if cq_barrier cq = Some e then None else cq_barrier cq),
            cq_last_event := (if cq_last_event cq = Some e then None else cq_last_event cq),
            cq_events := remove1 e (cq_events cq)\<rparr>) ?s3 = Some ?s4"
    using q by (simp add: update_queue_def fin_queue_def)
  have l5: "unlock_queue q ?s4 = Some (?s4\<lparr>rt_cq_locked := {}\<rparr>)" by (simp add: unlock_queue_def)
  have l6: "unlock_event e (add_log (Finished e CL_COMPLETE) (?s4\<lparr>rt_cq_locked := {}\<rparr>)) =
      Some (finished_state q e cq s)"
  proof -
    have "(add_log (Finished e CL_COMPLETE) (?s4\<lparr>rt_cq_locked := {}\<rparr>))\<lparr>rt_locked := {}\<rparr> = finished_state q e cq s"
      using free by (cases s) (simp add: finished_state_def add_log_def put_def)
    then show ?thesis using e(1,2) by (subst unlock_event_eq) (simp_all add: view_get)
  qed
  have g: "ev_queue (get s e) = Some q" "ev_status (get s e) > CL_COMPLETE"
    using view_get [OF e(1)] e(3,4) by (simp_all add: CL_COMPLETE_def)
  have c: "rt_queues ?s4 q = Some (fin_queue e cq)" "0 \<le> cq_command_count (fin_queue e cq)"
    using count by simp_all
  show ?thesis
    unfolding finish_event_def events_get [OF e(1)] bind.bind_lunit g(1) if_P [OF g(2)] l1 l2 l3 l4 c(1) if_P [OF c(2)]
      l5 l6 ..
qed

lemma strict_sorted_distinct: "sorted_wrt (<) (xs :: nat list) \<Longrightarrow> distinct xs"
  by (induction xs) auto

lemma sorted_wrt_remove1: "sorted_wrt R xs \<Longrightarrow> sorted_wrt R (remove1 x xs)"
  by (induction xs) (auto dest: notin_set_remove1 set_remove1_subset [THEN subsetD])

lemma fin_queue_inv:
  assumes inv: "ev_inv {} None s" and q: "queue_of s e = Some q" "rt_queues s q = Some cq" and st: "stat s e = 1"
  shows "cq_inv None (finished_state q e cq s) q (fin_queue e cq)"
proof -
  note p = inv_parts [OF inv] and v = view_finished_state [OF queue_of_live [OF q(1)]]
  have ci: "cq_inv None s q cq" using p(4) q(2) by (simp add: queue_inv_def)
  note dist = strict_sorted_distinct [OF cq_events(3) [OF ci]]
  have e: "e \<in> set (cq_events cq)" using cq_events(1) [OF ci] q(1) st by simp
  have w: "waits s e = []" using status_cmd(3) [OF p(3) q(1)] st by simp
  have mem: "a \<in> set (remove1 e (cq_events cq)) \<longleftrightarrow> queue_of s a = Some q \<and> 0 < ((stat s)(e := 0)) a" for a
    using cq_events(1) [OF ci, of a] dist by auto
  have len: "int (length (remove1 e (cq_events cq))) = cq_command_count cq - 1"
    using cq_events(2) [OF ci] length_remove1 [of e "cq_events cq"] e length_pos_if_in_set [OF e]
    by (simp add: of_nat_diff Suc_le_eq)
  have bar: "b \<in> set (remove1 e (cq_events cq))" if "cq_barrier cq = Some b" "b \<noteq> e" for b
    using cq_events(4) [OF ci that(1)] that(2) by simp
  have order: "(if cq_last_event cq = Some e then None else cq_last_event cq) =
        (if remove1 e (cq_events cq) = [] then None else Some (last (remove1 e (cq_events cq)))) \<and>
      (\<forall>us r a vs. remove1 e (cq_events cq) = us @ r # a # vs \<longrightarrow> r \<in> set (waits s a))"
    if ooo: "\<not> cq_out_of_order cq"
  proof -
    obtain rest where rest: "cq_events cq = e # rest" by (rule in_order_head [OF ci ooo e w])
    have "r \<in> set (waits s a)" if "rest = us @ r # a # vs" for us r a vs
      using cq_events(6) [OF ci ooo, of "e # us" r a vs] rest that by simp
    moreover have "last rest \<noteq> e" if "rest \<noteq> []" using dist that rest by (auto dest: last_in_set)
    ultimately show ?thesis using cq_events(5) [OF ci ooo] rest by auto
  qed
  show ?thesis
    unfolding cq_inv_def v fin_queue_sel
  proof (intro conjI)
    show "\<forall>a. a \<in> set (remove1 e (cq_events cq)) \<longleftrightarrow>
        queue_of s a = Some q \<and> None \<noteq> Some a \<and> 0 < ((stat s)(e := 0)) a"
      using mem by blast
    show "cq_command_count cq - 1 = int (length (remove1 e (cq_events cq)))" using len by simp
    show "sorted_wrt (<) (remove1 e (cq_events cq))" by (rule sorted_wrt_remove1 [OF cq_events(3) [OF ci]])
    show "\<forall>b. (if cq_barrier cq = Some e then None else cq_barrier cq) = Some b \<longrightarrow>
        b \<in> set (remove1 e (cq_events cq))"
      using bar by (metis option.distinct(1))
    show "\<not> cq_out_of_order cq \<longrightarrow>
        (if cq_last_event cq = Some e then None else cq_last_event cq) =
          (if remove1 e (cq_events cq) = [] then None else Some (last (remove1 e (cq_events cq)))) \<and>
        (\<forall>us p a vs. remove1 e (cq_events cq) = us @ p # a # vs \<longrightarrow> p \<in> set (waits s a))"
      using order by blast
  qed
qed

lemma finished_state_inv:
  assumes inv: "ev_inv {} None s" and q: "queue_of s e = Some q" "rt_queues s q = Some cq" and st: "stat s e = 1"
  shows "ev_inv {e} None (finished_state q e cq s)" (is "ev_inv _ _ ?t")
proof -
  note p = inv_parts [OF inv] and live = queue_of_live [OF q(1)]
  note v = view_finished_state [OF live]
  have w: "waits s e = []" using status_cmd(3) [OF p(3) q(1)] st by simp
  have "deps_inv {e} ?t" using p(2) unfolding deps_inv_def v by auto
  moreover have "status_inv None ?t"
    using p(3) st q w unfolding status_inv_def v by (intro conjI allI impI) (auto split: if_splits)
  moreover have "queue_inv None ?t"
    unfolding queue_inv_def
  proof (intro allI impI)
    fix q' cq'
    assume cq': "rt_queues ?t q' = Some cq'"
    show "cq_inv None ?t q' cq'"
    proof (cases "q' = q")
      case True
      then show ?thesis using cq' fin_queue_inv [OF inv q st] by (simp add: v)
    next
      case False
      then have "cq_inv None s q' cq'" using p(4) cq' by (simp add: queue_inv_def v)
      then show ?thesis by (rule cq_inv_cong, unfold v) (use False q(1) in auto)
    qed
  qed
  moreover have "log_inv None ?t"
  proof -
    have kept: "\<exists>cq''. rt_queues ?t q' = Some cq'' \<and> cq_out_of_order cq'' = cq_out_of_order cq' \<and>
        (\<forall>b \<in> set (cq_events cq'). b \<in> set (cq_events cq'') \<or> finished_in (rt_log ?t) b)"
      if "rt_queues s q' = Some cq'" for q' cq'
    proof -
      have m: "\<forall>b \<in> set (cq_events cq'). b \<in> set (remove1 e (cq_events cq')) \<or> b = e \<or> finished_in (rt_log s) b"
      proof
        fix b
        assume "b \<in> set (cq_events cq')"
        then show "b \<in> set (remove1 e (cq_events cq')) \<or> b = e \<or> finished_in (rt_log s) b"
          by (cases "b = e") auto
      qed
      show ?thesis
      proof (cases "q' = q")
        case True
        then show ?thesis using that q(2) m by (simp add: v)
      qed (use that in \<open>simp add: v\<close>)
    qed
    show ?thesis
      unfolding log_inv_def
    proof (intro conjI allI impI ballI)
      fix q' a
      assume a: "a \<in> set (enqueued_in (rt_log ?t) q')"
      then have a': "a \<in> set (enqueued_in (rt_log s) q')" by (simp add: v)
      then show "a < rt_next_id ?t" using log_facts(2) [OF p(5)] by (simp add: v)
      obtain cq' where cq': "rt_queues s q' = Some cq'" using log_facts(4) [OF p(5) a'] by blast
      show "\<exists>cq. rt_queues ?t q' = Some cq \<and> (finished_in (rt_log ?t) a \<or> a \<in> set (cq_events cq))"
        using kept [OF cq'] log_facts(3) [OF p(5) a' cq'] by (auto simp: v)
    next
      fix a q' b
      assume a: "queue_of ?t a = Some q' \<and> None \<noteq> Some a \<and> 2 \<le> stat ?t a" and b: "b \<in> set (must_precede (rt_log ?t) a)"
      have "queue_of s a = Some q'" "2 \<le> stat s a" using a unfolding v by (auto split: if_splits)
      moreover have "b \<in> set (must_precede (rt_log s) a)" using b unfolding v by simp
      ultimately have "held_back s q' a b" using log_facts(5) [OF p(5)] by blast
      then show "held_back ?t q' a b"
      proof (rule held_back_cong)
        fix cq'
        assume "rt_queues s q' = Some cq'"
        then show "\<exists>cq''. rt_queues ?t q' = Some cq'' \<and> cq_out_of_order cq'' = cq_out_of_order cq' \<and>
            (\<forall>b \<in> set (cq_events cq'). b \<in> set (cq_events cq'') \<or> finished_in (rt_log ?t) b)"
          by (rule kept)
      qed (simp_all add: v)
    next
      fix q' cq'
      assume "rt_queues ?t q' = Some cq'"
      then show "barrier_inv (rt_log ?t) q' cq'"
        using log_facts(6) [OF p(5), of q'] log_facts(6) [OF p(5) q(2)]
        by (auto simp: v barrier_inv_iff split: if_splits)
    qed (use log_facts(1) [OF p(5)] in \<open>simp_all add: v\<close>)
  qed
  ultimately show ?thesis using p(1) by (simp add: ev_inv_def v)
qed

lemma finish_and_broadcast:
  assumes inv: "ev_inv {} None s" and free: "rt_cq_locked s = {}" and st: "stat s e = 1"
  shows "\<exists>s'. exec_finish e s = Some s' \<and> ev_inv {} None s' \<and> rt_cq_locked s' = {} \<and> advances e s s'"
proof -
  note p = inv_parts [OF inv]
  have live: "live s e" using st not_live_views(3) by (cases "live s e") auto
  have r: "0 < refs s e" by (rule status_live(2) [OF p(3) live])
  obtain q where q: "queue_of s e = Some q" using status_user(1) [OF p(3) live] st by (cases "queue_of s e") auto
  obtain cq where cq: "rt_queues s q = Some cq" using p(3) q by (rule status_queue)
  have ci: "cq_inv None s q cq" using p(4) cq by (simp add: queue_inv_def)
  have "e \<in> set (cq_events cq)" using cq_events(1) [OF ci] q st by simp
  then have count: "1 \<le> cq_command_count cq"
    using cq_events(2) [OF ci] length_pos_if_in_set [of e "cq_events cq"] by (simp add: Suc_le_eq)
  note v = view_finished_state [OF live]
  let ?t = "finished_state q e cq s"
  have fin: "finish_event CL_COMPLETE e s = Some ?t"
    using live r st q cq p(1) free count by (intro finish_event_eq) simp_all
  from broadcast_ok [OF finished_state_inv [OF inv q cq st]] obtain s1 where
    b: "pocl_broadcast e ?t = Some s1" "ev_inv {} None s1" "live s1 = live s" "refs s1 = refs s" "stat s1 e = 0"
      "rt_cq_locked s1 = {}" "rt_next_id s1 = rt_next_id s" "\<forall>a. stat s1 a \<le> stat ?t a"
    using live free by (auto simp: v)
  note rel = released_ok [OF b(2), of e]
  have "advances e s (released e s1)"
    using stat_released [of s1 e] live st b(3,5,7,8) unfolding v
    by (intro advancesI) (auto split: if_splits)
  moreover
  have "ev_status (get s e) = CL_RUNNING" using view_get(3) [OF live] st by (simp add: CL_RUNNING_def)
  then have "exec_finish e s = Some (released e s1)"
    using fin b(1) rel(1) live b(3,5) by (simp add: exec_finish_def events_get pocl_update_event_finished_def)
  ultimately show ?thesis using rel(2,3) live b(3,5,6) by auto
qed

section \<open>User events\<close>

lemma create_user_ok:
  assumes inv: "ev_inv {} None s" and few: "rt_next_id s < 2 ^ 32"
  shows "fst (clCreateUserEvent s) = rt_next_id s" "ev_inv {} None (snd (clCreateUserEvent s))"
    "rt_cq_locked (snd (clCreateUserEvent s)) = rt_cq_locked s"
proof -
  define e where "e = rt_next_id s"
  define t where "t = put e \<lparr>ev_queue = None, ev_type = CL_COMMAND_USER, ev_status = CL_SUBMITTED, ev_refcount = 1,
     ev_wait_list = [], ev_notify_list = [], ev_ready = False, ev_has_wait_list = False\<rparr>
     (s\<lparr>rt_next_id := e + 1\<rparr>)"
  have eq: "clCreateUserEvent s = (e, t)"
    by (simp add: clCreateUserEvent_def pocl_create_event_def Let_def t_def e_def put_def)
  note p = inv_parts [OF inv]
  have dead: "\<not> live s e" using status_live(1) [OF p(3)] unfolding e_def by blast
  note none = not_live_views [OF dead]
  have v: "live t = (live s)(e := True)" "waits t = waits s" "notifs t = notifs s" "stat t = (stat s)(e := 2)"
    "queue_of t = queue_of s" "refs t = (refs s)(e := 1)" "rt_next_id t = Suc e" "type_of t = (type_of s)(e := CL_COMMAND_USER)"
    "ready t = (ready s)(e := False)" "rt_queues t = rt_queues s" "rt_work_queue t = rt_work_queue s"
    "rt_locked t = rt_locked s" "rt_log t = rt_log s" "rt_cq_locked t = rt_cq_locked s"
    using none by (auto simp: t_def fun_eq_iff CL_SUBMITTED_def)
  have lt: "a < e" if "live s a" for a using status_live(1) [OF p(3) that] by (simp add: e_def)
  have qe: "queue_of s a = Some q \<Longrightarrow> a \<noteq> e" for a q using none by auto
  have "deps_inv {} t" using p(2) dead deps_waits(1) [OF p(2)] unfolding deps_inv_def v by auto
  moreover have "status_inv None t"
    using p(3) none lt qe few unfolding status_inv_def v e_def [symmetric]
    by (intro conjI allI impI) (auto split: if_splits intro: less_SucI)
  moreover have "queue_inv None t"
    unfolding queue_inv_def
  proof (intro allI impI)
    fix q cq
    assume "rt_queues t q = Some cq"
    then have "cq_inv None s q cq" using p(4) by (simp add: queue_inv_def v)
    then show "cq_inv None t q cq" by (rule cq_inv_cong, unfold v) (use qe in auto)
  qed
  moreover have "log_inv None t"
    by (rule log_inv_step [OF p(5)], unfold v) (use qe in \<open>auto simp: e_def split: if_splits\<close>)
  ultimately have "ev_inv {} None t" using p(1) by (simp add: ev_inv_def v)
  then show "fst (clCreateUserEvent s) = rt_next_id s" "ev_inv {} None (snd (clCreateUserEvent s))"
    "rt_cq_locked (snd (clCreateUserEvent s)) = rt_cq_locked s"
    by (simp_all add: eq e_def v)
qed

lemma user_completed_inv:
  assumes inv: "ev_inv {} None s" and e: "live s e" "queue_of s e = None"
  shows "ev_inv {e} None (add_log (Finished e CL_COMPLETE) (put e ((get s e)\<lparr>ev_status := CL_COMPLETE\<rparr>) s))"
    (is "ev_inv _ _ ?t")
proof -
  note p = inv_parts [OF inv]
  have v: "live ?t = live s" "waits ?t = waits s" "notifs ?t = notifs s" "stat ?t = (stat s)(e := 0)"
    "queue_of ?t = queue_of s" "refs ?t = refs s" "rt_next_id ?t = rt_next_id s" "type_of ?t = type_of s"
    "ready ?t = ready s" "rt_queues ?t = rt_queues s" "rt_work_queue ?t = rt_work_queue s"
    "rt_locked ?t = rt_locked s" "rt_log ?t = Finished e 0 # rt_log s"
    using view_get [OF e(1)] e(1) by (auto simp: fun_eq_iff CL_COMPLETE_def)
  have qe: "queue_of s a = Some q \<Longrightarrow> a \<noteq> e" for a q using e(2) by auto
  have "deps_inv {e} ?t" using p(2) unfolding deps_inv_def v by auto
  moreover have "status_inv None ?t"
    using p(3) e qe unfolding status_inv_def v by (intro conjI allI impI) (auto split: if_splits)
  moreover have "queue_inv None ?t"
    unfolding queue_inv_def
  proof (intro allI impI)
    fix q cq
    assume "rt_queues ?t q = Some cq"
    then have "cq_inv None s q cq" using p(4) unfolding queue_inv_def v by blast
    then show "cq_inv None ?t q cq" by (rule cq_inv_cong, unfold v) (use qe in auto)
  qed
  moreover have "log_inv None ?t"
    by (rule log_inv_step [OF p(5), of _ e 0], unfold v) (auto split: if_splits)
  ultimately show ?thesis using p(1) unfolding ev_inv_def v by blast
qed

lemma set_user_ok:
  assumes inv: "ev_inv {} None s" and free: "rt_cq_locked s = {}" and e: "live s e"
  shows "\<exists>r s'. clSetUserEventStatus e CL_COMPLETE s = Some (r, s') \<and> ev_inv {} None s' \<and> rt_cq_locked s' = {} \<and>
    (r = CL_SUCCESS \<longleftrightarrow> queue_of s e = None \<and> stat s e = 2) \<and>
    (if r = CL_SUCCESS then advances e s s' else s' = s)"
proof -
  note p = inv_parts [OF inv]
  have r: "0 < refs s e" by (rule status_live(2) [OF p(3) e])
  let ?s1 = "s\<lparr>rt_locked := {e}\<rparr>"
  have l1: "lock_event e s = Some ?s1" using e r p(1) by (simp add: lock_event_eq)
  have ul: "unlock_event e ?s1 = Some s" using e r p(1) by (simp add: unlock_event_eq locked_id)
  have g: "rt_events s e = Some (get s e)" by (rule events_get [OF e])
  have type: "ev_type (get s e) = CL_COMMAND_USER \<longleftrightarrow> queue_of s e = None"
  proof (cases "queue_of s e")
    case None
    then show ?thesis using status_user(3) [OF p(3) e None] view_get(7) [OF e] by simp
  next
    case (Some q)
    then show ?thesis using status_queue [OF p(3) Some] view_get(7) [OF e] by auto
  qed
  show ?thesis
  proof (cases "queue_of s e = None \<and> stat s e = 2")
    case False
    then have "ev_type (get s e) \<noteq> CL_COMMAND_USER \<or> ev_status (get s e) \<le> CL_COMPLETE"
      using type status_user(1) [OF p(3) e] view_get(3) [OF e] by (auto simp: CL_COMPLETE_def)
    then have "clSetUserEventStatus e CL_COMPLETE s = Some (CL_INVALID_EVENT, s) \<or>
        clSetUserEventStatus e CL_COMPLETE s = Some (CL_INVALID_OPERATION, s)"
      by (auto simp: clSetUserEventStatus_def l1 g ul)
    then show ?thesis using False inv free by auto
  next
    case True
    let ?t = "add_log (Finished e CL_COMPLETE) (put e ((get s e)\<lparr>ev_status := CL_COMPLETE\<rparr>) s)"
    have l2: "update_event e (\<lambda>ev. ev\<lparr>ev_status := CL_COMPLETE\<rparr>) ?s1 =
        Some (put e ((get s e)\<lparr>ev_status := CL_COMPLETE\<rparr>) ?s1)"
      using e by (subst update_event_put) simp_all
    have l3: "unlock_event e (add_log (Finished e CL_COMPLETE) (put e ((get s e)\<lparr>ev_status := CL_COMPLETE\<rparr>) ?s1)) = Some ?t"
    proof -
      have "(add_log (Finished e CL_COMPLETE) (put e ((get s e)\<lparr>ev_status := CL_COMPLETE\<rparr>) ?s1))\<lparr>rt_locked := {}\<rparr> = ?t"
        using p(1) by (cases s) (simp add: add_log_def put_def)
      then show ?thesis using e r by (subst unlock_event_eq) (simp_all add: view_get)
    qed
    from broadcast_ok [OF user_completed_inv [OF inv e]] True obtain s1 where
      b: "pocl_broadcast e ?t = Some s1" "ev_inv {} None s1" "live s1 e" "rt_cq_locked s1 = {}"
        "rt_next_id s1 = rt_next_id s" "stat s1 e = 0" "\<forall>a. stat s1 a \<le> stat ?t a"
      using e free by (auto simp: CL_COMPLETE_def)
    have adv: "advances e s s1"
      using b(5-7) True by (intro advancesI) (auto simp: CL_COMPLETE_def split: if_splits)
    have "0 < refs s1 e" using status_live(2) [OF inv_parts(3) [OF b(2)] b(3)] .
    then have l4: "lock_event e s1 = Some (s1\<lparr>rt_locked := {e}\<rparr>)" "unlock_event e (s1\<lparr>rt_locked := {e}\<rparr>) = Some s1"
      using b(3) inv_parts(1) [OF b(2)] by (simp_all add: lock_event_eq unlock_event_eq locked_id)
    have c: "ev_type (get s e) = CL_COMMAND_USER" "\<not> ev_status (get s e) \<le> CL_COMPLETE"
      using type True view_get(3) [OF e] by (simp_all add: CL_COMPLETE_def)
    have "clSetUserEventStatus e CL_COMPLETE s = Some (CL_SUCCESS, s1)"
      unfolding clSetUserEventStatus_def by (simp add: l1 g c l2 l3 b(1) l4)
    then show ?thesis using b(2,4) adv True by auto
  qed
qed

end
