(* ===== verification/EventRuns.thy ===== *)
theory EventRuns
  imports EventInv
begin

text \<open>
  Runs of the application and the driver threads over the event state, and the properties of the
  event system: it never fails, starts commands in the promised order, and drains.
\<close>

section \<open>Runs\<close>

text \<open>
  The operations of the application's threads and of the workers. A command is started by a worker that
  takes it off the work queue and completed when its work is done; the application retains and releases
  the events it holds, and sets the status of its user events.
\<close>

datatype ev_op =
  Enqueue nat command_type bool "nat list"
| Create_user
| Set_user nat int
| Start nat
| Complete nat
| Retain nat
| Release nat

fun perform :: "ev_op \<Rightarrow> rt \<Rightarrow> rt option" where
  "perform (Enqueue q ty event_p ws) s = map_option snd (enqueue_command q ty event_p ws s)"
| "perform Create_user s = Some (snd (clCreateUserEvent s))"
| "perform (Set_user e st) s = map_option snd (clSetUserEventStatus e st s)"
| "perform (Start e) s = exec_start e s"
| "perform (Complete e) s = exec_finish e s"
| "perform (Retain e) s = clRetainEvent e s"
| "perform (Release e) s = clReleaseEvent e s"

text \<open>
  What the application and the workers may do: use live events and existing queues, start a command of
  the work queue, complete a running one, and release an event of which the runtime holds no reference
  or the application another one.
\<close>

fun legal :: "ev_op \<Rightarrow> rt \<Rightarrow> bool" where
  "legal (Enqueue q ty event_p ws) s \<longleftrightarrow> rt_queues s q \<noteq> None \<and> ty \<noteq> CL_COMMAND_USER \<and> list_all (live s) ws"
| "legal Create_user s \<longleftrightarrow> True"
| "legal (Set_user e st) s \<longleftrightarrow> live s e"
| "legal (Start e) s \<longleftrightarrow> e \<in> set (rt_work_queue s)"
| "legal (Complete e) s \<longleftrightarrow> stat s e = CL_RUNNING"
| "legal (Retain e) s \<longleftrightarrow> live s e"
| "legal (Release e) s \<longleftrightarrow> live s e \<and> (1 < refs s e \<or> stat s e = CL_COMPLETE)"

text \<open>
  The scope of the properties: no user event is given a negative status, the way a command fails, and fewer than
  $2^{32}$ events are created, so that their ids differ. What a failure does is shown under Defects.
\<close>

fun in_scope :: "ev_op \<Rightarrow> rt \<Rightarrow> bool" where
  "in_scope (Enqueue q ty event_p ws) s \<longleftrightarrow> int (rt_next_id s) < 2 ^ 32"
| "in_scope Create_user s \<longleftrightarrow> int (rt_next_id s) < 2 ^ 32"
| "in_scope (Set_user e st) s \<longleftrightarrow> CL_COMPLETE \<le> st"
| "in_scope _ s \<longleftrightarrow> True"

definition new_queue :: "bool \<Rightarrow> queue" where
  "new_queue ooo = \<lparr>cq_out_of_order = ooo, cq_events = [], cq_barrier = None, cq_last_event = None,
     cq_command_count = 0\<rparr>"

definition rt_init :: "(nat \<rightharpoonup> bool) \<Rightarrow> rt" where
  "rt_init qs = \<lparr>rt_events = Map.empty, rt_queues = map_option new_queue \<circ> qs, rt_next_id = 0,
     rt_work_queue = [], rt_locked = {}, rt_cq_locked = {}, rt_log = []\<rparr>"

inductive ev_step :: "rt \<Rightarrow> rt \<Rightarrow> bool" where
  step: "legal x s \<Longrightarrow> in_scope x s \<Longrightarrow> perform x s = Some s' \<Longrightarrow> ev_step s s'"

inductive ev_reachable :: "(nat \<rightharpoonup> bool) \<Rightarrow> rt \<Rightarrow> bool" for qs where
  init: "ev_reachable qs (rt_init qs)"
| step: "ev_reachable qs s \<Longrightarrow> ev_step s s' \<Longrightarrow> ev_reachable qs s'"

inductive_cases ev_stepE: "ev_step s s'"

definition ev_good :: "rt \<Rightarrow> bool" where
  "ev_good s \<longleftrightarrow> ev_inv {} None s \<and> rt_cq_locked s = {}"

lemma init_good: "ev_good (rt_init qs)"
  by (auto simp: ev_good_def ev_inv_def rt_init_def deps_inv_def status_inv_def queue_inv_def cq_inv_def log_inv_def
      view_defs barrier_inv_def new_queue_def)

lemma perform_good:
  assumes "ev_good s" and "legal x s" and "in_scope x s"
  shows "\<exists>s'. perform x s = Some s' \<and> ev_good s'"
proof -
  have inv: "ev_inv {} None s" and free: "rt_cq_locked s = {}" using assms(1) by (simp_all add: ev_good_def)
  note p = inv_parts [OF inv]
  show ?thesis
  proof (cases x)
    case (Enqueue q ty event_p ws)
    then show ?thesis
      using enqueue_command_ok [OF inv _ free, of q _ ty ws event_p] assms(2,3) by (auto simp: ev_good_def list_all_iff)
  next
    case Create_user
    then show ?thesis using create_user_ok [OF inv] free assms(3) by (simp add: ev_good_def)
  next
    case (Set_user e st)
    show ?thesis
    proof (cases "st = CL_COMPLETE")
      case True
      then show ?thesis using Set_user set_user_ok [OF inv free, of e] assms(2) by (auto simp: ev_good_def)
    next
      case False
      then show ?thesis using Set_user assms(1,3) by (simp add: clSetUserEventStatus_def)
    qed
  next
    case (Start e)
    then show ?thesis using exec_start_ok [OF inv, of e] assms(2) free by (auto simp: ev_good_def)
  next
    case (Complete e)
    then show ?thesis using finish_and_broadcast [OF inv free, of e] assms(2) by (auto simp: ev_good_def CL_RUNNING_def)
  next
    case (Retain e)
    then have e: "live s e" using assms(2) by simp
    have r: "0 < refs s e" by (rule status_live(2) [OF p(3) e])
    then show ?thesis using Retain retain_eq [OF e r p(1)] refcount_inv [OF inv e, of "refs s e + 1"] free
      by (simp add: ev_good_def)
  next
    case (Release e)
    then show ?thesis using released_ok [OF inv, of e] assms(2) free by (auto simp: ev_good_def CL_COMPLETE_def)
  qed
qed

lemma reachable_good: "ev_reachable qs s \<Longrightarrow> ev_good s"
proof (induction rule: ev_reachable.induct)
  case (step s s')
  then show ?case using perform_good by (force elim: ev_stepE)
qed (rule init_good)

section \<open>Progress\<close>

text \<open>An event on which work can be done now: a submitted or running command, or a pending user event.\<close>

definition active :: "rt \<Rightarrow> nat \<Rightarrow> bool" where
  "active s a \<longleftrightarrow> a \<in> set (rt_work_queue s) \<or> stat s a = CL_RUNNING \<or>
     live s a \<and> queue_of s a = None \<and> stat s a = CL_SUBMITTED"

definition advance_op :: "rt \<Rightarrow> nat \<Rightarrow> ev_op" where
  "advance_op s a = (if a \<in> set (rt_work_queue s) then Start a
     else if stat s a = CL_RUNNING then Complete a else Set_user a CL_COMPLETE)"

lemma unfinished_active:
  assumes "ev_good s" and "0 < stat s e"
  shows "\<exists>a \<le> e. active s a"
  using assms(2)
proof (induction e rule: less_induct)
  case (less e)
  have inv: "ev_inv {} None s" using assms(1) by (simp add: ev_good_def)
  note p = inv_parts [OF inv]
  have live: "live s e" using less.prems not_live_views(3) by (cases "live s e") auto
  show ?case
  proof (cases "queue_of s e")
    case None
    then show ?thesis
      using status_user(1) [OF p(3) live None] live less.prems by (auto simp: active_def CL_SUBMITTED_def)
  next
    case (Some q)
    note c = status_cmd [OF p(3) Some]
    consider "stat s e = 1" | "stat s e = 2" | "waits s e \<noteq> []" using c(2,3) less.prems by auto
    then show ?thesis
    proof cases
      case 3
      then obtain n where n: "n \<in> set (waits s e)" by (cases "waits s e") auto
      have "n < e" "0 < stat s n" using deps_waits(2,3) [OF p(2) n] by auto
      with less.IH [OF this] show ?thesis by (meson less_imp_le order_trans)
    qed (use c(4) in \<open>auto simp: active_def CL_RUNNING_def\<close>)
  qed
qed

lemma advance_op_ok:
  assumes "ev_good s" and "active s a"
  shows "legal (advance_op s a) s" "in_scope (advance_op s a) s" "\<exists>s'. perform (advance_op s a) s = Some s' \<and> ev_good s' \<and> advances a s s'"
proof -
  have inv: "ev_inv {} None s" and free: "rt_cq_locked s = {}" using assms(1) by (simp_all add: ev_good_def)
  consider "a \<in> set (rt_work_queue s)" | "a \<notin> set (rt_work_queue s)" "stat s a = CL_RUNNING"
    | "a \<notin> set (rt_work_queue s)" "stat s a \<noteq> CL_RUNNING" "live s a" "queue_of s a = None" "stat s a = CL_SUBMITTED"
    using assms(2) unfolding active_def status_defs by fastforce
  then have "legal (advance_op s a) s \<and>
    (\<exists>s'. perform (advance_op s a) s = Some s' \<and> ev_good s' \<and> advances a s s')"
  proof cases
    case 1
    then show ?thesis using exec_start_ok [OF inv 1] free by (auto simp: advance_op_def ev_good_def)
  next
    case 2
    then show ?thesis
      using finish_and_broadcast [OF inv free, of a] by (auto simp: advance_op_def ev_good_def CL_RUNNING_def)
  next
    case 3
    then show ?thesis
      using set_user_ok [OF inv free 3(3)] by (auto simp: advance_op_def ev_good_def CL_SUBMITTED_def)
  qed
  then show "legal (advance_op s a) s" "\<exists>s'. perform (advance_op s a) s = Some s' \<and> ev_good s' \<and> advances a s s'"
    by blast+
  show "in_scope (advance_op s a) s" by (simp add: advance_op_def)
qed

definition work_left :: "rt \<Rightarrow> nat" where
  "work_left s = (\<Sum>a < rt_next_id s. nat (stat s a))"

lemma advances_work_left:
  assumes "advances e s s'" and "ev_good s" and "0 < stat s e"
  shows "work_left s' < work_left s"
proof -
  have "status_inv None s" using assms(2) inv_parts(3) [of "{}" None s] by (simp add: ev_good_def)
  moreover have "live s e" using assms(3) not_live_views(3) by (cases "live s e") auto
  ultimately have "e < rt_next_id s" by (rule status_live(1))
  moreover have "rt_next_id s' = rt_next_id s" "nat (stat s' e) < nat (stat s e)" "nat (stat s' a) \<le> nat (stat s a)" for a
    using assms(1,3) by (auto simp: advances_def nat_mono zless_nat_conj)
  ultimately show ?thesis unfolding work_left_def by (metis finite_lessThan lessThan_iff sum_strict_mono_ex1)
qed

text \<open>Performing a list of operations, each one legal when its turn comes.\<close>

fun run :: "ev_op list \<Rightarrow> rt \<Rightarrow> rt option" where
  "run [] s = Some s"
| "run (x # xs) s = (if legal x s \<and> in_scope x s then perform x s \<bind> run xs else None)"

fun completes :: "ev_op \<Rightarrow> bool" where
  "completes (Start e) = True"
| "completes (Complete e) = True"
| "completes (Set_user e st) \<longleftrightarrow> st = CL_COMPLETE"
| "completes _ = False"

definition idle :: "rt \<Rightarrow> bool" where
  "idle s \<longleftrightarrow> (\<forall>q cq. rt_queues s q = Some cq \<longrightarrow> cq_events cq = [] \<and> cq_command_count cq = 0)"

lemma idle_if_finished:
  assumes "ev_good s" and "\<And>a. stat s a \<le> 0"
  shows "idle s"
  unfolding idle_def
proof (intro allI impI)
  fix q cq
  assume "rt_queues s q = Some cq"
  then have ci: "cq_inv None s q cq"
    using assms(1) inv_parts(4) [of "{}" None s] by (simp add: ev_good_def queue_inv_def)
  have "a \<notin> set (cq_events cq)" for a using cq_events(1) [OF ci] assms(2) [of a] by auto
  then show "cq_events cq = [] \<and> cq_command_count cq = 0"
    using cq_events(2) [OF ci] by (cases "cq_events cq") auto
qed

lemma good_drains:
  assumes "ev_good s"
  shows "\<exists>xs s'. list_all completes xs \<and> run xs s = Some s' \<and> ev_good s' \<and> idle s' \<and> length xs \<le> work_left s"
  using assms
proof (induction "work_left s" arbitrary: s rule: less_induct)
  case less
  show ?case
  proof (cases "\<exists>e. 0 < stat s e")
    case False
    then show ?thesis
      using less.prems idle_if_finished [OF less.prems] by (intro exI [of _ "[]"] exI [of _ s]) (auto simp: not_less)
  next
    case True
    then obtain a where a: "active s a" using unfinished_active [OF less.prems] by blast
    obtain s1 where s1: "perform (advance_op s a) s = Some s1" "ev_good s1" "advances a s s1"
      using advance_op_ok(3) [OF less.prems a] by blast
    have "0 < stat s a"
      using a less.prems inv_parts(3) [of "{}" None s]
      by (auto simp: active_def status_defs ev_good_def status_inv_def)
    then have lt: "work_left s1 < work_left s" using advances_work_left [OF s1(3) less.prems] by blast
    from less.hyps [OF this s1(2)] obtain xs s' where
      "list_all completes xs" "run xs s1 = Some s'" "ev_good s'" "idle s'" "length xs \<le> work_left s1" by blast
    then show ?thesis
      using advance_op_ok(1,2) [OF less.prems a] s1(1) lt
      by (intro exI [of _ "advance_op s a # xs"] exI [of _ s']) (auto simp: advance_op_def)
  qed
qed

lemma run_reachable: "ev_reachable qs s \<Longrightarrow> run xs s = Some s' \<Longrightarrow> ev_reachable qs s'"
proof (induction xs arbitrary: s)
  case (Cons x xs)
  then obtain s1 where "legal x s" "in_scope x s" "perform x s = Some s1" "run xs s1 = Some s'"
    by (auto split: if_splits bind_splits)
  with Cons show ?case using ev_reachable.step [OF _ ev_step.step] by blast
qed simp

lemma ordered_log_split:
  "ordered_log (l1 @ Started e # l2) \<Longrightarrow> list_all (finished_in l2) (must_precede l2 e)"
  by (induction l1 rule: ordered_log.induct) auto

section \<open>Properties\<close>

declare pocl_broadcast.simps [code]

text \<open>
  C19: As long as no user event is set to a negative status and fewer than $2^{32}$ events are created, every
  operation the application or a worker may do in a reachable state succeeds: no lock is taken twice, no freed
  event is touched and no assertion of the event code fails. Setting a status that is not one of completion and
  setting the status of an event that is not a pending user event are among these operations.
\<close>

theorem event_operations_never_fail:
  assumes "ev_reachable qs s" and "legal x s" and "in_scope x s"
  shows "\<exists>s'. perform x s = Some s' \<and> ev_reachable qs s' \<and> rt_locked s' = {} \<and> rt_cq_locked s' = {}"
proof -
  obtain s' where s': "perform x s = Some s'" "ev_good s'"
    using perform_good [OF reachable_good [OF assms(1)] assms(2,3)] by blast
  then show ?thesis
    using ev_reachable.step [OF assms(1) ev_step.step [OF assms(2,3) s'(1)]] inv_parts(1) by (auto simp: ev_good_def)
qed

definition demo_init :: rt where "demo_init = rt_init [0 \<mapsto> False, 1 \<mapsto> True]"

lemma event_operations_never_fail_witness:
  "\<exists>s'. perform (Enqueue 1 CL_COMMAND_BARRIER True []) demo_init = Some s' \<and> rt_work_queue s' = [0] \<and> rt_locked s' = {}"
proof -
  have "legal (Enqueue 1 CL_COMMAND_BARRIER True []) demo_init" "in_scope (Enqueue 1 CL_COMMAND_BARRIER True []) demo_init"
    by (simp_all add: demo_init_def rt_init_def)
  from event_operations_never_fail [OF ev_reachable.init this [unfolded demo_init_def]]
  obtain s' where s': "perform (Enqueue 1 CL_COMMAND_BARRIER True []) demo_init = Some s'" "rt_locked s' = {}"
    unfolding demo_init_def by blast
  moreover have "map_option rt_work_queue (perform (Enqueue 1 CL_COMMAND_BARRIER True []) demo_init) = Some [0]"
    by code_simp
  ultimately show ?thesis by (metis option.map(2) option.inject)
qed

text \<open>
  C18: In runs without failures commands start in the order the queues promise. When a command starts, these have
  finished: the events of its wait list; all commands enqueued before it in its queue, if the queue is in order or
  the command is a marker or a barrier without wait list; and, unless the command is a barrier itself, the one
  barrier enqueued last before it. A barrier with a wait list waits for no barrier, nor for any other command
  outside its list in an out-of-order queue.
\<close>

theorem commands_start_in_order:
  assumes "ev_reachable qs s" and "rt_log s = later @ Started e # earlier"
  shows "list_all (finished_in earlier) (must_precede earlier e)"
proof -
  have "ev_inv {} None s" using reachable_good [OF assms(1)] by (simp add: ev_good_def)
  then have "ordered_log (rt_log s)" using inv_parts(5) log_facts(1) by blast
  then show ?thesis using assms(2) ordered_log_split by simp
qed

definition demo_ops :: "ev_op list" where
  "demo_ops = [Create_user, Enqueue 0 (CL_COMMAND_OTHER 0) True [0], Enqueue 0 (CL_COMMAND_OTHER 1) False [],
     Set_user 0 0, Start 1, Complete 1, Start 2]"

definition demo_log :: "log_item list" where
  "demo_log = [Finished 1 0, Started 1, Finished 0 0,
     Enqueued 2 0 False (CL_COMMAND_OTHER 1) False [], Enqueued 1 0 False (CL_COMMAND_OTHER 0) False [0]]"

lemma demo_run: "map_option rt_log (run demo_ops demo_init) = Some (Started 2 # demo_log)"
  by code_simp

lemma commands_start_in_order_witness:
  "list_all (finished_in demo_log) (must_precede demo_log 2) \<and> must_precede demo_log 2 = [1]"
proof -
  obtain s where s: "run demo_ops demo_init = Some s" "rt_log s = Started 2 # demo_log" using demo_run by auto
  have "ev_reachable [0 \<mapsto> False, 1 \<mapsto> True] s"
    by (rule run_reachable [OF ev_reachable.init]) (use s(1) in \<open>simp add: demo_init_def\<close>)
  from commands_start_in_order [OF this, of "[]" 2 demo_log] s(2)
  have "list_all (finished_in demo_log) (must_precede demo_log 2)" by simp
  moreover have "must_precede demo_log 2 = [1]" by code_simp
  ultimately show ?thesis by blast
qed

text \<open>
  C20: No notification is lost in runs without failures. From every state such a run reaches, the workers and the
  completion of pending user events alone, in a number of steps bounded by the unfinished work, empty every queue
  and bring every command count to 0, the condition \<open>clFinish\<close> waits for; and in such a state an unfinished command
  always depends on an event that can be advanced now.
\<close>

theorem queues_drain:
  assumes "ev_reachable qs s"
  shows "(\<exists>xs s'. list_all completes xs \<and> length xs \<le> 3 * rt_next_id s \<and> run xs s = Some s' \<and> idle s') \<and>
    (stat s e \<le> 0 \<or> (\<exists>a \<le> e. active s a))"
proof -
  note good = reachable_good [OF assms]
  have "stat s e \<le> 0 \<or> (\<exists>a \<le> e. active s a)" using unfinished_active [OF good, of e] by (cases "0 < stat s e") auto
  moreover
  have "status_inv None s" using good inv_parts(3) [of "{}" None s] by (simp add: ev_good_def)
  then have "stat s a \<le> 3" for a
    using status_live(4) [of None s a] not_live_views(3) [of s a] by (cases "live s a") auto
  then have "work_left s \<le> (\<Sum>a < rt_next_id s. 3)" unfolding work_left_def by (intro sum_mono) (simp add: nat_le_iff)
  then have "\<exists>xs s'. list_all completes xs \<and> length xs \<le> 3 * rt_next_id s \<and> run xs s = Some s' \<and> idle s'"
    using good_drains [OF good] by (fastforce intro: order_trans)
  ultimately show ?thesis by blast
qed

lemma queues_drain_witness:
  "\<exists>s xs s'. run (take 3 demo_ops) demo_init = Some s \<and> 0 < stat s 2 \<and> list_all completes xs \<and> run xs s = Some s' \<and> idle s'"
proof -
  have "map_option (\<lambda>s. stat s 2) (run (take 3 demo_ops) demo_init) = Some 3" by code_simp
  then obtain s where s: "run (take 3 demo_ops) demo_init = Some s" "stat s 2 = 3" by auto
  have "ev_reachable [0 \<mapsto> False, 1 \<mapsto> True] s"
    by (rule run_reachable [OF ev_reachable.init]) (use s(1) in \<open>simp add: demo_init_def\<close>)
  from queues_drain [OF this, of 2] s show ?thesis by (metis zero_less_numeral)
qed

section \<open>Defects\<close>

text \<open>
  A command whose event the application did not ask for is destroyed while its failure is being
  reported: setting the user event it waits for to a negative status makes the runtime lock the freed
  event. If the application holds the event, the failure is recorded instead.
\<close>

theorem failed_user_event_frees_waiter:
  "(perform (Enqueue 1 (CL_COMMAND_OTHER 0) False [0]) (snd (clCreateUserEvent demo_init)) \<bind> clSetUserEventStatus 0 (- 5)) = None \<and>
   map_option (\<lambda>(r, s). (r, stat s 1, take 2 (rt_log s)))
     (perform (Enqueue 1 (CL_COMMAND_OTHER 0) True [0]) (snd (clCreateUserEvent demo_init)) \<bind> clSetUserEventStatus 0 (- 5)) =
   Some (CL_SUCCESS, - 1, [Finished 1 (- 1), Finished 0 (- 5)])"
  by (intro conjI; code_simp)

text \<open>
  A failed event in a wait list is waited for all the same: a command enqueued after its user event
  was set to a negative status stays queued behind an event that will never be broadcast again, while
  nothing is left to run.
\<close>

theorem enqueue_after_failure_stalls:
  "map_option (\<lambda>s. (waits s 1, stat s 1, filter (active s) [0..<rt_next_id s], map_option cq_command_count (rt_queues s 1)))
     (clSetUserEventStatus 0 (- 5) (snd (clCreateUserEvent demo_init)) \<bind>
      (\<lambda>(r, s). perform (Enqueue 1 (CL_COMMAND_OTHER 0) True [0]) s)) =
   Some ([0], 3, [], Some 1)"
  by code_simp

text \<open>
  A barrier with a wait list replaces an earlier barrier in the queue without waiting for it: in an
  out-of-order queue a command enqueued after both starts while the first barrier has not finished.
\<close>

theorem barrier_overtakes_barrier:
  "map_option rt_log
    (run [Enqueue 1 (CL_COMMAND_OTHER 0) True [], Create_user, Set_user 1 CL_COMPLETE, Enqueue 1 CL_COMMAND_BARRIER False [],
       Create_user, Enqueue 1 CL_COMMAND_BARRIER False [3], Set_user 3 CL_COMPLETE, Start 4, Complete 4,
       Enqueue 1 (CL_COMMAND_OTHER 1) False [], Start 5] demo_init) =
   Some [Started 5, Enqueued 5 1 True (CL_COMMAND_OTHER 1) False [], Finished 4 0, Started 4, Finished 3 0,
     Enqueued 4 1 True CL_COMMAND_BARRIER True [3], Enqueued 2 1 True CL_COMMAND_BARRIER False [], Finished 1 0,
     Enqueued 0 1 True (CL_COMMAND_OTHER 0) False []]"
  by code_simp

end
