(* ===== verification/CStrings.thy ===== *)
theory CStrings
  imports Pocl_Prelude
begin

text \<open>
  C strings and byte sequences: string literals, the decimal output of \<open>%zu\<close>, the length check that
  follows the runtime's \<open>snprintf\<close> calls, and little-endian integers. A \<open>char *\<close> that points to a
  terminated string is the list of its bytes without the terminator; \<open>NULL\<close> is \<^const>\<open>None\<close>.
\<close>

type_synonym bytes = "8 word list"

definition cstr :: "string \<Rightarrow> bytes" where
  "cstr = map of_char"

definition POCL_FILENAME_LENGTH :: nat where
  "POCL_FILENAME_LENGTH = 1024"

text \<open>
  \<open>snprintf\<close> into a path buffer with the assertion that the output was neither empty nor cut off.
\<close>

definition snprintf_path :: "bytes \<Rightarrow> bytes option" where
  "snprintf_path s = (if 0 < length s \<and> length s < POCL_FILENAME_LENGTH then Some s else None)"

section \<open>Decimal numbers\<close>

fun dec :: "nat \<Rightarrow> bytes" where
  "dec n = (if n < 10 then [48 + of_nat n] else dec (n div 10) @ [48 + of_nat (n mod 10)])"

declare dec.simps [simp del]

definition digit :: "8 word \<Rightarrow> bool" where
  "digit b \<longleftrightarrow> 48 \<le> b \<and> b \<le> 57"

definition dec_value :: "bytes \<Rightarrow> nat" where
  "dec_value = foldl (\<lambda>v b. 10 * v + unat (b - 48)) 0"

lemma digit_of_nat:
  assumes "k < 10"
  shows "digit (48 + of_nat k)" "unat (48 + of_nat k - 48 :: 8 word) = k"
proof -
  have "unat (of_nat k :: 8 word) = k" using assms by (simp add: unat_of_nat)
  then have "unat (48 + of_nat k :: 8 word) = 48 + k" using assms by (simp add: unat_word_ariths(1))
  then show "digit (48 + of_nat k)" using assms by (simp add: digit_def word_le_nat_alt)
  show "unat (48 + of_nat k - 48 :: 8 word) = k" using assms by (simp add: unat_of_nat)
qed

lemma dec_digits: "list_all digit (dec n)"
proof (induction n rule: dec.induct)
  case (1 n)
  then show ?case
    using digit_of_nat(1) [of n] digit_of_nat(1) [of "n mod 10"] by (subst dec.simps) (auto simp: list_all_iff)
qed

lemma dec_value_dec [simp]: "dec_value (dec n) = n"
proof (induction n rule: dec.induct)
  case (1 n)
  then show ?case
    using digit_of_nat(2) [of n] digit_of_nat(2) [of "n mod 10"]
    by (subst dec.simps) (auto simp: dec_value_def)
qed

lemma dec_inject [simp]: "dec m = dec n \<longleftrightarrow> m = n"
  using dec_value_dec by metis

text \<open>
  Two concatenations whose first parts consist of bytes of a class, and whose second parts do not start
  with one, agree only if the parts agree.
\<close>

definition stops :: "('a \<Rightarrow> bool) \<Rightarrow> 'a list \<Rightarrow> bool" where
  "stops P r \<longleftrightarrow> r = [] \<or> \<not> P (hd r)"

lemma append_stops_eq:
  assumes "list_all P xs" "list_all P ys" "stops P r" "stops P r'"
  shows "xs @ r = ys @ r' \<longleftrightarrow> xs = ys \<and> r = r'"
proof
  assume eq: "xs @ r = ys @ r'"
  have tw: "takeWhile P (zs @ t) = zs" if "list_all P zs" "stops P t" for zs t
  proof -
    have "takeWhile P t = []" using that(2) by (cases t) (auto simp: stops_def)
    then show ?thesis using that(1) by (simp add: takeWhile_append list_all_iff)
  qed
  have "xs = ys" using tw assms eq by metis
  then show "xs = ys \<and> r = r'" using eq by simp
qed simp

lemma stops_Cons [simp]: "stops P (x # r) \<longleftrightarrow> \<not> P x" "stops P []"
  by (simp_all add: stops_def)

lemma dec_append_eq:
  assumes "stops digit r" "stops digit r'"
  shows "dec m @ r = dec n @ r' \<longleftrightarrow> m = n \<and> r = r'"
  using append_stops_eq [OF dec_digits dec_digits assms] by simp

section \<open>Little-endian integers\<close>

fun le_bytes :: "nat \<Rightarrow> 'a::len word \<Rightarrow> bytes" where
  "le_bytes 0 w = []"
| "le_bytes (Suc n) w = ucast w # le_bytes n (drop_bit 8 w)"

fun le_value :: "bytes \<Rightarrow> 'a::len word" where
  "le_value [] = 0"
| "le_value (b # bs) = or (ucast b) (push_bit 8 (le_value bs))"

lemma length_le_bytes [simp]: "length (le_bytes n w) = n"
  by (induction n arbitrary: w) auto

lemma le_value_le_bytes: "le_value (le_bytes n w) = take_bit (8 * n) w"
proof (induction n arbitrary: w)
  case (Suc n)
  have "or (ucast (ucast w :: 8 word)) (push_bit 8 (take_bit (8 * n) (drop_bit 8 w))) = take_bit (8 * Suc n) w"
    by (rule bit_word_eqI) (auto simp: bit_simps)
  then show ?case using Suc by simp
qed simp

lemma le_roundtrip [simp]: "LENGTH('a) \<le> 8 * n \<Longrightarrow> le_value (le_bytes n w) = (w :: 'a::len word)"
  by (simp add: le_value_le_bytes take_bit_word_eq_self)

end
