(* ===== verification/PoclHash.thy ===== *)
theory PoclHash
  imports CStrings
begin

text \<open>
  The SHA-1 routines of \<open>pocl_hash.c\<close>, which give programs and kernels their names in the disk cache and in
  binaries, on a little-endian machine: the unrolled transformation with its circular message schedule, the
  buffered update and the padding. They are shown equivalent to SHA-1 as the standard (FIPS 180-4, section 6.1)
  defines it, for any division of the input into calls of update.
\<close>

section \<open>The transformation\<close>

type_synonym chain = "32 word \<times> 32 word \<times> 32 word \<times> 32 word \<times> 32 word"

definition rol :: "32 word \<Rightarrow> nat \<Rightarrow> 32 word" where
  "rol v bits = push_bit bits v OR drop_bit (32 - bits) v"

text \<open>\<open>block.l\<close> is a list of 16 words; \<open>blk0\<close> and \<open>blk\<close> return the word and the changed block.\<close>

definition blk0 :: "nat \<Rightarrow> 32 word list \<Rightarrow> 32 word \<times> 32 word list" where
  "blk0 i l =
     (let w = (rol (l ! i) 24 AND 0xFF00FF00) OR (rol (l ! i) 8 AND 0x00FF00FF) in (w, l[i := w]))"

definition blk :: "nat \<Rightarrow> 32 word list \<Rightarrow> 32 word \<times> 32 word list" where
  "blk i l =
     (let w = rol (l ! ((i + 13) mod 16) XOR l ! ((i + 8) mod 16) XOR l ! ((i + 2) mod 16) XOR l ! (i mod 16)) 1
      in (w, l[i mod 16 := w]))"

text \<open>
  The round macros update two of the five variables in place; the next macro call names them rotated by one
  position, which the tuple returned does.
\<close>

definition round_step :: "32 word \<Rightarrow> 32 word \<Rightarrow> 32 word \<Rightarrow> chain \<Rightarrow> chain" where
  "round_step mix b konst s =
     (case s of (v, w, x, y, z) \<Rightarrow> (z + (mix + b + konst + rol v 5), v, rol w 30, x, y))"

definition R0 :: "nat \<Rightarrow> chain \<times> 32 word list \<Rightarrow> chain \<times> 32 word list" where
  "R0 i sl = (case sl of ((v, w, x, y, z), l) \<Rightarrow> case blk0 i l of (b, l) \<Rightarrow>
     (round_step ((w AND (x XOR y)) XOR y) b 0x5A827999 (v, w, x, y, z), l))"

definition R1 :: "nat \<Rightarrow> chain \<times> 32 word list \<Rightarrow> chain \<times> 32 word list" where
  "R1 i sl = (case sl of ((v, w, x, y, z), l) \<Rightarrow> case blk i l of (b, l) \<Rightarrow>
     (round_step ((w AND (x XOR y)) XOR y) b 0x5A827999 (v, w, x, y, z), l))"

definition R2 :: "nat \<Rightarrow> chain \<times> 32 word list \<Rightarrow> chain \<times> 32 word list" where
  "R2 i sl = (case sl of ((v, w, x, y, z), l) \<Rightarrow> case blk i l of (b, l) \<Rightarrow>
     (round_step (w XOR x XOR y) b 0x6ED9EBA1 (v, w, x, y, z), l))"

definition R3 :: "nat \<Rightarrow> chain \<times> 32 word list \<Rightarrow> chain \<times> 32 word list" where
  "R3 i sl = (case sl of ((v, w, x, y, z), l) \<Rightarrow> case blk i l of (b, l) \<Rightarrow>
     (round_step (((w OR x) AND y) OR (w AND x)) b 0x8F1BBCDC (v, w, x, y, z), l))"

definition R4 :: "nat \<Rightarrow> chain \<times> 32 word list \<Rightarrow> chain \<times> 32 word list" where
  "R4 i sl = (case sl of ((v, w, x, y, z), l) \<Rightarrow> case blk i l of (b, l) \<Rightarrow>
     (round_step (w XOR x XOR y) b 0xCA62C1D6 (v, w, x, y, z), l))"

definition add5 :: "chain \<Rightarrow> chain \<Rightarrow> chain" where
  "add5 s t = (case s of (s0, s1, s2, s3, s4) \<Rightarrow> case t of (a, b, c, d, e) \<Rightarrow>
     (s0 + a, s1 + b, s2 + c, s3 + d, s4 + e))"

text \<open>\<open>memcpy\<close> of 64 bytes into the union, read as words.\<close>

definition load_block :: "bytes \<Rightarrow> 32 word list" where
  "load_block buf = map (\<lambda>i. le_value (take 4 (drop (4 * i) buf))) [0..<16]"

definition SHA1_Transform :: "chain \<Rightarrow> bytes \<Rightarrow> chain" where
  "SHA1_Transform st buf =
     (let sl = fold R0 [0..<16] (st, load_block buf);
          sl = fold R1 [16..<20] sl;
          sl = fold R2 [20..<40] sl;
          sl = fold R3 [40..<60] sl;
          sl = fold R4 [60..<80] sl
      in add5 st (fst sl))"

section \<open>The context\<close>

record SHA1_CTX =
  ctx_state :: chain
  count0 :: "32 word"
  count1 :: "32 word"
  ctx_buffer :: bytes

definition pocl_SHA1_Init :: "SHA1_CTX \<Rightarrow> SHA1_CTX" where
  "pocl_SHA1_Init ctx =
     ctx\<lparr>ctx_state := (0x67452301, 0xEFCDAB89, 0x98BADCFE, 0x10325476, 0xC3D2E1F0), count0 := 0, count1 := 0\<rparr>"

text \<open>
  The bit counter: \<open>count[0]\<close> has 32 bits, \<open>len << 3\<close> has 64, and the sum is compared after it has been cut off.
\<close>

definition add_count :: "32 word \<Rightarrow> 32 word \<Rightarrow> size_t \<Rightarrow> 32 word \<times> 32 word" where
  "add_count c0 c1 len =
     (let bits = push_bit 3 len;
          c0 = ucast (ucast c0 + bits :: size_t);
          c1 = (if (ucast c0 :: size_t) < bits then c1 + 1 else c1)
      in (c0, c1 + ucast (drop_bit 29 len)))"

text \<open>The loop over the full blocks of the data, with the data that is left.\<close>

function transform_blocks :: "chain \<Rightarrow> bytes \<Rightarrow> chain \<times> bytes" where
  "transform_blocks st data =
     (if length data < 64 then (st, data) else transform_blocks (SHA1_Transform st (take 64 data)) (drop 64 data))"
  by auto
termination by (relation "measure (length \<circ> snd)") auto

declare transform_blocks.simps [simp del]

definition pocl_SHA1_Update :: "SHA1_CTX \<Rightarrow> bytes \<Rightarrow> SHA1_CTX" where
  "pocl_SHA1_Update ctx data =
     (let len = of_nat (length data) :: size_t;
          j = unat (drop_bit 3 (count0 ctx) AND 63);
          (c0, c1) = add_count (count0 ctx) (count1 ctx) len;
          ctx = ctx\<lparr>count0 := c0, count1 := c1\<rparr>
      in if of_nat j + len > 63
         then let buf = take j (ctx_buffer ctx) @ take (64 - j) data;
                  (st, rest) = transform_blocks (SHA1_Transform (ctx_state ctx) buf) (drop (64 - j) data)
              in ctx\<lparr>ctx_state := st, ctx_buffer := rest @ drop (length rest) buf\<rparr>
         else ctx\<lparr>ctx_buffer := take j (ctx_buffer ctx) @ data @ drop (j + length data) (ctx_buffer ctx)\<rparr>)"

definition be_bytes :: "32 word \<Rightarrow> bytes" where
  "be_bytes w = map (\<lambda>i. ucast (drop_bit ((3 - i) * 8) w)) [0..<4]"

lemma mod_mult_div: "0 < a \<Longrightarrow> (x mod (a * b)) div a = (x div a) mod (b :: nat)"
  by (simp add: mod_mult2_eq)

lemma unat_six_bits: "unat (take_bit 6 (drop_bit 3 c)) = unat c div 8 mod 64" for c :: "32 word"
proof -
  have "unat (take_bit 6 (drop_bit 3 c)) = take_bit 6 (drop_bit 3 (unat c))"
    by (simp only: unsigned_take_bit_eq unsigned_drop_bit_eq take_bit_nat_eq_self [OF unsigned_less [of c, where 'a = nat]])
  then show ?thesis by (simp only: take_bit_eq_mod drop_bit_eq_div) simp
qed

lemma unat_and_504: "unat (c AND 504 :: 32 word) = 8 * (unat c div 8 mod 64)"
proof -
  have "(504 :: 32 word) = push_bit 3 (mask 6)" by (simp add: mask_eq_exp_minus_1)
  then have c: "c AND 504 = push_bit 3 (take_bit 6 (drop_bit 3 c))"
    by (simp only: bit_eq_iff bit_simps) (auto simp: bit_imp_le_length)
  have "unat (push_bit 3 w) = 8 * unat w" if "unat w < 64" for w :: "32 word"
    using that unfolding unsigned_push_bit_eq by (simp add: take_bit_eq_mod push_bit_eq_mult)
  moreover have "unat (take_bit 6 (drop_bit 3 c)) < 64" unfolding unat_six_bits by simp
  ultimately have "unat (push_bit 3 (take_bit 6 (drop_bit 3 c))) = 8 * (unat c div 8 mod 64)"
    by (simp only: unat_six_bits)
  then show ?thesis unfolding c .
qed

lemma div_8_mod_64: "unat (c + 8 :: 32 word) div 8 mod 64 = (unat c div 8 + 1) mod 64"
proof -
  have "unat (c + 8) = (unat c + 8) mod (8 * 2 ^ 29)" by (simp add: unat_word_ariths(1))
  then have "unat (c + 8) div 8 = (unat c + 8) div 8 mod 2 ^ 29" by (simp only: mod_mult_div)
  moreover have "(unat c + 8) div 8 = unat c div 8 + 1" by simp
  ultimately show ?thesis by (simp add: mod_mod_cancel)
qed

text \<open>The number of zero bytes that are still to come.\<close>

definition zeros_left :: "32 word \<Rightarrow> nat" where
  "zeros_left c = (56 + 64 - unat c div 8 mod 64) mod 64"

lemma cyclic_less:
  assumes "q < 64" and "q \<noteq> 56"
  shows "(56 + 64 - (q + 1) mod 64) mod 64 < (56 + 64 - q) mod (64 :: nat)"
proof -
  have "\<forall>q \<in> set [0..<64]. q \<noteq> 56 \<longrightarrow> (56 + 64 - (q + 1) mod 64) mod 64 < (56 + 64 - q) mod (64 :: nat)"
    by code_simp
  moreover have "q \<in> set [0..<64]" using assms(1) by (simp only: set_upt atLeastLessThan_iff le0 simp_thms)
  ultimately show ?thesis using assms(2) by blast
qed

lemma zeros_left_step:
  assumes "c AND 504 \<noteq> 448"
  shows "zeros_left (c + 8) < zeros_left c"
proof -
  define q where "q = unat c div 8 mod 64"
  have "q \<noteq> 56"
  proof
    assume "q = 56"
    then have "unat (c AND 504) = unat (448 :: 32 word)" by (simp add: unat_and_504 q_def)
    then have "c AND 504 = 448" by (rule unsigned_word_eqI)
    then show False using assms by blast
  qed
  moreover have "q < 64" by (simp add: q_def)
  moreover have "unat (c + 8) div 8 mod 64 = (q + 1) mod 64" unfolding div_8_mod_64 q_def by (simp add: mod_Suc_eq)
  ultimately have "q \<noteq> 56" "q < 64" and next_q: "unat (c + 8) div 8 mod 64 = (q + 1) mod 64" by blast+
  have z: "zeros_left (c + 8) = (56 + 64 - (q + 1) mod 64) mod 64" "zeros_left c = (56 + 64 - q) mod 64"
    unfolding zeros_left_def next_q by (simp_all only: q_def)
  show ?thesis unfolding z by (rule cyclic_less) (use \<open>q \<noteq> 56\<close> \<open>q < 64\<close> in auto)
qed

lemma update_count0: "count0 (pocl_SHA1_Update ctx data) = fst (add_count (count0 ctx) (count1 ctx) (of_nat (length data)))"
  by (simp add: pocl_SHA1_Update_def Let_def split: prod.split)

lemma cut_sum: "ucast (ucast c + b :: size_t) = c + (ucast b :: 32 word)"
proof (rule unsigned_word_eqI [where 'a = nat])
  have "(x mod 2 ^ 64) mod 2 ^ 32 = x mod 2 ^ 32" for x :: nat by (rule mod_mod_cancel) simp
  then show "unat (ucast (ucast c + b :: size_t) :: 32 word) = unat (c + ucast b)"
    by (simp add: unat_word_ariths(1) unsigned_ucast_eq take_bit_eq_mod mod_simps)
qed

lemma add_count_1: "fst (add_count c0 c1 1) = c0 + 8"
  by (simp add: add_count_def Let_def cut_sum)

function pad_loop :: "SHA1_CTX \<Rightarrow> SHA1_CTX" where
  "pad_loop ctx = (if count0 ctx AND 504 \<noteq> 448 then pad_loop (pocl_SHA1_Update ctx [0]) else ctx)"
  by auto
termination
  by (relation "measure (zeros_left \<circ> count0)") (auto simp: update_count0 add_count_1 zeros_left_step)

declare pad_loop.simps [simp del]

text \<open>The digest, and the context wiped.\<close>

definition pocl_SHA1_Final :: "SHA1_CTX \<Rightarrow> bytes \<times> SHA1_CTX" where
  "pocl_SHA1_Final ctx =
     (let finalcount = be_bytes (count1 ctx) @ be_bytes (count0 ctx);
          ctx = pad_loop (pocl_SHA1_Update ctx [0x80]);
          ctx = pocl_SHA1_Update ctx finalcount;
          digest = (case ctx_state ctx of (a, b, c, d, e) \<Rightarrow> concat (map be_bytes [a, b, c, d, e]))
      in (digest, \<lparr>ctx_state = (0, 0, 0, 0, 0), count0 = 0, count1 = 0, ctx_buffer = replicate 64 0\<rparr>))"

section \<open>SHA-1 as the standard defines it\<close>

definition Ch :: "32 word \<Rightarrow> 32 word \<Rightarrow> 32 word \<Rightarrow> 32 word" where
  "Ch x y z = (x AND y) XOR (NOT x AND z)"

definition Parity :: "32 word \<Rightarrow> 32 word \<Rightarrow> 32 word \<Rightarrow> 32 word" where
  "Parity x y z = x XOR y XOR z"

definition Maj :: "32 word \<Rightarrow> 32 word \<Rightarrow> 32 word \<Rightarrow> 32 word" where
  "Maj x y z = (x AND y) XOR (x AND z) XOR (y AND z)"

definition sha1_f :: "nat \<Rightarrow> 32 word \<Rightarrow> 32 word \<Rightarrow> 32 word \<Rightarrow> 32 word" where
  "sha1_f t = (if t < 20 then Ch else if t < 40 then Parity else if t < 60 then Maj else Parity)"

definition sha1_K :: "nat \<Rightarrow> 32 word" where
  "sha1_K t = (if t < 20 then 0x5A827999 else if t < 40 then 0x6ED9EBA1 else if t < 60 then 0x8F1BBCDC else 0xCA62C1D6)"

definition be_word :: "bytes \<Rightarrow> 32 word" where
  "be_word bs = foldl (\<lambda>w b. push_bit 8 w OR ucast b) 0 bs"

text \<open>The message schedule of a block of 64 bytes.\<close>

fun sha1_W :: "bytes \<Rightarrow> nat \<Rightarrow> 32 word" where
  "sha1_W M t =
     (if t < 16 then be_word (take 4 (drop (4 * t) M))
      else word_rotl 1 (sha1_W M (t - 3) XOR sha1_W M (t - 8) XOR sha1_W M (t - 14) XOR sha1_W M (t - 16)))"

declare sha1_W.simps [simp del]

definition sha1_step :: "bytes \<Rightarrow> chain \<Rightarrow> nat \<Rightarrow> chain" where
  "sha1_step M s t = (case s of (a, b, c, d, e) \<Rightarrow>
     (word_rotl 5 a + sha1_f t b c d + e + sha1_K t + sha1_W M t, a, word_rotl 30 b, c, d))"

definition sha1_block :: "chain \<Rightarrow> bytes \<Rightarrow> chain" where
  "sha1_block H M = add5 H (foldl (sha1_step M) H [0..<80])"

definition sha1_pad :: "bytes \<Rightarrow> bytes" where
  "sha1_pad m = m @ [0x80] @ replicate ((119 - length m mod 64) mod 64) 0 @
     rev (le_bytes 8 (of_nat (8 * length m) :: 64 word))"

definition sha1_H0 :: chain where
  "sha1_H0 = (0x67452301, 0xEFCDAB89, 0x98BADCFE, 0x10325476, 0xC3D2E1F0)"

definition sha1 :: "bytes \<Rightarrow> bytes" where
  "sha1 m =
     (let p = sha1_pad m;
          (a, b, c, d, e) = foldl (\<lambda>H i. sha1_block H (take 64 (drop (64 * i) p))) sha1_H0 [0..<length p div 64]
      in concat (map be_bytes [a, b, c, d, e]))"

section \<open>The transformation computes the block function of the standard\<close>

lemma rol_rotl:
  assumes "0 < n" "n < 32"
  shows "rol v n = word_rotl n v"
proof (rule bit_word_eqI)
  fix i assume "i < LENGTH(32)"
  then have i: "i < 32" by simp
  have m: "n mod 32 = n" using assms by simp
  have rotl: "bit (word_rotl n v) i \<longleftrightarrow> bit v ((i + (32 - n)) mod 32)" using i by (simp add: bit_word_rotl_iff m)
  have r: "bit (rol v n) i \<longleftrightarrow> n \<le> i \<and> bit v (i - n) \<or> bit v (32 - n + i)"
    using i by (simp add: rol_def bit_or_iff bit_push_bit_iff bit_drop_bit_eq)
  show "bit (rol v n) i \<longleftrightarrow> bit (word_rotl n v) i"
  proof (cases "n \<le> i")
    case True
    then have "i + (32 - n) = i - n + 32" using assms by simp
    moreover have "i - n < 32" using i by simp
    ultimately have "(i + (32 - n)) mod 32 = i - n" by simp
    moreover have "\<not> bit v (32 - n + i)" using True assms by (auto dest: bit_imp_le_length)
    ultimately show ?thesis using True unfolding rotl r by simp
  next
    case False
    then have "(i + (32 - n)) mod 32 = 32 - n + i" using i by simp
    then show ?thesis using False unfolding rotl r by simp
  qed
qed

lemma bit_rol:
  assumes "0 < n" "n < 32" "i < 32"
  shows "bit (rol v n) i \<longleftrightarrow> bit v (if n \<le> i then i - n else 32 - n + i)"
proof -
  have "\<not> bit v (32 - n + i)" if "n \<le> i" using that assms by (auto dest: bit_imp_le_length)
  then show ?thesis using assms(3) by (auto simp: rol_def bit_or_iff bit_push_bit_iff bit_drop_bit_eq)
qed

lemma Ch_trick: "(w AND (x XOR y)) XOR y = Ch w x y"
  by (rule bit_word_eqI) (auto simp: Ch_def bit_simps)

lemma Maj_trick: "((w OR x) AND y) OR (w AND x) = Maj w x y"
  by (rule bit_word_eqI) (auto simp: Maj_def bit_simps)

lemma less_32_cases: "n < 32 \<Longrightarrow> n < 8 \<or> (8 \<le> n \<and> n < 16) \<or> (16 \<le> n \<and> n < 24) \<or> (24 \<le> n \<and> n < (32 :: nat))"
  by linarith

lemma mask_bits: "n < 32 \<Longrightarrow> bit (0xFF00FF00 :: 32 word) n \<longleftrightarrow> (8 \<le> n \<and> n < 16) \<or> 24 \<le> n"
  "n < 32 \<Longrightarrow> bit (0x00FF00FF :: 32 word) n \<longleftrightarrow> n < 8 \<or> (16 \<le> n \<and> n < 24)"
proof -
  have 1: "(0xFF00FF00 :: 32 word) = push_bit 8 (mask 8) OR push_bit 24 (mask 8)"
    and 2: "(0x00FF00FF :: 32 word) = mask 8 OR push_bit 16 (mask 8)" by (simp_all add: mask_eq_exp_minus_1)
  show "n < 32 \<Longrightarrow> bit (0xFF00FF00 :: 32 word) n \<longleftrightarrow> (8 \<le> n \<and> n < 16) \<or> 24 \<le> n"
    unfolding 1 by (auto simp: bit_or_iff bit_push_bit_iff bit_mask_iff)
  show "n < 32 \<Longrightarrow> bit (0x00FF00FF :: 32 word) n \<longleftrightarrow> n < 8 \<or> (16 \<le> n \<and> n < 24)"
    unfolding 2 by (auto simp: bit_or_iff bit_push_bit_iff bit_mask_iff)
qed

lemma byte_swap:
  "(rol (le_value [a, b, c, d]) 24 AND 0xFF00FF00) OR (rol (le_value [a, b, c, d]) 8 AND 0x00FF00FF) = be_word [a, b, c, d]"
proof (rule bit_word_eqI)
  fix n assume "n < LENGTH(32)"
  then have n: "n < 32" by simp
  have le: "bit (le_value [a, b, c, d] :: 32 word) k \<longleftrightarrow>
      (k < 8 \<and> bit a k) \<or> (8 \<le> k \<and> k < 16 \<and> bit b (k - 8)) \<or> (16 \<le> k \<and> k < 24 \<and> bit c (k - 16)) \<or>
      (24 \<le> k \<and> k < 32 \<and> bit d (k - 24))" for k
    by (auto simp: bit_or_iff bit_push_bit_iff bit_unsigned_iff dest: bit_imp_le_length)
  have be: "bit (be_word [a, b, c, d]) k \<longleftrightarrow>
      (k < 8 \<and> bit d k) \<or> (8 \<le> k \<and> k < 16 \<and> bit c (k - 8)) \<or> (16 \<le> k \<and> k < 24 \<and> bit b (k - 16)) \<or>
      (24 \<le> k \<and> k < 32 \<and> bit a (k - 24))" for k
    by (auto simp: be_word_def bit_or_iff bit_push_bit_iff bit_unsigned_iff dest: bit_imp_le_length)
  let ?x = "le_value [a, b, c, d] :: 32 word"
  have split: "bit ((rol ?x 24 AND 0xFF00FF00) OR (rol ?x 8 AND 0x00FF00FF)) n \<longleftrightarrow>
      (if (8 \<le> n \<and> n < 16) \<or> 24 \<le> n then bit (rol ?x 24) n else bit (rol ?x 8) n)"
    unfolding bit_or_iff bit_and_iff mask_bits [OF n] by auto
  have "bit (rol ?x 24) n \<longleftrightarrow> bit ?x (if 24 \<le> n then n - 24 else 8 + n)"
    "bit (rol ?x 8) n \<longleftrightarrow> bit ?x (if 8 \<le> n then n - 8 else 24 + n)"
    using n by (simp_all add: bit_rol)
  note split = split [unfolded this]
  show "bit ((rol ?x 24 AND 0xFF00FF00) OR (rol ?x 8 AND 0x00FF00FF)) n \<longleftrightarrow> bit (be_word [a, b, c, d]) n"
    using less_32_cases [OF n]
  proof (elim disjE conjE)
    assume n: "n < 8"
    then show ?thesis unfolding split be le by simp
  next
    assume n: "8 \<le> n" "n < 16"
    then have "8 + n - 16 = n - 8" by simp
    then show ?thesis using n unfolding split be le by simp
  next
    assume n: "16 \<le> n" "n < 24"
    then have "n - 8 - 8 = n - 16" "8 \<le> n - 8" "n - 8 < 16" by simp_all
    then show ?thesis using n unfolding split be le by simp
  next
    assume n: "24 \<le> n" "n < 32"
    then have "n - 24 < 8" by simp
    then show ?thesis using n unfolding split be le by simp
  qed
qed

lemma list4: "length xs = 4 \<Longrightarrow> \<exists>a b c d. xs = [a, b, c, d]"
  by (auto simp: numeral_eq_Suc length_Suc_conv)

lemma blk0_word:
  assumes "i < 16" "length M = 64" "l ! i = le_value (take 4 (drop (4 * i) M))"
  shows "blk0 i l = (sha1_W M i, l[i := sha1_W M i])"
proof -
  have "length (take 4 (drop (4 * i) M)) = 4" using assms by simp
  then obtain a b c d where "take 4 (drop (4 * i) M) = [a, b, c, d]" using list4 by blast
  then show ?thesis using assms byte_swap [of a b c d] by (simp add: blk0_def Let_def sha1_W.simps [of M i])
qed

text \<open>The circular block before round \<open>t\<close>: the last 16 words of the schedule, and the words not yet expanded.\<close>

definition sched :: "bytes \<Rightarrow> nat \<Rightarrow> 32 word list \<Rightarrow> bool" where
  "sched M t l \<longleftrightarrow> length l = 16 \<and> (\<forall>s < t. t \<le> s + 16 \<longrightarrow> l ! (s mod 16) = sha1_W M s) \<and>
     (\<forall>i < 16. t \<le> i \<longrightarrow> l ! i = le_value (take 4 (drop (4 * i) M)))"

lemma sched_start: "sched M 0 (load_block M)"
  by (simp add: sched_def load_block_def)

lemma mod_16_neq:
  assumes "s < t" "t < s + 16"
  shows "s mod 16 \<noteq> t mod (16 :: nat)"
proof
  assume "s mod 16 = t mod 16"
  then have "16 dvd t - s" using assms(1) by (metis less_or_eq_imp_le mod_eq_dvd_iff_nat)
  then have "16 \<le> t - s" using assms(1) by (intro dvd_imp_le) simp_all
  then show False using assms by linarith
qed

lemma sched_next:
  assumes "sched M t l"
  shows "sched M (Suc t) (l[t mod 16 := sha1_W M t])"
  using assms unfolding sched_def
  by (auto simp: less_Suc_eq nth_list_update dest: mod_16_neq)

lemma sched_blk0:
  assumes "sched M t l" "t < 16" "length M = 64"
  shows "blk0 t l = (sha1_W M t, l[t mod 16 := sha1_W M t])"
  using blk0_word [OF assms(2,3)] assms by (simp add: sched_def)

lemma sched_blk:
  assumes "sched M t l" "16 \<le> t"
  shows "blk t l = (sha1_W M t, l[t mod 16 := sha1_W M t])"
proof -
  have w: "l ! ((t - k) mod 16) = sha1_W M (t - k)" if "0 < k" "k \<le> 16" for k
    using assms that by (simp add: sched_def)
  have "(t + 13) mod 16 = (t - 3) mod 16" "(t + 8) mod 16 = (t - 8) mod 16" "(t + 2) mod 16 = (t - 14) mod 16"
    "t mod 16 = (t - 16) mod 16"
  proof -
    have "t + 13 = t - 3 + 16" "t + 8 = t - 8 + 16" "t + 2 = t - 14 + 16" using assms(2) by simp_all
    then show "(t + 13) mod 16 = (t - 3) mod 16" "(t + 8) mod 16 = (t - 8) mod 16" "(t + 2) mod 16 = (t - 14) mod 16"
      by (metis mod_add_self2)+
    show "t mod 16 = (t - 16) mod 16" using assms(2) by (simp add: le_mod_geq)
  qed
  then have "l ! ((t + 13) mod 16) = sha1_W M (t - 3)" "l ! ((t + 8) mod 16) = sha1_W M (t - 8)"
    "l ! ((t + 2) mod 16) = sha1_W M (t - 14)" "l ! (t mod 16) = sha1_W M (t - 16)"
    by (simp_all only: w [of 3, simplified] w [of 8, simplified] w [of 14, simplified] w [of 16, simplified])
  then show ?thesis using assms(2) sha1_W.simps [of M t] by (simp add: blk_def Let_def rol_rotl)
qed

definition macro :: "nat \<Rightarrow> chain \<times> 32 word list \<Rightarrow> chain \<times> 32 word list" where
  "macro t = (if t < 16 then R0 t else if t < 20 then R1 t else if t < 40 then R2 t else if t < 60 then R3 t else R4 t)"

lemma round_step_eq:
  "round_step mix b konst (v, w, x, y, z) = (word_rotl 5 v + mix + z + konst + b, v, word_rotl 30 w, x, y)"
  by (simp add: round_step_def rol_rotl)

lemma macro_step:
  assumes "sched M t l" "t < 80" "length M = 64"
  shows "macro t (s, l) = (sha1_step M s t, l[t mod 16 := sha1_W M t])"
proof -
  obtain v w x y z where s: "s = (v, w, x, y, z)" by (cases s)
  have 0: "blk0 t l = (sha1_W M t, l[t mod 16 := sha1_W M t])" if "t < 16"
    using sched_blk0 [OF assms(1) that assms(3)] .
  have 1: "blk t l = (sha1_W M t, l[t mod 16 := sha1_W M t])" if "\<not> t < 16"
    using sched_blk [OF assms(1)] that by simp
  show ?thesis
    using assms(2) 0 1
    by (auto simp: macro_def s R0_def R1_def R2_def R3_def R4_def round_step_eq sha1_step_def sha1_f_def sha1_K_def
        Parity_def Ch_trick Maj_trick simp del: word_rotl_def)
qed

lemma macros:
  assumes "length M = 64" "n \<le> 80"
  shows "\<exists>l. fold macro [0..<n] (s, load_block M) = (foldl (sha1_step M) s [0..<n], l) \<and> sched M n l"
  using assms(2)
proof (induction n)
  case 0
  then show ?case by (simp add: sched_start)
next
  case (Suc n)
  then obtain l where "fold macro [0..<n] (s, load_block M) = (foldl (sha1_step M) s [0..<n], l)" "sched M n l" by auto
  then show ?case using macro_step [of M n l] sched_next [of M n l] Suc.prems assms(1) by simp
qed

lemma fold_macro: "(\<And>t. a \<le> t \<Longrightarrow> t < b \<Longrightarrow> R t = macro t) \<Longrightarrow> fold R [a..<b] sl = fold macro [a..<b] sl"
  by (rule fold_cong) auto

lemma transform_is_block:
  assumes "length M = 64"
  shows "SHA1_Transform st M = sha1_block st M"
proof -
  have cut: "[0..<80] = [0..<16] @ [16..<20] @ [20..<40] @ [40..<60] @ [60..<80]"
    using upt_add_eq_append [of 0 16 64] upt_add_eq_append [of 16 20 60] upt_add_eq_append [of 20 40 40]
      upt_add_eq_append [of 40 60 20] by simp
  have f: "fold R0 [0..<16] sl = fold macro [0..<16] sl" "fold R1 [16..<20] sl = fold macro [16..<20] sl"
    "fold R2 [20..<40] sl = fold macro [20..<40] sl" "fold R3 [40..<60] sl = fold macro [40..<60] sl"
    "fold R4 [60..<80] sl = fold macro [60..<80] sl" for sl
    by (rule fold_macro; simp add: macro_def)+
  have "fold R4 [60..<80] (fold R3 [40..<60] (fold R2 [20..<40] (fold R1 [16..<20] (fold R0 [0..<16] (st, load_block M))))) =
      fold macro [0..<80] (st, load_block M)"
    unfolding f cut fold_append by simp
  then show ?thesis
    using macros [OF assms, of 80 st] by (auto simp: SHA1_Transform_def Let_def sha1_block_def)
qed

section \<open>Update and padding\<close>

text \<open>The full blocks of a message absorbed into a chain value, and the bytes left.\<close>

function absorb :: "chain \<Rightarrow> bytes \<Rightarrow> chain \<times> bytes" where
  "absorb st m = (if length m < 64 then (st, m) else absorb (sha1_block st (take 64 m)) (drop 64 m))"
  by auto
termination by (relation "measure (length \<circ> snd)") auto

declare absorb.simps [simp del]

lemma transform_blocks_absorb: "transform_blocks st m = absorb st m"
proof (induction st m rule: absorb.induct)
  case (1 st m)
  then show ?case
    by (subst transform_blocks.simps, subst absorb.simps) (simp add: transform_is_block)
qed

lemma absorb_append: "absorb st (m @ d) = (case absorb st m of (st', r) \<Rightarrow> absorb st' (r @ d))"
proof (induction st m rule: absorb.induct)
  case (1 st m)
  show ?case
  proof (cases "length m < 64")
    case True
    then show ?thesis by (simp add: absorb.simps [of st m])
  next
    case False
    then show ?thesis using 1 by (simp add: absorb.simps [of st m] absorb.simps [of st "m @ d"])
  qed
qed

lemma absorb_rest: "length (snd (absorb st m)) = length m mod 64"
proof (induction st m rule: absorb.induct)
  case (1 st m)
  then show ?case by (subst absorb.simps) (simp add: le_mod_geq not_less)
qed

lemma absorb_foldl:
  "fst (absorb st m) = foldl (\<lambda>H i. sha1_block H (take 64 (drop (64 * i) m))) st [0..<length m div 64]"
proof (induction st m rule: absorb.induct)
  case (1 st m)
  show ?case
  proof (cases "length m < 64")
    case True
    then show ?thesis by (subst absorb.simps) simp
  next
    case False
    have n: "length m div 64 = Suc ((length m - 64) div 64)" using False by (simp add: le_div_geq not_less)
    have "[0..<Suc k] = 0 # map Suc [0..<k]" for k by (simp add: upt_conv_Cons map_Suc_upt)
    then show ?thesis using 1 [OF False] False unfolding n
      by (subst absorb.simps) (simp add: foldl_map algebra_simps)
  qed
qed

text \<open>The context holds the bytes given so far.\<close>

definition holds :: "SHA1_CTX \<Rightarrow> bytes \<Rightarrow> bool" where
  "holds ctx m \<longleftrightarrow> length (ctx_buffer ctx) = 64 \<and> ctx_state ctx = fst (absorb sha1_H0 m) \<and>
     take (length m mod 64) (ctx_buffer ctx) = snd (absorb sha1_H0 m) \<and>
     unat (count0 ctx) + 2 ^ 32 * unat (count1 ctx) = 8 * length m"

lemma holds_init: "length (ctx_buffer ctx) = 64 \<Longrightarrow> holds (pocl_SHA1_Init ctx) []"
  by (simp add: holds_def pocl_SHA1_Init_def absorb.simps sha1_H0_def)

lemma add_count_exact:
  assumes "unat c0 + 2 ^ 32 * unat c1 = 8 * n" and "len < 2 ^ 29" and "n + len < 2 ^ 61"
    and "add_count c0 c1 (of_nat len) = (d0, d1)"
  shows "unat d0 + 2 ^ 32 * unat d1 = 8 * (n + len)"
proof -
  have len: "unat (of_nat len :: size_t) = len" using assms(2) by (intro unat_of_nat_nowrap) simp
  have bits: "unat (push_bit 3 (of_nat len) :: size_t) = 8 * len"
    using assms(2) unfolding unsigned_push_bit_eq len by (simp add: push_bit_eq_mult take_bit_eq_mod)
  have "drop_bit 29 (of_nat len :: size_t) = 0"
    by (rule unsigned_word_eqI [where 'a = nat]) (unfold unat_drop_bit_eq len, use assms(2) in \<open>simp add: drop_bit_eq_div\<close>)
  then have "(d0, d1) = (let e0 = c0 + ucast (push_bit 3 (of_nat len) :: size_t);
      e1 = (if (ucast e0 :: size_t) < push_bit 3 (of_nat len) then c1 + 1 else c1) in (e0, e1 + 0))"
    using assms(4) [symmetric] by (simp only: add_count_def cut_sum) (simp add: Let_def)
  then have d: "d0 = c0 + ucast (push_bit 3 (of_nat len) :: size_t)"
      "d1 = (if (ucast d0 :: size_t) < push_bit 3 (of_nat len) then c1 + 1 else c1)"
    unfolding Let_def by (simp_all only: prod.inject add_0_right)
  have b: "unat (ucast (push_bit 3 (of_nat len) :: size_t) :: 32 word) = 8 * len"
    using assms(2) by (simp add: unsigned_ucast_eq bits take_bit_eq_mod)
  have less: "(ucast d0 :: size_t) < push_bit 3 (of_nat len) \<longleftrightarrow> unat d0 < 8 * len"
    by (simp add: word_less_nat_alt bits unsigned_ucast_eq take_bit_nat_eq_self)
  have c1: "2 ^ 32 * unat c1 \<le> 8 * n" using assms(1) by simp
  show ?thesis
  proof (cases "unat c0 + 8 * len < 2 ^ 32")
    case True
    then have "unat d0 = unat c0 + 8 * len" unfolding d(1) b [symmetric] by (intro unat_add_nowrap) simp
    then show ?thesis using d(2) less assms(1) by simp
  next
    case False
    have "unat d0 = (unat c0 + 8 * len) mod 2 ^ 32" unfolding d(1) by (simp add: unat_word_ariths(1) b)
    also have "\<dots> = unat c0 + 8 * len - 2 ^ 32"
      using False assms(2) unsigned_less [of c0, where 'a = nat] by (simp add: mod_if)
    finally have d0: "unat d0 = unat c0 + 8 * len - 2 ^ 32" .
    then have "unat d0 < 8 * len" using False unsigned_less [of c0, where 'a = nat] by simp
    then have "d1 = c1 + 1" using d(2) less by simp
    moreover have "unat c1 + 1 < 2 ^ 32"
    proof -
      have "2 ^ 32 * (unat c1 + 1) \<le> 8 * (n + len)" using assms(1) False by simp
      then have "2 ^ 32 * (unat c1 + 1) < 2 ^ 32 * 2 ^ 32" using assms(3) by simp
      then show ?thesis by simp
    qed
    then have "unat (c1 + 1) = unat c1 + 1" by (intro trans [OF unat_add_nowrap]) simp_all
    ultimately show ?thesis using d0 False assms(1) by simp
  qed
qed

text \<open>The number of bytes in the buffer, and whether the call fills it.\<close>

lemma buffered:
  assumes "unat (c0 :: 32 word) + 2 ^ 32 * unat (c1 :: 32 word) = 8 * n"
  shows "unat (drop_bit 3 c0 AND 63) = n mod 64"
proof -
  have "(63 :: 32 word) = mask 6" by (simp add: mask_eq_exp_minus_1)
  then have "drop_bit 3 c0 AND 63 = take_bit 6 (drop_bit 3 c0)" by (simp only: take_bit_eq_mask)
  then have "unat (drop_bit 3 c0 AND 63) = unat c0 div 8 mod 64" by (simp only: unat_six_bits)
  moreover have "unat c0 = 8 * (n - 2 ^ 29 * unat c1)" using assms by simp
  moreover have "n = (n - 2 ^ 29 * unat c1) + 64 * (2 ^ 23 * unat c1)" using assms by simp
  ultimately show ?thesis by (metis mod_mult_self2 nonzero_mult_div_cancel_left zero_neq_numeral)
qed

lemma fills:
  assumes "len < 2 ^ 29"
  shows "(of_nat (n mod 64) + of_nat len :: size_t) > 63 \<longleftrightarrow> 64 \<le> n mod 64 + len"
proof -
  have "n mod 64 < 64" by simp
  moreover have "len < 536870912" using assms by simp
  ultimately have "n mod 64 + len < 18446744073709551616" by linarith
  then have "unat (of_nat (n mod 64 + len) :: size_t) = n mod 64 + len" by (intro unat_of_nat_nowrap) simp
  then have "unat (of_nat (n mod 64) + of_nat len :: size_t) = n mod 64 + len" by (simp only: of_nat_add)
  then show ?thesis unfolding word_less_nat_alt by simp linarith
qed

lemma holds_update:
  assumes h: "holds ctx m" and "length d < 2 ^ 29" and "length m + length d < 2 ^ 61"
  shows "holds (pocl_SHA1_Update ctx d) (m @ d)"
proof -
  obtain c0 c1 where c: "add_count (count0 ctx) (count1 ctx) (of_nat (length d)) = (c0, c1)"
    by (cases "add_count (count0 ctx) (count1 ctx) (of_nat (length d))")
  have count: "unat c0 + 2 ^ 32 * unat c1 = 8 * length (m @ d)"
    using add_count_exact [OF _ assms(2,3) c] h by (simp add: holds_def)
  define j where "j = length m mod 64"
  have j: "unat (drop_bit 3 (count0 ctx) AND 63) = j"
    unfolding j_def using h by (intro buffered) (auto simp: holds_def)
  have full: "(of_nat j + of_nat (length d) :: size_t) > 63 \<longleftrightarrow> 64 \<le> j + length d"
    unfolding j_def by (rule fills) (rule assms(2))
  obtain st r where mr: "absorb sha1_H0 m = (st, r)" by (cases "absorb sha1_H0 m")
  note H = h [unfolded holds_def mr fst_conv snd_conv, folded j_def]
  have buf: "length (ctx_buffer ctx) = 64" by (rule conjunct1 [OF H])
  have state: "ctx_state ctx = st" by (rule conjunct1 [OF conjunct2 [OF H]])
  have r: "take j (ctx_buffer ctx) = r" by (rule conjunct1 [OF conjunct2 [OF conjunct2 [OF H]]])
  have "length r = length m mod 64" using absorb_rest [of sha1_H0 m] unfolding mr snd_conv .
  then have lr: "length r = j" unfolding j_def .
  have j64: "j < 64" unfolding j_def by (rule mod_less_divisor) simp
  have md: "absorb sha1_H0 (m @ d) = absorb st (r @ d)" by (subst absorb_append) (simp add: mr)
  have rest: "length (snd (absorb sha1_H0 (m @ d))) = length (m @ d) mod 64" by (rule absorb_rest)
  show ?thesis
  proof (cases "64 \<le> j + length d")
    case False
    then have "absorb st (r @ d) = (st, r @ d)" using lr by (subst absorb.simps) simp
    moreover have "length (m @ d) mod 64 = j + length d"
      using rest md calculation lr by simp
    ultimately show ?thesis
      using False full buf state r lr j j64 count md by (simp add: holds_def pocl_SHA1_Update_def Let_def c)
  next
    case True
    define blk1 where "blk1 = r @ take (64 - j) d"
    obtain st' r' where a: "absorb (sha1_block st blk1) (drop (64 - j) d) = (st', r')"
      by (cases "absorb (sha1_block st blk1) (drop (64 - j) d)")
    have l: "length blk1 = 64" using True lr j64 by (simp add: blk1_def)
    have "absorb st (r @ d) = (st', r')"
      using True lr j64 a by (subst absorb.simps) (simp add: blk1_def)
    then have "absorb sha1_H0 (m @ d) = (st', r')" using md by simp
    moreover have "length r' = length (m @ d) mod 64" using rest calculation by simp
    moreover have "length r' \<le> 64" using calculation(2) by simp
    ultimately show ?thesis
      using True full buf state r lr j j64 count a l
      by (simp add: holds_def pocl_SHA1_Update_def Let_def c transform_blocks_absorb transform_is_block
          flip: blk1_def)
  qed
qed

text \<open>The zero bytes.\<close>

lemma held_count: "holds ctx m \<Longrightarrow> unat (count0 ctx) div 8 mod 64 = length m mod 64"
  using buffered [of "count0 ctx" "count1 ctx" "length m"] unat_six_bits [of "count0 ctx"]
  by (simp add: holds_def take_bit_eq_mask mask_eq_exp_minus_1)

definition zeros_due :: "nat \<Rightarrow> nat" where
  "zeros_due n = (56 + 64 - n mod 64) mod 64"

lemma mod_64_range: "n mod 64 \<in> set [0..<64 :: nat]"
  by (simp only: set_upt atLeastLessThan_iff le0 simp_thms mod_less_divisor zero_less_numeral)

lemma zeros_due_0: "zeros_due n = 0 \<longleftrightarrow> n mod 64 = 56"
proof -
  have "\<forall>q \<in> set [0..<64]. (56 + 64 - q) mod 64 = (0 :: nat) \<longleftrightarrow> q = 56" by code_simp
  then show ?thesis unfolding zeros_due_def by (rule bspec) (rule mod_64_range)
qed

lemma zeros_due_Suc:
  assumes "n mod 64 \<noteq> 56"
  shows "zeros_due n = Suc (zeros_due (Suc n))"
proof -
  have "\<forall>q \<in> set [0..<64]. q \<noteq> 56 \<longrightarrow> (56 + 64 - q) mod 64 = Suc ((56 + 64 - Suc q mod 64) mod 64 :: nat)" by code_simp
  from mp [OF bspec [OF this mod_64_range] assms] show ?thesis
    unfolding zeros_due_def by (simp only: mod_Suc_eq)
qed

lemma pad_loop_done:
  assumes "holds ctx m"
  shows "count0 ctx AND 504 = 448 \<longleftrightarrow> length m mod 64 = 56"
proof -
  have "count0 ctx AND 504 = 448 \<longleftrightarrow> unat (count0 ctx AND 504) = unat (448 :: 32 word)"
    by (rule word_unat_eq_iff)
  also have "\<dots> \<longleftrightarrow> 8 * (length m mod 64) = 448" unfolding unat_and_504 held_count [OF assms] by (simp only: unat_numeral) simp
  finally show ?thesis by simp
qed

lemma holds_pad:
  assumes "holds ctx m" and "length m + zeros_due (length m) < 2 ^ 61"
  shows "holds (pad_loop ctx) (m @ replicate (zeros_due (length m)) 0)"
  using assms
proof (induction ctx arbitrary: m rule: pad_loop.induct)
  case (1 ctx)
  show ?case
  proof (cases "length m mod 64 = 56")
    case True
    then show ?thesis using 1(2) pad_loop_done [OF 1(2)] zeros_due_0 [of "length m"] by (subst pad_loop.simps) simp
  next
    case False
    note z = zeros_due_Suc [OF False]
    have "holds (pocl_SHA1_Update ctx [0]) (m @ [0])" using 1(2,3) z by (intro holds_update) simp_all
    from 1(1) [OF _ this] show ?thesis
      using False 1(3) pad_loop_done [OF 1(2)] z by (subst pad_loop.simps) simp
  qed
qed

text \<open>The length in bits.\<close>

lemma be_bytes_64: "be_bytes (ucast (drop_bit 32 w)) @ be_bytes (ucast w) = rev (le_bytes 8 (w :: 64 word))"
proof -
  have u: "[0..<4] = [0, 1, 2, 3::nat]" by (simp add: upt_rec)
  have n: "8 = Suc (Suc (Suc (Suc (Suc (Suc (Suc (Suc 0)))))))" by simp
  have l: "le_bytes 8 w = [ucast w, ucast (drop_bit 8 w), ucast (drop_bit 16 w), ucast (drop_bit 24 w),
      ucast (drop_bit 32 w), ucast (drop_bit 40 w), ucast (drop_bit 48 w), ucast (drop_bit 56 w)]"
    by (subst n) (simp only: le_bytes.simps drop_bit_drop_bit, simp)
  show ?thesis
    unfolding be_bytes_def u l by (auto intro!: bit_word_eqI simp: bit_simps simp del: drop_bit_eq_div)
qed

lemma length_in_bits:
  assumes "unat (c0 :: 32 word) + 2 ^ 32 * unat (c1 :: 32 word) = b"
  shows "c1 = ucast (drop_bit 32 (of_nat b :: 64 word))" "c0 = ucast (of_nat b :: 64 word)"
proof -
  have b: "b = unat c0 + 2 ^ 32 * unat c1" using assms by simp
  have "unat c0 < 2 ^ LENGTH(32)" "unat c1 < 2 ^ LENGTH(32)" by (rule unsigned_less)+
  then have l: "unat c0 < 2 ^ 32" "unat c1 < 2 ^ 32" by simp_all
  then have "b < 2 ^ 64" using b by simp
  then have u: "unat (of_nat b :: 64 word) = b" by (intro unat_of_nat_nowrap) simp
  have "unat (ucast (drop_bit 32 (of_nat b :: 64 word)) :: 32 word) = b div 2 ^ 32 mod 2 ^ 32"
    unfolding unsigned_ucast_eq unat_drop_bit_eq u unfolding take_bit_eq_mod drop_bit_eq_div by simp
  then show "c1 = ucast (drop_bit 32 (of_nat b :: 64 word))"
    by (intro unsigned_word_eqI [where 'a = nat]) (use l in \<open>simp add: b\<close>)
  have "unat (ucast (of_nat b :: 64 word) :: 32 word) = b mod 2 ^ 32"
    unfolding unsigned_ucast_eq u unfolding take_bit_eq_mod by simp
  then show "c0 = ucast (of_nat b :: 64 word)"
    by (intro unsigned_word_eqI [where 'a = nat]) (use l in \<open>simp add: b\<close>)
qed

lemma length_be_bytes [simp]: "length (be_bytes w) = 4"
  by (simp add: be_bytes_def)

lemma padded_length: "(n + 1 + zeros_due (n + 1) + 8) mod 64 = 0"
proof -
  have "\<forall>q \<in> set [0..<64]. (q + (56 + 64 - q) mod 64 + 8) mod 64 = (0 :: nat)" by code_simp
  from bspec [OF this mod_64_range [of "n + 1"]] show ?thesis
    unfolding zeros_due_def by (simp only: mod_simps add.assoc)
qed

lemma zeros_due_pad: "zeros_due (n + 1) = (119 - n mod 64) mod 64"
proof -
  have "\<forall>q \<in> set [0..<64]. (56 + 64 - (q + 1) mod 64) mod 64 = (119 - q) mod (64 :: nat)" by code_simp
  from bspec [OF this mod_64_range [of n]] show ?thesis
    unfolding zeros_due_def by (simp only: mod_add_left_eq)
qed

lemma final_is_sha1:
  assumes "holds ctx m" and "length m + 128 < 2 ^ 61"
  shows "fst (pocl_SHA1_Final ctx) = sha1 m"
proof -
  define n where "n = length m"
  define p where "p = m @ [0x80] @ replicate (zeros_due (n + 1)) 0"
  define fc where "fc = be_bytes (count1 ctx) @ be_bytes (count0 ctx)"
  define ctx' where "ctx' = pad_loop (pocl_SHA1_Update ctx [0x80])"
  have z: "zeros_due (n + 1) < 64" unfolding zeros_due_def by (rule mod_less_divisor) simp
  have "holds (pocl_SHA1_Update ctx [0x80]) (m @ [0x80])" using assms by (intro holds_update) simp_all
  from holds_pad [OF this] have h': "holds ctx' p"
    using assms(2) z by (simp add: ctx'_def p_def n_def)
  have fc: "fc = rev (le_bytes 8 (of_nat (8 * n) :: 64 word))"
  proof -
    have "unat (count0 ctx) + 2 ^ 32 * unat (count1 ctx) = 8 * n" using assms(1) by (simp add: holds_def n_def)
    from length_in_bits [OF this] show ?thesis unfolding fc_def by (simp only: be_bytes_64 [symmetric])
  qed
  have pad: "p @ fc = sha1_pad m" unfolding p_def fc sha1_pad_def n_def zeros_due_pad by simp
  have lp: "length p + 8 < 2 ^ 61" using assms(2) z by (simp add: p_def n_def)
  have "holds (pocl_SHA1_Update ctx' fc) (p @ fc)"
    by (rule holds_update [OF h']) (use lp in \<open>simp_all add: fc_def\<close>)
  then have "ctx_state (pocl_SHA1_Update ctx' fc) = fst (absorb sha1_H0 (sha1_pad m))"
    by (simp only: holds_def pad)
  then show ?thesis
    by (simp add: pocl_SHA1_Final_def Let_def sha1_def absorb_foldl split_beta flip: ctx'_def fc_def split: prod.split)
qed

lemma updates_hold:
  assumes "holds ctx m" and "\<forall>c \<in> set cs. length c < 2 ^ 29" and "length m + length (concat cs) < 2 ^ 61"
  shows "holds (foldl pocl_SHA1_Update ctx cs) (m @ concat cs)"
  using assms
proof (induction cs arbitrary: ctx m)
  case (Cons c cs)
  have "holds (pocl_SHA1_Update ctx c) (m @ c)" using Cons.prems by (intro holds_update) simp_all
  from Cons.IH [OF this] Cons.prems show ?case by simp
qed simp

lemma digest_is_sha1:
  assumes "length (ctx_buffer ctx) = 64" and "\<forall>c \<in> set cs. length c < 2 ^ 29" and "length (concat cs) + 128 < 2 ^ 61"
  shows "fst (pocl_SHA1_Final (foldl pocl_SHA1_Update (pocl_SHA1_Init ctx) cs)) = sha1 (concat cs)"
  by (rule final_is_sha1) (use updates_hold [OF holds_init [OF assms(1)] assms(2)] assms(3) in simp_all)

text \<open>
  C37: The digest that \<open>pocl_SHA1_Init\<close>, any number of calls of \<open>pocl_SHA1_Update\<close> and \<open>pocl_SHA1_Final\<close> compute is
  the SHA-1 digest of the concatenated data as FIPS 180-4 defines it, however the data is divided, if each call
  gets less than \<open>2^29\<close> bytes. From \<open>2^29\<close> bytes in one call on the bit counter is wrong: \<open>len << 3\<close> is a 64-bit
  value and the 32-bit \<open>count[0]\<close> is compared with all of it, so a call with \<open>2^29\<close> bytes counts \<open>2^33\<close> bits.
\<close>

theorem sha1_any_chunks:
  assumes "length (ctx_buffer ctx) = 64" and "\<forall>c \<in> set cs. length c < 2 ^ 29" and "length (concat cs) + 128 < 2 ^ 61"
  shows "fst (pocl_SHA1_Final (foldl pocl_SHA1_Update (pocl_SHA1_Init ctx) cs)) = sha1 (concat cs) \<and>
    add_count 0 0 (2 ^ 29) = (0, 2)"
  using digest_is_sha1 [OF assms] by (simp add: add_count_def Let_def)

theorem sha1_any_chunks_witness:
  "fst (pocl_SHA1_Final (foldl pocl_SHA1_Update
      (pocl_SHA1_Init \<lparr>ctx_state = (0, 0, 0, 0, 0), count0 = 0, count1 = 0, ctx_buffer = replicate 64 7\<rparr>)
      [[0x61], [], [0x62, 0x63]])) = sha1 [0x61, 0x62, 0x63]"
  using sha1_any_chunks [of "\<lparr>ctx_state = (0, 0, 0, 0, 0), count0 = 0, count1 = 0, ctx_buffer = replicate 64 7\<rparr>"
      "[[0x61], [], [0x62, 0x63]]"]
  by simp

end
