(* ===== verification/PoclCache.thy ===== *)
theory PoclCache
  imports CStrings "HOL-Library.Monad_Syntax"
begin

text \<open>
  The two caches of compiled work-group functions: the directory names of the disk cache
  (\<open>pocl_cache.c\<close>) and the cache of loaded modules (\<open>pocl_dlhandle_cache\<close> of \<open>devices/common.c\<close>). A
  loaded function is named by the path of the module it was loaded from; whether a file exists, and
  whether the compiler and the loader succeed, are fields of the environment. A failed assertion and
  \<open>POCL_ABORT\<close> are \<^const>\<open>None\<close>.
\<close>

section \<open>State\<close>

record pocl_context =
  local_size :: size3
  num_groups :: size3
  global_offset :: size3

text \<open>A kernel with the build hash of its program for the device, and whether its IR is in memory.\<close>

record kernel =
  k_name :: bytes
  k_build_hash :: bytes
  k_has_ir :: bool

record command_run =
  run_kernel :: kernel
  run_hash :: bytes
  run_pc :: pocl_context
  force_generic_wg_func :: bool
  force_large_grid_wg_func :: bool

record environment =
  cache_topdir :: bytes
  grid_width_specialization_limit :: size_t
  spmd :: bool
  pocl_exists :: "bytes \<Rightarrow> bool"
  codegen_ok :: "bytes \<Rightarrow> bool"
  loads :: "bytes \<Rightarrow> bool"

record dlhandle_cache_item =
  ci_hash :: bytes
  ci_local_wgs :: size3
  ci_goffs_zero :: bool
  ci_max_grid_dim_width :: size_t
  ci_wg :: bytes
  ci_ref_count :: cl_uint

record dlhandle_cache =
  cache_items :: "dlhandle_cache_item list"
  handle_count :: cl_uint

section \<open>Paths\<close>

definition buildhash_is_valid :: "bytes \<Rightarrow> bool" where
  "buildhash_is_valid h \<longleftrightarrow> sum_list (map unat h) \<noteq> 0"

definition program_device_dir :: "environment \<Rightarrow> bytes \<Rightarrow> bytes \<Rightarrow> bytes option" where
  "program_device_dir env build_hash append_path =
     (if \<not> buildhash_is_valid build_hash then None
      else snprintf_path (cache_topdir env @ cstr ''/'' @ build_hash @ append_path))"

definition pocl_cache_program_path :: "environment \<Rightarrow> bytes \<Rightarrow> bytes option" where
  "pocl_cache_program_path env build_hash = program_device_dir env build_hash []"

definition pocl_cache_program_bc_path :: "environment \<Rightarrow> bytes \<Rightarrow> bytes option" where
  "pocl_cache_program_bc_path env build_hash = program_device_dir env build_hash (cstr ''/program.bc'')"

definition pocl_cache_kernel_cachedir :: "environment \<Rightarrow> bytes \<Rightarrow> bytes \<Rightarrow> bytes option" where
  "pocl_cache_kernel_cachedir env build_hash kernel_name = do {
     tempstring \<leftarrow> snprintf_path (cstr ''/'' @ kernel_name);
     program_device_dir env build_hash tempstring}"

definition pocl_cmd_max_grid_dim_width :: "pocl_context \<Rightarrow> size_t" where
  "pocl_cmd_max_grid_dim_width pc =
     (case local_size pc of (l0, l1, l2) \<Rightarrow> case num_groups pc of (n0, n1, n2) \<Rightarrow>
      max (max (l0 * n0) (l1 * n1)) (l2 * l2))"

definition goffs_zero :: "pocl_context \<Rightarrow> bool" where
  "goffs_zero pc \<longleftrightarrow> global_offset pc = (0, 0, 0)"

definition pocl_cache_kernel_cachedir_path ::
  "environment \<Rightarrow> kernel \<Rightarrow> bytes \<Rightarrow> command_run \<Rightarrow> bool \<Rightarrow> bytes option" where
  "pocl_cache_kernel_cachedir_path env k append_str run_cmd specialized =
     (case local_size (run_pc run_cmd) of (l0, l1, l2) \<Rightarrow>
      let max_grid_width = pocl_cmd_max_grid_dim_width (run_pc run_cmd) in do {
        tempstring \<leftarrow> snprintf_path (cstr ''/'' @ k_name k @ cstr ''/'' @
          dec (if \<not> specialized then 0 else unat l0) @ cstr ''-'' @
          dec (if \<not> specialized then 0 else unat l1) @ cstr ''-'' @
          dec (if \<not> specialized then 0 else unat l2) @
          (if specialized \<and> goffs_zero (run_pc run_cmd) then cstr ''-goffs0'' else []) @
          (if specialized \<and> \<not> force_large_grid_wg_func run_cmd \<and>
              max_grid_width < grid_width_specialization_limit env then cstr ''-smallgrid'' else []) @
          append_str);
        program_device_dir env (k_build_hash k) tempstring})"

definition pocl_cache_final_binary_path :: "environment \<Rightarrow> kernel \<Rightarrow> command_run \<Rightarrow> bool \<Rightarrow> bytes option" where
  "pocl_cache_final_binary_path env k run_cmd specialized = do {
     final_binary_name \<leftarrow> (if spmd env then snprintf_path (cstr ''/parallel.bc'' @ cstr ''.brig'')
                           else snprintf_path (cstr ''/'' @ k_name k @ cstr ''.so''));
     pocl_cache_kernel_cachedir_path env k final_binary_name run_cmd specialized}"

section \<open>The disk cache\<close>

definition pocl_check_kernel_disk_cache :: "environment \<Rightarrow> command_run \<Rightarrow> bool \<Rightarrow> bytes option" where
  "pocl_check_kernel_disk_cache env cmd specialized = do {
     let k = run_kernel cmd;
     module_fn \<leftarrow> pocl_cache_final_binary_path env k cmd specialized;
     if pocl_exists env module_fn then Some module_fn
     else if k_has_ir k then (if codegen_ok env module_fn then Some module_fn else None)
     else do {
       generic \<leftarrow> (if \<not> force_generic_wg_func cmd
                  then map_option Some (pocl_cache_final_binary_path env k cmd False) else Some None);
       case generic of
         Some fn \<Rightarrow> if pocl_exists env fn then Some fn else do {
           fn \<leftarrow> pocl_cache_final_binary_path env k cmd True;
           if pocl_exists env fn then Some fn else None}
       | None \<Rightarrow> do {
           fn \<leftarrow> pocl_cache_final_binary_path env k cmd True;
           if pocl_exists env fn then Some fn else None}}}"

section \<open>The cache of loaded modules\<close>

definition MAX_CACHE_ITEMS :: cl_uint where
  "MAX_CACHE_ITEMS = 128"

text \<open>
  The search for an unused item runs from the tail and stops at the head, which is never evicted. The
  result is the cache without the evicted item and the new number of handles.
\<close>

fun last_unused :: "dlhandle_cache_item list \<Rightarrow> dlhandle_cache_item list option" where
  "last_unused [] = None"
| "last_unused (c # cs) =
     (case last_unused cs of
        Some cs' \<Rightarrow> Some (c # cs')
      | None \<Rightarrow> if ci_ref_count c > 0 then None else Some cs)"

definition get_new_dlhandle_cache_item :: "dlhandle_cache \<Rightarrow> dlhandle_cache" where
  "get_new_dlhandle_cache_item st =
     (case cache_items st of
        [] \<Rightarrow> st\<lparr>handle_count := handle_count st + 1\<rparr>
      | head # rest \<Rightarrow>
          (case last_unused rest of
             Some rest' \<Rightarrow> if handle_count st \<ge> MAX_CACHE_ITEMS then st\<lparr>cache_items := head # rest'\<rparr>
                           else st\<lparr>handle_count := handle_count st + 1\<rparr>
           | None \<Rightarrow> st\<lparr>handle_count := handle_count st + 1\<rparr>))"

definition same_hash_and_size :: "command_run \<Rightarrow> dlhandle_cache_item \<Rightarrow> bool" where
  "same_hash_and_size cmd ci \<longleftrightarrow> ci_hash ci = run_hash cmd \<and> ci_local_wgs ci = local_size (run_pc cmd)"

fun release_first :: "command_run \<Rightarrow> dlhandle_cache_item list \<Rightarrow> dlhandle_cache_item list option" where
  "release_first cmd [] = None"
| "release_first cmd (ci # cs) =
     (if same_hash_and_size cmd ci
      then if ci_ref_count ci > 0 then Some (ci\<lparr>ci_ref_count := ci_ref_count ci - 1\<rparr> # cs) else None
      else map_option ((#) ci) (release_first cmd cs))"

definition pocl_release_dlhandle_cache :: "command_run \<Rightarrow> dlhandle_cache \<Rightarrow> dlhandle_cache option" where
  "pocl_release_dlhandle_cache cmd st =
     map_option (\<lambda>cs. st\<lparr>cache_items := cs\<rparr>) (release_first cmd (cache_items st))"

definition item_fits :: "command_run \<Rightarrow> dlhandle_cache_item \<Rightarrow> bool" where
  "item_fits cmd ci \<longleftrightarrow> same_hash_and_size cmd ci \<and>
     pocl_cmd_max_grid_dim_width (run_pc cmd) \<le> ci_max_grid_dim_width ci \<and>
     (\<not> ci_goffs_zero ci \<or> goffs_zero (run_pc cmd))"

text \<open>The first item that fits moves to the front and is referenced once more.\<close>

definition fetch_dlhandle_cache_item ::
  "command_run \<Rightarrow> dlhandle_cache_item list \<Rightarrow> (bytes \<times> dlhandle_cache_item list) option" where
  "fetch_dlhandle_cache_item cmd cs =
     (case dropWhile (\<lambda>ci. \<not> item_fits cmd ci) cs of
        [] \<Rightarrow> None
      | ci # post \<Rightarrow> Some (ci_wg ci, ci\<lparr>ci_ref_count := ci_ref_count ci + 1\<rparr> #
                         takeWhile (\<lambda>ci. \<not> item_fits cmd ci) cs @ post))"

definition pocl_check_kernel_dlhandle_cache ::
  "environment \<Rightarrow> command_run \<Rightarrow> cl_uint \<Rightarrow> bool \<Rightarrow> dlhandle_cache \<Rightarrow> (bytes \<times> dlhandle_cache) option" where
  "pocl_check_kernel_dlhandle_cache env cmd initial_refcount specialize st =
     (case fetch_dlhandle_cache_item cmd (cache_items st) of
        Some (wg, cs) \<Rightarrow> Some (wg, st\<lparr>cache_items := cs\<rparr>)
      | None \<Rightarrow>
          (let st = get_new_dlhandle_cache_item st in do {
             module_fn \<leftarrow> pocl_check_kernel_disk_cache env cmd specialize;
             if \<not> loads env module_fn then None
             else Some (module_fn, st\<lparr>cache_items :=
               \<lparr>ci_hash = run_hash cmd, ci_local_wgs = local_size (run_pc cmd),
                ci_goffs_zero = goffs_zero (run_pc cmd),
                ci_max_grid_dim_width = pocl_cmd_max_grid_dim_width (run_pc cmd),
                ci_wg = module_fn, ci_ref_count = initial_refcount\<rparr> # cache_items st\<rparr>)}))"

section \<open>What a path says about a function\<close>

text \<open>
  The specialization a module was compiled for: local size, zero offset, small grid. An unspecialized
  module has none.
\<close>

type_synonym wg_key = "size3 \<times> bool \<times> bool"

definition wg_key :: "environment \<Rightarrow> command_run \<Rightarrow> bool \<Rightarrow> wg_key" where
  "wg_key env cmd specialized =
     (if specialized
      then (local_size (run_pc cmd), goffs_zero (run_pc cmd), \<not> force_large_grid_wg_func cmd \<and>
            pocl_cmd_max_grid_dim_width (run_pc cmd) < grid_width_specialization_limit env)
      else ((0, 0, 0), False, False))"

definition key_suffix :: "wg_key \<Rightarrow> bytes \<Rightarrow> bytes" where
  "key_suffix key app =
     (case key of ((l0, l1, l2), g, sm) \<Rightarrow>
      dec (unat l0) @ 45 # dec (unat l1) @ 45 # dec (unat l2) @
      (if g then cstr ''-goffs0'' else []) @ (if sm then cstr ''-smallgrid'' else []) @ app)"

definition module_path :: "environment \<Rightarrow> kernel \<Rightarrow> wg_key \<Rightarrow> bytes" where
  "module_path env k key = cache_topdir env @ 47 # k_build_hash k @ 47 # k_name k @ 47 #
     key_suffix key (if spmd env then cstr ''/parallel.bc.brig'' else 47 # k_name k @ cstr ''.so'')"

lemma cstr_literals:
  "cstr ''/'' = [47]" "cstr ''-'' = [45]" "cstr ''-goffs0'' = [45, 103, 111, 102, 102, 115, 48]"
  "cstr ''-smallgrid'' = [45, 115, 109, 97, 108, 108, 103, 114, 105, 100]"
  "cstr ''/parallel.bc'' @ cstr ''.brig'' = cstr ''/parallel.bc.brig''"
  "cstr ''/parallel.bc.brig'' = 47 # cstr ''parallel.bc.brig''"
  by code_simp+

lemma snprintf_path_Some [simp]: "snprintf_path s = Some t \<Longrightarrow> t = s"
  by (simp add: snprintf_path_def split: if_splits)

lemma program_device_dir_Some:
  "program_device_dir env h a = Some p \<Longrightarrow> p = cache_topdir env @ 47 # h @ a"
  by (auto simp: program_device_dir_def cstr_literals dest: snprintf_path_Some split: if_splits)

lemma cachedir_path_eq:
  assumes "pocl_cache_kernel_cachedir_path env k app cmd sp = Some p"
  shows "p = cache_topdir env @ 47 # k_build_hash k @ 47 # k_name k @ 47 # key_suffix (wg_key env cmd sp) app"
proof -
  obtain l0 l1 l2 where l: "local_size (run_pc cmd) = (l0, l1, l2)" by (cases "local_size (run_pc cmd)")
  have lit: "cstr ''/'' @ r = 47 # r" "cstr ''-'' @ r = 45 # r" for r by (simp_all add: cstr_literals)
  obtain t where t: "snprintf_path (cstr ''/'' @ k_name k @ cstr ''/'' @
          dec (if \<not> sp then 0 else unat l0) @ cstr ''-'' @
          dec (if \<not> sp then 0 else unat l1) @ cstr ''-'' @
          dec (if \<not> sp then 0 else unat l2) @
          (if sp \<and> goffs_zero (run_pc cmd) then cstr ''-goffs0'' else []) @
          (if sp \<and> \<not> force_large_grid_wg_func cmd \<and>
              pocl_cmd_max_grid_dim_width (run_pc cmd) < grid_width_specialization_limit env then cstr ''-smallgrid'' else []) @
          app) = Some t" "program_device_dir env (k_build_hash k) t = Some p"
    using assms unfolding pocl_cache_kernel_cachedir_path_def l prod.case Let_def bind_eq_Some_conv by blast
  have "p = cache_topdir env @ 47 # k_build_hash k @ t" by (rule program_device_dir_Some [OF t(2)])
  then show ?thesis
    unfolding snprintf_path_Some [OF t(1)] lit by (cases sp) (simp_all add: wg_key_def key_suffix_def l)
qed

lemma final_path_eq:
  assumes "pocl_cache_final_binary_path env k cmd sp = Some p"
  shows "p = module_path env k (wg_key env cmd sp)"
proof -
  have lit: "cstr ''/'' @ r = 47 # r" for r by (simp add: cstr_literals)
  obtain app where a: "(if spmd env then snprintf_path (cstr ''/parallel.bc'' @ cstr ''.brig'')
      else snprintf_path (cstr ''/'' @ k_name k @ cstr ''.so'')) = Some app"
    "pocl_cache_kernel_cachedir_path env k app cmd sp = Some p"
    using assms unfolding pocl_cache_final_binary_path_def bind_eq_Some_conv by blast
  have "app = (if spmd env then cstr ''/parallel.bc.brig'' else 47 # k_name k @ cstr ''.so'')"
    using a(1) unfolding lit cstr_literals(5) by (auto dest: snprintf_path_Some split: if_splits)
  then show ?thesis using cachedir_path_eq [OF a(2)] by (simp add: module_path_def)
qed



definition demo_env :: environment where
  "demo_env = \<lparr>cache_topdir = cstr ''/cache'', grid_width_specialization_limit = 65535, spmd = False,
     pocl_exists = (\<lambda>_. False), codegen_ok = (\<lambda>_. True), loads = (\<lambda>_. True)\<rparr>"

definition demo_run :: "size3 \<Rightarrow> size3 \<Rightarrow> size3 \<Rightarrow> command_run" where
  "demo_run l n g = \<lparr>run_kernel = \<lparr>k_name = cstr ''add'', k_build_hash = cstr ''AB/DEFGHIJKLMNOPABCDEFGHIJKLMNOPABCDEFGH'', k_has_ir = True\<rparr>, run_hash = cstr ''7f'',
     run_pc = \<lparr>local_size = l, num_groups = n, global_offset = g\<rparr>, force_generic_wg_func = False,
     force_large_grid_wg_func = False\<rparr>"


section \<open>Soundness of the cache of loaded modules\<close>

inductive dl_reachable :: "environment \<Rightarrow> command_run set \<Rightarrow> dlhandle_cache \<Rightarrow> bool" for env cmds where
  init: "dl_reachable env cmds \<lparr>cache_items = [], handle_count = 0\<rparr>"
| check: "dl_reachable env cmds st \<Longrightarrow> cmd \<in> cmds \<Longrightarrow>
    pocl_check_kernel_dlhandle_cache env cmd n sp st = Some (wg, st') \<Longrightarrow> dl_reachable env cmds st'"
| release: "dl_reachable env cmds st \<Longrightarrow> cmd \<in> cmds \<Longrightarrow> pocl_release_dlhandle_cache cmd st = Some st' \<Longrightarrow>
    dl_reachable env cmds st'"

text \<open>Every item was made for some command, and its function loaded from a module of that command.\<close>

definition item_of :: "environment \<Rightarrow> command_run \<Rightarrow> dlhandle_cache_item \<Rightarrow> bool" where
  "item_of env cmd ci \<longleftrightarrow> same_hash_and_size cmd ci \<and> ci_goffs_zero ci = goffs_zero (run_pc cmd) \<and>
     ci_max_grid_dim_width ci = pocl_cmd_max_grid_dim_width (run_pc cmd) \<and>
     (\<exists>sp. pocl_cache_final_binary_path env (run_kernel cmd) cmd sp = Some (ci_wg ci))"

definition items_ok :: "environment \<Rightarrow> command_run set \<Rightarrow> dlhandle_cache_item list \<Rightarrow> bool" where
  "items_ok env cmds cs \<longleftrightarrow> (\<forall>ci \<in> set cs. \<exists>cmd \<in> cmds. item_of env cmd ci)"

lemma item_of_ref_count [simp]: "item_of env cmd (ci\<lparr>ci_ref_count := r\<rparr>) = item_of env cmd ci"
  by (simp add: item_of_def same_hash_and_size_def)

lemma disk_cache_path:
  "pocl_check_kernel_disk_cache env cmd sp = Some fn \<Longrightarrow>
   \<exists>sp. pocl_cache_final_binary_path env (run_kernel cmd) cmd sp = Some fn"
  by (auto simp: pocl_check_kernel_disk_cache_def Let_def bind_eq_Some_conv split: if_splits option.splits)

lemma last_unused_split:
  "last_unused cs = Some cs' \<Longrightarrow> \<exists>us c vs. cs = us @ c # vs \<and> cs' = us @ vs \<and> ci_ref_count c = 0"
proof (induction cs arbitrary: cs')
  case (Cons c cs)
  show ?case
  proof (cases "last_unused cs")
    case None
    then have "cs' = cs \<and> ci_ref_count c = 0" using Cons.prems by (auto split: if_splits simp: word_gt_0)
    then show ?thesis by (intro exI [of _ "[]"]) auto
  next
    case (Some t)
    then obtain us d vs where "cs = us @ d # vs" "t = us @ vs" "ci_ref_count d = 0" using Cons.IH by blast
    then show ?thesis using Some Cons.prems by (intro exI [of _ "c # us"]) auto
  qed
qed simp

text \<open>Making room drops at most one item, and never one in use.\<close>

lemma get_new_items:
  assumes "cache_items (get_new_dlhandle_cache_item st) = cs'"
  shows "set cs' \<subseteq> set (cache_items st)"
    and "ci \<in> set (cache_items st) \<Longrightarrow> ci_ref_count ci \<noteq> 0 \<Longrightarrow> ci \<in> set cs'"
  using assms
  by (cases "cache_items st"; force simp: get_new_dlhandle_cache_item_def split: option.splits if_splits
      dest!: last_unused_split)+

lemma fetch_items:
  assumes "fetch_dlhandle_cache_item cmd cs = Some (wg, cs')"
  obtains us ci vs where "cs = us @ ci # vs" "item_fits cmd ci" "wg = ci_wg ci"
    "cs' = ci\<lparr>ci_ref_count := ci_ref_count ci + 1\<rparr> # us @ vs"
proof -
  let ?P = "\<lambda>ci. \<not> item_fits cmd ci"
  obtain ci vs where d: "dropWhile ?P cs = ci # vs" "wg = ci_wg ci"
      "cs' = ci\<lparr>ci_ref_count := ci_ref_count ci + 1\<rparr> # takeWhile ?P cs @ vs"
    using assms by (auto simp: fetch_dlhandle_cache_item_def split: list.splits)
  have "cs = takeWhile ?P cs @ ci # vs" using takeWhile_dropWhile_id [of ?P cs] d(1) by simp
  moreover have "item_fits cmd ci" using hd_dropWhile [of ?P cs] d(1) by auto
  ultimately show thesis using d that by blast
qed

lemma release_items:
  "release_first cmd cs = Some cs' \<Longrightarrow> \<exists>us ci vs r. cs = us @ ci # vs \<and> cs' = us @ ci\<lparr>ci_ref_count := r\<rparr> # vs"
proof (induction cs arbitrary: cs')
  case (Cons c cs)
  show ?case
  proof (cases "same_hash_and_size cmd c")
    case True
    then show ?thesis using Cons.prems by (intro exI [of _ "[]"]) (auto split: if_splits)
  next
    case False
    then obtain t where "release_first cmd cs = Some t" "cs' = c # t" using Cons.prems by auto
    then show ?thesis using Cons.IH by (metis append_Cons)
  qed
qed simp

lemma dl_reachable_items_ok: "dl_reachable env cmds st \<Longrightarrow> items_ok env cmds (cache_items st)"
proof (induction rule: dl_reachable.induct)
  case (check st cmd n sp wg st')
  show ?case
  proof (cases "fetch_dlhandle_cache_item cmd (cache_items st)")
    case None
    let ?st = "get_new_dlhandle_cache_item st"
    obtain fn where fn: "pocl_check_kernel_disk_cache env cmd sp = Some fn" "cache_items st' =
        \<lparr>ci_hash = run_hash cmd, ci_local_wgs = local_size (run_pc cmd), ci_goffs_zero = goffs_zero (run_pc cmd),
         ci_max_grid_dim_width = pocl_cmd_max_grid_dim_width (run_pc cmd), ci_wg = fn, ci_ref_count = n\<rparr> # cache_items ?st"
      using check None by (auto simp: pocl_check_kernel_dlhandle_cache_def Let_def bind_eq_Some_conv split: if_splits)
    then show ?thesis
      using check disk_cache_path [OF fn(1)] get_new_items(1) [of st]
      by (auto simp: items_ok_def item_of_def same_hash_and_size_def)
  next
    case (Some r)
    then obtain cs where "fetch_dlhandle_cache_item cmd (cache_items st) = Some (wg, cs)" "cache_items st' = cs"
      using check by (cases r) (auto simp: pocl_check_kernel_dlhandle_cache_def)
    then show ?thesis using check by (elim fetch_items) (auto simp: items_ok_def)
  qed
next
  case (release st cmd st')
  then show ?case
    by (fastforce simp: pocl_release_dlhandle_cache_def items_ok_def dest!: release_items)
qed (simp add: items_ok_def)

text \<open>
  A module a command may run: its own kernel, its local size or any, and no assumption it violates. The width of a
  grid is the largest of its global sizes, as the comment of \<open>pocl_cmd_max_grid_dim_width\<close> says.
\<close>

definition grid_width :: "pocl_context \<Rightarrow> size_t" where
  "grid_width pc = (case local_size pc of (l0, l1, l2) \<Rightarrow> case num_groups pc of (n0, n1, n2) \<Rightarrow>
     max (max (l0 * n0) (l1 * n1)) (l2 * n2))"

text \<open>The third dimension is not the widest.\<close>

definition not_deepest :: "pocl_context \<Rightarrow> bool" where
  "not_deepest pc \<longleftrightarrow> (case local_size pc of (l0, l1, l2) \<Rightarrow> case num_groups pc of (n0, n1, n2) \<Rightarrow>
     l2 * n2 \<le> max (l0 * n0) (l1 * n1))"

lemma grid_width_le: "not_deepest pc \<Longrightarrow> grid_width pc \<le> pocl_cmd_max_grid_dim_width pc"
  by (auto simp: grid_width_def not_deepest_def pocl_cmd_max_grid_dim_width_def le_max_iff_disj split: prod.splits)

definition legal_module :: "environment \<Rightarrow> command_run \<Rightarrow> bytes \<Rightarrow> bool" where
  "legal_module env cmd path \<longleftrightarrow>
     (\<exists>ls g sm. path = module_path env (run_kernel cmd) (ls, g, sm) \<and> (ls = local_size (run_pc cmd) \<or> ls = (0, 0, 0)) \<and>
        (g \<longrightarrow> goffs_zero (run_pc cmd)) \<and>
        (sm \<longrightarrow> grid_width (run_pc cmd) < grid_width_specialization_limit env))"

lemma legal_moduleI:
  assumes deep: "not_deepest (run_pc cmd)"
    and "path = module_path env (run_kernel cmd) key" and "fst key = local_size (run_pc cmd) \<or> fst key = (0, 0, 0)"
    and "fst (snd key) \<Longrightarrow> goffs_zero (run_pc cmd)"
    and "snd (snd key) \<Longrightarrow> pocl_cmd_max_grid_dim_width (run_pc cmd) < grid_width_specialization_limit env"
  shows "legal_module env cmd path"
  unfolding legal_module_def
  by (intro exI [of _ "fst key"] exI [of _ "fst (snd key)"] exI [of _ "snd (snd key)"])
    (use assms(2-) le_less_trans [OF grid_width_le [OF deep]] in auto)

lemma item_legal:
  assumes "item_of env cmd0 ci" and "item_fits cmd ci" and "run_kernel cmd0 = run_kernel cmd"
    and deep: "not_deepest (run_pc cmd)"
  shows "legal_module env cmd (ci_wg ci)"
proof -
  obtain sp where "pocl_cache_final_binary_path env (run_kernel cmd0) cmd0 sp = Some (ci_wg ci)"
    using assms(1) by (auto simp: item_of_def)
  then have "ci_wg ci = module_path env (run_kernel cmd) (wg_key env cmd0 sp)"
    using final_path_eq assms(3) by metis
  then show ?thesis
    using assms(1,2)
    by (intro legal_moduleI [OF deep]) (auto simp: wg_key_def item_of_def item_fits_def same_hash_and_size_def split: if_splits)
qed

text \<open>
  C22: Whatever the history of the cache, a command whose third dimension is not its widest gets a work-group
  function that is legal for it: made from its kernel, for its local size or for any, assuming a zero offset or a
  small grid only if the command has one. And making room for it unloads no function whose item has a nonzero
  reference count. The programs are told apart by their hashes. A grid widest in its third dimension may get a
  module for small grids (\<open>grid_depth_ignored\<close>), and a reference count may be 0 although a launch still uses the
  item, since launches of one kernel with different offsets release each other's items (\<open>release_takes_wrong_item\<close>).
\<close>

theorem cached_function_legal:
  assumes "dl_reachable env cmds st" and "cmd \<in> cmds" and deep: "not_deepest (run_pc cmd)"
    and same: "\<forall>c1 \<in> cmds. \<forall>c2 \<in> cmds. run_hash c1 = run_hash c2 \<longrightarrow> run_kernel c1 = run_kernel c2"
    and run: "pocl_check_kernel_dlhandle_cache env cmd n sp st = Some (wg, st')"
  shows "legal_module env cmd wg \<and>
    {ci_wg ci | ci. ci \<in> set (cache_items st) \<and> ci_ref_count ci \<noteq> 0} \<subseteq> ci_wg ` set (cache_items st')"
proof (cases "fetch_dlhandle_cache_item cmd (cache_items st)")
  case None
  then obtain fn where fn: "pocl_check_kernel_disk_cache env cmd sp = Some fn" "wg = fn"
    "\<exists>ci. cache_items st' = ci # cache_items (get_new_dlhandle_cache_item st)"
    using run by (auto simp: pocl_check_kernel_dlhandle_cache_def Let_def bind_eq_Some_conv split: if_splits)
  obtain sp' where "pocl_cache_final_binary_path env (run_kernel cmd) cmd sp' = Some fn"
    using disk_cache_path [OF fn(1)] by blast
  then have "fn = module_path env (run_kernel cmd) (wg_key env cmd sp')" by (rule final_path_eq)
  then have "legal_module env cmd wg"
    using fn(2) by (intro legal_moduleI [OF deep]) (auto simp: wg_key_def split: if_splits)
  then show ?thesis using fn(3) get_new_items(2) [OF refl, of _ st] by auto
next
  case (Some r)
  then obtain cs where cs: "fetch_dlhandle_cache_item cmd (cache_items st) = Some (wg, cs)" "cache_items st' = cs"
    using run by (cases r) (auto simp: pocl_check_kernel_dlhandle_cache_def)
  from cs(1) obtain us ci vs where ci: "cache_items st = us @ ci # vs" "item_fits cmd ci" "wg = ci_wg ci"
      "cs = ci\<lparr>ci_ref_count := ci_ref_count ci + 1\<rparr> # us @ vs"
    by (rule fetch_items)
  obtain cmd0 where cmd0: "cmd0 \<in> cmds" "item_of env cmd0 ci"
    using dl_reachable_items_ok [OF assms(1)] ci(1) by (auto simp: items_ok_def)
  have "run_hash cmd0 = run_hash cmd" using cmd0(2) ci(2) by (simp add: item_of_def item_fits_def same_hash_and_size_def)
  then have "run_kernel cmd0 = run_kernel cmd" using same cmd0(1) assms(2) by blast
  then have "legal_module env cmd wg" using item_legal [OF cmd0(2) ci(2) _ deep] ci(3) by simp
  moreover have "ci_wg ` set (cache_items st) \<subseteq> ci_wg ` set (cache_items st')" using ci(1,4) cs(2) by auto
  ultimately show ?thesis by blast
qed

lemma cached_function_legal_witness:
  "\<exists>wg st. pocl_check_kernel_dlhandle_cache demo_env (demo_run (8, 1, 1) (2, 1, 1) (5, 0, 0)) 1 True
      \<lparr>cache_items = [], handle_count = 0\<rparr> = Some (wg, st) \<and>
    legal_module demo_env (demo_run (8, 1, 1) (2, 1, 1) (5, 0, 0)) wg"
proof -
  let ?cmd = "demo_run (8, 1, 1) (2, 1, 1) (5, 0, 0)" and ?st = "\<lparr>cache_items = [], handle_count = 0\<rparr>"
  have "map_option (\<lambda>(wg, st). wg) (pocl_check_kernel_dlhandle_cache demo_env ?cmd 1 True ?st) =
      Some (cstr ''/cache/AB/DEFGHIJKLMNOPABCDEFGHIJKLMNOPABCDEFGH/add/8-1-1-smallgrid/add.so'')" by code_simp
  then obtain wg st where r: "pocl_check_kernel_dlhandle_cache demo_env ?cmd 1 True ?st = Some (wg, st)" by auto
  have "not_deepest (run_pc ?cmd)" by code_simp
  from cached_function_legal [OF dl_reachable.init [of demo_env "{?cmd}"] insertI1 this _ r] show ?thesis
    using r by simp
qed

definition launch_both :: "dlhandle_cache option" where
  "launch_both =
     (pocl_check_kernel_dlhandle_cache demo_env (demo_run (8, 1, 1) (2, 1, 1) (0, 0, 0)) 1 True
        \<lparr>cache_items = [], handle_count = 0\<rparr> \<bind>
      (\<lambda>(_, st). map_option snd (pocl_check_kernel_dlhandle_cache demo_env (demo_run (8, 1, 1) (2, 1, 1) (5, 0, 0)) 1 True st)))"

text \<open>
  Releasing goes by hash and local size alone. With two launches of one kernel in flight, one with a
  zero offset and one without, the first release takes the reference of the newer item whichever launch it
  is for, and the second one fails its assertion.
\<close>

theorem release_takes_wrong_item:
  "map_option (map ci_ref_count \<circ> cache_items) launch_both = Some [1, 1] \<and>
   map_option (map (\<lambda>ci. (ci_goffs_zero ci, ci_ref_count ci)) \<circ> cache_items)
     (launch_both \<bind> pocl_release_dlhandle_cache (demo_run (8, 1, 1) (2, 1, 1) (0, 0, 0))) = Some [(False, 0), (True, 1)] \<and>
   (launch_both \<bind> pocl_release_dlhandle_cache (demo_run (8, 1, 1) (2, 1, 1) (0, 0, 0)) \<bind>
      pocl_release_dlhandle_cache (demo_run (8, 1, 1) (2, 1, 1) (5, 0, 0))) = None \<and>
   (launch_both \<bind> pocl_release_dlhandle_cache (demo_run (8, 1, 1) (2, 1, 1) (5, 0, 0)) \<bind>
      pocl_release_dlhandle_cache (demo_run (8, 1, 1) (2, 1, 1) (0, 0, 0))) = None"
  by (intro conjI; code_simp)

text \<open>
  The width of the grid ignores the number of groups in the third dimension: a grid of any depth made
  of single work-items is given a module that assumes a small grid, though its width is its depth.
\<close>

theorem grid_depth_ignored:
  "pocl_cmd_max_grid_dim_width \<lparr>local_size = (1, 1, 1), num_groups = (1, 1, n), global_offset = g\<rparr> = 1 \<and>
   grid_width \<lparr>local_size = (1, 1, 1), num_groups = (1, 1, n), global_offset = g\<rparr> = max 1 n \<and>
   wg_key demo_env (demo_run (1, 1, 1) (1, 1, n) (1, 0, 0)) True = ((1, 1, 1), False, True)"
  by (simp add: pocl_cmd_max_grid_dim_width_def grid_width_def wg_key_def demo_run_def demo_env_def goffs_zero_def)

end
