(* ===== verification/BuildHash.thy ===== *)
theory BuildHash
  imports PoclHash PoclCache
begin

text \<open>
  The build hash of a program (\<open>pocl_cache.c\<close>): the digest of what determines the result of a build, printed into
  the directory name of the program, and the cache directories made with it. The creation of directories
  (\<open>pocl_mkdir_p\<close>, \<open>pocl_mk_tempdir\<close>) depends on the build and is a parameter.
\<close>

section \<open>The hash of a program\<close>

text \<open>
  What the hash is computed from. Sizes of binaries are the lengths of the lists, absent strings are
  \<^const>\<open>None\<close>.
\<close>

record hash_env =
  wg_method :: bytes
  PACKAGE_VERSION :: bytes
  LLVM_VERSION :: bytes
  POCL_BUILD_TIMESTAMP :: bytes
  POCL_KERNELLIB_SHA1 :: bytes
  device_build_hash :: "bytes option"

record program =
  prog_source :: "bytes option"
  pocl_binary :: bytes
  prog_binary :: bytes
  compiler_options :: "bytes option"
  prog_build_hash :: bytes

definition hash_char :: "8 word \<Rightarrow> bytes" where
  "hash_char d = [(d AND 0x0F) + 65, drop_bit 4 (d AND 0xF0) + 65]"

text \<open>\<open>build_hash[2]\<close> is overwritten by a slash, and a zero byte follows.\<close>

definition hash_string :: "bytes \<Rightarrow> bytes" where
  "hash_string digest = ((concat (map hash_char digest)) @ [0])[2 := 47]"

definition update_optional :: "SHA1_CTX \<Rightarrow> bytes option \<Rightarrow> SHA1_CTX" where
  "update_optional ctx s = (case s of None \<Rightarrow> ctx | Some d \<Rightarrow> pocl_SHA1_Update ctx d)"

text \<open>The text or binary the program is built from; the assertions ask for a preprocessed source.\<close>

definition hash_main :: "program \<Rightarrow> bytes option \<Rightarrow> bytes option" where
  "hash_main p preprocessed_source =
     (let from_source = (case preprocessed_source of None \<Rightarrow> None | Some s \<Rightarrow> if s = [] then None else Some s) in
      if prog_source p \<noteq> None then from_source
      else if pocl_binary p \<noteq> [] then Some (pocl_binary p)
      else if prog_binary p \<noteq> [] then Some (prog_binary p)
      else from_source)"

text \<open>\<open>hash_ctx\<close> is an uninitialised variable on the stack.\<close>

definition build_program_compute_hash ::
  "hash_env \<Rightarrow> SHA1_CTX \<Rightarrow> program \<Rightarrow> bytes option \<Rightarrow> program option" where
  "build_program_compute_hash env hash_ctx p preprocessed_source = do {
     main \<leftarrow> hash_main p preprocessed_source;
     let ctx = pocl_SHA1_Update (pocl_SHA1_Init hash_ctx) main;
     let ctx = update_optional ctx (compiler_options p);
     let ctx = pocl_SHA1_Update ctx (wg_method env);
     let ctx = pocl_SHA1_Update ctx (PACKAGE_VERSION env);
     let ctx = pocl_SHA1_Update ctx (LLVM_VERSION env);
     let ctx = pocl_SHA1_Update ctx (POCL_BUILD_TIMESTAMP env);
     let ctx = pocl_SHA1_Update ctx (POCL_KERNELLIB_SHA1 env);
     let ctx = update_optional ctx (device_build_hash env);
     Some (p\<lparr>prog_build_hash := hash_string (fst (pocl_SHA1_Final ctx))\<rparr>)}"

section \<open>Creating the directory\<close>

text \<open>The string a character array holds.\<close>

definition c_string :: "bytes \<Rightarrow> bytes" where
  "c_string a = takeWhile (\<lambda>b. b \<noteq> 0) a"

record cachedir_env = environment +
  use_kernel_cache :: bool
  mkdir_p_ok :: "bytes \<Rightarrow> bool"
  mk_tempdir :: "bytes option"

datatype cachedir_result = Created program bytes | Cachedir_Error program

text \<open>
  The outcome of \<open>pocl_cache_create_program_cachedir\<close>: the changed program with the path of its bitcode, or the
  error 1. Without the kernel cache the last 16 characters of a new temporary directory are the hash.
\<close>

definition pocl_cache_create_program_cachedir ::
  "cachedir_env \<Rightarrow> hash_env \<Rightarrow> SHA1_CTX \<Rightarrow> program \<Rightarrow> bytes option \<Rightarrow> cachedir_result option" where
  "pocl_cache_create_program_cachedir env henv hash_ctx p preprocessed_source =
     (if use_kernel_cache env then do {
        let hash_source = (if prog_source p \<noteq> None \<and> preprocessed_source = None then prog_source p
                           else preprocessed_source);
        p \<leftarrow> build_program_compute_hash henv hash_ctx p hash_source;
        dir \<leftarrow> program_device_dir (environment.truncate env) (c_string (prog_build_hash p)) [];
        if \<not> mkdir_p_ok env dir then Some (Cachedir_Error p)
        else do {
          path \<leftarrow> pocl_cache_program_bc_path (environment.truncate env) (c_string (prog_build_hash p));
          Some (Created p path)}}
      else case mk_tempdir env of
        None \<Rightarrow> Some (Cachedir_Error p)
      | Some random_dir \<Rightarrow>
          let s = length (cache_topdir env) + 1 in
          if length random_dir \<noteq> s + 16 then None
          else do {
            let p = p\<lparr>prog_build_hash := take 16 (drop s random_dir) @ drop 16 (prog_build_hash p)\<rparr>;
            path \<leftarrow> pocl_cache_program_bc_path (environment.truncate env) (c_string (prog_build_hash p));
            Some (Created p path)})"

section \<open>Proofs\<close>

definition hashed_bytes :: "hash_env \<Rightarrow> program \<Rightarrow> bytes \<Rightarrow> bytes" where
  "hashed_bytes env p main =
     main @ (case compiler_options p of None \<Rightarrow> [] | Some s \<Rightarrow> s) @ wg_method env @ PACKAGE_VERSION env @
     LLVM_VERSION env @ POCL_BUILD_TIMESTAMP env @ POCL_KERNELLIB_SHA1 env @
     (case device_build_hash env of None \<Rightarrow> [] | Some s \<Rightarrow> s)"

definition hash_chunks :: "hash_env \<Rightarrow> program \<Rightarrow> bytes \<Rightarrow> bytes list" where
  "hash_chunks env p main =
     [main] @ (case compiler_options p of None \<Rightarrow> [] | Some s \<Rightarrow> [s]) @
     [wg_method env, PACKAGE_VERSION env, LLVM_VERSION env, POCL_BUILD_TIMESTAMP env, POCL_KERNELLIB_SHA1 env] @
     (case device_build_hash env of None \<Rightarrow> [] | Some s \<Rightarrow> [s])"

lemma concat_hash_chunks: "concat (hash_chunks env p main) = hashed_bytes env p main"
  by (simp add: hash_chunks_def hashed_bytes_def split: option.split)

lemma chunk_length: "c \<in> set cs \<Longrightarrow> length c \<le> length (concat cs)"
  by (induction cs) auto

lemma compute_hash_is_sha1:
  assumes "length (ctx_buffer hash_ctx) = 64" and "hash_main p src = Some main"
    and "length (hashed_bytes env p main) < 2 ^ 29"
  shows "build_program_compute_hash env hash_ctx p src =
    Some (p\<lparr>prog_build_hash := hash_string (sha1 (hashed_bytes env p main))\<rparr>)"
proof -
  have "\<forall>c \<in> set (hash_chunks env p main). length c < 2 ^ 29"
    using assms(3) chunk_length [of _ "hash_chunks env p main"] unfolding concat_hash_chunks by fastforce
  from digest_is_sha1 [OF assms(1) this] have
    "fst (pocl_SHA1_Final (foldl pocl_SHA1_Update (pocl_SHA1_Init hash_ctx) (hash_chunks env p main))) =
      sha1 (hashed_bytes env p main)"
    using assms(3) by (simp add: concat_hash_chunks)
  then show ?thesis
    by (simp add: build_program_compute_hash_def assms(2) hash_chunks_def update_optional_def Let_def split: option.splits)
qed

text \<open>What a name keeps of a digest: all but the lower four bits of the second byte.\<close>

definition name_digest :: "bytes \<Rightarrow> bytes" where
  "name_digest d = d[1 := d ! 1 AND 0xF0]"

lemma length_sha1: "length (sha1 m) = 20"
  by (simp add: sha1_def Let_def split_beta)

lemma nibble_sum:
  "w + 65 = hash_low \<Longrightarrow> w < 16 \<Longrightarrow> 65 \<le> hash_low \<and> hash_low \<le> (80 :: 8 word)"
  by (simp add: word_less_nat_alt word_le_nat_alt) (auto simp: unat_word_ariths(1))

lemma nibbles_less: "(d AND 0x0F :: 8 word) < 16" "drop_bit 4 (d AND 0xF0 :: 8 word) < 16"
proof -
  have "(0x0F :: 8 word) = mask 4" by (simp add: mask_eq_exp_minus_1)
  then have "d AND 0x0F = take_bit 4 d" by (simp only: take_bit_eq_mask)
  then have "unat (d AND 0x0F) = take_bit 4 (unat d)" by (simp only: unsigned_take_bit_eq)
  then have "unat (d AND 0x0F) = unat d mod 16" by (simp only: take_bit_eq_mod) simp
  then show "(d AND 0x0F :: 8 word) < 16" by (simp add: word_less_nat_alt)
  have "unat (drop_bit 4 (d AND 0xF0)) = unat (d AND 0xF0) div 16"
    unfolding unat_drop_bit_eq unfolding drop_bit_eq_div by simp
  moreover have "unat (d AND 0xF0) < 256" using unsigned_less [of "d AND 0xF0", where 'a = nat] by simp
  ultimately show "drop_bit 4 (d AND 0xF0 :: 8 word) < 16" by (simp add: word_less_nat_alt)
qed

lemma hash_char_letters: "x \<in> set (hash_char d) \<Longrightarrow> 65 \<le> x \<and> x \<le> 80"
  using nibble_sum [OF refl nibbles_less(1) [of d]] nibble_sum [OF refl nibbles_less(2) [of d]]
  by (auto simp: hash_char_def)

lemma high_nibble_inject: "drop_bit 4 (d AND 0xF0) = drop_bit 4 (e AND 0xF0 :: 8 word) \<longleftrightarrow> d AND 0xF0 = e AND 0xF0"
proof -
  have h: "(0xF0 :: 8 word) = push_bit 4 (mask 4)" by (simp add: mask_eq_exp_minus_1)
  have "w AND 0xF0 = push_bit 4 (drop_bit 4 (w AND 0xF0))" for w :: "8 word"
    unfolding h by (rule bit_word_eqI) (auto simp: bit_simps)
  then show ?thesis by metis
qed

lemma nibbles: "(d :: 8 word) = e \<longleftrightarrow> d AND 0x0F = e AND 0x0F \<and> d AND 0xF0 = e AND 0xF0"
proof -
  have l: "(0x0F :: 8 word) = mask 4" and h: "(0xF0 :: 8 word) = NOT (mask 4)" by (simp_all add: mask_eq_exp_minus_1)
  have "w = (w AND 0x0F) OR (w AND 0xF0)" for w :: "8 word"
    unfolding l h by (rule bit_word_eqI) (auto simp: bit_simps)
  then show ?thesis by metis
qed

lemma hash_char_inject: "hash_char d = hash_char e \<longleftrightarrow> d = e"
  by (simp only: hash_char_def list.inject high_nibble_inject add_right_cancel nibbles [of d e] simp_thms)

lemma concat_hash_char_inject:
  "concat (map hash_char ds) = concat (map hash_char es) \<longleftrightarrow> ds = es" if "length ds = length es"
  using that
proof (induction ds es rule: list_induct2)
  case (Cons d ds e es)
  have "length (hash_char d) = length (hash_char e)" by (simp add: hash_char_def)
  then show ?case using Cons.IH by (simp add: hash_char_inject)
qed simp

lemma hash_string_inject:
  assumes "length d = 20" "length e = 20"
  shows "hash_string d = hash_string e \<longleftrightarrow> name_digest d = name_digest e"
proof -
  obtain d0 d1 ds where d: "d = d0 # d1 # ds" using assms(1) by (auto simp: numeral_eq_Suc length_Suc_conv)
  obtain e0 e1 es where e: "e = e0 # e1 # es" using assms(2) by (auto simp: numeral_eq_Suc length_Suc_conv)
  have l: "length ds = length es" using assms d e by simp
  have s: "hash_string (x0 # x1 # xs) =
      [(x0 AND 0x0F) + 65, drop_bit 4 (x0 AND 0xF0) + 65, 47, drop_bit 4 (x1 AND 0xF0) + 65] @
      concat (map hash_char xs) @ [0]" for x0 x1 xs
    by (simp add: hash_string_def hash_char_def numeral_2_eq_2)
  show ?thesis
    unfolding d e s name_digest_def
    by (simp only: list.inject append_Cons append_Nil append_same_eq high_nibble_inject add_right_cancel
        concat_hash_char_inject [OF l] nibbles [of d0 e0] nth_Cons_Suc nth_Cons_0 list_update_code One_nat_def) blast
qed

lemma hash_string_shape:
  assumes "length d = 20"
  obtains name where "hash_string d = name @ [0]" "length name = 40" "name ! 2 = 47"
    "\<And>i. i < 40 \<Longrightarrow> i \<noteq> 2 \<Longrightarrow> 65 \<le> name ! i \<and> name ! i \<le> 80"
proof
  let ?n = "(concat (map hash_char d))"
  have "length ?n = (\<Sum>x \<leftarrow> d. Suc (Suc 0))" by (simp add: length_concat hash_char_def comp_def)
  then have l: "length ?n = 40" using assms by (simp add: sum_list_triv)
  show "hash_string d = ?n[2 := 47] @ [0]" using l by (simp add: hash_string_def list_update_append)
  show "length (?n[2 := 47]) = 40" "?n[2 := 47] ! 2 = 47" using l by simp_all
  show "65 \<le> ?n[2 := 47] ! i \<and> ?n[2 := 47] ! i \<le> 80" if "i < 40" "i \<noteq> 2" for i
  proof -
    have "?n ! i \<in> set ?n" by (rule nth_mem) (use that l in simp)
    then obtain x where "?n ! i \<in> set (hash_char x)" unfolding set_concat set_map by blast
    then show ?thesis using hash_char_letters [of "?n ! i" x] that by simp
  qed
qed

lemma c_string_name: "(\<And>b. b \<in> set name \<Longrightarrow> b \<noteq> 0) \<Longrightarrow> c_string (name @ 0 # rest) = name"
  by (simp add: c_string_def takeWhile_append)

lemma device_dir_of_name:
  assumes "length name = 40" and "\<And>i. i < 40 \<Longrightarrow> name ! i \<noteq> 0" and "length topdir + length a + 41 < 1024"
    and "cache_topdir env = topdir"
  shows "program_device_dir env (c_string (name @ [0])) a = Some (topdir @ cstr ''/'' @ name @ a)"
proof -
  have nz: "b \<noteq> 0" if "b \<in> set name" for b using that assms(1,2) by (auto simp: in_set_conv_nth)
  have "name ! 0 \<in> set name" using assms(1) by (intro nth_mem) simp
  then have "unat (name ! 0) \<in> set (map unat name)" "unat (name ! 0) \<noteq> 0" using nz by (simp_all add: unat_eq_0)
  then have "sum_list (map unat name) \<noteq> 0" by (meson sum_list_eq_0_iff)
  moreover have "c_string (name @ [0]) = name" by (rule c_string_name) (rule nz)
  ultimately show ?thesis
    using assms
    by (simp add: program_device_dir_def buildhash_is_valid_def snprintf_path_def POCL_FILENAME_LENGTH_def cstr_def)
qed

definition program_name :: "hash_env \<Rightarrow> program \<Rightarrow> bytes \<Rightarrow> bytes" where
  "program_name env p main = take 40 (hash_string (sha1 (hashed_bytes env p main)))"

lemma hash_string_program_name: "hash_string (sha1 (hashed_bytes env p main)) = program_name env p main @ [0]"
  unfolding program_name_def
  by (rule hash_string_shape [OF length_sha1 [of "hashed_bytes env p main"]]) simp

lemma program_name_shape:
  shows "length (program_name env p main) = 40" "program_name env p main ! 2 = 47"
    "\<forall>i < 40. i \<noteq> 2 \<longrightarrow> 65 \<le> program_name env p main ! i \<and> program_name env p main ! i \<le> 80"
  unfolding program_name_def
  by (rule hash_string_shape [OF length_sha1 [of "hashed_bytes env p main"]], simp)+

lemma program_name_nonzero: "i < 40 \<Longrightarrow> program_name env p main ! i \<noteq> 0"
  using program_name_shape(2,3) [of env p main] by (cases "i = 2") auto

lemma program_name_inject:
  "program_name env p main = program_name env' q main' \<longleftrightarrow>
   name_digest (sha1 (hashed_bytes env p main)) = name_digest (sha1 (hashed_bytes env' q main'))"
  using hash_string_inject [OF length_sha1 length_sha1, of "hashed_bytes env p main" "hashed_bytes env' q main'"]
  unfolding hash_string_program_name by simp

lemma create_cachedir_path:
  assumes "use_kernel_cache env" and "length (ctx_buffer hash_ctx) = 64"
    and "hash_main p (Some src) = Some main" and "length (hashed_bytes henv p main) < 2 ^ 29"
    and "length (cache_topdir env) + 52 < 1024"
    and "mkdir_p_ok env (cache_topdir env @ cstr ''/'' @ program_name henv p main)"
  shows "pocl_cache_create_program_cachedir env henv hash_ctx p (Some src) =
    Some (Created (p\<lparr>prog_build_hash := program_name henv p main @ [0]\<rparr>)
      (cache_topdir env @ cstr ''/'' @ program_name henv p main @ cstr ''/program.bc''))"
proof -
  have c: "build_program_compute_hash henv hash_ctx p (Some src) =
      Some (p\<lparr>prog_build_hash := program_name henv p main @ [0]\<rparr>)"
    using compute_hash_is_sha1 [OF assms(2-4)] by (simp add: hash_string_program_name)
  have d: "program_device_dir (environment.truncate env) (c_string (program_name henv p main @ [0])) a =
      Some (cache_topdir env @ cstr ''/'' @ program_name henv p main @ a)" if "length a \<le> 11" for a
    by (rule device_dir_of_name [OF program_name_shape(1) program_name_nonzero])
      (use that assms(5) in \<open>auto simp: environment.truncate_def\<close>)
  show ?thesis
    using assms(1,6) d [of "[]"] d [of "cstr ''/program.bc''"]
    by (simp add: pocl_cache_create_program_cachedir_def c pocl_cache_program_bc_path_def cstr_def)
qed

text \<open>
  C38: With the kernel cache, creating the directory of a program succeeds if the path fits and the directory can be
  made: the program gets a name of 40 characters, letters from A to P but for the slash at place 2, so that the
  bitcode is at \<open>XX/.../program.bc\<close> under the cache directory. The names of two programs agree exactly if the
  SHA-1 digests of everything hashed agree but for the lower four bits of their second byte, which the slash
  overwrites. The source and the options are hashed without a mark between them: moving the end of the source to
  the beginning of the options gives another program with the same name.
\<close>

theorem program_cachedir_path:
  assumes "use_kernel_cache env" and "length (ctx_buffer hash_ctx) = 64"
    and "hash_main p (Some src) = Some main" and "length (hashed_bytes henv p main) < 2 ^ 29"
    and "length (cache_topdir env) + 52 < 1024"
    and "\<And>d. mkdir_p_ok env d"
  shows "\<exists>name. pocl_cache_create_program_cachedir env henv hash_ctx p (Some src) =
        Some (Created (p\<lparr>prog_build_hash := name @ [0]\<rparr>) (cache_topdir env @ cstr ''/'' @ name @ cstr ''/program.bc'')) \<and>
      length name = 40 \<and> name ! 2 = 47 \<and> (\<forall>i < 40. i \<noteq> 2 \<longrightarrow> 65 \<le> name ! i \<and> name ! i \<le> 80) \<and>
      (\<forall>q src' main' q' path'. hash_main q (Some src') = Some main' \<longrightarrow> length (hashed_bytes henv q main') < 2 ^ 29 \<longrightarrow>
        pocl_cache_create_program_cachedir env henv hash_ctx q (Some src') = Some (Created q' path') \<longrightarrow>
        (prog_build_hash q' = name @ [0] \<longleftrightarrow>
         name_digest (sha1 (hashed_bytes henv q main')) = name_digest (sha1 (hashed_bytes henv p main)))) \<and>
      (\<forall>s t. prog_source p \<noteq> None \<longrightarrow> src = s @ t \<longrightarrow> s \<noteq> [] \<longrightarrow> compiler_options p = None \<longrightarrow>
        (\<exists>q. pocl_cache_create_program_cachedir env henv hash_ctx (p\<lparr>compiler_options := Some t\<rparr>) (Some s) =
           Some (Created q (cache_topdir env @ cstr ''/'' @ name @ cstr ''/program.bc''))))"
proof (intro exI [of _ "program_name henv p main"] conjI allI impI)
  show "pocl_cache_create_program_cachedir env henv hash_ctx p (Some src) =
      Some (Created (p\<lparr>prog_build_hash := program_name henv p main @ [0]\<rparr>)
        (cache_topdir env @ cstr ''/'' @ program_name henv p main @ cstr ''/program.bc''))"
    by (rule create_cachedir_path [OF assms(1-5)]) (rule assms(6))
  show "length (program_name henv p main) = 40" "program_name henv p main ! 2 = 47"
    "\<And>i. i < 40 \<Longrightarrow> i \<noteq> 2 \<Longrightarrow> 65 \<le> program_name henv p main ! i"
    "\<And>i. i < 40 \<Longrightarrow> i \<noteq> 2 \<Longrightarrow> program_name henv p main ! i \<le> 80"
    using program_name_shape [of henv p main] by auto
next
  fix q src' main' q' path'
  assume q: "hash_main q (Some src') = Some main'" "length (hashed_bytes henv q main') < 2 ^ 29"
    "pocl_cache_create_program_cachedir env henv hash_ctx q (Some src') = Some (Created q' path')"
  have "prog_build_hash q' = program_name henv q main' @ [0]"
    using q(3) create_cachedir_path [OF assms(1,2) q(1,2) assms(5,6)] by auto
  then show "prog_build_hash q' = program_name henv p main @ [0] \<longleftrightarrow>
      name_digest (sha1 (hashed_bytes henv q main')) = name_digest (sha1 (hashed_bytes henv p main))"
    by (simp add: program_name_inject)
next
  fix s t
  assume a: "prog_source p \<noteq> None" "src = s @ t" "s \<noteq> []" "compiler_options p = None"
  let ?q = "p\<lparr>compiler_options := Some t\<rparr>"
  have m: "main = s @ t" using assms(3) a by (auto simp: hash_main_def split: if_splits)
  have h: "hashed_bytes henv ?q s = hashed_bytes henv p main" using a(4) m by (simp add: hashed_bytes_def)
  have n: "program_name henv ?q s = program_name henv p main" by (simp add: program_name_def h)
  show "\<exists>q. pocl_cache_create_program_cachedir env henv hash_ctx ?q (Some s) =
      Some (Created q (cache_topdir env @ cstr ''/'' @ program_name henv p main @ cstr ''/program.bc''))"
    using create_cachedir_path [OF assms(1,2) _ _ assms(5,6), of ?q s s henv] assms(4) a
    by (auto simp: hash_main_def h n)
qed

definition demo_cachedir :: cachedir_env where
  "demo_cachedir = \<lparr>cache_topdir = cstr ''/cache'', grid_width_specialization_limit = 0, spmd = False,
     pocl_exists = (\<lambda>_. False), codegen_ok = (\<lambda>_. True), loads = (\<lambda>_. True),
     use_kernel_cache = True, mkdir_p_ok = (\<lambda>_. True), mk_tempdir = None\<rparr>"

definition demo_hash_env :: hash_env where
  "demo_hash_env = \<lparr>wg_method = cstr ''loopvec'', PACKAGE_VERSION = cstr ''1.4'', LLVM_VERSION = cstr ''8'',
     POCL_BUILD_TIMESTAMP = [], POCL_KERNELLIB_SHA1 = cstr ''ab'', device_build_hash = Some (cstr ''basic'')\<rparr>"

definition demo_program :: program where
  "demo_program = \<lparr>prog_source = Some (cstr ''kernel''), pocl_binary = [], prog_binary = [],
     compiler_options = None, prog_build_hash = replicate 41 0\<rparr>"

definition demo_ctx :: SHA1_CTX where
  "demo_ctx = \<lparr>ctx_state = (0, 0, 0, 0, 0), count0 = 0, count1 = 0, ctx_buffer = replicate 64 0\<rparr>"

theorem program_cachedir_path_witness:
  "\<exists>name. pocl_cache_create_program_cachedir demo_cachedir demo_hash_env demo_ctx demo_program (Some (cstr ''kernel'')) =
      Some (Created (demo_program\<lparr>prog_build_hash := name @ [0]\<rparr>) (cstr ''/cache/'' @ name @ cstr ''/program.bc'')) \<and>
    length name = 40 \<and>
    (\<exists>q. pocl_cache_create_program_cachedir demo_cachedir demo_hash_env demo_ctx
        (demo_program\<lparr>compiler_options := Some (cstr ''el'')\<rparr>) (Some (cstr ''kern'')) =
      Some (Created q (cstr ''/cache/'' @ name @ cstr ''/program.bc'')))"
proof -
  have t: "cache_topdir demo_cachedir @ cstr ''/'' @ name = cstr ''/cache/'' @ name" for name
    by (simp add: demo_cachedir_def cstr_def)
  have h: "use_kernel_cache demo_cachedir" "length (ctx_buffer demo_ctx) = 64"
    "hash_main demo_program (Some (cstr ''kernel'')) = Some (cstr ''kernel'')"
    "length (hashed_bytes demo_hash_env demo_program (cstr ''kernel'')) < 2 ^ 29"
    "length (cache_topdir demo_cachedir) + 52 < 1024" "\<And>d. mkdir_p_ok demo_cachedir d"
    by (simp_all add: demo_cachedir_def demo_ctx_def hash_main_def demo_program_def hashed_bytes_def demo_hash_env_def cstr_def)
  have s: "prog_source demo_program \<noteq> None" "cstr ''kernel'' = cstr ''kern'' @ cstr ''el''" "cstr ''kern'' \<noteq> []"
    "compiler_options demo_program = None"
    by (simp_all add: demo_program_def cstr_def)
  from program_cachedir_path [OF h] s show ?thesis
    by (simp only: append_assoc [symmetric] t [unfolded append_assoc [symmetric]]) blast
qed

end
