(* ===== verification/FileUtil.thy ===== *)
theory FileUtil
  imports PoclCache "HOL-Library.Sublist"
begin

text \<open>
  The file utilities of the build without LLVM (\<open>pocl_file_util.c\<close>) on a tree of directories and files, and the
  choice of the cache directory (\<open>pocl_cache_init_topdir\<close> of \<open>pocl_cache.c\<close>). System calls are the operations POSIX
  describes, with its resolution of paths; the tree has no symbolic links, but that \<open>pocl_rm_rf\<close> may meet some
  without a target. A call that may fail for a reason outside the tree takes that as an argument.
\<close>

section \<open>The file system\<close>

datatype node = Dir | File bytes

type_synonym fsys = "bytes list \<Rightarrow> node option"

abbreviation slash :: "8 word" where
  "slash \<equiv> 47"

text \<open>The components of a path; repeated slashes count as one.\<close>

fun components_acc :: "bytes \<Rightarrow> bytes \<Rightarrow> bytes list" where
  "components_acc w [] = (if w = [] then [] else [w])"
| "components_acc w (b # bs) =
     (if b = slash then (if w = [] then [] else [w]) @ components_acc [] bs else components_acc (w @ [b]) bs)"

definition components :: "bytes \<Rightarrow> bytes list" where
  "components p = components_acc [] p"

definition dot :: bytes where
  "dot = cstr ''.''"

definition dotdot :: bytes where
  "dotdot = cstr ''..''"

text \<open>Every node but the root is in a directory.\<close>

definition tree :: "fsys \<Rightarrow> bool" where
  "tree fs \<longleftrightarrow> fs [] = Some Dir \<and> (\<forall>c. c \<noteq> [] \<longrightarrow> fs c \<noteq> None \<longrightarrow> fs (butlast c) = Some Dir)"

datatype errno = ENOENT | EEXIST | ENOTDIR | EACCES

text \<open>
  The resolution of a path, component by component: each is looked up in an existing directory, \<open>.\<close> and \<open>..\<close> are
  the directory itself and its parent, and the root is its own parent. The node of the last component need not exist.
\<close>

fun walk :: "fsys \<Rightarrow> bytes list \<Rightarrow> bytes list \<Rightarrow> errno + bytes list" where
  "walk fs c [] = Inr c"
| "walk fs c (x # xs) =
     (case fs c of
        None \<Rightarrow> Inl ENOENT
      | Some (File _) \<Rightarrow> Inl ENOTDIR
      | Some Dir \<Rightarrow> walk fs (if x = dot then c else if x = dotdot then butlast c else c @ [x]) xs)"

text \<open>A relative path starts at the working directory.\<close>

definition start_dir :: "bytes list \<Rightarrow> bytes \<Rightarrow> bytes list" where
  "start_dir cwd path = (if path \<noteq> [] \<and> hd path = slash then [] else cwd)"

text \<open>A path that ends with a slash is resolved as if it went on with a dot.\<close>

definition locate :: "bytes list \<Rightarrow> fsys \<Rightarrow> bytes \<Rightarrow> errno + bytes list" where
  "locate cwd fs path =
     (if path = [] then Inl ENOENT
      else walk fs (start_dir cwd path) (components path @ (if last path = slash then [dot] else [])))"

text \<open>The node a path leads to.\<close>

definition node_at :: "bytes list \<Rightarrow> fsys \<Rightarrow> bytes \<Rightarrow> (bytes list \<times> node) option" where
  "node_at cwd fs path = (case locate cwd fs path of Inl _ \<Rightarrow> None | Inr c \<Rightarrow> map_option (Pair c) (fs c))"

text \<open>
  For the calls that make or remove an entry: the directory of the entry and its name, which is \<^const>\<open>None\<close> for the
  root and for the two dotted names.
\<close>

definition parent_dir :: "bytes list \<Rightarrow> fsys \<Rightarrow> bytes \<Rightarrow> errno + bytes list" where
  "parent_dir cwd fs path =
     (if path = [] then Inl ENOENT else walk fs (start_dir cwd path) (butlast (components path) @ [dot]))"

definition entry_name :: "bytes \<Rightarrow> bytes option" where
  "entry_name path =
     (let cs = components path
      in if cs = [] \<or> last cs = dot \<or> last cs = dotdot then None else Some (last cs))"

section \<open>Making directories\<close>

definition mkdir :: "(bytes list \<Rightarrow> bool) \<Rightarrow> bytes list \<Rightarrow> fsys \<Rightarrow> bytes \<Rightarrow> fsys \<times> errno option" where
  "mkdir denied cwd fs path =
     (case parent_dir cwd fs path of
        Inl e \<Rightarrow> (fs, Some e)
      | Inr d \<Rightarrow>
          (case entry_name path of
             None \<Rightarrow> (fs, Some EEXIST)
           | Some x \<Rightarrow>
               if fs (d @ [x]) \<noteq> None then (fs, Some EEXIST)
               else if denied (d @ [x]) then (fs, Some EACCES)
               else (fs(d @ [x] \<mapsto> Dir), None)))"

definition strrchr_slash :: "bytes \<Rightarrow> nat option" where
  "strrchr_slash p = (if slash \<in> set p then Some (length p - Suc (length (takeWhile (\<lambda>b. b \<noteq> slash) (rev p)))) else None)"

lemma strrchr_less: "strrchr_slash p = Some n \<Longrightarrow> n < length p"
  by (auto simp: strrchr_slash_def split: if_splits) (metis diff_less length_pos_if_in_set zero_less_Suc)

text \<open>
  The result of the recursive call is ignored, and after it \<open>EEXIST\<close> counts as an error. A path without a slash
  whose directory does not exist makes \<open>strrchr\<close> return \<open>NULL\<close>, here \<^const>\<open>None\<close>.
\<close>

function pocl_mkdir_p ::
  "(bytes list \<Rightarrow> bool) \<Rightarrow> bytes list \<Rightarrow> fsys \<Rightarrow> bytes \<Rightarrow> (fsys \<times> errno option) option" where
  "pocl_mkdir_p denied cwd fs path =
     (case mkdir denied cwd fs path of
        (fs, Some ENOENT) \<Rightarrow>
          (case strrchr_slash path of
             None \<Rightarrow> None
           | Some n \<Rightarrow>
               (case pocl_mkdir_p denied cwd fs (take n path) of
                  None \<Rightarrow> None
                | Some (fs, _) \<Rightarrow> Some (mkdir denied cwd fs path)))
      | (fs, Some EEXIST) \<Rightarrow> Some (fs, None)
      | (fs, error) \<Rightarrow> Some (fs, error))"
  by auto
termination by (relation "measure (\<lambda>(_, _, _, p). length p)") (auto dest: strrchr_less)

declare pocl_mkdir_p.simps [simp del]

section \<open>Reading and writing files\<close>

definition pocl_exists :: "bytes list \<Rightarrow> fsys \<Rightarrow> bytes \<Rightarrow> bool" where
  "pocl_exists cwd fs path \<longleftrightarrow> node_at cwd fs path \<noteq> None"

text \<open>
  The names \<open>readdir\<close> returns for a directory, in its order. POSIX leaves it open whether the two dotted names are
  among them; on the file systems of Linux they are.
\<close>

type_synonym directory_reader = "fsys \<Rightarrow> bytes list \<Rightarrow> bytes list"


text \<open>\<open>remove\<close>: a file, or an empty directory.\<close>

definition pocl_remove :: "directory_reader \<Rightarrow> bytes list \<Rightarrow> fsys \<Rightarrow> bytes \<Rightarrow> fsys \<times> int" where
  "pocl_remove readdir cwd fs path =
     (case parent_dir cwd fs path of
        Inl _ \<Rightarrow> (fs, -1)
      | Inr d \<Rightarrow>
          (case entry_name path of
             None \<Rightarrow> (fs, -1)
           | Some x \<Rightarrow>
               let c = d @ [x] in
               (case fs c of
                  None \<Rightarrow> (fs, -1)
                | Some (File _) \<Rightarrow> if last path = slash then (fs, -1) else (fs(c := None), 0)
                | Some Dir \<Rightarrow>
                    if \<exists>y \<in> set (readdir fs c). y \<noteq> dot \<and> y \<noteq> dotdot then (fs, -1) else (fs(c := None), 0))))"

text \<open>
  \<open>fopen\<close> for writing, without and with truncation: the file with the old content that stays, or \<^const>\<open>None\<close>.
\<close>

definition open_for_write :: "bytes list \<Rightarrow> fsys \<Rightarrow> bytes \<Rightarrow> bool \<Rightarrow> (bytes list \<times> bytes) option" where
  "open_for_write cwd fs path at_end =
     (if path = [] \<or> last path = slash then None
      else case locate cwd fs path of
        Inl _ \<Rightarrow> None
      | Inr c \<Rightarrow>
          (case fs c of
             Some Dir \<Rightarrow> None
           | Some (File old) \<Rightarrow> Some (c, if at_end then old else [])
           | None \<Rightarrow> Some (c, [])))"

definition pocl_touch_file :: "bytes list \<Rightarrow> fsys \<Rightarrow> bytes \<Rightarrow> fsys \<times> int" where
  "pocl_touch_file cwd fs path =
     (case open_for_write cwd fs path False of
        None \<Rightarrow> (fs, -1)
      | Some (c, old) \<Rightarrow> (fs(c \<mapsto> File old), 0))"

text \<open>
  What the C library does with the file opened for writing: the bytes \<open>fwrite\<close> takes, and the return values of
  \<open>fflush\<close> (or \<open>fdatasync\<close>) and \<open>fclose\<close>.
\<close>

record write_io =
  fwrite_takes :: nat
  sync_error :: int
  fclose_error :: int

definition pocl_write_file ::
  "directory_reader \<Rightarrow> write_io \<Rightarrow> bytes list \<Rightarrow> fsys \<Rightarrow> bytes \<Rightarrow> bytes \<Rightarrow> bool \<Rightarrow> bool \<Rightarrow> fsys \<times> int" where
  "pocl_write_file readdir w cwd fs path content at_end dont_rewrite =
     (if pocl_exists cwd fs path \<and> dont_rewrite \<and> \<not> at_end then (fs, 0)
      else
        let (fs, res) = (if pocl_exists cwd fs path \<and> \<not> dont_rewrite then pocl_remove readdir cwd fs path else (fs, 0)) in
        if res \<noteq> 0 then (fs, res)
        else case open_for_write cwd fs path at_end of
          None \<Rightarrow> (fs, -1)
        | Some (c, old) \<Rightarrow>
            let written = take (fwrite_takes w) content; fs = fs(c \<mapsto> File (old @ written)) in
            if length written < length content then (fs, -1)
            else if sync_error w \<noteq> 0 then (fs, sync_error w)
            else (fs, fclose_error w))"

definition CHUNK_SIZE :: nat where
  "CHUNK_SIZE = 2 * 1024 * 1024"

text \<open>
  The loop of \<open>pocl_read_file\<close>: \<open>fread\<close> returns a full chunk as long as there is one. The first list is what has
  been read, the second what the stream still holds.
\<close>

function read_chunks :: "bytes \<Rightarrow> bytes \<Rightarrow> bytes" where
  "read_chunks got rest =
     (let chunk = take CHUNK_SIZE rest; got = got @ chunk in
      if length chunk = CHUNK_SIZE then read_chunks got (drop CHUNK_SIZE rest) else got)"
  by auto
termination by (relation "measure (length \<circ> snd)") (auto simp: CHUNK_SIZE_def)

declare read_chunks.simps [simp del]

text \<open>The content with its size, or the error; a read error can occur at any point.\<close>

definition pocl_read_file :: "bool \<Rightarrow> bytes list \<Rightarrow> fsys \<Rightarrow> bytes \<Rightarrow> (bytes \<times> 64 word) option" where
  "pocl_read_file read_error cwd fs path =
     (case node_at cwd fs path of
        Some (_, File d) \<Rightarrow> if read_error then None else let c = read_chunks [] d in Some (c, of_nat (length c))
      | _ \<Rightarrow> None)"

text \<open>
  \<open>pocl_write_tempfile\<close> repeats \<open>write\<close> until everything is written; \<open>write k n\<close> is the result of the \<open>k\<close>-th call
  with \<open>n\<close> bytes left. The result is the content of the file and whether all went well.
\<close>

partial_function (option) write_loop :: "(nat \<Rightarrow> nat \<Rightarrow> int) \<Rightarrow> nat \<Rightarrow> bytes \<Rightarrow> bytes \<Rightarrow> (bytes \<times> bool) option" where
  "write_loop write k written content =
     (let res = write k (length content) in
      if res < 0 then Some (written, False)
      else
        let written = written @ take (nat res) content; content = drop (nat res) content in
        if content \<noteq> [] then write_loop write (Suc k) written content else Some (written, True))"

text \<open>
  \<open>name\<close> is what \<open>mkstemps\<close> made of the pattern, which fails where it is \<^const>\<open>None\<close> or its directory does not exist;
  \<open>synced\<close> is what \<open>fdatasync\<close>, or \<open>close\<close> after it, returns. The assertion asks for a non-empty content.
\<close>

definition pocl_write_tempfile ::
  "int \<Rightarrow> (nat \<Rightarrow> nat \<Rightarrow> int) \<Rightarrow> bytes list \<Rightarrow> fsys \<Rightarrow> bytes option \<Rightarrow> bytes \<Rightarrow> (fsys \<times> bool) option" where
  "pocl_write_tempfile synced write cwd fs name content =
     (if content = [] then None
      else case name of
        None \<Rightarrow> Some (fs, False)
      | Some output_path \<Rightarrow>
          (case locate cwd fs output_path of
             Inl _ \<Rightarrow> Some (fs, False)
           | Inr c \<Rightarrow> do {
               (written, ok) \<leftarrow> write_loop write 0 [] content;
               Some (fs(c \<mapsto> File written), ok \<and> synced = 0)}))"

section \<open>Removing a directory tree\<close>






section \<open>The cache directory\<close>

record cache_vars =
  POCL_CACHE_DIR :: "bytes option"
  POCL_KERNEL_CACHE :: bool
  XDG_CACHE_HOME :: "bytes option"
  HOME :: "bytes option"

record topdir_state =
  cache_topdir_initialized :: bool
  topdir :: bytes
  tempfile_pattern :: bytes
  tempdir_pattern :: bytes

definition topdir_path :: "cache_vars \<Rightarrow> bytes" where
  "topdir_path v =
     (let p = (if POCL_KERNEL_CACHE v then cstr ''pocl/kcache'' else cstr ''pocl/uncached'') in
      case POCL_CACHE_DIR v of
        Some d \<Rightarrow> d
      | None \<Rightarrow>
          (case XDG_CACHE_HOME v of
             Some (b # bs) \<Rightarrow> (b # bs) @ cstr ''/'' @ p
           | _ \<Rightarrow> (case HOME v of Some h \<Rightarrow> h @ cstr ''/.cache/'' @ p | None \<Rightarrow> cstr ''/tmp/'' @ p)))"

text \<open>The changed state and file system with the return value, or a failed assertion.\<close>

definition pocl_cache_init_topdir ::
  "cache_vars \<Rightarrow> (bytes list \<Rightarrow> bool) \<Rightarrow> bytes list \<Rightarrow> topdir_state \<Rightarrow> fsys \<Rightarrow> (topdir_state \<times> fsys \<times> int) option" where
  "pocl_cache_init_topdir v denied cwd st fs =
     (if cache_topdir_initialized st then Some (st, fs, 0)
      else
        let path = topdir_path v; st = st\<lparr>topdir := take (POCL_FILENAME_LENGTH - 1) path\<rparr> in
        if POCL_FILENAME_LENGTH \<le> length path then Some (st, fs, 1)
        else if path = [] then None
        else case pocl_mkdir_p denied cwd fs path of
          None \<Rightarrow> None
        | Some (fs, Some error) \<Rightarrow> Some (st, fs, 1)
        | Some (fs, None) \<Rightarrow>
            (let st = st\<lparr>tempfile_pattern := take (POCL_FILENAME_LENGTH - 1) (path @ cstr ''/tempfile'')\<rparr> in
             case snprintf_path (path @ (if POCL_KERNEL_CACHE v then cstr ''/tempdir'' else cstr ''/_UNCACHED'')) of
               None \<Rightarrow> None
             | Some d \<Rightarrow> Some (st\<lparr>tempdir_pattern := d, cache_topdir_initialized := True\<rparr>, fs, 0)))"

section \<open>Making directories: proofs\<close>

lemma components_slash: "components_acc w (p @ slash # q) = components_acc w p @ components_acc [] q"
  by (induction w p rule: components_acc.induct) auto

lemma components_word: "slash \<notin> set w \<Longrightarrow> components_acc v w = (if v @ w = [] then [] else [v @ w])"
  by (induction v w rule: components_acc.induct) auto

text \<open>The directory a path names if none of its components is a dotted name.\<close>

definition resolve :: "bytes list \<Rightarrow> bytes \<Rightarrow> bytes list" where
  "resolve cwd path = start_dir cwd path @ components path"

definition plain :: "bytes list \<Rightarrow> bool" where
  "plain xs \<longleftrightarrow> dot \<notin> set xs \<and> dotdot \<notin> set xs"

lemma plain_simps [simp]:
  "plain []" "plain (x # xs) \<longleftrightarrow> x \<noteq> dot \<and> x \<noteq> dotdot \<and> plain xs"
  "plain (xs @ ys) \<longleftrightarrow> plain xs \<and> plain ys"
  by (auto simp: plain_def)

lemma start_dir_append: "p \<noteq> [] \<Longrightarrow> start_dir cwd (p @ q) = start_dir cwd p"
  by (simp add: start_dir_def)

lemma components_slash_word:
  "slash \<notin> set w \<Longrightarrow> components (p @ slash # w) = components p @ (if w = [] then [] else [w])"
  by (simp add: components_def components_slash components_word)

lemma resolve_slash:
  assumes "p \<noteq> []" and "slash \<notin> set w"
  shows "resolve cwd (p @ slash # w) = resolve cwd p @ (if w = [] then [] else [w])"
  using assms by (simp add: resolve_def start_dir_append components_slash_word)

lemma components_empty:
  assumes "components p = []"
  shows "p = [] \<or> hd p = slash"
proof -
  have acc: "components_acc w p \<noteq> []" if "w \<noteq> []" for w p
    using that by (induction w p rule: components_acc.induct) auto
  show ?thesis
  proof (cases p)
    case (Cons a q)
    then show ?thesis using assms acc [of "[a]" q] by (auto simp: components_def split: if_splits)
  qed simp
qed

lemma strrchr_split:
  "strrchr_slash p = Some n \<Longrightarrow> \<exists>w. p = take n p @ slash # w \<and> slash \<notin> set w"
  "strrchr_slash p = None \<Longrightarrow> slash \<notin> set p"
proof -
  assume "strrchr_slash p = Some n"
  then have s: "slash \<in> set (rev p)" "n = length p - Suc (length (takeWhile (\<lambda>b. b \<noteq> slash) (rev p)))"
    by (auto simp: strrchr_slash_def split: if_splits)
  from split_list_first [OF s(1)] obtain ys zs where r: "rev p = ys @ slash # zs" "slash \<notin> set ys" by blast
  then have "takeWhile (\<lambda>b. b \<noteq> slash) (rev p) = ys" by (simp add: takeWhile_append)
  moreover have p: "p = rev zs @ slash # rev ys" using r(1) by (metis append.assoc append_Cons append_Nil rev.simps(2) rev_append rev_rev_ident)
  ultimately have "n = length zs" using s(2) by simp
  then show "\<exists>w. p = take n p @ slash # w \<and> slash \<notin> set w" using p r(2) by (intro exI [of _ "rev ys"]) simp
next
  assume "strrchr_slash p = None"
  then show "slash \<notin> set p" by (auto simp: strrchr_slash_def split: if_splits)
qed

definition make_dirs :: "fsys \<Rightarrow> bytes list \<Rightarrow> fsys" where
  "make_dirs fs c = (\<lambda>q. if prefix q c \<and> fs q = None then Some Dir else fs q)"

lemma tree_prefix:
  assumes "tree fs" and "fs c \<noteq> None" and "prefix q c"
  shows "fs q \<noteq> None"
  using assms(2,3)
proof (induction c rule: rev_induct)
  case (snoc x c)
  then have "fs c = Some Dir" using assms(1) unfolding tree_def by (metis butlast_snoc snoc_eq_iff_butlast)
  then show ?case using snoc by (auto simp: prefix_snoc)
qed (use assms(1) in \<open>auto simp: tree_def\<close>)


text \<open>A walk over plain names, no file being in the way, to a directory.\<close>

lemma walk_plain:
  assumes "tree fs" and "fs c = Some Dir" and "plain xs"
    and "\<forall>i \<le> length xs. \<forall>d. fs (c @ take i xs) \<noteq> Some (File d)"
  shows "walk fs c (xs @ [dot]) = (if fs (c @ xs) = None then Inl ENOENT else Inr (c @ xs))"
  using assms(2-4)
proof (induction xs arbitrary: c)
  case (Cons x xs)
  have nf: "fs ((c @ [x]) @ take i xs) \<noteq> Some (File d)" if "i \<le> length xs" for i d
    using Cons.prems(3) that by (auto dest: spec [of _ "Suc i"])
  show ?case
  proof (cases "fs (c @ [x])")
    case None
    have "fs (c @ x # xs) = None"
      using tree_prefix [OF assms(1), of "c @ x # xs" "c @ [x]"] None by (cases "fs (c @ x # xs)") auto
    moreover have "walk fs (c @ [x]) (xs @ [dot]) = Inl ENOENT" using None by (cases xs) auto
    ultimately show ?thesis using Cons.prems by simp
  next
    case (Some n)
    then have "fs (c @ [x]) = Some Dir" using nf [of 0] by (cases n) auto
    then have "walk fs (c @ [x]) (xs @ [dot]) = (if fs ((c @ [x]) @ xs) = None then Inl ENOENT else Inr ((c @ [x]) @ xs))"
      using Cons.prems(2) nf by (intro Cons.IH) auto
    then show ?thesis using Cons.prems by simp
  qed
qed simp

lemma start_is_dir: "tree fs \<Longrightarrow> fs cwd = Some Dir \<Longrightarrow> fs (start_dir cwd path) = Some Dir"
  by (simp add: start_dir_def tree_def)

text \<open>\<open>mkdir\<close> on a plain path with no file in the way.\<close>

lemma mkdir_plain:
  assumes t: "tree fs" "fs cwd = Some Dir" and p: "path \<noteq> []" "plain (components path)" "c = resolve cwd path"
    and nf: "\<forall>i < length c. \<forall>d. fs (take i c) \<noteq> Some (File d)"
  shows "mkdir denied cwd fs path =
    (if fs c \<noteq> None then (fs, Some EEXIST)
     else if fs (butlast c) = None then (fs, Some ENOENT)
     else if denied c then (fs, Some EACCES)
     else (fs(c \<mapsto> Dir), None))"
proof (cases "components path = []")
  case True
  then have "start_dir cwd path = []" using components_empty [OF True] p(1) by (simp add: start_dir_def)
  moreover from this have "c = []" using True p(3) by (simp add: resolve_def)
  ultimately show ?thesis
    using True p(1) t(1) by (simp add: mkdir_def parent_dir_def entry_name_def tree_def Let_def)
next
  case False
  let ?s = "start_dir cwd path" let ?b = "butlast (components path)"
  have c: "c = (?s @ ?b) @ [last (components path)]" using False p(3) by (simp add: resolve_def)
  have pl: "plain ?b" "last (components path) \<noteq> dot" "last (components path) \<noteq> dotdot"
    using p(2) last_in_set [OF False] unfolding plain_def by (metis in_set_butlastD)+
  have "fs (?s @ take i ?b) \<noteq> Some (File d)" if "i \<le> length ?b" for i d
  proof -
    have "take (length ?s + i) c = ?s @ take i ?b" "length ?s + i < length c"
      using that unfolding c by simp_all
    then show ?thesis using nf by metis
  qed
  then have "parent_dir cwd fs path = (if fs (?s @ ?b) = None then Inl ENOENT else Inr (?s @ ?b))"
    using p(1) walk_plain [OF t(1) start_is_dir [OF t] pl(1)] by (simp add: parent_dir_def)
  moreover have "entry_name path = Some (last (components path))"
    using False pl by (simp add: entry_name_def Let_def)
  moreover have b: "butlast c = ?s @ ?b" using c by (metis butlast_snoc)
  moreover have "fs c = None" if "fs (butlast c) = None"
    using that tree_prefix [OF t(1), of c "butlast c"] by (metis prefixeq_butlast)
  ultimately show ?thesis using c by (auto simp: mkdir_def)
qed

lemma make_dirs_exists: "tree fs \<Longrightarrow> fs c \<noteq> None \<Longrightarrow> make_dirs fs c = fs"
  using tree_prefix [of fs c] by (auto simp: make_dirs_def)

lemma make_dirs_step:
  assumes "c = q @ [x]" and "fs c = None"
  shows "(make_dirs fs q)(c \<mapsto> Dir) = make_dirs fs c"
  using assms by (auto simp: make_dirs_def prefix_snoc)

lemma no_file_above:
  assumes "i < length c" "\<forall>i < length c. \<forall>d. fs (take i c) \<noteq> Some (File d)"
  shows "make_dirs fs q (take i c) \<noteq> Some (File d)"
  using assms by (auto simp: make_dirs_def)

lemma make_dirs_made:
  assumes "\<forall>i < length c. \<forall>d. fs (take i c) \<noteq> Some (File d)" and "tree fs"
  shows "make_dirs fs c c \<noteq> None" "tree (make_dirs fs c)"
    "make_dirs (make_dirs fs c) c = make_dirs fs c"
proof -
  show "make_dirs fs c c \<noteq> None" by (simp add: make_dirs_def)
  show "make_dirs (make_dirs fs c) c = make_dirs fs c" by (auto simp: make_dirs_def)
  have d: "make_dirs fs c q = Some Dir" if "strict_prefix q c" for q
  proof -
    have "take (length q) c = q" "length q < length c"
      using that by (metis append_eq_conv_conj prefix_def prefix_order.less_imp_le, simp add: prefix_length_less)
    then have "fs q \<noteq> Some (File x)" for x using assms(1) by metis
    then show ?thesis using that by (cases "fs q"; cases "the (fs q)") (auto simp: make_dirs_def prefix_order.less_imp_le)
  qed
  show "tree (make_dirs fs c)" unfolding tree_def
  proof (intro conjI allI impI)
    show "make_dirs fs c [] = Some Dir" using assms(2) by (simp add: tree_def make_dirs_def)
  next
    fix q :: "bytes list" assume q: "q \<noteq> []" "make_dirs fs c q \<noteq> None"
    show "make_dirs fs c (butlast q) = Some Dir"
    proof (cases "fs q = None")
      case False
      then have "fs (butlast q) = Some Dir" using assms(2) q(1) by (simp add: tree_def)
      then show ?thesis by (simp add: make_dirs_def)
    next
      case True
      then have "prefix q c" using q(2) by (auto simp: make_dirs_def split: if_splits)
      then have "strict_prefix (butlast q) c"
        using q(1) by (metis append_butlast_last_id prefix_order.dual_order.strict_trans1 strict_prefixI' prefix_order.less_le_trans)
      then show ?thesis by (rule d)
    qed
  qed
qed

lemma mkdir_p_result:
  assumes "tree fs" and "fs cwd = Some Dir" and "path \<noteq> []" and "plain (components path)" and "c = resolve cwd path"
    and "\<forall>i < length c. \<forall>d. fs (take i c) \<noteq> Some (File d)" and "\<forall>q. prefix q c \<longrightarrow> \<not> denied q"
  shows "pocl_mkdir_p denied cwd fs path =
    Some (make_dirs fs c,
      if fs c = None \<and> fs (butlast c) = None \<and> last path = slash then Some EEXIST else None)"
  using assms
proof (induction denied cwd fs path arbitrary: c rule: pocl_mkdir_p.induct)
  case (1 denied cwd fs path)
  have nd: "\<not> denied c" using "1.prems"(7) by simp
  note nf = "1.prems"(6)
  note mk = mkdir_plain [OF "1.prems"(1-6), of denied]
  show ?case
  proof (cases "fs c \<noteq> None")
    case True
    then have "mkdir denied cwd fs path = (fs, Some EEXIST)" by (simp add: mk)
    then show ?thesis using True make_dirs_exists [OF "1.prems"(1) True] by (subst pocl_mkdir_p.simps) simp
  next
    case False
    then have c: "fs c = None" by simp
    then have ne: "c \<noteq> []" using "1.prems"(1) by (auto simp: tree_def)
    show ?thesis
    proof (cases "fs (butlast c) = None")
      case False
      then have m: "mkdir denied cwd fs path = (fs(c \<mapsto> Dir), None)"
        using c nd by (simp add: mk)
      have "make_dirs fs (butlast c) = fs" by (rule make_dirs_exists [OF "1.prems"(1) False])
      then have "fs(c \<mapsto> Dir) = make_dirs fs c"
        using make_dirs_step [of c "butlast c" "last c" fs] ne c by simp
      then show ?thesis using False m by (subst pocl_mkdir_p.simps) simp
    next
      case True
      have m: "mkdir denied cwd fs path = (fs, Some ENOENT)"
        using c True by (simp add: mk)
      have bc: "butlast c \<noteq> []" using True "1.prems"(1) by (auto simp: tree_def)
      show ?thesis
      proof (cases "strrchr_slash path")
        case None
        then have "c = start_dir cwd path @ [path]"
          using strrchr_split(2) [of path] "1.prems"(3,5) components_word [of path "[]"]
          by (auto simp: resolve_def components_def)
        moreover have "hd path \<noteq> slash" using strrchr_split(2) [OF None] "1.prems"(3) by (cases path) auto
        ultimately show ?thesis using True "1.prems"(2) by (simp add: start_dir_def)
      next
        case (Some n)
        then obtain w where w: "path = take n path @ slash # w" "slash \<notin> set w" using strrchr_split(1) by blast
        let ?prev = "take n path"
        have pn: "?prev \<noteq> []"
        proof
          assume p: "?prev = []"
          with w(1) have "path = slash # w" by (metis append_Nil)
          then have "c = (if w = [] then [] else [w])"
            using "1.prems"(5) w(2) by (simp add: resolve_def start_dir_def components_def components_word)
          then show False using bc by (simp split: if_splits)
        qed
        define q where "q = resolve cwd ?prev"
        have cq: "c = q @ (if w = [] then [] else [w])"
          using resolve_slash [OF pn w(2), of cwd] w(1) "1.prems"(5) unfolding q_def by metis
        have "components path = components ?prev @ (if w = [] then [] else [w])"
          using components_slash_word [OF w(2), of ?prev] w(1) by metis
        then have plq: "plain (components ?prev)" using "1.prems"(4) by simp
        have pre: "prefix q c" unfolding cq by simp
        have tk: "take i q = take i c" if "i < length q" for i using that by (simp add: cq)
        have lq: "length q \<le> length c" by (simp add: cq)
        have nfq: "\<forall>i < length q. \<forall>d. fs (take i q) \<noteq> Some (File d)"
          using tk nf lq by (metis less_le_trans)
        have ndq: "\<forall>r. prefix r q \<longrightarrow> \<not> denied r" using "1.prems"(7) pre by (meson prefix_order.order_trans)
        obtain e where ih: "pocl_mkdir_p denied cwd fs ?prev = Some (make_dirs fs q, e)"
          using "1.IH" [OF m [symmetric] refl refl Some "1.prems"(1,2) pn plq q_def nfq ndq] by blast
        note made = make_dirs_made [OF nfq "1.prems"(1)]
        have cwd: "make_dirs fs q cwd = Some Dir" using "1.prems"(2) by (simp add: make_dirs_def)
        have nfm: "\<forall>i < length c. \<forall>d. make_dirs fs q (take i c) \<noteq> Some (File d)"
          using no_file_above nf by metis
        note mkq = mkdir_plain [OF made(2) cwd "1.prems"(3-5) nfm, of denied]
        have run: "pocl_mkdir_p denied cwd fs path = Some (mkdir denied cwd (make_dirs fs q) path)"
          by (subst pocl_mkdir_p.simps) (simp add: m Some ih)
        show ?thesis
        proof (cases "w = []")
          case e: True
          then have "mkdir denied cwd (make_dirs fs q) path = (make_dirs fs c, Some EEXIST)"
            using cq by (simp add: mkq) (simp add: make_dirs_def)
          moreover have "last path = slash" using w(1) e by (metis last_snoc)
          ultimately show ?thesis using run c True by simp
        next
          case e: False
          then have cw: "c = q @ [w]" using cq by simp
          have "last path = last w" using w(1) e by (metis last.simps last_appendR list.distinct(1))
          then have l: "last path \<noteq> slash" using w(2) e last_in_set by metis
          have "make_dirs fs q c = None" using c cw by (auto simp: make_dirs_def)
          moreover have "make_dirs fs q (butlast c) \<noteq> None" using cw by (simp add: make_dirs_def)
          ultimately have "mkdir denied cwd (make_dirs fs q) path = ((make_dirs fs q)(c \<mapsto> Dir), None)"
            using nd by (simp add: mkq)
          then show ?thesis using run l make_dirs_step [where fs = fs and x = w, OF cw] c by simp
        qed
      qed
    qed
  qed
qed

text \<open>A path that ends in a dot component: the recursion makes the directory, and then the entry is there.\<close>

lemma mkdir_p_dot:
  assumes t: "tree fs" "fs cwd = Some Dir" and p: "path \<noteq> []" "plain (components path)" "c = resolve cwd path"
    and nf: "\<forall>i < length c. \<forall>d. fs (take i c) \<noteq> Some (File d)" and nd: "\<forall>q. prefix q c \<longrightarrow> \<not> denied q"
    and none: "fs c = None"
  shows "pocl_mkdir_p denied cwd fs (path @ slash # dot) = Some (make_dirs fs c, Some EEXIST)"
proof -
  let ?p = "path @ slash # dot" let ?s = "start_dir cwd path"
  have d: "slash \<notin> set dot" "dot \<noteq> []" by (simp_all add: dot_def cstr_def)
  have cs: "components ?p = components path @ [dot]" using components_slash_word [OF d(1)] d(2) by simp
  have c: "c = ?s @ components path" by (simp add: p(3) resolve_def)
  have walk: "parent_dir cwd fs' ?p = (if fs' c = None then Inl ENOENT else Inr c)"
    if "tree fs'" "fs' cwd = Some Dir" "\<forall>i < length c. \<forall>d. fs' (take i c) \<noteq> Some (File d)"
      "\<forall>d. fs' c \<noteq> Some (File d)" for fs'
  proof -
    have "fs' (?s @ take i (components path)) \<noteq> Some (File d)" if "i \<le> length (components path)" for i d
    proof (cases "i = length (components path)")
      case False
      then have "take (length ?s + i) c = ?s @ take i (components path)" "length ?s + i < length c"
        using that by (simp_all add: c)
      then show ?thesis using \<open>\<forall>i < length c. \<forall>d. fs' (take i c) \<noteq> Some (File d)\<close> by metis
    qed (use \<open>\<forall>d. fs' c \<noteq> Some (File d)\<close> in \<open>simp add: c\<close>)
    then have "walk fs' ?s (components path @ [dot]) = (if fs' c = None then Inl ENOENT else Inr c)"
      using walk_plain [OF that(1) start_is_dir [OF that(1,2)] p(2)] by (simp add: c)
    then show ?thesis using p(1) by (simp add: parent_dir_def cs start_dir_append)
  qed
  have entry: "entry_name ?p = None" by (simp add: entry_name_def cs Let_def)
  have first: "mkdir denied cwd fs ?p = (fs, Some ENOENT)"
    using walk [OF t nf] none by (simp add: mkdir_def)
  have str: "strrchr_slash ?p = Some (length path)"
    by (simp add: strrchr_slash_def dot_def cstr_def)
  have made: "pocl_mkdir_p denied cwd fs path = Some (make_dirs fs c,
      if fs c = None \<and> fs (butlast c) = None \<and> last path = slash then Some EEXIST else None)"
    by (rule mkdir_p_result [OF t p nf nd])
  have "make_dirs fs c cwd = Some Dir" "make_dirs fs c c = Some Dir"
    using t(2) none by (simp_all add: make_dirs_def)
  moreover have "\<forall>i < length c. \<forall>d. make_dirs fs c (take i c) \<noteq> Some (File d)"
    using no_file_above nf by metis
  ultimately have "mkdir denied cwd (make_dirs fs c) ?p = (make_dirs fs c, Some EEXIST)"
    using walk [OF make_dirs_made(2) [OF nf t(1)]] entry by (simp add: mkdir_def)
  then show ?thesis by (subst pocl_mkdir_p.simps) (simp add: first str made)
qed

section \<open>Files: proofs\<close>

lemma read_chunks_all: "read_chunks got rest = got @ rest"
proof (induction got rest rule: read_chunks.induct)
  case (1 got rest)
  then show ?case by (subst read_chunks.simps) (auto simp: Let_def min_def split: if_splits)
qed

text \<open>Making a file where a walk has ended leaves the walk as it is.\<close>

lemma walk_same:
  "walk fs c xs = Inr e \<Longrightarrow> fs e \<noteq> Some Dir \<Longrightarrow> walk (fs(e \<mapsto> File d)) c xs = Inr e"
  by (induction fs c xs rule: walk.induct) (auto split: option.splits node.splits)

lemma locate_same:
  "locate cwd fs path = Inr c \<Longrightarrow> fs c \<noteq> Some Dir \<Longrightarrow> locate cwd (fs(c \<mapsto> File d)) path = Inr c"
  by (auto simp: locate_def walk_same split: if_splits)

lemma open_then_read:
  assumes "open_for_write cwd fs path at_end = Some (c, old)"
  shows "pocl_read_file False cwd (fs(c \<mapsto> File d)) path = Some (d, of_nat (length d))"
    and "locate cwd fs path = Inr c" and "\<not> at_end \<Longrightarrow> old = []"
  using assms
  by (auto simp: open_for_write_def pocl_read_file_def node_at_def locate_same read_chunks_all
      split: if_splits sum.splits option.splits node.splits)

lemma write_then_read:
  assumes "pocl_write_file readdir w cwd fs path content False dont_rewrite = (fs', 0)"
    and "\<not> (pocl_exists cwd fs path \<and> dont_rewrite)"
  shows "pocl_read_file False cwd fs' path = Some (content, of_nat (length content))"
proof -
  obtain fs1 c old where o: "open_for_write cwd fs1 path False = Some (c, old)" "fs' = fs1(c \<mapsto> File (old @ content))"
    using assms by (auto simp: pocl_write_file_def Let_def split: if_splits option.splits prod.splits)
  then show ?thesis using open_then_read(1,3) [OF o(1)] by simp
qed

lemma append_then_read:
  assumes "pocl_write_file readdir w cwd fs path content True True = (fs', 0)"
    and "pocl_read_file False cwd fs path = Some (old, n)"
  shows "pocl_read_file False cwd fs' path = Some (old @ content, of_nat (length (old @ content)))"
proof -
  obtain c where c: "node_at cwd fs path = Some (c, File old)"
    using assms(2) by (auto simp: pocl_read_file_def read_chunks_all split: option.splits node.splits)
  obtain c' old' where o: "open_for_write cwd fs path True = Some (c', old')"
    "fs' = fs(c' \<mapsto> File (old' @ content))"
    using assms(1) by (auto simp: pocl_write_file_def Let_def split: if_splits option.splits prod.splits)
  have "old' = old"
    using o(1) c by (auto simp: open_for_write_def node_at_def split: if_splits sum.splits option.splits node.splits)
  then show ?thesis using open_then_read(1) [OF o(1)] o(2) by simp
qed

lemma write_loop_all:
  assumes "\<And>k n. 0 < n \<Longrightarrow> 1 \<le> write k n \<and> write k n \<le> int n" and "content \<noteq> []"
  shows "write_loop write k written content = Some (written @ content, True)"
  using assms(2)
proof (induction "length content" arbitrary: k written content rule: less_induct)
  case less
  then have w: "1 \<le> write k (length content)" using assms(1) by simp
  show ?case
  proof (cases "drop (nat (write k (length content))) content = []")
    case True
    then show ?thesis using w by (subst write_loop.simps) (simp add: Let_def)
  next
    case False
    then have "length (drop (nat (write k (length content))) content) < length content" using w less.prems by simp
    from less.hyps [OF this False] show ?thesis using w False by (subst write_loop.simps) (simp add: Let_def)
  qed
qed

lemma tempfile_written:
  assumes "\<And>k n. 0 < n \<Longrightarrow> 1 \<le> write k n \<and> write k n \<le> int n" and "content \<noteq> []"
    and "locate cwd fs name = Inr c" and "fs c \<noteq> Some Dir"
  shows "\<exists>fs'. pocl_write_tempfile 0 write cwd fs (Some name) content = Some (fs', True) \<and>
    pocl_read_file False cwd fs' name = Some (content, of_nat (length content))"
  using write_loop_all [OF assms(1,2)] assms(2-4)
  by (simp add: pocl_write_tempfile_def pocl_read_file_def node_at_def locate_same read_chunks_all)

section \<open>Removing: proofs\<close>

text \<open>What may have gone: entries whose status cannot be read.\<close>

definition links_gone :: "(bytes list \<Rightarrow> bool) \<Rightarrow> fsys \<Rightarrow> fsys \<Rightarrow> bool" where
  "links_gone stat_fails fs fs' \<longleftrightarrow> (\<forall>q. fs' q = fs q \<or> stat_fails q \<and> fs' q = None)"

lemma links_gone_refl [simp]: "links_gone stat_fails fs fs"
  by (simp add: links_gone_def)














section \<open>The cache directory: proofs\<close>

lemma init_topdir_result:
  assumes "\<not> cache_topdir_initialized st" and "tree fs" and "fs cwd = Some Dir"
    and "path = topdir_path v" and "path \<noteq> []" and "plain (components path)" and "length path + 10 < 1024"
    and "c = resolve cwd path"
    and "\<forall>i < length c. \<forall>d. fs (take i c) \<noteq> Some (File d)" and "\<forall>q. prefix q c \<longrightarrow> \<not> denied q"
  shows "\<exists>st'. pocl_cache_init_topdir v denied cwd st fs =
      Some (st', make_dirs fs c, if fs c = None \<and> fs (butlast c) = None \<and> last path = slash then 1 else 0) \<and>
    topdir st' = path \<and>
    (cache_topdir_initialized st' \<longleftrightarrow> \<not> (fs c = None \<and> fs (butlast c) = None \<and> last path = slash)) \<and>
    (cache_topdir_initialized st' \<longrightarrow> tempfile_pattern st' = path @ cstr ''/tempfile'')"
proof -
  have l: "length (cstr ''/tempfile'') = 9" "length (cstr ''/tempdir'') = 8" "length (cstr ''/_UNCACHED'') = 10"
    by (simp_all add: cstr_def)
  show ?thesis
    using mkdir_p_result [OF assms(2,3,5,6,8-10)] assms(1,5,7) unfolding assms(4) [symmetric]
    by (auto simp: pocl_cache_init_topdir_def Let_def snprintf_path_def POCL_FILENAME_LENGTH_def l assms(4) [symmetric])
qed

text \<open>
  C39: Choosing the cache directory, for a path without \<open>.\<close> and \<open>..\<close> components, creates it with all its parents and
  changes nothing else of the file system, if the path fits, no file is in the way and no directory is denied. It
  succeeds, unless the path ends with a slash and its parent was missing: then the directory is made twice, the
  second time fails and so does the initialisation, although the directory is there; the next attempt succeeds. In
  the same way it fails for such a path with \<open>/.\<close> at its end, if the directory was missing.
\<close>

theorem cache_directory_created:
  assumes "\<not> cache_topdir_initialized st" and "tree fs" and "fs cwd = Some Dir"
    and "topdir_path v \<noteq> []" and "plain (components (topdir_path v))" and "length (topdir_path v) + 10 < 1024"
    and "c = resolve cwd (topdir_path v)"
    and "\<forall>i < length c. \<forall>d. fs (take i c) \<noteq> Some (File d)" and "\<forall>q. prefix q c \<longrightarrow> \<not> denied q"
  shows "\<exists>st' fs'. fs' = (\<lambda>q. if prefix q c \<and> fs q = None then Some Dir else fs q) \<and> tree fs' \<and>
    (if fs c = None \<and> fs (butlast c) = None \<and> last (topdir_path v) = slash
     then pocl_cache_init_topdir v denied cwd st fs = Some (st', fs', 1) \<and>
       (\<exists>st''. pocl_cache_init_topdir v denied cwd st' fs' = Some (st'', fs', 0) \<and> cache_topdir_initialized st'')
     else pocl_cache_init_topdir v denied cwd st fs = Some (st', fs', 0) \<and> cache_topdir_initialized st' \<and>
       topdir st' = topdir_path v) \<and>
    (\<forall>w. topdir_path w = topdir_path v @ slash # dot \<longrightarrow> fs c = None \<longrightarrow>
       (\<exists>st'. pocl_cache_init_topdir w denied cwd st fs = Some (st', fs', 1) \<and> \<not> cache_topdir_initialized st'))"
proof -
  note made = make_dirs_made [OF assms(8,2)]
  obtain st' where 1: "pocl_cache_init_topdir v denied cwd st fs =
        Some (st', make_dirs fs c, if fs c = None \<and> fs (butlast c) = None \<and> last (topdir_path v) = slash then 1 else 0)"
      "topdir st' = topdir_path v"
      "cache_topdir_initialized st' \<longleftrightarrow> \<not> (fs c = None \<and> fs (butlast c) = None \<and> last (topdir_path v) = slash)"
    using init_topdir_result [OF assms(1-3) refl assms(4-9)] by blast
  have 2: "\<exists>st''. pocl_cache_init_topdir v denied cwd st' (make_dirs fs c) = Some (st'', make_dirs fs c, 0) \<and>
      cache_topdir_initialized st''" if "\<not> cache_topdir_initialized st'"
  proof -
    have cwd: "make_dirs fs c cwd = Some Dir" using assms(3) by (simp add: make_dirs_def)
    have nf: "\<forall>i < length c. \<forall>d. make_dirs fs c (take i c) \<noteq> Some (File d)" using no_file_above assms(8) by metis
    show ?thesis
      using init_topdir_result [OF that made(2) cwd refl assms(4-7) nf assms(9)] made(1,3) by auto
  qed
  have 3: "\<exists>st'. pocl_cache_init_topdir w denied cwd st fs = Some (st', make_dirs fs c, 1) \<and>
      \<not> cache_topdir_initialized st'" if w: "topdir_path w = topdir_path v @ slash # dot" and "fs c = None" for w
  proof -
    have "length (topdir_path w) < 1024" using assms(6) by (simp add: w dot_def cstr_def)
    then show ?thesis
      using mkdir_p_dot [OF assms(2-5,7-9) that(2)] assms(1)
      by (simp add: pocl_cache_init_topdir_def Let_def POCL_FILENAME_LENGTH_def w)
  qed
  show ?thesis
    using 1 2 3 made(2) by (intro exI [of _ st'] exI [of _ "make_dirs fs c"]) (simp add: make_dirs_def)
qed

text \<open>For the witnesses: \<open>/home\<close> with a link without target and a file; two readers that differ in their order.\<close>

definition demo_fs :: fsys where
  "demo_fs = [[] \<mapsto> Dir, [cstr ''home''] \<mapsto> Dir, [cstr ''home'', cstr ''link''] \<mapsto> File [],
     [cstr ''home'', cstr ''log''] \<mapsto> File [1, 2]]"





lemma demo_names:
  "cstr ''home'' \<noteq> dot" "cstr ''home'' \<noteq> dotdot" "cstr ''link'' \<noteq> dot" "cstr ''link'' \<noteq> dotdot"
  "cstr ''log'' \<noteq> dot" "cstr ''log'' \<noteq> dotdot" "cstr ''home'' \<noteq> cstr ''link''" "cstr ''home'' \<noteq> cstr ''log''"
  "cstr ''link'' \<noteq> cstr ''log''" "cstr ''link'' \<noteq> []" "last (cstr ''link'') \<noteq> slash"
  "cstr ''log'' \<noteq> []" "last (cstr ''log'') \<noteq> slash"
  by (simp_all add: cstr_def dot_def dotdot_def)

lemma demo_nodes:
  "demo_fs [] = Some Dir" "demo_fs [cstr ''home''] = Some Dir"
  "demo_fs [cstr ''home'', cstr ''link''] = Some (File [])" "demo_fs [cstr ''home'', cstr ''log''] = Some (File [1, 2])"
  "demo_fs [cstr ''home'', cstr ''home''] = None"
  using demo_names(7-9) by (simp_all add: demo_fs_def)


theorem cache_directory_created_witness:
  "\<exists>st' fs'. pocl_cache_init_topdir \<lparr>POCL_CACHE_DIR = Some (cstr ''/home/a/b/''), POCL_KERNEL_CACHE = True,
        XDG_CACHE_HOME = None, HOME = None\<rparr> (\<lambda>_. False) []
      \<lparr>cache_topdir_initialized = False, topdir = [], tempfile_pattern = [], tempdir_pattern = []\<rparr> demo_fs =
      Some (st', fs', 1) \<and> fs' [cstr ''home'', cstr ''a'', cstr ''b''] = Some Dir"
proof -
  let ?v = "\<lparr>POCL_CACHE_DIR = Some (cstr ''/home/a/b/''), POCL_KERNEL_CACHE = True, XDG_CACHE_HOME = None, HOME = None\<rparr>"
  let ?st = "\<lparr>cache_topdir_initialized = False, topdir = [], tempfile_pattern = [], tempdir_pattern = []\<rparr>"
  let ?c = "[cstr ''home'', cstr ''a'', cstr ''b'']"
  have cs: "components (topdir_path ?v) = ?c" by (simp add: topdir_path_def components_def cstr_def)
  then have c: "?c = resolve [] (topdir_path ?v)" by (simp add: resolve_def start_dir_def)
  have p: "plain (components (topdir_path ?v))" unfolding cs by (simp add: cstr_def dot_def dotdot_def)
  have t: "tree demo_fs" by (auto simp: tree_def demo_fs_def cstr_def)
  have f: "\<forall>i < length ?c. \<forall>d. demo_fs (take i ?c) \<noteq> Some (File d)"
    by (auto simp: demo_fs_def cstr_def less_Suc_eq numeral_3_eq_3)
  have n: "demo_fs ?c = None" "demo_fs (butlast ?c) = None" "last (topdir_path ?v) = slash" "topdir_path ?v \<noteq> []"
      "length (topdir_path ?v) + 10 < 1024"
    by (simp_all add: demo_fs_def topdir_path_def cstr_def)
  from cache_directory_created [of ?st demo_fs "[]" ?v ?c "\<lambda>_. False", OF _ t _ n(4) p n(5) c f] n(1-3)
  obtain st' fs' where "fs' = (\<lambda>q. if prefix q ?c \<and> demo_fs q = None then Some Dir else demo_fs q)"
    "pocl_cache_init_topdir ?v (\<lambda>_. False) [] ?st demo_fs = Some (st', fs', 1)"
    by (auto simp: demo_nodes)
  then show ?thesis using n(1) by (intro exI [of _ st'] exI [of _ fs']) simp
qed

end
