(* ===== verification/PoclBinary.thy ===== *)
theory PoclBinary
  imports PoclCache CL_Types
begin

text \<open>
  Program binaries: serialization of a built program with its kernel metadata and cached files, and the
  two readers of a binary (\<open>pocl_binary.c\<close>). A read behind the end of the buffer, a failed assertion and
  \<open>strlen (NULL)\<close> are \<^const>\<open>None\<close>. The file system maps paths to contents; a kernel's cache directory is
  its tree in the order of \<open>readdir\<close>. Writing a file is assumed to succeed.
\<close>

section \<open>Data\<close>

record pocl_argument_info =
  access_qualifier :: cl_uint
  address_qualifier :: cl_uint
  type_qualifier :: "64 word"
  ai_type :: cl_uint
  ai_type_size :: cl_uint
  ai_name :: "bytes option"
  ai_type_name :: "bytes option"

record pocl_kernel_metadata =
  m_name :: "bytes option"
  num_args :: cl_uint
  num_locals :: cl_uint
  reqd_wg_size :: size3
  local_sizes :: "size_t list"
  attributes :: "bytes option"
  has_arg_metadata :: "64 word"
  arg_info :: "pocl_argument_info list"

datatype node = Regular bytes | Directory "(bytes \<times> node) list" | Special

text \<open>
  A program as seen for one device: the device's build hash string, and the cached files, the
  \<open>program.bc\<close> and one directory for every kernel name.
\<close>

record program =
  p_build_hash :: bytes
  p_device_hash :: bytes
  p_flush_denorms :: bool
  p_binary_type :: cl_uint
  kernel_meta :: "pocl_kernel_metadata list"
  p_bc :: bytes
  p_cachedir :: "bytes \<Rightarrow> node"
  p_binary :: "bytes option"

type_synonym file_system = "bytes \<rightharpoonup> bytes"

record pocl_binary =
  pocl_id :: bytes
  b_device_id :: "64 word"
  b_version :: cl_uint
  b_num_kernels :: cl_uint
  b_flags :: "64 word"
  b_program_build_hash :: bytes

definition POCLCC_STRING_ID :: bytes where "POCLCC_STRING_ID = cstr ''poclbin'' @ [0]"
definition FIRST_SUPPORTED_POCLCC_VERSION :: cl_uint where "FIRST_SUPPORTED_POCLCC_VERSION = 6"
definition POCLCC_VERSION :: cl_uint where "POCLCC_VERSION = 7"
definition SHA1_DIGEST_BYTES :: nat where "SHA1_DIGEST_BYTES = 41"
definition MAX_BINARY_SIZE :: nat where "MAX_BINARY_SIZE = 256 * 2 ^ 20"

section \<open>Storing and reading values\<close>

definition assert_that :: "bool \<Rightarrow> unit option" where
  "assert_that c = (if c then Some () else None)"

definition put_u32 :: "cl_uint \<Rightarrow> bytes" where "put_u32 = le_bytes 4"
definition put_u64 :: "64 word \<Rightarrow> bytes" where "put_u64 = le_bytes 8"

text \<open>A string with its length, cut to 32 bits; the copy takes as many bytes as the length says.\<close>

definition put_str :: "bytes \<Rightarrow> bytes" where
  "put_str s = (let len = of_nat (length s) in put_u32 len @ take (unat len) s)"

definition put_cstr :: "bytes option \<Rightarrow> bytes option" where
  "put_cstr p = map_option put_str p"

definition read_bytes :: "nat \<Rightarrow> bytes \<Rightarrow> (bytes \<times> bytes) option" where
  "read_bytes n b = (if length b < n then None else Some (take n b, drop n b))"

definition read_u32 :: "bytes \<Rightarrow> (cl_uint \<times> bytes) option" where
  "read_u32 b = map_option (apfst le_value) (read_bytes 4 b)"

definition read_u64 :: "bytes \<Rightarrow> (64 word \<times> bytes) option" where
  "read_u64 b = map_option (apfst le_value) (read_bytes 8 b)"

text \<open>The content of a file; here the length has 64 bits, and only the stored one is cut.\<close>

definition put_content :: "bytes \<Rightarrow> bytes" where
  "put_content c = put_u32 (of_nat (length c)) @ c"

text \<open>A string of length 0 leaves the pointer \<open>NULL\<close>.\<close>

definition read_str :: "bytes \<Rightarrow> (bytes option \<times> bytes) option" where
  "read_str b = do {
     (len, b) \<leftarrow> read_u32 b;
     if len = 0 then Some (None, b) else map_option (apfst Some) (read_bytes (unat len) b)}"

definition c_string :: "bytes option \<Rightarrow> bytes option" where
  "c_string = map_option (takeWhile (\<lambda>b. b \<noteq> 0))"

fun read_n :: "(bytes \<Rightarrow> ('a \<times> bytes) option) \<Rightarrow> nat \<Rightarrow> bytes \<Rightarrow> ('a list \<times> bytes) option" where
  "read_n f 0 b = Some ([], b)"
| "read_n f (Suc n) b = do {(x, b) \<leftarrow> f b; (xs, b) \<leftarrow> read_n f n b; Some (x # xs, b)}"

fun put_all :: "('a \<Rightarrow> bytes option) \<Rightarrow> 'a list \<Rightarrow> bytes option" where
  "put_all f [] = Some []"
| "put_all f (x # xs) = do {b \<leftarrow> f x; bs \<leftarrow> put_all f xs; Some (b @ bs)}"

section \<open>The header\<close>

definition read_header :: "bytes \<Rightarrow> (pocl_binary \<times> bytes) option" where
  "read_header b = do {
     (i, b) \<leftarrow> read_bytes 8 b;
     (d, b) \<leftarrow> read_u64 b;
     (v, b) \<leftarrow> read_u32 b;
     (n, b) \<leftarrow> read_u32 b;
     (f, b) \<leftarrow> read_u64 b;
     (h, b) \<leftarrow> read_bytes SHA1_DIGEST_BYTES b;
     Some (\<lparr>pocl_id = i, b_device_id = d, b_version = v, b_num_kernels = n, b_flags = f,
            b_program_build_hash = h\<rparr>, b)}"

text \<open>FNV-1A over the device's build hash; the characters are signed.\<close>

definition pocl_binary_get_device_id :: "bytes \<Rightarrow> 64 word" where
  "pocl_binary_get_device_id dev_hash =
     foldl (\<lambda>result c. xor (result * 0x100000001b3) (scast c)) 0xcbf29ce484222325 dev_hash"

text \<open>\<open>strncmp\<close> over the 8 bytes of the identifier, the last of which is its terminator.\<close>

definition check_binary :: "bytes \<Rightarrow> bytes \<Rightarrow> bytes option option" where
  "check_binary dev_hash binary = do {
     (b, p) \<leftarrow> read_header binary;
     Some (if pocl_id b \<noteq> POCLCC_STRING_ID then None
           else if b_version b < FIRST_SUPPORTED_POCLCC_VERSION then None
           else if pocl_binary_get_device_id dev_hash \<noteq> b_device_id b then None
           else Some p)}"

definition pocl_binary_check_binary :: "bytes \<Rightarrow> bytes \<Rightarrow> bool option" where
  "pocl_binary_check_binary dev_hash binary = map_option (\<lambda>r. r \<noteq> None) (check_binary dev_hash binary)"

definition pocl_binary_set_program_buildhash :: "program \<Rightarrow> bytes \<Rightarrow> program option" where
  "pocl_binary_set_program_buildhash p binary =
     map_option (\<lambda>(b, _). p\<lparr>p_build_hash := takeWhile (\<lambda>c. c \<noteq> 0) (b_program_build_hash b)\<rparr>) (read_header binary)"

definition pocl_binary_get_kernel_count :: "bytes \<Rightarrow> cl_uint option" where
  "pocl_binary_get_kernel_count binary = map_option (b_num_kernels \<circ> fst) (read_header binary)"

section \<open>Serialization\<close>

definition serialize_file :: "bytes \<Rightarrow> nat \<Rightarrow> bytes \<Rightarrow> bytes" where
  "serialize_file path basedir_offset content = put_str (drop basedir_offset path) @ put_content content"

fun recursively_serialize_path :: "bytes \<Rightarrow> nat \<Rightarrow> node \<Rightarrow> bytes option"
  and serialize_entries :: "bytes \<Rightarrow> nat \<Rightarrow> (bytes \<times> node) list \<Rightarrow> bytes option" where
  "recursively_serialize_path path off (Regular content) = Some (serialize_file path off content)"
| "recursively_serialize_path path off (Directory es) = serialize_entries path off es"
| "recursively_serialize_path path off Special = Some []"
| "serialize_entries path off [] = Some []"
| "serialize_entries path off ((name, n) # es) =
     (if name = cstr ''.'' \<or> name = cstr ''..'' then serialize_entries path off es
      else if length path + 1 + length name \<ge> POCL_FILENAME_LENGTH then None
      else do {
        b \<leftarrow> recursively_serialize_path (path @ cstr ''/'' @ name) off n;
        bs \<leftarrow> serialize_entries path off es;
        Some (b @ bs)})"

definition serialize_kernel_cachedir :: "environment \<Rightarrow> program \<Rightarrow> bytes \<Rightarrow> bytes option" where
  "serialize_kernel_cachedir env p kernel_name = do {
     basedir \<leftarrow> pocl_cache_program_path env (p_build_hash p);
     path \<leftarrow> pocl_cache_kernel_cachedir env (p_build_hash p) kernel_name;
     recursively_serialize_path path (length basedir) (p_cachedir p kernel_name)}"

definition put_arg :: "pocl_argument_info \<Rightarrow> bytes option" where
  "put_arg ai = do {
     name \<leftarrow> put_cstr (ai_name ai);
     type_name \<leftarrow> put_cstr (ai_type_name ai);
     Some (put_u32 (access_qualifier ai) @ put_u32 (address_qualifier ai) @ put_u64 (type_qualifier ai) @
           put_u32 (ai_type ai) @ put_u32 (ai_type_size ai) @ name @ type_name)}"

definition put_size3 :: "size3 \<Rightarrow> bytes" where
  "put_size3 v = (case v of (x, y, z) \<Rightarrow> put_u64 x @ put_u64 y @ put_u64 z)"

text \<open>The sizes at the start are filled in when everything after them is written.\<close>

definition pocl_binary_serialize_kernel_to_buffer ::
  "environment \<Rightarrow> program \<Rightarrow> pocl_kernel_metadata \<Rightarrow> bytes option" where
  "pocl_binary_serialize_kernel_to_buffer env p meta = do {
     name \<leftarrow> m_name meta;
     locals \<leftarrow> (if length (local_sizes meta) < unat (num_locals meta) then None
               else put_all (Some \<circ> put_u64) (take (unat (num_locals meta)) (local_sizes meta)));
     let fields = put_str name @ put_u32 (num_args meta) @ put_u32 (num_locals meta) @
                  put_size3 (reqd_wg_size meta) @ locals @
                  put_str (case attributes meta of None \<Rightarrow> [] | Some a \<Rightarrow> a) @ put_u64 (has_arg_metadata meta);
     args \<leftarrow> (if length (arg_info meta) < unat (num_args meta) then None
             else put_all put_arg (take (unat (num_args meta)) (arg_info meta)));
     files \<leftarrow> serialize_kernel_cachedir env p name;
     let struct_size = 8 + 8 + 4 + length fields + length args + length files;
     Some (put_u64 (of_nat struct_size) @ put_u64 (of_nat (length files)) @ put_u32 (of_nat (length args)) @
           fields @ args @ files)}"

definition program_flags :: "program \<Rightarrow> 64 word" where
  "program_flags p = or (if p_flush_denorms p then 1 else 0) (ucast (push_bit 1 (p_binary_type p)))"

definition put_header :: "program \<Rightarrow> bytes" where
  "put_header p = POCLCC_STRING_ID @ put_u64 (pocl_binary_get_device_id (p_device_hash p)) @
     put_u32 POCLCC_VERSION @ put_u32 (of_nat (length (kernel_meta p))) @ put_u64 (program_flags p) @
     take SHA1_DIGEST_BYTES (p_build_hash p @ replicate SHA1_DIGEST_BYTES 0)"

definition pocl_binary_serialize :: "environment \<Rightarrow> program \<Rightarrow> nat \<Rightarrow> bytes option" where
  "pocl_binary_serialize env p sizeof_buffer = do {
     let header = put_header p;
     _ \<leftarrow> assert_that (length header < sizeof_buffer);
     basedir \<leftarrow> pocl_cache_program_path env (p_build_hash p);
     program_bc_path \<leftarrow> pocl_cache_program_bc_path env (p_build_hash p);
     let bc = serialize_file program_bc_path (length basedir) (p_bc p);
     kernels \<leftarrow> put_all (pocl_binary_serialize_kernel_to_buffer env p) (kernel_meta p);
     let binary = header @ bc @ kernels;
     if length binary \<le> sizeof_buffer then Some binary else None}"

definition pocl_binary_sizeof_binary :: "environment \<Rightarrow> program \<Rightarrow> (nat \<times> program) option" where
  "pocl_binary_sizeof_binary env p =
     (case p_binary p of
        Some b \<Rightarrow> Some (length b, p)
      | None \<Rightarrow> do {
          b \<leftarrow> pocl_binary_serialize env p MAX_BINARY_SIZE;
          Some (length b, p\<lparr>p_binary := Some b\<rparr>)})"

section \<open>Unpacking the files\<close>

definition deserialize_file :: "bytes \<Rightarrow> file_system \<Rightarrow> bytes \<Rightarrow> (file_system \<times> bytes) option" where
  "deserialize_file basedir fs b = do {
     (relpath, b) \<leftarrow> read_str b;
     relpath \<leftarrow> c_string relpath;
     (content, b) \<leftarrow> read_str b;
     content \<leftarrow> content;
     let fullpath = basedir @ relpath;
     if length fullpath \<ge> POCL_FILENAME_LENGTH then None
     else if fs fullpath \<noteq> None then Some (fs, b)
     else Some (fs(fullpath \<mapsto> content), b)}"

text \<open>The loop over the \<open>bytes\<close> bytes of a cache directory; a file read beyond them fails the assertion.\<close>

function deserialize_kernel_cachedir :: "bytes \<Rightarrow> file_system \<Rightarrow> nat \<Rightarrow> bytes \<Rightarrow> file_system option" where
  "deserialize_kernel_cachedir basedir fs n b =
     (if n = 0 then Some fs
      else case deserialize_file basedir fs b of
        None \<Rightarrow> None
      | Some (fs', b') \<Rightarrow>
          let k = length b - length b' in
          if 0 < k \<and> k \<le> n then deserialize_kernel_cachedir basedir fs' (n - k) b' else None)"
  by pat_completeness auto

termination by (relation "measure (\<lambda>(_, _, n, _). n)") auto

definition unpack_kernel :: "bytes \<Rightarrow> file_system \<Rightarrow> bytes \<Rightarrow> (file_system \<times> bytes) option" where
  "unpack_kernel basedir fs buf = do {
     (struct_size, b) \<leftarrow> read_u64 buf;
     (binaries_size, b) \<leftarrow> read_u64 b;
     (_, b) \<leftarrow> read_u32 b;
     (_, b) \<leftarrow> read_str b;
     (_, b) \<leftarrow> read_u32 b;
     (_, b) \<leftarrow> read_u32 b;
     (_, b) \<leftarrow> read_n read_u64 3 b;
     (_, b) \<leftarrow> read_bytes (unat (struct_size - binaries_size)) buf;
     fs \<leftarrow> deserialize_kernel_cachedir basedir fs (unat binaries_size) b;
     (_, b) \<leftarrow> read_bytes (unat struct_size) buf;
     Some (fs, b)}"

fun unpack_kernels :: "bytes \<Rightarrow> nat \<Rightarrow> file_system \<Rightarrow> bytes \<Rightarrow> (file_system \<times> bytes) option" where
  "unpack_kernels basedir 0 fs b = Some (fs, b)"
| "unpack_kernels basedir (Suc n) fs b = do {
     (fs, b) \<leftarrow> unpack_kernel basedir fs b;
     unpack_kernels basedir n fs b}"

definition pocl_binary_deserialize ::
  "environment \<Rightarrow> program \<Rightarrow> file_system \<Rightarrow> (program \<times> file_system) option" where
  "pocl_binary_deserialize env p fs = do {
     binary \<leftarrow> p_binary p;
     (h, b) \<leftarrow> read_header binary;
     let p = p\<lparr>p_flush_denorms := bit (b_flags h) 0, p_binary_type := ucast (drop_bit 1 (b_flags h))\<rparr>;
     _ \<leftarrow> assert_that (b \<noteq> []);
     basedir \<leftarrow> pocl_cache_program_path env (p_build_hash p);
     (fs, b) \<leftarrow> deserialize_file basedir fs b;
     (fs, b) \<leftarrow> unpack_kernels basedir (unat (b_num_kernels h)) fs b;
     Some (p, fs)}"

section \<open>Reading the metadata\<close>

definition read_arg :: "cl_uint \<Rightarrow> 64 word \<Rightarrow> bytes \<Rightarrow> (pocl_argument_info \<times> bytes) option" where
  "read_arg version dynarg_size b = do {
     (access, b) \<leftarrow> read_u32 b;
     (address, b) \<leftarrow> read_u32 b;
     (qualifier, b) \<leftarrow> read_u64 b;
     (_, b) \<leftarrow> (if version < 7 then read_bytes 2 b else Some ([], b));
     (ty, b) \<leftarrow> read_u32 b;
     (type_size, b) \<leftarrow> (if version \<ge> 7 then read_u32 b else Some (ucast dynarg_size, b));
     (name, b) \<leftarrow> read_str b;
     (type_name, b) \<leftarrow> read_str b;
     Some (\<lparr>access_qualifier = access, address_qualifier = address, type_qualifier = qualifier, ai_type = ty,
            ai_type_size = type_size, ai_name = c_string name, ai_type_name = c_string type_name\<rparr>, b)}"

fun read_args :: "cl_uint \<Rightarrow> 64 word list \<Rightarrow> bytes \<Rightarrow> (pocl_argument_info list \<times> bytes) option" where
  "read_args version [] b = Some ([], b)"
| "read_args version (d # ds) b = do {
     (ai, b) \<leftarrow> read_arg version d b;
     (ais, b) \<leftarrow> read_args version ds b;
     Some (ai # ais, b)}"

text \<open>
  \<open>pocl_binary_deserialize_kernel_from_buffer\<close> with a metadata record: before version 7 the sizes of the
  arguments come first and there are neither attributes nor a flag for the argument metadata.
\<close>

definition read_kernel :: "cl_uint \<Rightarrow> bytes \<Rightarrow> (pocl_kernel_metadata \<times> bytes) option" where
  "read_kernel version buf = do {
     (struct_size, b) \<leftarrow> read_u64 buf;
     (_, b) \<leftarrow> read_u64 b;
     (_, b) \<leftarrow> read_u32 b;
     (name, b) \<leftarrow> read_str b;
     (n_args, b) \<leftarrow> read_u32 b;
     (n_locals, b) \<leftarrow> read_u32 b;
     (x, b) \<leftarrow> read_u64 b;
     (y, b) \<leftarrow> read_u64 b;
     (z, b) \<leftarrow> read_u64 b;
     (dynarg_sizes, b) \<leftarrow> (if version < 7 then read_n read_u64 (unat n_args) b
                          else Some (replicate (unat n_args) 0, b));
     (locals, b) \<leftarrow> read_n read_u64 (unat n_locals) b;
     (attrs, b) \<leftarrow> (if version \<ge> 7 then read_str b else Some (None, b));
     (has_metadata, b) \<leftarrow> (if version \<ge> 7 then read_u64 b else Some (- 1, b));
     (args, b) \<leftarrow> read_args version dynarg_sizes b;
     (_, b) \<leftarrow> read_bytes (unat struct_size) buf;
     Some (\<lparr>m_name = c_string name, num_args = n_args, num_locals = n_locals, reqd_wg_size = (x, y, z),
            local_sizes = locals, attributes = c_string attrs, has_arg_metadata = has_metadata, arg_info = args\<rparr>, b)}"

text \<open>A kernel without name fails the assertion \<open>km->name\<close>.\<close>

definition read_named_kernel :: "cl_uint \<Rightarrow> bytes \<Rightarrow> (pocl_kernel_metadata \<times> bytes) option" where
  "read_named_kernel version buf = do {
     (m, b) \<leftarrow> read_kernel version buf;
     _ \<leftarrow> assert_that (m_name m \<noteq> None);
     Some (m, b)}"

definition skip_string :: "bytes \<Rightarrow> bytes option" where
  "skip_string b = do {
     (len, b) \<leftarrow> read_u32 b;
     _ \<leftarrow> assert_that (0 < len);
     map_option snd (read_bytes (unat len) b)}"

definition pocl_binary_get_kernels_metadata ::
  "bytes \<Rightarrow> nat \<Rightarrow> bytes \<Rightarrow> (cl_error + pocl_kernel_metadata list) option" where
  "pocl_binary_get_kernels_metadata dev_hash num_kernels binary = do {
     (h, b) \<leftarrow> read_header binary;
     ok \<leftarrow> pocl_binary_check_binary dev_hash binary;
     if \<not> ok then Some (Inl CL_INVALID_PROGRAM)
     else do {
       b \<leftarrow> skip_string b;
       b \<leftarrow> skip_string b;
       _ \<leftarrow> assert_that (0 < b_num_kernels h \<and> unat (b_num_kernels h) = num_kernels);
       (ms, b) \<leftarrow> read_n (read_named_kernel (b_version h)) (unat (b_num_kernels h)) b;
       Some (Inr ms)}}"

section \<open>Reading back what was stored\<close>

text \<open>
  The interface between a writer and a reader: the reader returns what was written, in a normal form,
  and leaves the bytes behind it. Sizes are 64-bit words, so only shorter outputs are considered.
\<close>

locale codec =
  fixes put :: "'a \<Rightarrow> bytes option" and get :: "bytes \<Rightarrow> ('a \<times> bytes) option"
    and ok :: "'a \<Rightarrow> bool" and norm :: "'a \<Rightarrow> 'a"
  assumes get_put: "ok a \<Longrightarrow> put a = Some bs \<Longrightarrow> length bs < 2 ^ 64 \<Longrightarrow> get (bs @ rest) = Some (norm a, rest)"
begin

lemma read_put_all:
  assumes "list_all ok xs" and "put_all put xs = Some bs" and "length bs < 2 ^ 64"
  shows "read_n get (length xs) (bs @ rest) = Some (map norm xs, rest)"
  using assms
proof (induction xs arbitrary: bs)
  case (Cons x xs)
  obtain b b' where b: "put x = Some b" "put_all put xs = Some b'" "bs = b @ b'"
    using Cons.prems(2) by (auto simp: bind_eq_Some_conv)
  show ?case using Cons.IH [OF _ b(2)] get_put [OF _ b(1)] Cons.prems(1,3) b(3) by simp
qed simp

end

lemma read_bytes_append: "length xs = n \<Longrightarrow> read_bytes n (xs @ rest) = Some (xs, rest)"
  by (simp add: read_bytes_def)

lemma read_u32_put [simp]: "read_u32 (put_u32 w @ rest) = Some (w, rest)"
  by (simp add: read_u32_def put_u32_def read_bytes_append)

lemma read_u64_put [simp]: "read_u64 (put_u64 w @ rest) = Some (w, rest)"
  by (simp add: read_u64_def put_u64_def read_bytes_append)

lemma length_put [simp]: "length (put_u32 w) = 4" "length (put_u64 v) = 8"
  by (simp_all add: put_u32_def put_u64_def)

definition nul_free :: "bytes \<Rightarrow> bool" where
  "nul_free s \<longleftrightarrow> 0 \<notin> set s"

definition str_ok :: "bytes \<Rightarrow> bool" where
  "str_ok s \<longleftrightarrow> nul_free s \<and> length s < 2 ^ 32"

definition non_empty :: "bytes option \<Rightarrow> bytes option" where
  "non_empty s = (if s = Some [] then None else s)"

lemma put_str_eq: "length s < 2 ^ 32 \<Longrightarrow> put_str s = put_u32 (of_nat (length s)) @ s"
  by (simp add: put_str_def Let_def unat_of_nat)

lemma of_nat_eq_0_u32: "n < 2 ^ 32 \<Longrightarrow> (of_nat n :: cl_uint) = 0 \<longleftrightarrow> n = 0"
  by (simp add: word_unat_eq_iff unat_of_nat)

lemma read_str_put:
  "length s < 2 ^ 32 \<Longrightarrow> read_str (put_str s @ rest) = Some (non_empty (Some s), rest)"
  by (auto simp: put_str_eq read_str_def non_empty_def of_nat_eq_0_u32 unat_of_nat read_bytes_append)

lemma read_content_put:
  "length s < 2 ^ 32 \<Longrightarrow> read_str (put_content s @ rest) = Some (non_empty (Some s), rest)"
  using read_str_put by (simp add: put_content_def put_str_eq)

lemma c_string_nul_free: "nul_free s \<Longrightarrow> c_string (non_empty (Some s)) = non_empty (Some s)"
  by (auto simp: c_string_def non_empty_def nul_free_def takeWhile_eq_all_conv)

text \<open>The codecs of the parts.\<close>

interpretation u64: codec "Some \<circ> put_u64" read_u64 "\<lambda>_. True" id
  by unfold_locales auto

definition arg_ok :: "pocl_argument_info \<Rightarrow> bool" where
  "arg_ok ai \<longleftrightarrow> (\<exists>n t. ai_name ai = Some n \<and> ai_type_name ai = Some t \<and> str_ok n \<and> str_ok t)"

definition norm_arg :: "pocl_argument_info \<Rightarrow> pocl_argument_info" where
  "norm_arg ai = ai\<lparr>ai_name := non_empty (ai_name ai), ai_type_name := non_empty (ai_type_name ai)\<rparr>"

interpretation arg: codec put_arg "read_arg 7 0" arg_ok norm_arg
proof
  fix ai bs rest
  assume "arg_ok ai" and put: "put_arg ai = Some bs"
  then obtain n t where s: "ai_name ai = Some n" "ai_type_name ai = Some t" "str_ok n" "str_ok t"
    by (auto simp: arg_ok_def)
  show "read_arg 7 0 (bs @ rest) = Some (norm_arg ai, rest)"
    using put s c_string_nul_free [of n] c_string_nul_free [of t]
    by (auto simp: put_arg_def put_cstr_def read_arg_def read_str_put str_ok_def norm_arg_def)
qed

lemma read_args_n: "read_args v (replicate n d) b = read_n (read_arg v d) n b"
  by (induction n arbitrary: b) auto

definition kernel_ok :: "pocl_kernel_metadata \<Rightarrow> bool" where
  "kernel_ok m \<longleftrightarrow> (\<exists>n. m_name m = Some n \<and> n \<noteq> [] \<and> str_ok n) \<and>
     (\<forall>a. attributes m = Some a \<longrightarrow> str_ok a) \<and> list_all arg_ok (arg_info m) \<and>
     length (local_sizes m) = unat (num_locals m) \<and> length (arg_info m) = unat (num_args m)"

definition norm_kernel :: "pocl_kernel_metadata \<Rightarrow> pocl_kernel_metadata" where
  "norm_kernel m = m\<lparr>attributes := non_empty (attributes m), arg_info := map norm_arg (arg_info m)\<rparr>"

text \<open>The layout of a serialized kernel.\<close>

lemma serialize_kernel_parts:
  assumes ok: "kernel_ok m" and put: "pocl_binary_serialize_kernel_to_buffer env p m = Some bs" and small: "length bs < 2 ^ 64"
  obtains n locals args files rest where
    "m_name m = Some n" "put_all (Some \<circ> put_u64) (local_sizes m) = Some locals" "put_all put_arg (arg_info m) = Some args"
    "serialize_kernel_cachedir env p n = Some files"
    "rest = put_u32 (of_nat (length args)) @ put_str n @ put_u32 (num_args m) @ put_u32 (num_locals m) @
       put_size3 (reqd_wg_size m) @ locals @ put_str (case attributes m of None \<Rightarrow> [] | Some a \<Rightarrow> a) @
       put_u64 (has_arg_metadata m) @ args @ files"
    "bs = put_u64 (of_nat (length bs)) @ put_u64 (of_nat (length files)) @ rest"
    "length locals < 2 ^ 64" "length args < 2 ^ 64"
proof -
  obtain n where n: "m_name m = Some n" using ok by (auto simp: kernel_ok_def)
  obtain locals args files where
    p: "put_all (Some \<circ> put_u64) (local_sizes m) = Some locals" "put_all put_arg (arg_info m) = Some args"
      "serialize_kernel_cachedir env p n = Some files"
    using put ok n
    by (auto simp: pocl_binary_serialize_kernel_to_buffer_def Let_def bind_eq_Some_conv kernel_ok_def)
  define fields where "fields = put_str n @ put_u32 (num_args m) @ put_u32 (num_locals m) @
       put_size3 (reqd_wg_size m) @ locals @ put_str (case attributes m of None \<Rightarrow> [] | Some a \<Rightarrow> a) @
       put_u64 (has_arg_metadata m)"
  have bs: "bs = put_u64 (of_nat (8 + 8 + 4 + length fields + length args + length files)) @
      put_u64 (of_nat (length files)) @ put_u32 (of_nat (length args)) @ fields @ args @ files"
    using put ok n p
    by (auto simp: pocl_binary_serialize_kernel_to_buffer_def Let_def kernel_ok_def fields_def)
  then have len: "length bs = 8 + 8 + 4 + length fields + length args + length files" by simp
  show thesis
  proof (rule that [OF n p(1,2,3) refl])
    show "bs = put_u64 (of_nat (length bs)) @ put_u64 (of_nat (length files)) @
        put_u32 (of_nat (length args)) @ put_str n @ put_u32 (num_args m) @ put_u32 (num_locals m) @
       put_size3 (reqd_wg_size m) @ locals @ put_str (case attributes m of None \<Rightarrow> [] | Some a \<Rightarrow> a) @
       put_u64 (has_arg_metadata m) @ args @ files"
      using bs unfolding len by (simp add: fields_def)
    show "length locals < 2 ^ 64" "length args < 2 ^ 64" using small len by (simp_all add: fields_def)
  qed
qed

lemma read_size3: "put_size3 (x, y, z) = put_u64 x @ put_u64 y @ put_u64 z"
  by (simp add: put_size3_def)

interpretation kernel: codec "pocl_binary_serialize_kernel_to_buffer env p" "read_named_kernel 7" kernel_ok norm_kernel for env p
proof
  fix m bs rest
  assume ok: "kernel_ok m" and put: "pocl_binary_serialize_kernel_to_buffer env p m = Some bs" and small: "length bs < 2 ^ 64"
  from serialize_kernel_parts [OF this] obtain n locals args files r where s:
    "m_name m = Some n" "put_all (Some \<circ> put_u64) (local_sizes m) = Some locals" "put_all put_arg (arg_info m) = Some args"
    "r = put_u32 (of_nat (length args)) @ put_str n @ put_u32 (num_args m) @ put_u32 (num_locals m) @
       put_size3 (reqd_wg_size m) @ locals @ put_str (case attributes m of None \<Rightarrow> [] | Some a \<Rightarrow> a) @
       put_u64 (has_arg_metadata m) @ args @ files"
    "bs = put_u64 (of_nat (length bs)) @ put_u64 (of_nat (length files)) @ r"
    "length locals < 2 ^ 64" "length args < 2 ^ 64" by metis
  obtain x y z where rq: "reqd_wg_size m = (x, y, z)" by (cases "reqd_wg_size m")
  have locals: "read_n read_u64 (unat (num_locals m)) (locals @ t) = Some (local_sizes m, t)" for t
    using u64.read_put_all [OF _ s(2) s(6)] ok by (simp add: kernel_ok_def list_all_iff)
  have args: "read_n (read_arg 7 0) (unat (num_args m)) (args @ t) = Some (map norm_arg (arg_info m), t)" for t
    using arg.read_put_all [OF _ s(3) s(7)] ok by (simp add: kernel_ok_def)
  let ?a = "case attributes m of None \<Rightarrow> [] | Some a \<Rightarrow> a"
  have attr: "read_str (put_str ?a @ t) = Some (non_empty (attributes m), t)" "c_string (non_empty (attributes m)) = non_empty (attributes m)" for t
    using ok read_str_put [of ?a t] c_string_nul_free [of ?a]
    by (cases "attributes m"; auto simp: kernel_ok_def str_ok_def non_empty_def c_string_def)+
  have name: "read_str (put_str n @ t) = Some (Some n, t)" "c_string (Some n) = Some n" for t
    using ok s(1) read_str_put [of n t] c_string_nul_free [of n] by (auto simp: kernel_ok_def str_ok_def non_empty_def)
  have whole: "read_bytes (unat (of_nat (length bs) :: 64 word)) (bs @ rest) = Some (bs, rest)"
    using small by (intro read_bytes_append) (simp add: unat_of_nat)
  have start: "read_u64 (bs @ rest) = Some (of_nat (length bs), put_u64 (of_nat (length files)) @ r @ rest)"
    by (subst s(5)) simp
  have "read_kernel 7 (bs @ rest) = Some (norm_kernel m, rest)"
    unfolding read_kernel_def start bind.bind_lunit prod.case
    by (simp add: s(4) rq read_size3 locals args attr name whole read_args_n) (simp add: norm_kernel_def s(1) rq)
  then show "read_named_kernel 7 (bs @ rest) = Some (norm_kernel m, rest)"
    by (simp add: read_named_kernel_def assert_that_def norm_kernel_def s(1))
qed

section \<open>Reading back the files\<close>

text \<open>The files of a tree with their paths, in the order in which they are serialized.\<close>

fun files_of :: "bytes \<Rightarrow> node \<Rightarrow> (bytes \<times> bytes) list"
  and files_in :: "bytes \<Rightarrow> (bytes \<times> node) list \<Rightarrow> (bytes \<times> bytes) list" where
  "files_of path (Regular content) = [(path, content)]"
| "files_of path (Directory es) = files_in path es"
| "files_of path Special = []"
| "files_in path [] = []"
| "files_in path ((name, n) # es) =
     (if name = cstr ''.'' \<or> name = cstr ''..'' then files_in path es
      else files_of (path @ cstr ''/'' @ name) n @ files_in path es)"

definition put_file :: "nat \<Rightarrow> bytes \<times> bytes \<Rightarrow> bytes" where
  "put_file off f = serialize_file (fst f) off (snd f)"

lemma serialize_files:
  "recursively_serialize_path path off n = Some bs \<Longrightarrow> length path < POCL_FILENAME_LENGTH \<Longrightarrow>
     bs = concat (map (put_file off) (files_of path n)) \<and> (\<forall>f \<in> set (files_of path n). length (fst f) < POCL_FILENAME_LENGTH)"
  "serialize_entries path off es = Some bs \<Longrightarrow>
     bs = concat (map (put_file off) (files_in path es)) \<and> (\<forall>f \<in> set (files_in path es). length (fst f) < POCL_FILENAME_LENGTH)"
proof (induction path off n and path off es arbitrary: bs and bs
    rule: recursively_serialize_path_serialize_entries.induct)
  case (5 path off name n es)
  show ?case
  proof (cases "name = cstr ''.'' \<or> name = cstr ''..''")
    case True
    then show ?thesis using 5 by auto
  next
    case False
    then obtain b b' where b: "\<not> length path + 1 + length name \<ge> POCL_FILENAME_LENGTH"
      "recursively_serialize_path (path @ cstr ''/'' @ name) off n = Some b"
      "serialize_entries path off es = Some b'" "bs = b @ b'"
      using "5.prems" by (auto simp: bind_eq_Some_conv split: if_splits)
    have "length (path @ cstr ''/'' @ name) < POCL_FILENAME_LENGTH" using b(1) by (simp add: cstr_def)
    then show ?thesis using "5.IH"(2) [OF False b(1,2)] "5.IH"(3) [OF False b(1,2,3)] b(4) False by auto
  qed
qed (auto simp: put_file_def)

lemma files_below:
  "f \<in> set (files_of path n) \<Longrightarrow> \<exists>t. fst f = path @ t"
  "f \<in> set (files_in path es) \<Longrightarrow> \<exists>t. fst f = path @ t"
  by (induction path n and path es rule: files_of_files_in.induct) (auto split: if_splits)

text \<open>
  A file as the program's directories hold them: below the base directory, with a C string as name, and a size
  that fits its field. It can be unpacked again if it is not empty.
\<close>

definition file_fits :: "bytes \<Rightarrow> bytes \<times> bytes \<Rightarrow> bool" where
  "file_fits basedir f \<longleftrightarrow> (\<exists>rel. fst f = basedir @ rel \<and> rel \<noteq> [] \<and> nul_free rel) \<and>
     length (fst f) < POCL_FILENAME_LENGTH \<and> length (snd f) < 2 ^ 32"

text \<open>Unpacking a file keeps the one that is there already.\<close>

definition unpack_file :: "bytes \<times> bytes \<Rightarrow> file_system \<Rightarrow> file_system" where
  "unpack_file f fs = (if fs (fst f) \<noteq> None then fs else fs(fst f \<mapsto> snd f))"

definition unpack_all :: "(bytes \<times> bytes) list \<Rightarrow> file_system \<Rightarrow> file_system option" where
  "unpack_all fl fs = (if list_all (\<lambda>f. snd f \<noteq> []) fl then Some (fold unpack_file fl fs) else None)"

lemma unpack_all_Nil [simp]: "unpack_all [] fs = Some fs"
  by (simp add: unpack_all_def)

lemma unpack_all_Cons: "unpack_all (f # fl) fs = (if snd f = [] then None else unpack_all fl (unpack_file f fs))"
  by (simp add: unpack_all_def)

lemma unpack_all_append: "unpack_all (fl @ fl') fs = unpack_all fl fs \<bind> unpack_all fl'"
  by (simp add: unpack_all_def)

lemma deserialize_put_file:
  assumes "file_fits basedir f"
  shows "deserialize_file basedir fs (put_file (length basedir) f @ rest) =
      (if snd f = [] then None else Some (unpack_file f fs, rest))"
    and "0 < length (put_file (length basedir) f)"
proof -
  obtain rel where rel: "fst f = basedir @ rel" "rel \<noteq> []" "nul_free rel" using assms by (auto simp: file_fits_def)
  have len: "length rel < 2 ^ 32" using assms rel(1) by (simp add: file_fits_def POCL_FILENAME_LENGTH_def)
  note r = read_str_put [OF len] c_string_nul_free [OF rel(3)]
  have c: "read_str (put_content (snd f) @ t) = Some (non_empty (Some (snd f)), t)" for t
    using assms read_content_put [of "snd f" t] by (simp add: file_fits_def)
  show "deserialize_file basedir fs (put_file (length basedir) f @ rest) =
      (if snd f = [] then None else Some (unpack_file f fs, rest))"
    using assms rel(1,2) r c
    by (simp add: deserialize_file_def put_file_def serialize_file_def non_empty_def file_fits_def unpack_file_def Let_def)
  show "0 < length (put_file (length basedir) f)" by (simp add: put_file_def serialize_file_def put_content_def)
qed

declare deserialize_kernel_cachedir.simps [simp del]

lemma deserialize_put_files:
  assumes "list_all (file_fits basedir) fl" and "bs = concat (map (put_file (length basedir)) fl)"
  shows "deserialize_kernel_cachedir basedir fs (length bs) (bs @ rest) = unpack_all fl fs"
  using assms
proof (induction fl arbitrary: fs bs)
  case Nil
  then show ?case by (simp add: deserialize_kernel_cachedir.simps)
next
  case (Cons f fl)
  let ?b = "put_file (length basedir) f"
  define bs' where "bs' = concat (map (put_file (length basedir)) fl)"
  have bs: "bs = ?b @ bs'" using Cons.prems(2) by (simp add: bs'_def)
  have f: "file_fits basedir f" using Cons.prems(1) by simp
  have k: "length (?b @ bs' @ rest) - length (bs' @ rest) = length ?b" by simp
  have IH: "deserialize_kernel_cachedir basedir (unpack_file f fs) (length bs') (bs' @ rest) =
      unpack_all fl (unpack_file f fs)"
    using Cons.IH Cons.prems(1) bs'_def by simp
  show ?case
    using deserialize_put_file(1) [OF f, of fs "bs' @ rest"] deserialize_put_file(2) [OF f] IH
    by (subst deserialize_kernel_cachedir.simps) (simp add: bs Let_def unpack_all_Cons)
qed

definition kernel_files :: "environment \<Rightarrow> program \<Rightarrow> pocl_kernel_metadata \<Rightarrow> (bytes \<times> bytes) list" where
  "kernel_files env p m =
     (case (m_name m, pocl_cache_kernel_cachedir env (p_build_hash p) (the (m_name m))) of
        (Some n, Some path) \<Rightarrow> files_of path (p_cachedir p n)
      | _ \<Rightarrow> [])"

lemma program_path_Some:
  "pocl_cache_program_path env h = Some basedir \<Longrightarrow> basedir = cache_topdir env @ 47 # h"
  using program_device_dir_Some [of env h "[]" basedir] by (simp add: pocl_cache_program_path_def)

lemma unpack_put_kernel:
  assumes ok: "kernel_ok m" and put: "pocl_binary_serialize_kernel_to_buffer env p m = Some bs" and small: "length bs < 2 ^ 64"
    and base: "pocl_cache_program_path env (p_build_hash p) = Some basedir"
    and files: "list_all (file_fits basedir) (kernel_files env p m)"
  shows "unpack_kernel basedir fs (bs @ rest) = map_option (\<lambda>fs. (fs, rest)) (unpack_all (kernel_files env p m) fs)"
proof -
  from serialize_kernel_parts [OF ok put small] obtain n locals args fb r where s:
    "m_name m = Some n" "serialize_kernel_cachedir env p n = Some fb"
    "r = put_u32 (of_nat (length args)) @ put_str n @ put_u32 (num_args m) @ put_u32 (num_locals m) @
       put_size3 (reqd_wg_size m) @ locals @ put_str (case attributes m of None \<Rightarrow> [] | Some a \<Rightarrow> a) @
       put_u64 (has_arg_metadata m) @ args @ fb"
    "bs = put_u64 (of_nat (length bs)) @ put_u64 (of_nat (length fb)) @ r"
    by metis
  obtain x y z where rq: "reqd_wg_size m = (x, y, z)" by (cases "reqd_wg_size m")
  obtain path where path: "pocl_cache_kernel_cachedir env (p_build_hash p) n = Some path"
    "recursively_serialize_path path (length basedir) (p_cachedir p n) = Some fb"
    using s(2) base by (auto simp: serialize_kernel_cachedir_def bind_eq_Some_conv)
  have "length path < POCL_FILENAME_LENGTH"
    using path(1) by (auto simp: pocl_cache_kernel_cachedir_def program_device_dir_def bind_eq_Some_conv snprintf_path_def split: if_splits)
  then have fb: "fb = concat (map (put_file (length basedir)) (kernel_files env p m))"
    using serialize_files(1) [OF path(2)] by (simp add: kernel_files_def s(1) path(1))
  obtain hd where bs: "bs = hd @ fb" unfolding s(3) by (metis s(3,4) append_assoc)
  have name: "read_str (put_str n @ t) = Some (Some n, t)" for t
    using ok s(1) read_str_put [of n t] by (auto simp: kernel_ok_def str_ok_def non_empty_def)
  have u: "unat (of_nat (length bs) :: 64 word) = length bs" "unat (of_nat (length fb) :: 64 word) = length fb"
  proof -
    have "length fb < 2 ^ 64" using small bs by simp
    then show "unat (of_nat (length fb) :: 64 word) = length fb" by (simp add: unat_of_nat)
    show "unat (of_nat (length bs) :: 64 word) = length bs" using small by (simp add: unat_of_nat)
  qed
  then have le: "of_nat (length fb) \<le> (of_nat (length bs) :: 64 word)" using bs by (simp add: word_le_nat_alt)
  have d: "unat (of_nat (length bs) - of_nat (length fb) :: 64 word) = length hd"
    unfolding unat_sub [OF le] u using bs by simp
  have start: "read_u64 (bs @ rest) = Some (of_nat (length bs), put_u64 (of_nat (length fb)) @ r @ rest)"
    by (subst s(4)) simp
  have skip: "read_bytes (length hd) (bs @ rest) = Some (hd, fb @ rest)" by (simp add: bs read_bytes_append)
  have whole: "read_bytes (length bs) (bs @ rest) = Some (bs, rest)" by (rule read_bytes_append) simp
  have three: "read_n read_u64 3 (put_u64 a @ put_u64 b @ put_u64 c @ t) = Some ([a, b, c], t)" for a b c t
    by (simp add: numeral_3_eq_3)
  show ?thesis
    unfolding unpack_kernel_def start bind.bind_lunit prod.case
    by (cases "unpack_all (kernel_files env p m) fs")
      (simp_all add: s(3) rq read_size3 name three d u skip whole deserialize_put_files [OF files fb])
qed

section \<open>Whole binaries\<close>

definition header_of :: "program \<Rightarrow> pocl_binary" where
  "header_of p = \<lparr>pocl_id = POCLCC_STRING_ID, b_device_id = pocl_binary_get_device_id (p_device_hash p),
     b_version = POCLCC_VERSION, b_num_kernels = of_nat (length (kernel_meta p)), b_flags = program_flags p,
     b_program_build_hash = take SHA1_DIGEST_BYTES (p_build_hash p @ replicate SHA1_DIGEST_BYTES 0)\<rparr>"

lemma read_header_put: "read_header (put_header p @ rest) = Some (header_of p, rest)"
proof -
  have i: "length POCLCC_STRING_ID = 8" by (simp add: POCLCC_STRING_ID_def cstr_def)
  have "length (take SHA1_DIGEST_BYTES (p_build_hash p @ replicate SHA1_DIGEST_BYTES 0)) = SHA1_DIGEST_BYTES" by simp
  then show ?thesis
    by (simp add: read_header_def put_header_def read_bytes_append i header_of_def del: take_append)
qed

lemma check_put: "pocl_binary_check_binary dev (put_header p @ rest) =
    Some (pocl_binary_get_device_id dev = pocl_binary_get_device_id (p_device_hash p))"
  by (auto simp: pocl_binary_check_binary_def check_binary_def read_header_put header_of_def POCLCC_VERSION_def
      FIRST_SUPPORTED_POCLCC_VERSION_def)

definition bc_file :: "environment \<Rightarrow> program \<Rightarrow> bytes \<times> bytes" where
  "bc_file env p = (cache_topdir env @ 47 # p_build_hash p @ cstr ''/program.bc'', p_bc p)"

definition program_files :: "environment \<Rightarrow> program \<Rightarrow> (bytes \<times> bytes) list" where
  "program_files env p = bc_file env p # concat (map (kernel_files env p) (kernel_meta p))"

text \<open>
  A program as the compiler leaves it: at least one kernel, well-formed metadata, a binary type that fits its
  field, and files that fit theirs; and one without an empty file.
\<close>

definition program_fits :: "environment \<Rightarrow> program \<Rightarrow> bool" where
  "program_fits env p \<longleftrightarrow> kernel_meta p \<noteq> [] \<and> length (kernel_meta p) < 2 ^ 32 \<and> list_all kernel_ok (kernel_meta p) \<and>
     p_binary_type p < 2 ^ 31 \<and> p_binary p = None \<and>
     list_all (file_fits (cache_topdir env @ 47 # p_build_hash p)) (program_files env p)"

definition program_ok :: "environment \<Rightarrow> program \<Rightarrow> bool" where
  "program_ok env p \<longleftrightarrow> program_fits env p \<and> list_all (\<lambda>f. snd f \<noteq> []) (program_files env p)"

lemma serialize_parts:
  assumes "pocl_binary_serialize env p n = Some bin"
  obtains basedir kernels where "pocl_cache_program_path env (p_build_hash p) = Some basedir"
    "basedir = cache_topdir env @ 47 # p_build_hash p"
    "put_all (pocl_binary_serialize_kernel_to_buffer env p) (kernel_meta p) = Some kernels"
    "bin = put_header p @ put_file (length basedir) (bc_file env p) @ kernels" "length bin \<le> n"
proof -
  obtain basedir path kernels where s: "pocl_cache_program_path env (p_build_hash p) = Some basedir"
    "pocl_cache_program_bc_path env (p_build_hash p) = Some path"
    "put_all (pocl_binary_serialize_kernel_to_buffer env p) (kernel_meta p) = Some kernels"
    "bin = put_header p @ serialize_file path (length basedir) (p_bc p) @ kernels" "length bin \<le> n"
    using assms by (auto simp: pocl_binary_serialize_def Let_def assert_that_def bind_eq_Some_conv split: if_splits)
  have "path = cache_topdir env @ 47 # p_build_hash p @ cstr ''/program.bc''"
    using s(2) by (auto simp: pocl_cache_program_bc_path_def dest: program_device_dir_Some)
  then show thesis using s program_path_Some [OF s(1)] that by (simp add: put_file_def bc_file_def)
qed

lemma skip_put_str:
  assumes "s \<noteq> []" and "length s < 2 ^ 32"
  shows "skip_string (put_str s @ rest) = Some rest" "skip_string (put_content s @ rest) = Some rest"
proof -
  have "(of_nat (length s) :: cl_uint) \<noteq> 0" using assms of_nat_eq_0_u32 [of "length s"] by simp
  then have "(0 :: cl_uint) < of_nat (length s)" by (simp only: word_gt_0)
  then show "skip_string (put_str s @ rest) = Some rest" "skip_string (put_content s @ rest) = Some rest"
    using assms by (simp_all add: skip_string_def put_str_eq put_content_def assert_that_def read_bytes_append unat_of_nat)
qed

text \<open>
  C24: The kernel metadata read from a serialized program is the metadata of the program, empty strings
  apart, which come back as \<open>NULL\<close>; a device with another identification rejects the binary.
\<close>

theorem binary_metadata_roundtrip:
  assumes ok: "program_ok env p" and ser: "pocl_binary_sizeof_binary env p = Some (n, p')"
  shows "p_binary p' \<noteq> None \<and> n = length (the (p_binary p')) \<and>
    pocl_binary_get_kernels_metadata dev (length (kernel_meta p)) (the (p_binary p')) =
      Some (if pocl_binary_get_device_id dev = pocl_binary_get_device_id (p_device_hash p)
            then Inr (map norm_kernel (kernel_meta p)) else Inl CL_INVALID_PROGRAM)"
proof -
  obtain bin where bin: "pocl_binary_serialize env p MAX_BINARY_SIZE = Some bin" "n = length bin" "p_binary p' = Some bin"
    using ser ok by (auto simp: pocl_binary_sizeof_binary_def program_ok_def program_fits_def bind_eq_Some_conv)
  from bin(1) obtain basedir kernels where s: "basedir = cache_topdir env @ 47 # p_build_hash p"
    "put_all (pocl_binary_serialize_kernel_to_buffer env p) (kernel_meta p) = Some kernels"
    "bin = put_header p @ put_file (length basedir) (bc_file env p) @ kernels" "length bin \<le> MAX_BINARY_SIZE"
    by (rule serialize_parts) blast
  have "file_fits basedir (bc_file env p)" "snd (bc_file env p) \<noteq> []"
    using ok s(1) by (simp_all add: program_ok_def program_fits_def program_files_def)
  then have f: "drop (length basedir) (fst (bc_file env p)) \<noteq> []" "length (drop (length basedir) (fst (bc_file env p))) < 2 ^ 32"
    "snd (bc_file env p) \<noteq> []" "length (snd (bc_file env p)) < 2 ^ 32"
    by (auto simp: file_fits_def POCL_FILENAME_LENGTH_def)
  have "read_n (read_named_kernel 7) (length (kernel_meta p)) (kernels @ r) = Some (map norm_kernel (kernel_meta p), r)" for r
    using kernel.read_put_all [OF _ s(2)] ok s(3,4) by (simp add: program_ok_def program_fits_def MAX_BINARY_SIZE_def)
  from this [of "[]"]
  have k: "read_n (read_named_kernel 7) (length (kernel_meta p)) kernels = Some (map norm_kernel (kernel_meta p), [])" by simp
  have num: "unat (of_nat (length (kernel_meta p)) :: cl_uint) = length (kernel_meta p)" "(0 :: cl_uint) < of_nat (length (kernel_meta p))"
    using ok of_nat_eq_0_u32 [of "length (kernel_meta p)"] by (simp_all add: program_ok_def program_fits_def unat_of_nat word_gt_0)
  have "pocl_binary_get_kernels_metadata dev (length (kernel_meta p)) bin =
      Some (if pocl_binary_get_device_id dev = pocl_binary_get_device_id (p_device_hash p)
            then Inr (map norm_kernel (kernel_meta p)) else Inl CL_INVALID_PROGRAM)"
    unfolding s(3) pocl_binary_get_kernels_metadata_def read_header_put check_put
    using k f num
    by (simp add: put_file_def serialize_file_def skip_put_str assert_that_def header_of_def POCLCC_VERSION_def)
  then show ?thesis using bin by simp
qed

lemma fold_unpack_file: "fold unpack_file fl fs = map_of fl ++ fs"
proof (induction fl arbitrary: fs)
  case (Cons f fl)
  have "map_of fl ++ unpack_file f fs = map_of (f # fl) ++ fs"
    by (cases f) (auto simp: unpack_file_def map_add_def fun_eq_iff split: option.splits)
  then show ?case using Cons.IH by (simp only: fold_simps o_apply)
qed simp

lemma unpack_put_kernels:
  assumes "list_all kernel_ok ms" and "put_all (pocl_binary_serialize_kernel_to_buffer env p) ms = Some bs" and "length bs < 2 ^ 64"
    and "pocl_cache_program_path env (p_build_hash p) = Some basedir"
    and "list_all (file_fits basedir) (concat (map (kernel_files env p) ms))"
  shows "unpack_kernels basedir (length ms) fs (bs @ rest) =
    map_option (\<lambda>fs. (fs, rest)) (unpack_all (concat (map (kernel_files env p) ms)) fs)"
  using assms
proof (induction ms arbitrary: fs bs)
  case (Cons m ms)
  obtain b b' where b: "pocl_binary_serialize_kernel_to_buffer env p m = Some b"
    "put_all (pocl_binary_serialize_kernel_to_buffer env p) ms = Some b'" "bs = b @ b'"
    using Cons.prems(2) by (auto simp: bind_eq_Some_conv)
  show ?case
    using Cons.IH [OF _ b(2)] unpack_put_kernel [OF _ b(1), of basedir fs "b' @ rest"] Cons.prems(1,3-5) b(3)
    by (cases "unpack_all (kernel_files env p m) fs") (simp_all add: unpack_all_append)
qed simp

lemma flags_read_back:
  assumes "p_binary_type p < 2 ^ 31"
  shows "bit (program_flags p) 0 = p_flush_denorms p" "ucast (drop_bit 1 (program_flags p)) = p_binary_type p"
proof -
  show "bit (program_flags p) 0 = p_flush_denorms p" 
    unfolding program_flags_def bit_or_iff bit_unsigned_iff bit_push_bit_iff by (simp add: bit_0)
  have "\<not> bit (p_binary_type p) 31"
  proof -
    have "unat (p_binary_type p) < 2 ^ 31" using assms by (simp add: word_less_nat_alt)
    then have "\<not> bit (unat (p_binary_type p)) 31" by (simp add: bit_iff_odd)
    then show ?thesis by (simp add: bit_unsigned_iff)
  qed
  moreover have "bit (ucast (drop_bit 1 (program_flags p)) :: cl_uint) n \<longleftrightarrow> n < 31 \<and> bit (p_binary_type p) n" if "n < 32" for n
    using that unfolding program_flags_def bit_or_iff bit_unsigned_iff bit_push_bit_iff bit_drop_bit_eq comp_def
    by (auto simp: bit_1_iff)
  ultimately show "ucast (drop_bit 1 (program_flags p)) = p_binary_type p"
    by (intro bit_word_eqI) (auto simp: less_Suc_eq numeral_eq_Suc)
qed

text \<open>
  C25: Unpacking the binary of a program whose metadata and files fit their fields: if none of its cached files is
  empty, it restores exactly its files on any file system, \<open>program.bc\<close> and the files of every kernel's cache
  directory under their paths, keeps the files that are there already, and brings back the flags of the program. If
  one is empty, the binary is written all the same, but unpacking it fails its assertion.
\<close>

theorem binary_files_roundtrip:
  assumes ok: "program_fits env p" and ser: "pocl_binary_sizeof_binary env p = Some (n, p')"
  shows "pocl_binary_deserialize env p' fs =
    (if list_all (\<lambda>f. snd f \<noteq> []) (program_files env p) then Some (p', map_of (program_files env p) ++ fs) else None)"
proof -
  obtain bin where bin: "pocl_binary_serialize env p MAX_BINARY_SIZE = Some bin" "p' = p\<lparr>p_binary := Some bin\<rparr>"
    using ser ok by (auto simp: pocl_binary_sizeof_binary_def program_fits_def bind_eq_Some_conv)
  from bin(1) obtain basedir kernels where s: "pocl_cache_program_path env (p_build_hash p) = Some basedir"
    "basedir = cache_topdir env @ 47 # p_build_hash p"
    "put_all (pocl_binary_serialize_kernel_to_buffer env p) (kernel_meta p) = Some kernels"
    "bin = put_header p @ put_file (length basedir) (bc_file env p) @ kernels" "length bin \<le> MAX_BINARY_SIZE"
    by (rule serialize_parts)
  have files: "file_fits basedir (bc_file env p)" "list_all (file_fits basedir) (concat (map (kernel_files env p) (kernel_meta p)))"
    using ok unfolding program_fits_def program_files_def s(2) by simp_all
  have num: "unat (b_num_kernels (header_of p)) = length (kernel_meta p)"
    using ok by (simp add: program_fits_def header_of_def unat_of_nat)
  have small: "length kernels < 2 ^ 64" using s(4,5) by (simp add: MAX_BINARY_SIZE_def)
  have ks: "list_all kernel_ok (kernel_meta p)" using ok by (simp add: program_fits_def)
  have k: "unpack_kernels basedir (length (kernel_meta p)) fs' (kernels @ []) =
      map_option (\<lambda>fs. (fs, [])) (unpack_all (concat (map (kernel_files env p) (kernel_meta p))) fs')" for fs'
    by (rule unpack_put_kernels [OF ks s(3) small s(1) files(2)])
  have fl: "bit (b_flags (header_of p)) 0 = p_flush_denorms p" "ucast (drop_bit 1 (b_flags (header_of p))) = p_binary_type p"
    using flags_read_back ok by (simp_all add: program_fits_def header_of_def)
  have same: "p'\<lparr>p_flush_denorms := p_flush_denorms p, p_binary_type := p_binary_type p\<rparr> = p'"
    using bin(2) by (cases p) simp
  have header: "read_header bin = Some (header_of p, put_file (length basedir) (bc_file env p) @ kernels)"
    unfolding s(4) by (rule read_header_put)
  have ne: "put_file (length basedir) (bc_file env p) @ kernels \<noteq> []" using deserialize_put_file(2) [OF files(1)] by auto
  have "pocl_binary_deserialize env p' fs = map_option (Pair p') (unpack_all (program_files env p) fs)"
    using k [of "unpack_file (bc_file env p) fs"] bin(2) same ne
    by (cases "unpack_all (concat (map (kernel_files env p) (kernel_meta p))) (unpack_file (bc_file env p) fs)")
      (simp_all add: pocl_binary_deserialize_def header s(1) fl [unfolded One_nat_def] num deserialize_put_file(1) [OF files(1)]
        assert_that_def program_files_def unpack_all_Cons)
  then show ?thesis by (simp add: unpack_all_def fold_unpack_file)
qed

section \<open>A concrete binary\<close>

definition demo_arg :: pocl_argument_info where
  "demo_arg = \<lparr>access_qualifier = 0x11A3, address_qualifier = 0x119B, type_qualifier = 4, ai_type = 1, ai_type_size = 8,
     ai_name = Some (cstr ''x''), ai_type_name = Some []\<rparr>"

definition demo_meta :: pocl_kernel_metadata where
  "demo_meta = \<lparr>m_name = Some (cstr ''f''), num_args = 1, num_locals = 1, reqd_wg_size = (0, 0, 0), local_sizes = [16],
     attributes = None, has_arg_metadata = 31, arg_info = [demo_arg]\<rparr>"

definition demo_program :: "bytes \<Rightarrow> program" where
  "demo_program content = \<lparr>p_build_hash = cstr ''ab'', p_device_hash = cstr ''dev'', p_flush_denorms = True, p_binary_type = 4,
     kernel_meta = [demo_meta], p_bc = cstr ''BC'',
     p_cachedir = (\<lambda>_. Directory [(cstr ''.'', Special), (cstr ''g.so'', Regular content)]), p_binary = None\<rparr>"

lemma demo_program_files: "program_files demo_env (demo_program content) =
    [(cstr ''/cache/ab/program.bc'', cstr ''BC''), (cstr ''/cache/ab/f/g.so'', content)]"
proof -
  have "map fst (program_files demo_env (demo_program [])) = [cstr ''/cache/ab/program.bc'', cstr ''/cache/ab/f/g.so'']" by code_simp
  moreover have "map fst (program_files demo_env (demo_program content)) = map fst (program_files demo_env (demo_program []))"
    "map snd (program_files demo_env (demo_program content)) = [cstr ''BC'', content]"
    by (simp_all add: program_files_def bc_file_def kernel_files_def demo_program_def demo_meta_def demo_env_def
        pocl_cache_kernel_cachedir_def program_device_dir_def buildhash_is_valid_def snprintf_path_def
        POCL_FILENAME_LENGTH_def cstr_def)
  ultimately show ?thesis
    using zip_map_fst_snd [of "program_files demo_env (demo_program content)"] by simp
qed

lemma demo_program_fits:
  assumes "length content < 2 ^ 32"
  shows "program_fits demo_env (demo_program content)"
proof -
  have 1: "kernel_ok demo_meta"
    by (simp add: kernel_ok_def demo_meta_def demo_arg_def arg_ok_def str_ok_def nul_free_def cstr_def)
  have 3: "cstr ''/cache/ab/program.bc'' = cstr ''/cache/ab'' @ cstr ''/program.bc''"
    "cstr ''/cache/ab/f/g.so'' = cstr ''/cache/ab'' @ cstr ''/f/g.so''"
    "cache_topdir demo_env @ 47 # p_build_hash (demo_program content) = cstr ''/cache/ab''"
    by (simp_all add: cstr_def demo_env_def demo_program_def)
  have 4: "0 \<notin> set (cstr ''/program.bc'')" "0 \<notin> set (cstr ''/f/g.so'')" by code_simp+
  have "list_all (file_fits (cstr ''/cache/ab'')) [(cstr ''/cache/ab/program.bc'', cstr ''BC''), (cstr ''/cache/ab/f/g.so'', content)]"
    unfolding 3(1,2) using 4 assms by (simp add: file_fits_def nul_free_def) (simp add: cstr_def POCL_FILENAME_LENGTH_def)
  then show ?thesis unfolding program_fits_def demo_program_files 3(3) using 1 by (simp add: demo_program_def)
qed

lemma demo_program_ok: "program_ok demo_env (demo_program (cstr ''ELF''))"
  unfolding program_ok_def demo_program_files
  by (intro conjI demo_program_fits) (simp_all add: cstr_def)

lemma serialize_mono:
  "pocl_binary_serialize env p k = Some b \<Longrightarrow> k \<le> k' \<Longrightarrow> pocl_binary_serialize env p k' = Some b"
  by (auto simp: pocl_binary_serialize_def Let_def assert_that_def bind_eq_Some_conv split: if_splits)

lemma demo_sizeof: "map_option fst (pocl_binary_sizeof_binary demo_env (demo_program (cstr ''ELF''))) = Some 222"
proof -
  have "map_option length (pocl_binary_serialize demo_env (demo_program (cstr ''ELF'')) 300) = Some 222" by code_simp
  then obtain b where "pocl_binary_serialize demo_env (demo_program (cstr ''ELF'')) 300 = Some b" "length b = 222" by auto
  then show ?thesis
    using serialize_mono [of _ _ 300 b MAX_BINARY_SIZE]
    by (simp add: pocl_binary_sizeof_binary_def demo_program_def MAX_BINARY_SIZE_def)
qed

lemma binary_metadata_roundtrip_witness:
  "\<exists>p'. map_option snd (pocl_binary_sizeof_binary demo_env (demo_program (cstr ''ELF''))) = Some p' \<and>
    pocl_binary_get_kernels_metadata (cstr ''dev'') 1 (the (p_binary p')) =
      Some (Inr [demo_meta\<lparr>arg_info := [demo_arg\<lparr>ai_type_name := None\<rparr>]\<rparr>])"
proof -
  obtain p' where p': "pocl_binary_sizeof_binary demo_env (demo_program (cstr ''ELF'')) = Some (222, p')"
    using demo_sizeof by auto
  have "norm_kernel demo_meta = demo_meta\<lparr>arg_info := [demo_arg\<lparr>ai_type_name := None\<rparr>]\<rparr>"
    by (simp add: norm_kernel_def norm_arg_def non_empty_def demo_meta_def demo_arg_def cstr_def)
  then show ?thesis
    using binary_metadata_roundtrip [OF demo_program_ok p', of "cstr ''dev''"] p' by (simp add: demo_program_def)
qed

lemma binary_files_roundtrip_witness:
  "\<exists>p'. map_option snd (pocl_binary_sizeof_binary demo_env (demo_program (cstr ''ELF''))) = Some p' \<and>
    map_option (\<lambda>(_, fs). fs (cstr ''/cache/ab/f/g.so'')) (pocl_binary_deserialize demo_env p' Map.empty) = Some (Some (cstr ''ELF''))"
proof -
  obtain p' where p': "pocl_binary_sizeof_binary demo_env (demo_program (cstr ''ELF'')) = Some (222, p')"
    using demo_sizeof by auto
  have fits: "program_fits demo_env (demo_program (cstr ''ELF''))" by (rule demo_program_fits) (simp add: cstr_def)
  have "map_of (program_files demo_env (demo_program (cstr ''ELF''))) (cstr ''/cache/ab/f/g.so'') = Some (cstr ''ELF'')"
    by code_simp
  moreover have "list_all (\<lambda>f. snd f \<noteq> []) (program_files demo_env (demo_program (cstr ''ELF'')))" by code_simp
  ultimately show ?thesis using binary_files_roundtrip [OF fits p'] p' by simp
qed

text \<open>
  Two round trips that fail. A program with an empty file in a cache directory is serialized without
  complaint, but the assertion on its length fails when it is unpacked. And an argument whose type name is
  empty comes back with a null pointer, so serializing a program again that was read from a binary
  dereferences it.
\<close>

theorem binary_roundtrip_failures:
  "map_option (\<lambda>b. (length b, map_option fst (pocl_binary_deserialize demo_env ((demo_program [])\<lparr>p_binary := Some b\<rparr>) Map.empty) = None))
     (pocl_binary_serialize demo_env (demo_program []) 300) = Some (219, True) \<and>
   pocl_binary_serialize demo_env ((demo_program (cstr ''ELF''))\<lparr>kernel_meta := [norm_kernel demo_meta]\<rparr>) 300 = None"
  by (intro conjI; code_simp)

end
