(* ===== verification/MemObjects.thy ===== *)
theory MemObjects
  imports BufferChecks "HOL-Library.Monad_Syntax"
begin

text \<open>
  Buffer objects and the commands on them: creation, retaining and releasing of buffers and sub-buffers,
  and the API functions that validate a buffer command and put it into a queue
  (\<open>clCreateBuffer.c\<close>, \<open>clCreateSubBuffer.c\<close>, \<open>clEnqueue*Buffer*.c\<close>, \<open>pocl_img_buf_cpy.c\<close>), and their execution by the
  basic driver (\<open>pocl_exec_command\<close>). A queue's device has one memory, the buffers' device
  pointers are addresses in it. The use of a freed object and of \<open>NULL\<close> is \<^const>\<open>None\<close>.
\<close>

section \<open>State\<close>

datatype mem_type = BUFFER | IMAGE1D | IMAGE1D_ARRAY | IMAGE1D_BUFFER | IMAGE2D | IMAGE2D_ARRAY | IMAGE3D

text \<open>The image properties; \<open>img_support\<close> is \<open>device_supports_this_image\<close> for the queue's device.\<close>

record image_desc =
  img_elem_size :: size_t
  img_channels :: size_t
  img_row_pitch :: size_t
  img_slice_pitch :: size_t
  img_channel_order :: cl_uint
  img_channel_data_type :: cl_uint
  img_support :: cl_uint
  img_width :: size_t
  img_height :: size_t
  img_depth :: size_t
  img_array_size :: size_t
  img_buffer :: "nat option"

record cl_mem =
  mem_context :: nat
  mem_size :: size_t
  mem_origin :: size_t
  mem_parent :: "nat option"
  mem_flags :: flags
  mem_type :: mem_type
  mem_image :: "image_desc option"
  mem_ptr :: size_t
  mem_host_ptr :: size_t
  mem_refcount :: int

record cmd_queue =
  q_context :: nat
  q_mem_base_addr_align :: size_t
  q_max_mem_alloc_size :: size_t
  q_image_support :: bool

datatype buffer_command =
  READ_BUFFER (rd_host: size_t) (rd_ptr: size_t) (rd_offset: size_t) (rd_size: size_t)
| WRITE_BUFFER size_t size_t size_t size_t
| COPY_BUFFER size_t size_t size_t size_t size_t
| FILL_BUFFER size_t size_t size_t size_t size_t
| READ_BUFFER_RECT size_t size_t size3 size3 size3 size_t size_t size_t size_t
| WRITE_BUFFER_RECT size_t size_t size3 size3 size3 size_t size_t size_t size_t
| COPY_BUFFER_RECT size_t size_t size3 size3 size3 size_t size_t size_t size_t

text \<open>A queued command and the memory objects its event releases when it completes.\<close>

record node =
  node_command :: buffer_command
  node_mem_objs :: "nat list"

record mem_state =
  objs :: "nat \<rightharpoonup> cl_mem"
  next_obj :: nat
  queued :: "node list"

section \<open>Retaining and releasing\<close>

definition clRetainMemObject :: "nat \<Rightarrow> mem_state \<Rightarrow> mem_state option" where
  "clRetainMemObject b s = do {
     m \<leftarrow> objs s b;
     if mem_refcount m \<le> 0 then None
     else Some (s\<lparr>objs := (objs s)(b \<mapsto> m\<lparr>mem_refcount := mem_refcount m + 1\<rparr>)\<rparr>)}"

partial_function (option) clReleaseMemObject :: "nat \<Rightarrow> mem_state \<Rightarrow> mem_state option" where
  "clReleaseMemObject b s = do {
     m \<leftarrow> objs s b;
     if mem_refcount m \<le> 0 then None
     else if mem_refcount m - 1 \<noteq> 0
     then Some (s\<lparr>objs := (objs s)(b \<mapsto> m\<lparr>mem_refcount := mem_refcount m - 1\<rparr>)\<rparr>)
     else case mem_parent m of
            None \<Rightarrow> Some (s\<lparr>objs := (objs s)(b := None)\<rparr>)
          | Some p \<Rightarrow> clReleaseMemObject p (s\<lparr>objs := (objs s)(b := None)\<rparr>)}"

fun retain_all :: "nat list \<Rightarrow> mem_state \<Rightarrow> mem_state option" where
  "retain_all [] s = Some s"
| "retain_all (b # bs) s = do {s \<leftarrow> clRetainMemObject b s; retain_all bs s}"

text \<open>\<open>pocl_mem_objs_cleanup\<close>\<close>

fun pocl_mem_objs_cleanup :: "nat list \<Rightarrow> mem_state \<Rightarrow> mem_state option" where
  "pocl_mem_objs_cleanup [] s = Some s"
| "pocl_mem_objs_cleanup (b # bs) s = do {s \<leftarrow> clReleaseMemObject b s; pocl_mem_objs_cleanup bs s}"

section \<open>Creation\<close>

text \<open>
  \<open>dev_ptr\<close> is the address the driver's \<open>alloc_mem_obj\<close> returns, \<open>host_alloc\<close> that of \<open>pocl_aligned_malloc\<close>;
  \<open>NULL\<close> is 0. The context has one device.
\<close>

definition create_flags_check :: "flags \<Rightarrow> size_t \<Rightarrow> size_t \<Rightarrow> size_t \<Rightarrow> cl_error" where
  "create_flags_check fl sz host_ptr max_mem_alloc_size = first_error
     [(fl > 1023, CL_INVALID_VALUE),
      (has_flag fl CL_MEM_READ_WRITE \<and> (has_flag fl CL_MEM_WRITE_ONLY \<or> has_flag fl CL_MEM_READ_ONLY), CL_INVALID_VALUE),
      (has_flag fl CL_MEM_READ_ONLY \<and> has_flag fl CL_MEM_WRITE_ONLY, CL_INVALID_VALUE),
      (has_flag fl CL_MEM_USE_HOST_PTR \<and> (has_flag fl CL_MEM_ALLOC_HOST_PTR \<or> has_flag fl CL_MEM_COPY_HOST_PTR), CL_INVALID_VALUE),
      (has_flag fl CL_MEM_HOST_WRITE_ONLY \<and> has_flag fl CL_MEM_HOST_READ_ONLY, CL_INVALID_VALUE),
      (has_flag fl CL_MEM_HOST_NO_ACCESS \<and> (has_flag fl CL_MEM_HOST_READ_ONLY \<or> has_flag fl CL_MEM_HOST_WRITE_ONLY), CL_INVALID_VALUE),
      (host_ptr = 0 \<and> (has_flag fl CL_MEM_USE_HOST_PTR \<or> has_flag fl CL_MEM_COPY_HOST_PTR), CL_INVALID_HOST_PTR),
      (host_ptr \<noteq> 0 \<and> \<not> has_flag fl CL_MEM_USE_HOST_PTR \<and> \<not> has_flag fl CL_MEM_COPY_HOST_PTR, CL_INVALID_HOST_PTR),
      (sz > max_mem_alloc_size, CL_INVALID_BUFFER_SIZE)]"

definition clCreateBuffer ::
  "nat \<Rightarrow> size_t \<Rightarrow> flags \<Rightarrow> size_t \<Rightarrow> size_t \<Rightarrow> size_t option \<Rightarrow> size_t option \<Rightarrow> mem_state \<Rightarrow> (cl_error + nat) \<times> mem_state" where
  "clCreateBuffer ctx max_mem_alloc_size fl sz host_ptr dev_ptr host_alloc s =
     (if sz = 0 then (Inl CL_INVALID_BUFFER_SIZE, s)
      else let fl = (if fl = 0 then CL_MEM_READ_WRITE else fl);
               err = create_flags_check fl sz host_ptr max_mem_alloc_size
      in if err \<noteq> CL_SUCCESS then (Inl err, s)
      else case dev_ptr of
        None \<Rightarrow> (Inl CL_MEM_OBJECT_ALLOCATION_FAILURE, s)
      | Some ptr \<Rightarrow>
          if has_flag fl CL_MEM_ALLOC_HOST_PTR \<and> host_ptr = 0 \<and> host_alloc = None then (Inl CL_OUT_OF_HOST_MEMORY, s)
          else let host = (if has_flag fl CL_MEM_ALLOC_HOST_PTR \<and> host_ptr = 0 then the host_alloc else host_ptr);
                   b = next_obj s
          in (Inr b, s\<lparr>next_obj := b + 1, objs := (objs s)(b \<mapsto>
            \<lparr>mem_context = ctx, mem_size = sz, mem_origin = 0, mem_parent = None, mem_flags = fl, mem_type = BUFFER,
             mem_image = None, mem_ptr = ptr, mem_host_ptr = host, mem_refcount = 1\<rparr>)\<rparr>))"

definition sub_buffer_check :: "cl_mem \<Rightarrow> flags \<Rightarrow> size_t \<Rightarrow> size_t \<Rightarrow> size_t \<Rightarrow> cl_error" where
  "sub_buffer_check m fl origin sz min_buffer_alignment = first_error
     [(mem_image m \<noteq> None \<or> mem_type m = IMAGE1D_BUFFER, CL_INVALID_MEM_OBJECT),
      (mem_parent m \<noteq> None, CL_INVALID_MEM_OBJECT),
      (sz = 0, CL_INVALID_BUFFER_SIZE),
      (sz + origin > mem_size m, CL_INVALID_VALUE),
      (has_flag (mem_flags m) CL_MEM_WRITE_ONLY \<and> has_flag fl (or CL_MEM_READ_WRITE CL_MEM_READ_ONLY), CL_INVALID_VALUE),
      (has_flag (mem_flags m) CL_MEM_READ_ONLY \<and> has_flag fl (or CL_MEM_READ_WRITE CL_MEM_WRITE_ONLY), CL_INVALID_VALUE),
      (has_flag fl (or CL_MEM_USE_HOST_PTR (or CL_MEM_ALLOC_HOST_PTR CL_MEM_COPY_HOST_PTR)), CL_INVALID_VALUE),
      (has_flag (mem_flags m) CL_MEM_HOST_WRITE_ONLY \<and> has_flag fl CL_MEM_HOST_READ_ONLY, CL_INVALID_VALUE),
      (has_flag (mem_flags m) CL_MEM_HOST_READ_ONLY \<and> has_flag fl CL_MEM_HOST_WRITE_ONLY, CL_INVALID_VALUE),
      (has_flag (mem_flags m) CL_MEM_HOST_NO_ACCESS \<and> has_flag fl (or CL_MEM_HOST_READ_ONLY CL_MEM_HOST_WRITE_ONLY), CL_INVALID_VALUE),
      (origin mod min_buffer_alignment \<noteq> 0, CL_MISALIGNED_SUB_BUFFER_OFFSET)]"

definition clCreateSubBuffer ::
  "nat option \<Rightarrow> flags \<Rightarrow> size_t \<Rightarrow> size_t \<Rightarrow> size_t \<Rightarrow> mem_state \<Rightarrow> ((cl_error + nat) \<times> mem_state) option" where
  "clCreateSubBuffer buffer fl origin sz min_buffer_alignment s =
     (case buffer of
        None \<Rightarrow> Some (Inl CL_INVALID_MEM_OBJECT, s)
      | Some p \<Rightarrow> do {
          m \<leftarrow> objs s p;
          let err = sub_buffer_check m fl origin sz min_buffer_alignment;
          if err \<noteq> CL_SUCCESS then Some (Inl err, s)
          else do {
            let b = next_obj s;
            let s = s\<lparr>next_obj := b + 1, objs := (objs s)(b \<mapsto>
              \<lparr>mem_context = mem_context m, mem_size = sz, mem_origin = origin, mem_parent = Some p,
               mem_flags = pocl_cl_mem_inherit_flags (mem_flags m) fl, mem_type = BUFFER, mem_image = None,
               mem_ptr = 0, mem_host_ptr = 0, mem_refcount = 1\<rparr>)\<rparr>;
            s \<leftarrow> clRetainMemObject p s;
            Some (Inr b, s)}})"

section \<open>Enqueueing buffer commands\<close>

text \<open>A wait list: its length and, for every event, its context or \<open>NULL\<close>.\<close>

type_synonym wait_list = "cl_uint \<times> nat option list option"

fun check_events :: "nat \<Rightarrow> nat option list \<Rightarrow> cl_error" where
  "check_events ctx [] = CL_SUCCESS"
| "check_events ctx (None # es) = CL_INVALID_EVENT_WAIT_LIST"
| "check_events ctx (Some c # es) = (if c \<noteq> ctx then CL_INVALID_CONTEXT else check_events ctx es)"

definition pocl_check_event_wait_list :: "cmd_queue \<Rightarrow> wait_list \<Rightarrow> cl_error" where
  "pocl_check_event_wait_list q wl =
     (case wl of
        (n, None) \<Rightarrow> if n > 0 then CL_INVALID_EVENT_WAIT_LIST else CL_SUCCESS
      | (n, Some es) \<Rightarrow> if n = 0 then CL_INVALID_EVENT_WAIT_LIST else check_events (q_context q) (take (unat n) es))"

definition on_sub_misalign :: "cmd_queue \<Rightarrow> cl_mem \<Rightarrow> bool" where
  "on_sub_misalign q m \<longleftrightarrow> mem_parent m \<noteq> None \<and> mem_origin m mod q_mem_base_addr_align q \<noteq> 0"

definition POCL_CONVERT_SUBBUFFER_OFFSET :: "nat \<Rightarrow> cl_mem \<Rightarrow> size_t \<Rightarrow> nat \<times> size_t" where
  "POCL_CONVERT_SUBBUFFER_OFFSET b m offset =
     (case mem_parent m of None \<Rightarrow> (b, offset) | Some p \<Rightarrow> (p, offset + mem_origin m))"

text \<open>Create the command's event with its memory objects, retain the given objects, append the command.\<close>

definition enqueue_node :: "buffer_command \<Rightarrow> nat list \<Rightarrow> nat list \<Rightarrow> mem_state \<Rightarrow> mem_state option" where
  "enqueue_node c mem_objs retained s = do {
     s \<leftarrow> retain_all retained s;
     Some (s\<lparr>queued := queued s @ [\<lparr>node_command = c, node_mem_objs = mem_objs\<rparr>]\<rparr>)}"

definition clEnqueueReadBuffer ::
  "cmd_queue option \<Rightarrow> nat option \<Rightarrow> size_t \<Rightarrow> size_t \<Rightarrow> size_t \<Rightarrow> wait_list \<Rightarrow> mem_state \<Rightarrow> (cl_error \<times> mem_state) option" where
  "clEnqueueReadBuffer queue buffer offset sz ptr wl s =
     (case queue of None \<Rightarrow> Some (CL_INVALID_COMMAND_QUEUE, s) | Some q \<Rightarrow>
      case buffer of None \<Rightarrow> Some (CL_INVALID_MEM_OBJECT, s) | Some b \<Rightarrow> do {
        m \<leftarrow> objs s b;
        let err = first_error
          [(on_sub_misalign q m, CL_MISALIGNED_SUB_BUFFER_OFFSET),
           (q_context q \<noteq> mem_context m, CL_INVALID_CONTEXT),
           (has_flag (mem_flags m) (or CL_MEM_HOST_WRITE_ONLY CL_MEM_HOST_NO_ACCESS), CL_INVALID_OPERATION),
           (ptr = 0, CL_INVALID_VALUE),
           (pocl_buffer_boundcheck (mem_size m) offset sz \<noteq> CL_SUCCESS, CL_INVALID_VALUE)];
        if err \<noteq> CL_SUCCESS then Some (err, s)
        else do {
          let (r, offset) = POCL_CONVERT_SUBBUFFER_OFFSET b m offset;
          m \<leftarrow> objs s r;
          let err = first_error
            [(mem_size m > q_max_mem_alloc_size q, CL_OUT_OF_RESOURCES),
             (pocl_check_event_wait_list q wl \<noteq> CL_SUCCESS, pocl_check_event_wait_list q wl)];
          if err \<noteq> CL_SUCCESS then Some (err, s)
          else map_option (Pair CL_SUCCESS) (enqueue_node (READ_BUFFER ptr (mem_ptr m) offset sz) [r] [r] s)}})"

definition clEnqueueWriteBuffer ::
  "cmd_queue option \<Rightarrow> nat option \<Rightarrow> size_t \<Rightarrow> size_t \<Rightarrow> size_t \<Rightarrow> wait_list \<Rightarrow> mem_state \<Rightarrow> (cl_error \<times> mem_state) option" where
  "clEnqueueWriteBuffer queue buffer offset sz ptr wl s =
     (case queue of None \<Rightarrow> Some (CL_INVALID_COMMAND_QUEUE, s) | Some q \<Rightarrow>
      case buffer of None \<Rightarrow> Some (CL_INVALID_MEM_OBJECT, s) | Some b \<Rightarrow> do {
        m \<leftarrow> objs s b;
        let err = first_error
          [(on_sub_misalign q m, CL_MISALIGNED_SUB_BUFFER_OFFSET),
           (q_context q \<noteq> mem_context m, CL_INVALID_CONTEXT),
           (has_flag (mem_flags m) (or CL_MEM_HOST_READ_ONLY CL_MEM_HOST_NO_ACCESS), CL_INVALID_OPERATION),
           (ptr = 0, CL_INVALID_VALUE),
           (pocl_buffer_boundcheck (mem_size m) offset sz \<noteq> CL_SUCCESS, CL_INVALID_VALUE)];
        if err \<noteq> CL_SUCCESS then Some (err, s)
        else do {
          let (r, offset) = POCL_CONVERT_SUBBUFFER_OFFSET b m offset;
          m \<leftarrow> objs s r;
          let err = first_error
            [(mem_size m > q_max_mem_alloc_size q, CL_OUT_OF_RESOURCES),
             (pocl_check_event_wait_list q wl \<noteq> CL_SUCCESS, pocl_check_event_wait_list q wl)];
          if err \<noteq> CL_SUCCESS then Some (err, s)
          else map_option (Pair CL_SUCCESS) (enqueue_node (WRITE_BUFFER ptr (mem_ptr m) offset sz) [r] [r] s)}})"

definition as_range :: "cl_mem \<Rightarrow> cl_mem_range" where
  "as_range m = \<lparr>buf_size = mem_size m, buf_origin = mem_origin m, buf_parent = mem_parent m\<rparr>"

definition clEnqueueCopyBuffer ::
  "cmd_queue option \<Rightarrow> nat option \<Rightarrow> nat option \<Rightarrow> size_t \<Rightarrow> size_t \<Rightarrow> size_t \<Rightarrow> wait_list \<Rightarrow> mem_state \<Rightarrow>
   (cl_error \<times> mem_state) option" where
  "clEnqueueCopyBuffer queue src_buffer dst_buffer src_offset dst_offset sz wl s =
     (case queue of None \<Rightarrow> Some (CL_INVALID_COMMAND_QUEUE, s) | Some q \<Rightarrow>
      case src_buffer of None \<Rightarrow> Some (CL_INVALID_MEM_OBJECT, s) | Some src \<Rightarrow>
      case dst_buffer of None \<Rightarrow> Some (CL_INVALID_MEM_OBJECT, s) | Some dst \<Rightarrow> do {
        sm \<leftarrow> objs s src;
        dm \<leftarrow> objs s dst;
        let err = first_error
          [(mem_type sm \<noteq> BUFFER, CL_INVALID_MEM_OBJECT),
           (mem_type dm \<noteq> BUFFER, CL_INVALID_MEM_OBJECT),
           (on_sub_misalign q sm, CL_MISALIGNED_SUB_BUFFER_OFFSET),
           (on_sub_misalign q dm, CL_MISALIGNED_SUB_BUFFER_OFFSET)];
        if err \<noteq> CL_SUCCESS then Some (err, s)
        else do {
          let (sr, src_offset) = POCL_CONVERT_SUBBUFFER_OFFSET src sm src_offset;
          let (dr, dst_offset) = POCL_CONVERT_SUBBUFFER_OFFSET dst dm dst_offset;
          sm \<leftarrow> objs s sr;
          dm \<leftarrow> objs s dr;
          let err = first_error
            [(mem_size sm > q_max_mem_alloc_size q, CL_OUT_OF_RESOURCES),
             (mem_size dm > q_max_mem_alloc_size q, CL_OUT_OF_RESOURCES),
             (q_context q \<noteq> mem_context sm \<or> q_context q \<noteq> mem_context dm, CL_INVALID_CONTEXT),
             (sz = 0, CL_INVALID_VALUE),
             (pocl_check_event_wait_list q wl \<noteq> CL_SUCCESS, pocl_check_event_wait_list q wl),
             (pocl_buffers_boundcheck (mem_size sm) (mem_size dm) src_offset dst_offset sz \<noteq> CL_SUCCESS, CL_INVALID_VALUE),
             (pocl_buffers_overlap sr (as_range sm) dr (as_range dm) src_offset dst_offset sz \<noteq> CL_SUCCESS, CL_MEM_COPY_OVERLAP)];
          if err \<noteq> CL_SUCCESS then Some (err, s)
          else map_option (Pair CL_SUCCESS)
            (enqueue_node (COPY_BUFFER (mem_ptr dm) (mem_ptr sm) dst_offset src_offset sz) [sr, dr] [sr, dr] s)}})"

text \<open>\<open>__builtin_popcount\<close> of the low 32 bits.\<close>

definition popcount32 :: "size_t \<Rightarrow> nat" where
  "popcount32 x = length (filter (bit x) [0..<32])"

text \<open>\<open>p\<close> is the address of the runtime's own copy of the pattern.\<close>

definition clEnqueueFillBuffer ::
  "cmd_queue option \<Rightarrow> nat option \<Rightarrow> size_t \<Rightarrow> size_t \<Rightarrow> size_t \<Rightarrow> size_t \<Rightarrow> size_t \<Rightarrow> wait_list \<Rightarrow> mem_state \<Rightarrow>
   (cl_error \<times> mem_state) option" where
  "clEnqueueFillBuffer queue buffer pattern p pattern_size offset sz wl s =
     (case queue of None \<Rightarrow> Some (CL_INVALID_COMMAND_QUEUE, s) | Some q \<Rightarrow>
      case buffer of None \<Rightarrow> Some (CL_INVALID_MEM_OBJECT, s) | Some b \<Rightarrow> do {
        m \<leftarrow> objs s b;
        let err = first_error
          [(mem_type m \<noteq> BUFFER, CL_INVALID_MEM_OBJECT),
           (q_context q \<noteq> mem_context m, CL_INVALID_CONTEXT),
           (pocl_check_event_wait_list q wl \<noteq> CL_SUCCESS, pocl_check_event_wait_list q wl),
           (pocl_buffer_boundcheck (mem_size m) offset sz \<noteq> CL_SUCCESS, pocl_buffer_boundcheck (mem_size m) offset sz),
           (pattern = 0, CL_INVALID_VALUE),
           (pattern_size = 0, CL_INVALID_VALUE),
           (pattern_size > 128, CL_INVALID_VALUE),
           (popcount32 pattern_size > 1, CL_INVALID_VALUE),
           (offset mod pattern_size \<noteq> 0, CL_INVALID_VALUE),
           (sz mod pattern_size \<noteq> 0, CL_INVALID_VALUE),
           (on_sub_misalign q m, CL_MISALIGNED_SUB_BUFFER_OFFSET)];
        if err \<noteq> CL_SUCCESS then Some (err, s)
        else do {
          let (r, offset) = POCL_CONVERT_SUBBUFFER_OFFSET b m offset;
          m \<leftarrow> objs s r;
          if mem_size m > q_max_mem_alloc_size q then Some (CL_OUT_OF_RESOURCES, s)
          else map_option (Pair CL_SUCCESS)
            (enqueue_node (FILL_BUFFER (mem_ptr m) sz offset p pattern_size) [r] [r] s)}})"

section \<open>Enqueueing rectangle commands\<close>

text \<open>
  The pitches after a rectangle check, or \<^const>\<open>None\<close> if it fails; a division by zero inside the check is
  \<^const>\<open>None\<close> on the outside.
\<close>

definition rect_pitches :: "size_t \<Rightarrow> size3 \<Rightarrow> size3 \<Rightarrow> size_t \<Rightarrow> size_t \<Rightarrow> (size_t \<times> size_t) option option" where
  "rect_pitches sz origin region rp sp = do {
     (err, rp, sp) \<leftarrow> pocl_buffer_boundcheck_3d sz origin region rp sp;
     Some (if err = CL_SUCCESS then Some (rp, sp) else None)}"

definition shift_origin :: "size_t \<Rightarrow> size3 \<Rightarrow> size3" where
  "shift_origin offset origin = (case origin of (o0, o1, o2) \<Rightarrow> (offset + o0, o1, o2))"

definition region_product :: "size3 \<Rightarrow> size_t" where
  "region_product region = (case region of (r0, r1, r2) \<Rightarrow> r0 * r1 * r2)"

text \<open>
  \<open>clEnqueueReadBufferRect\<close> and \<open>clEnqueueWriteBufferRect\<close> differ in the forbidden flags and the command. The
  arrays of origins and regions are \<^const>\<open>None\<close> for \<open>NULL\<close>.
\<close>

definition enqueue_buffer_rect ::
  "flags \<Rightarrow> (size_t \<Rightarrow> size_t \<Rightarrow> size3 \<Rightarrow> size3 \<Rightarrow> size3 \<Rightarrow> size_t \<Rightarrow> size_t \<Rightarrow> size_t \<Rightarrow> size_t \<Rightarrow> buffer_command) \<Rightarrow>
   cmd_queue option \<Rightarrow> nat option \<Rightarrow> size3 option \<Rightarrow> size3 option \<Rightarrow> size3 option \<Rightarrow> size_t \<Rightarrow> size_t \<Rightarrow> size_t \<Rightarrow> size_t \<Rightarrow>
   size_t \<Rightarrow> wait_list \<Rightarrow> mem_state \<Rightarrow> (cl_error \<times> mem_state) option" where
  "enqueue_buffer_rect forbidden command queue buffer buffer_origin host_origin region brp bsp hrp hsp ptr wl s =
     (case queue of None \<Rightarrow> Some (CL_INVALID_COMMAND_QUEUE, s) | Some q \<Rightarrow>
      case buffer of None \<Rightarrow> Some (CL_INVALID_MEM_OBJECT, s) | Some b \<Rightarrow> do {
        m \<leftarrow> objs s b;
        let err = first_error
          [(on_sub_misalign q m, CL_MISALIGNED_SUB_BUFFER_OFFSET),
           (mem_type m \<noteq> BUFFER, CL_INVALID_MEM_OBJECT),
           (has_flag (mem_flags m) forbidden, CL_INVALID_OPERATION),
           (q_context q \<noteq> mem_context m, CL_INVALID_CONTEXT),
           (pocl_check_event_wait_list q wl \<noteq> CL_SUCCESS, pocl_check_event_wait_list q wl),
           (ptr = 0, CL_INVALID_VALUE),
           (buffer_origin = None \<or> host_origin = None \<or> region = None, CL_INVALID_VALUE)];
        if err \<noteq> CL_SUCCESS then Some (err, s)
        else do {
          let (bo, ho, rg) = (the buffer_origin, the host_origin, the region);
          if region_product rg = 0 then Some (CL_INVALID_VALUE, s)
          else do {
            bp \<leftarrow> rect_pitches (mem_size m) bo rg brp bsp;
            (case bp of None \<Rightarrow> Some (CL_INVALID_VALUE, s) | Some (brp, bsp) \<Rightarrow> do {
              hp \<leftarrow> rect_pitches (- 1) ho rg hrp hsp;
              (case hp of None \<Rightarrow> Some (CL_INVALID_VALUE, s) | Some (hrp, hsp) \<Rightarrow> do {
                let (r, offset) = POCL_CONVERT_SUBBUFFER_OFFSET b m 0;
                m \<leftarrow> objs s r;
                if mem_size m > q_max_mem_alloc_size q then Some (CL_OUT_OF_RESOURCES, s)
                else map_option (Pair CL_SUCCESS)
                  (enqueue_node (command ptr (mem_ptr m) (shift_origin offset bo) ho rg brp bsp hrp hsp) [r] [r] s)})})}}})"

definition clEnqueueReadBufferRect ::
  "cmd_queue option \<Rightarrow> nat option \<Rightarrow> size3 option \<Rightarrow> size3 option \<Rightarrow> size3 option \<Rightarrow> size_t \<Rightarrow> size_t \<Rightarrow> size_t \<Rightarrow> size_t \<Rightarrow>
   size_t \<Rightarrow> wait_list \<Rightarrow> mem_state \<Rightarrow> (cl_error \<times> mem_state) option" where
  "clEnqueueReadBufferRect = enqueue_buffer_rect (or CL_MEM_HOST_WRITE_ONLY CL_MEM_HOST_NO_ACCESS) READ_BUFFER_RECT"

definition clEnqueueWriteBufferRect ::
  "cmd_queue option \<Rightarrow> nat option \<Rightarrow> size3 option \<Rightarrow> size3 option \<Rightarrow> size3 option \<Rightarrow> size_t \<Rightarrow> size_t \<Rightarrow> size_t \<Rightarrow> size_t \<Rightarrow>
   size_t \<Rightarrow> wait_list \<Rightarrow> mem_state \<Rightarrow> (cl_error \<times> mem_state) option" where
  "clEnqueueWriteBufferRect = enqueue_buffer_rect (or CL_MEM_HOST_READ_ONLY CL_MEM_HOST_NO_ACCESS) WRITE_BUFFER_RECT"

text \<open>
  The checks shared by the rectangle copies between buffers and images: the result is the effective
  pitches of both sides.
\<close>

definition unsupported_image :: "cmd_queue \<Rightarrow> image_desc \<Rightarrow> (bool \<times> cl_error) list" where
  "unsupported_image q i =
     [(\<not> q_image_support q, CL_INVALID_OPERATION),
      (and (img_support i) 2 = 0, CL_IMAGE_FORMAT_NOT_SUPPORTED),
      (and (img_support i) 1 = 0, CL_INVALID_IMAGE_SIZE)]"

definition rect_side_check :: "cmd_queue \<Rightarrow> cl_mem \<Rightarrow> bool \<Rightarrow> size3 \<Rightarrow> cl_error" where
  "rect_side_check q m is_image origin =
     (if is_image
      then case mem_image m of
             None \<Rightarrow> CL_INVALID_MEM_OBJECT
           | Some i \<Rightarrow> first_error (unsupported_image q i @
               [(mem_type m = IMAGE2D \<and> snd (snd origin) \<noteq> 0, CL_INVALID_VALUE)])
      else first_error
        [(mem_type m \<noteq> BUFFER, CL_INVALID_MEM_OBJECT),
         (on_sub_misalign q m, CL_MISALIGNED_SUB_BUFFER_OFFSET),
         (mem_size m > q_max_mem_alloc_size q, CL_OUT_OF_RESOURCES)])"

definition both_images_check :: "cl_mem \<Rightarrow> cl_mem \<Rightarrow> size3 \<Rightarrow> cl_error" where
  "both_images_check sm dm region =
     (case (mem_image sm, mem_image dm) of
        (Some si, Some di) \<Rightarrow> first_error
          [(img_channel_order si \<noteq> img_channel_order di, CL_IMAGE_FORMAT_MISMATCH),
           (img_channel_data_type si \<noteq> img_channel_data_type di, CL_IMAGE_FORMAT_MISMATCH),
           ((mem_type dm = IMAGE2D \<or> mem_type sm = IMAGE2D) \<and> snd (snd region) \<noteq> 1, CL_INVALID_VALUE)]
      | _ \<Rightarrow> CL_SUCCESS)"

definition image_bytes :: "cl_mem \<Rightarrow> size3 \<Rightarrow> size3" where
  "image_bytes m v =
     (case mem_image m of
        None \<Rightarrow> v
      | Some i \<Rightarrow> (case v of (x, y, z) \<Rightarrow> (x * (img_elem_size i * img_channels i), y, z)))"

definition image_pitches :: "cl_mem \<Rightarrow> size_t \<times> size_t" where
  "image_pitches m =
     (case mem_image m of
        None \<Rightarrow> (0, 0)
      | Some i \<Rightarrow> (img_row_pitch i, if mem_type m = IMAGE1D_ARRAY then 0 else img_slice_pitch i))"

definition pocl_rect_copy ::
  "cmd_queue \<Rightarrow> nat option \<Rightarrow> bool \<Rightarrow> nat option \<Rightarrow> bool \<Rightarrow> size3 option \<Rightarrow> size3 option \<Rightarrow> size3 option \<Rightarrow>
   size_t \<Rightarrow> size_t \<Rightarrow> size_t \<Rightarrow> size_t \<Rightarrow> wait_list \<Rightarrow> mem_state \<Rightarrow>
   (cl_error + (size_t \<times> size_t) \<times> (size_t \<times> size_t)) option" where
  "pocl_rect_copy q src_obj src_is_image dst_obj dst_is_image src_origin dst_origin region srp ssp drp dsp wl s = do {
     src \<leftarrow> src_obj;
     dst \<leftarrow> dst_obj;
     sm \<leftarrow> objs s src;
     dm \<leftarrow> objs s dst;
     let err = first_error
       [(q_context q \<noteq> mem_context sm \<or> q_context q \<noteq> mem_context dm, CL_INVALID_CONTEXT),
        (snd wl = None \<and> fst wl > 0, CL_INVALID_EVENT_WAIT_LIST),
        (snd wl \<noteq> None \<and> fst wl = 0, CL_INVALID_EVENT_WAIT_LIST),
        (src_origin = None \<or> dst_origin = None \<or> region = None, CL_INVALID_VALUE)];
     if err \<noteq> CL_SUCCESS then Some (Inl err)
     else do {
       let (so, d_o, rg) = (the src_origin, the dst_origin, the region);
       let err = first_error
         [(rect_side_check q sm src_is_image so \<noteq> CL_SUCCESS, rect_side_check q sm src_is_image so),
          (rect_side_check q dm dst_is_image d_o \<noteq> CL_SUCCESS, rect_side_check q dm dst_is_image d_o),
          (src_is_image \<and> dst_is_image \<and> both_images_check sm dm rg \<noteq> CL_SUCCESS, both_images_check sm dm rg)];
       if err \<noteq> CL_SUCCESS then Some (Inl err)
       else do {
         let mod_region = (if src_is_image then image_bytes sm rg else if dst_is_image then image_bytes dm rg else rg);
         let mod_src_origin = (if src_is_image then image_bytes sm so else so);
         let mod_dst_origin = (if dst_is_image then image_bytes dm d_o else d_o);
         let (srp, ssp) = (if src_is_image then image_pitches sm else (srp, ssp));
         let (drp, dsp) = (if dst_is_image then image_pitches dm else (drp, dsp));
         sp \<leftarrow> rect_pitches (mem_size sm) mod_src_origin mod_region srp ssp;
         (case sp of None \<Rightarrow> Some (Inl CL_INVALID_VALUE) | Some (srp, ssp) \<Rightarrow> do {
           dp \<leftarrow> rect_pitches (mem_size dm) mod_dst_origin mod_region drp dsp;
           (case dp of None \<Rightarrow> Some (Inl CL_INVALID_VALUE) | Some (drp, dsp) \<Rightarrow>
              if src = dst
              then if ssp \<noteq> dsp then Some (Inl CL_INVALID_VALUE)
                   else if srp \<noteq> drp then Some (Inl CL_INVALID_VALUE)
                   else do {
                     overlap \<leftarrow> check_copy_overlap mod_src_origin mod_dst_origin mod_region srp ssp;
                     Some (if overlap then Inl CL_MEM_COPY_OVERLAP else Inr ((srp, ssp), (drp, dsp)))}
              else Some (Inr ((srp, ssp), (drp, dsp))))})}}}"

text \<open>
  The command's event lists the buffers as they were passed, while the objects retained are those after
  the conversion of sub-buffers.
\<close>

definition clEnqueueCopyBufferRect ::
  "cmd_queue option \<Rightarrow> nat option \<Rightarrow> nat option \<Rightarrow> size3 option \<Rightarrow> size3 option \<Rightarrow> size3 option \<Rightarrow>
   size_t \<Rightarrow> size_t \<Rightarrow> size_t \<Rightarrow> size_t \<Rightarrow> wait_list \<Rightarrow> mem_state \<Rightarrow> (cl_error \<times> mem_state) option" where
  "clEnqueueCopyBufferRect queue src_buffer dst_buffer src_origin dst_origin region srp ssp drp dsp wl s =
     (case queue of None \<Rightarrow> Some (CL_INVALID_COMMAND_QUEUE, s) | Some q \<Rightarrow> do {
        res \<leftarrow> pocl_rect_copy q src_buffer False dst_buffer False src_origin dst_origin region srp ssp drp dsp wl s;
        (case res of
           Inl err \<Rightarrow> Some (err, s)
         | Inr ((srp, ssp), (drp, dsp)) \<Rightarrow> do {
             let (src, dst) = (the src_buffer, the dst_buffer);
             sm \<leftarrow> objs s src;
             dm \<leftarrow> objs s dst;
             let (sr, src_offset) = POCL_CONVERT_SUBBUFFER_OFFSET src sm 0;
             let (dr, dst_offset) = POCL_CONVERT_SUBBUFFER_OFFSET dst dm 0;
             sm \<leftarrow> objs s sr;
             dm \<leftarrow> objs s dr;
             if mem_size sm > q_max_mem_alloc_size q \<or> mem_size dm > q_max_mem_alloc_size q then Some (CL_OUT_OF_RESOURCES, s)
             else map_option (Pair CL_SUCCESS)
               (enqueue_node (COPY_BUFFER_RECT (mem_ptr dm) (mem_ptr sm) (shift_origin dst_offset (the dst_origin))
                  (shift_origin src_offset (the src_origin)) (the region) drp dsp srp ssp) [src, dst] [sr, dr] s)})})"

section \<open>Execution\<close>

text \<open>\<open>pocl_exec_command\<close> on the basic driver, for the buffer commands.\<close>

fun pocl_exec_command :: "buffer_command \<Rightarrow> mem \<Rightarrow> mem option" where
  "pocl_exec_command (READ_BUFFER host ptr offset sz) m = Some (pocl_basic_read host ptr offset sz m)"
| "pocl_exec_command (WRITE_BUFFER host ptr offset sz) m = Some (pocl_basic_write host ptr offset sz m)"
| "pocl_exec_command (COPY_BUFFER dst src dst_offset src_offset sz) m = Some (pocl_basic_copy dst src dst_offset src_offset sz m)"
| "pocl_exec_command (FILL_BUFFER ptr sz offset pattern pattern_size) m = pocl_basic_memfill ptr sz offset pattern pattern_size m"
| "pocl_exec_command (READ_BUFFER_RECT host ptr bo ho rg brp bsp hrp hsp) m = Some (pocl_basic_read_rect host ptr bo ho rg brp bsp hrp hsp m)"
| "pocl_exec_command (WRITE_BUFFER_RECT host ptr bo ho rg brp bsp hrp hsp) m = Some (pocl_basic_write_rect host ptr bo ho rg brp bsp hrp hsp m)"
| "pocl_exec_command (COPY_BUFFER_RECT dst src d_o so rg drp dsp srp ssp) m = Some (pocl_basic_copy_rect dst src d_o so rg drp dsp srp ssp m)"

text \<open>The oldest queued command is executed, completed and its objects released.\<close>

definition run_next :: "mem_state \<Rightarrow> mem \<Rightarrow> (mem_state \<times> mem) option" where
  "run_next s m =
     (case queued s of
        [] \<Rightarrow> None
      | n # ns \<Rightarrow> do {
          m \<leftarrow> pocl_exec_command (node_command n) m;
          s \<leftarrow> pocl_mem_objs_cleanup (node_mem_objs n) (s\<lparr>queued := ns\<rparr>);
          Some (s, m)})"

end
