(* ===== verification/MemSafety.thy ===== *)
theory MemSafety
  imports MemObjects
begin

text \<open>
  What an accepted buffer command may write: the composition of the checks of the API functions
  (\<open>MemObjects\<close>, \<open>BufferChecks\<close>) with the copy and fill routines of the driver (\<open>BasicMem\<close>).
\<close>

section \<open>The buffer commands of the API\<close>

datatype buffer_call =
  Read_Buffer nat size_t size_t size_t
| Write_Buffer nat size_t size_t size_t
| Copy_Buffer nat nat size_t size_t size_t
| Fill_Buffer nat size_t size_t size_t size_t size_t
| Read_Rect nat size3 size3 size3 size_t size_t size_t size_t size_t
| Write_Rect nat size3 size3 size3 size_t size_t size_t size_t size_t
| Copy_Rect nat nat size3 size3 size3 size_t size_t size_t size_t

fun issue :: "cmd_queue \<Rightarrow> wait_list \<Rightarrow> buffer_call \<Rightarrow> mem_state \<Rightarrow> (cl_error \<times> mem_state) option" where
  "issue q wl (Read_Buffer b offset sz ptr) s = clEnqueueReadBuffer (Some q) (Some b) offset sz ptr wl s"
| "issue q wl (Write_Buffer b offset sz ptr) s = clEnqueueWriteBuffer (Some q) (Some b) offset sz ptr wl s"
| "issue q wl (Copy_Buffer src dst src_offset dst_offset sz) s =
     clEnqueueCopyBuffer (Some q) (Some src) (Some dst) src_offset dst_offset sz wl s"
| "issue q wl (Fill_Buffer b pattern p pattern_size offset sz) s =
     clEnqueueFillBuffer (Some q) (Some b) pattern p pattern_size offset sz wl s"
| "issue q wl (Read_Rect b bo ho rg brp bsp hrp hsp ptr) s =
     clEnqueueReadBufferRect (Some q) (Some b) (Some bo) (Some ho) (Some rg) brp bsp hrp hsp ptr wl s"
| "issue q wl (Write_Rect b bo ho rg brp bsp hrp hsp ptr) s =
     clEnqueueWriteBufferRect (Some q) (Some b) (Some bo) (Some ho) (Some rg) brp bsp hrp hsp ptr wl s"
| "issue q wl (Copy_Rect src dst so d_o rg srp ssp drp dsp) s =
     clEnqueueCopyBufferRect (Some q) (Some src) (Some dst) (Some so) (Some d_o) (Some rg) srp ssp drp dsp wl s"

section \<open>Well-formed objects and the bytes they own\<close>

definition obj_ok :: "mem_state \<Rightarrow> nat \<Rightarrow> cl_mem \<Rightarrow> bool" where
  "obj_ok s b m \<longleftrightarrow> unat (mem_size m) < 2 ^ 63 \<and>
     (case mem_parent m of
        None \<Rightarrow> mem_origin m = 0
      | Some p \<Rightarrow> p \<noteq> b \<and> (case objs s p of
          None \<Rightarrow> False
        | Some pm \<Rightarrow> mem_parent pm = None \<and> unat (mem_origin m) + unat (mem_size m) \<le> unat (mem_size pm)))"

definition mem_ok :: "mem_state \<Rightarrow> bool" where
  "mem_ok s \<longleftrightarrow> (\<forall>b m. objs s b = Some m \<longrightarrow> obj_ok s b m)"

definition root :: "mem_state \<Rightarrow> nat \<Rightarrow> nat" where
  "root s b = (case objs s b of None \<Rightarrow> b | Some m \<Rightarrow> (case mem_parent m of None \<Rightarrow> b | Some p \<Rightarrow> p))"

definition buffer_bytes :: "mem_state \<Rightarrow> nat \<Rightarrow> size_t set" where
  "buffer_bytes s b =
     (case (objs s b, objs s (root s b)) of
        (Some m, Some rm) \<Rightarrow> byte_range (mem_ptr rm + mem_origin m) (unat (mem_size m))
      | _ \<Rightarrow> {})"

definition host_rect :: "size_t \<Rightarrow> size3 \<Rightarrow> size3 \<Rightarrow> size_t \<Rightarrow> size_t \<Rightarrow> size_t set" where
  "host_rect ptr origin region row_pitch slice_pitch =
     (let rp = eff_row_pitch region row_pitch; sp = eff_slice_pitch region row_pitch slice_pitch
      in rect_addrs (rect_ptr ptr origin rp sp) rp sp region)"

text \<open>
  The bytes of a call's target: an offset and a size, or a rectangle, count from the first byte of the buffer or
  sub-buffer they are for.
\<close>

definition buffer_base :: "mem_state \<Rightarrow> nat \<Rightarrow> size_t" where
  "buffer_base s b =
     (case (objs s b, objs s (root s b)) of
        (Some m, Some rm) \<Rightarrow> mem_ptr rm + mem_origin m
      | _ \<Rightarrow> 0)"

fun may_write :: "mem_state \<Rightarrow> buffer_call \<Rightarrow> size_t set" where
  "may_write s (Read_Buffer b offset sz ptr) = byte_range ptr (unat sz)"
| "may_write s (Write_Buffer b offset sz ptr) = byte_range (buffer_base s b + offset) (unat sz) \<inter> buffer_bytes s b"
| "may_write s (Copy_Buffer src dst src_offset dst_offset sz) =
     byte_range (buffer_base s dst + dst_offset) (unat sz) \<inter> buffer_bytes s (root s dst)"
| "may_write s (Fill_Buffer b pattern p pattern_size offset sz) =
     byte_range (buffer_base s b + offset) (unat sz) \<inter> buffer_bytes s b"
| "may_write s (Read_Rect b bo ho rg brp bsp hrp hsp ptr) = host_rect ptr ho rg hrp hsp"
| "may_write s (Write_Rect b bo ho rg brp bsp hrp hsp ptr) = host_rect (buffer_base s b) bo rg brp bsp \<inter> buffer_bytes s b"
| "may_write s (Copy_Rect src dst so d_o rg srp ssp drp dsp) = host_rect (buffer_base s dst) d_o rg drp dsp \<inter> buffer_bytes s dst"

text \<open>The rectangles of a call whose offset sums do not wrap; an empty rectangle has no bytes.\<close>

definition side_no_wrap :: "size3 \<Rightarrow> size3 \<Rightarrow> size_t \<Rightarrow> size_t \<Rightarrow> bool" where
  "side_no_wrap origin region row_pitch slice_pitch \<longleftrightarrow>
     fst region \<noteq> 0 \<and> fst (snd region) \<noteq> 0 \<and> snd (snd region) \<noteq> 0 \<and>
     rect_no_wrap (eff_row_pitch region row_pitch) (eff_slice_pitch region row_pitch slice_pitch) origin region"

fun call_no_wrap :: "buffer_call \<Rightarrow> bool" where
  "call_no_wrap (Read_Rect b bo ho rg brp bsp hrp hsp ptr) \<longleftrightarrow> side_no_wrap bo rg brp bsp \<and> side_no_wrap ho rg hrp hsp"
| "call_no_wrap (Write_Rect b bo ho rg brp bsp hrp hsp ptr) \<longleftrightarrow> side_no_wrap bo rg brp bsp \<and> side_no_wrap ho rg hrp hsp"
| "call_no_wrap (Copy_Rect src dst so d_o rg srp ssp drp dsp) \<longleftrightarrow> side_no_wrap so rg srp ssp \<and> side_no_wrap d_o rg drp dsp"
| "call_no_wrap _ \<longleftrightarrow> True"

text \<open>A command that writes only to \<open>W\<close>, and does so for every content of the memory.\<close>

definition writes_only :: "buffer_command \<Rightarrow> size_t set \<Rightarrow> bool" where
  "writes_only c W \<longleftrightarrow> (\<forall>m. \<exists>m'. pocl_exec_command c m = Some m' \<and> (\<forall>a. a \<notin> W \<longrightarrow> m' a = m a))"

lemma writes_only_Int: "writes_only c A \<Longrightarrow> A \<subseteq> B \<Longrightarrow> writes_only c (A \<inter> B)"
  by (simp add: Int_absorb2)

section \<open>Ranges and rectangles\<close>

lemma in_byte_range: "a - p < n \<longleftrightarrow> a \<in> byte_range p (unat n)"
proof
  assume "a - p < n"
  then have "unat (a - p) < unat n" "a = p + of_nat (unat (a - p))" by (simp_all add: word_less_nat_alt)
  then show "a \<in> byte_range p (unat n)" unfolding byte_range_def by blast
next
  assume "a \<in> byte_range p (unat n)"
  then obtain i where i: "i < unat n" "a = p + of_nat i" by (auto simp: byte_range_def)
  moreover have "unat (of_nat i :: size_t) = i"
    using i(1) unat_less_size_t [of n] by (intro unat_of_nat_nowrap) simp
  ultimately show "a - p < n" by (simp add: word_less_nat_alt)
qed

lemma byte_range_mono: "i + n \<le> k \<Longrightarrow> byte_range (p + of_nat i) n \<subseteq> byte_range p k"
proof
  fix x assume le: "i + n \<le> k" and "x \<in> byte_range (p + of_nat i) n"
  then obtain j where j: "j < n" "x = p + of_nat i + of_nat j" by (auto simp: byte_range_def)
  then have "x = p + of_nat (i + j)" "i + j < k" using le by simp_all
  then show "x \<in> byte_range p k" unfolding byte_range_def by blast
qed

lemma memcpy_writes: "a \<notin> byte_range dst (unat n) \<Longrightarrow> memcpy dst src n m a = m a"
  by (rule memcpy_out) (simp add: in_byte_range)

lemma checked_range:
  assumes "pocl_buffer_boundcheck sz offset n = CL_SUCCESS" and "unat sz < 2 ^ 63"
  shows "byte_range (p + offset) (unat n) \<subseteq> byte_range p (unat sz)"
proof -
  have "unat offset + unat n \<le> unat sz"
    using assms in_buffer_iff [of sz offset n]
    by (auto simp: pocl_buffer_boundcheck_def not_less split: if_splits)
  then show ?thesis using byte_range_mono [of "unat offset" "unat n" "unat sz" p] by simp
qed

text \<open>A rectangle copy, by either of its paths, writes only the rectangle.\<close>

lemma rect_move_writes:
  assumes ok: "rect_ok drp dsp region" and a: "a \<notin> rect_addrs dst drp dsp region"
  shows "(if contiguous srp ssp drp dsp region then memcpy dst src (region_bytes region) m
     else copy_rows dst drp dsp src srp ssp region m) a = m a"
proof (cases "contiguous srp ssp drp dsp region")
  case True
  then show ?thesis using contiguous_region(3) [OF True ok] a by (simp add: memcpy_out)
next
  case False
  obtain r0 r1 r2 where r: "region = (r0, r1, r2)" by (cases region) auto
  have "copy_rows dst drp dsp src srp ssp region m a = m a"
    unfolding r copy_rows_list
    by (rule copy_list_out) (use a in \<open>auto simp: r rect_addrs_def in_region_def elim!: in_row\<close>)
  then show ?thesis using False by simp
qed

lemma checked_rect:
  assumes c: "rect_pitches sz origin region row_pitch slice_pitch = Some (Some (rp, sp))"
    and nw: "side_no_wrap origin region row_pitch slice_pitch"
  shows "rp = eff_row_pitch region row_pitch" and "sp = eff_slice_pitch region row_pitch slice_pitch"
    and "rect_ok rp sp region"
    and "rect_addrs (rect_ptr p (shift_origin offset origin) rp sp) rp sp region \<subseteq> byte_range (p + offset) (unat sz)"
proof -
  obtain o0 o1 o2 r0 r1 r2 where o: "origin = (o0, o1, o2)" and r: "region = (r0, r1, r2)"
    by (cases origin; cases region) auto
  let ?rp = "eff_row_pitch region row_pitch" and ?sp = "eff_slice_pitch region row_pitch slice_pitch"
  have pos: "0 < unat r0" "0 < unat r1" "0 < unat r2" and w: "rect_no_wrap ?rp ?sp (o0, o1, o2) (r0, r1, r2)"
    using nw by (simp_all add: side_no_wrap_def r o unat_gt_0)
  have succ: "pocl_buffer_boundcheck_3d sz origin region row_pitch slice_pitch = Some (CL_SUCCESS, rp, sp)"
    using c by (auto simp: rect_pitches_def bind_eq_Some_conv split: if_splits)
  note chk = boundcheck_3d_success [OF w pos arg_cong [OF r, of "\<lambda>x. eff_row_pitch x row_pitch"]
      arg_cong [OF r, of "\<lambda>x. eff_slice_pitch x row_pitch slice_pitch"], of sz, folded o r]
  show rp: "rp = ?rp" and sp: "sp = ?sp" using chk(2) succ by auto
  have legal: "pitches_legal region row_pitch slice_pitch" and last: "last_byte rp sp origin region < unat sz"
    using chk(1) succ by (simp_all add: rp sp)
  show "rect_ok rp sp region"
    using legal_rect_ok [OF w pos _ _ legal [unfolded r]] by (simp add: rp sp r)
  show "rect_addrs (rect_ptr p (shift_origin offset origin) rp sp) rp sp region \<subseteq> byte_range (p + offset) (unat sz)"
  proof
    fix x assume "x \<in> rect_addrs (rect_ptr p (shift_origin offset origin) rp sp) rp sp region"
    then obtain i j k where ijk: "in_region region i j k"
      and x: "x = rect_ptr p (shift_origin offset origin) rp sp + of_nat (rect_off rp sp i j k)"
      by (auto simp: rect_addrs_def)
    have "x = p + offset + of_nat (rect_off rp sp (unat o0 + i) (unat o1 + j) (unat o2 + k))"
      by (simp add: x rect_ptr_def shift_origin_def o rect_off_def algebra_simps)
    moreover have "rect_off rp sp (unat o0 + i) (unat o1 + j) (unat o2 + k) < unat sz"
      using last rect_inside_iff [OF pos, of "unat sz" rp sp o0 o1 o2] ijk
      by (auto simp: o r rect_inside_def)
    ultimately show "x \<in> byte_range (p + offset) (unat sz)" unfolding byte_range_def by blast
  qed
qed

lemma rect_copies_write:
  assumes "rect_ok drp dsp region" and "a \<notin> rect_addrs (rect_ptr dst dorg drp dsp) drp dsp region"
  shows "pocl_basic_copy_rect dst src dorg sorg region drp dsp srp ssp m a = m a"
    and "pocl_basic_write_rect src dst dorg sorg region drp dsp srp ssp m a = m a"
    and "pocl_basic_read_rect dst src sorg dorg region srp ssp drp dsp m a = m a"
  using rect_move_writes [OF assms, of srp ssp "rect_ptr src sorg srp ssp" m]
  by (simp_all add: pocl_basic_copy_rect_def pocl_basic_write_rect_def pocl_basic_read_rect_def Let_def
      contiguous_sym [of drp dsp srp ssp region])

section \<open>What is queued\<close>

lemma guarded:
  "(if first_error cs \<noteq> CL_SUCCESS then Some (first_error cs, s) else X) = Some (CL_SUCCESS, s') \<longleftrightarrow>
     first_error cs = CL_SUCCESS \<and> X = Some (CL_SUCCESS, s')"
  by auto

lemma first_error_Cons:
  "first_error ((c, e) # cs) = CL_SUCCESS \<longleftrightarrow> (if c then e = CL_SUCCESS else first_error cs = CL_SUCCESS)"
  by simp

lemmas accept_simps = guarded first_error_Cons first_error.simps(1) Let_def bind_eq_Some_conv case_prod_beta'

lemma enqueue_node_queued:
  "enqueue_node c os rs s = Some s' \<Longrightarrow> queued s' = queued s @ [\<lparr>node_command = c, node_mem_objs = os\<rparr>]"
proof -
  have "retain_all rs s = Some s1 \<Longrightarrow> queued s1 = queued s" for s1
    by (induction rs arbitrary: s)
      (auto simp: bind_eq_Some_conv clRetainMemObject_def split: if_splits)
  then show "enqueue_node c os rs s = Some s' \<Longrightarrow> ?thesis"
    by (auto simp: enqueue_node_def bind_eq_Some_conv)
qed

lemma accepted:
  "queued s' = queued s @ [\<lparr>node_command = c, node_mem_objs = os\<rparr>] \<Longrightarrow> writes_only c W \<Longrightarrow>
   \<exists>n. queued s' = queued s @ [n] \<and> writes_only (node_command n) W"
  by simp

text \<open>The conversion of a sub-buffer keeps the bytes it addresses.\<close>

lemma converted:
  assumes "mem_ok s" and "objs s b = Some m" and "objs s (fst (POCL_CONVERT_SUBBUFFER_OFFSET b m offset)) = Some rm"
  shows "fst (POCL_CONVERT_SUBBUFFER_OFFSET b m offset) = root s b"
    and "snd (POCL_CONVERT_SUBBUFFER_OFFSET b m offset) = offset + mem_origin m"
    and "buffer_bytes s b = byte_range (mem_ptr rm + mem_origin m) (unat (mem_size m))"
    and "buffer_bytes s (root s b) = byte_range (mem_ptr rm) (unat (mem_size rm))"
    and "unat (mem_size m) < 2 ^ 63" and "unat (mem_size rm) < 2 ^ 63"
    and "buffer_base s b = mem_ptr rm + mem_origin m"
proof -
  have ok: "obj_ok s b m" and rok: "obj_ok s (fst (POCL_CONVERT_SUBBUFFER_OFFSET b m offset)) rm"
    using assms by (simp_all add: mem_ok_def)
  show "unat (mem_size m) < 2 ^ 63" "unat (mem_size rm) < 2 ^ 63"
    using ok rok by (simp_all add: obj_ok_def)
  show r: "fst (POCL_CONVERT_SUBBUFFER_OFFSET b m offset) = root s b"
    and "snd (POCL_CONVERT_SUBBUFFER_OFFSET b m offset) = offset + mem_origin m"
    using ok assms(2) by (auto simp: POCL_CONVERT_SUBBUFFER_OFFSET_def root_def obj_ok_def split: option.splits)
  have rm: "objs s (root s b) = Some rm" using assms(3) r by simp
  have parent: "mem_parent rm = None"
    using ok assms(2) rm by (auto simp: root_def obj_ok_def split: option.splits)
  have "mem_origin rm = 0" using rok parent by (simp add: obj_ok_def)
  moreover have "root s (root s b) = root s b" using rm parent by (simp add: root_def)
  ultimately show "buffer_bytes s (root s b) = byte_range (mem_ptr rm) (unat (mem_size rm))"
    using rm by (simp add: buffer_bytes_def)
  show "buffer_bytes s b = byte_range (mem_ptr rm + mem_origin m) (unat (mem_size m))"
    "buffer_base s b = mem_ptr rm + mem_origin m"
    using assms(2) rm by (simp_all add: buffer_bytes_def buffer_base_def)
qed

lemma read_accepted:
  assumes ok: "mem_ok s" and e: "clEnqueueReadBuffer (Some q) (Some b) offset sz ptr wl s = Some (CL_SUCCESS, s')"
  shows "\<exists>n. queued s' = queued s @ [n] \<and> writes_only (node_command n) (byte_range ptr (unat sz))"
proof -
  obtain dev off os where "queued s' = queued s @ [\<lparr>node_command = READ_BUFFER ptr dev off sz, node_mem_objs = os\<rparr>]"
    using e by (auto simp del: first_error.simps simp: clEnqueueReadBuffer_def accept_simps split: if_splits
        dest!: enqueue_node_queued)
  moreover have "writes_only (READ_BUFFER ptr dev off sz) (byte_range ptr (unat sz))"
    by (simp add: writes_only_def pocl_basic_read_def memcpy_writes)
  ultimately show ?thesis by (rule accepted)
qed

lemma write_accepted:
  assumes ok: "mem_ok s" and e: "clEnqueueWriteBuffer (Some q) (Some b) offset sz ptr wl s = Some (CL_SUCCESS, s')"
  shows "\<exists>n. queued s' = queued s @ [n] \<and> writes_only (node_command n) (byte_range (buffer_base s b + offset) (unat sz) \<inter> buffer_bytes s b)"
proof -
  obtain m rm os where m: "objs s b = Some m" and rm: "objs s (fst (POCL_CONVERT_SUBBUFFER_OFFSET b m offset)) = Some rm"
    and chk: "pocl_buffer_boundcheck (mem_size m) offset sz = CL_SUCCESS"
    and n: "queued s' = queued s @ [\<lparr>node_command = WRITE_BUFFER ptr (mem_ptr rm)
        (snd (POCL_CONVERT_SUBBUFFER_OFFSET b m offset)) sz, node_mem_objs = os\<rparr>]"
    using e by (auto simp del: first_error.simps simp: clEnqueueWriteBuffer_def accept_simps split: if_splits
        dest!: enqueue_node_queued)
  note C = converted [OF ok m rm]
  have "writes_only (WRITE_BUFFER ptr (mem_ptr rm) (offset + mem_origin m) sz) (byte_range (buffer_base s b + offset) (unat sz))"
    by (auto simp: writes_only_def pocl_basic_write_def C(7) algebra_simps intro!: memcpy_writes)
  from writes_only_Int [OF this] checked_range [OF chk C(5), of "mem_ptr rm + mem_origin m"]
  have "writes_only (WRITE_BUFFER ptr (mem_ptr rm) (offset + mem_origin m) sz)
      (byte_range (buffer_base s b + offset) (unat sz) \<inter> buffer_bytes s b)"
    by (simp add: C(3,7))
  then show ?thesis using n unfolding C(2) by (intro accepted)
qed

lemma copy_accepted:
  assumes ok: "mem_ok s"
    and e: "clEnqueueCopyBuffer (Some q) (Some src) (Some dst) src_offset dst_offset sz wl s = Some (CL_SUCCESS, s')"
  shows "\<exists>n. queued s' = queued s @ [n] \<and> writes_only (node_command n)
    (byte_range (buffer_base s dst + dst_offset) (unat sz) \<inter> buffer_bytes s (root s dst))"
proof -
  obtain m rm p off os ssz soff where m: "objs s dst = Some m"
    and rm: "objs s (fst (POCL_CONVERT_SUBBUFFER_OFFSET dst m dst_offset)) = Some rm"
    and chk: "pocl_buffers_boundcheck ssz (mem_size rm) soff
        (snd (POCL_CONVERT_SUBBUFFER_OFFSET dst m dst_offset)) sz = CL_SUCCESS"
    and n: "queued s' = queued s @ [\<lparr>node_command = COPY_BUFFER (mem_ptr rm) p
        (snd (POCL_CONVERT_SUBBUFFER_OFFSET dst m dst_offset)) off sz, node_mem_objs = os\<rparr>]"
    using e by (auto simp del: first_error.simps simp: clEnqueueCopyBuffer_def accept_simps split: if_splits
        dest!: enqueue_node_queued)
  note C = converted [OF ok m rm]
  have "pocl_buffer_boundcheck (mem_size rm) (snd (POCL_CONVERT_SUBBUFFER_OFFSET dst m dst_offset)) sz = CL_SUCCESS"
    using chk by (auto simp: pocl_buffers_boundcheck_def pocl_buffer_boundcheck_def split: if_splits)
  note sub = checked_range [OF this C(6), of "mem_ptr rm"]
  have "writes_only (COPY_BUFFER (mem_ptr rm) p (snd (POCL_CONVERT_SUBBUFFER_OFFSET dst m dst_offset)) off sz)
      (byte_range (buffer_base s dst + dst_offset) (unat sz))"
    by (auto simp: writes_only_def pocl_basic_copy_def C(2,7) algebra_simps intro!: memcpy_writes)
  from writes_only_Int [OF this] sub
  have "writes_only (COPY_BUFFER (mem_ptr rm) p (snd (POCL_CONVERT_SUBBUFFER_OFFSET dst m dst_offset)) off sz)
      (byte_range (buffer_base s dst + dst_offset) (unat sz) \<inter> buffer_bytes s (root s dst))"
    by (simp add: C(2,4,7) algebra_simps)
  then show ?thesis by (rule accepted [OF n])
qed

lemma fill_pattern_size:
  assumes "p \<noteq> 0" and "p \<le> 128" and "popcount32 p \<le> 1"
  shows "p \<in> {1, 2, 4, 8, 16, 32, 64, 128}"
proof -
  have low: "j \<le> 7" if "bit p j" for j
  proof -
    have "bit (unat p) j" using that by (simp add: bit_unsigned_iff bit_imp_le_length)
    then have "unat p div 2 ^ j \<noteq> 0" by (metis bit_iff_odd even_zero)
    then have "2 ^ j \<le> unat p" by (simp add: div_eq_0_iff)
    also have "unat p \<le> 2 ^ 7" using assms(2) by (simp add: word_le_nat_alt)
    finally show ?thesis by (rule power_le_imp_le_exp [rotated]) simp
  qed
  obtain i where i: "bit p i" using assms(1) by (auto simp: bit_eq_iff)
  have one: "j = i" if j: "bit p j" for j
  proof (rule ccontr)
    assume ne: "j \<noteq> i"
    have sub: "{i, j} \<subseteq> set (filter (bit p) [0..<n])" if "7 < n" for n
      using i j low [OF i] low [OF j] that by auto
    have "card {i, j} \<le> card (set (filter (bit p) [0..<32]))"
      by (rule card_mono [OF finite_set sub]) simp
    also have "\<dots> \<le> popcount32 p" unfolding popcount32_def by (rule card_length)
    finally show False using assms(3) ne by simp
  qed
  have "bit p n \<longleftrightarrow> n = i" for n using i one by blast
  then have "p = 2 ^ i" using low [OF i] by (intro bit_word_eqI) (auto simp: bit_exp_iff)
  moreover have "i \<in> {0, 1, 2, 3, 4, 5, 6, 7}" using low [OF i] by auto
  ultimately show ?thesis by auto
qed

lemma fill_accepted:
  assumes ok: "mem_ok s" and al: "128 dvd unat (q_mem_base_addr_align q)"
    and e: "clEnqueueFillBuffer (Some q) (Some b) pattern p pattern_size offset sz wl s = Some (CL_SUCCESS, s')"
  shows "\<exists>n. queued s' = queued s @ [n] \<and> writes_only (node_command n) (byte_range (buffer_base s b + offset) (unat sz) \<inter> buffer_bytes s b)"
proof -
  obtain m rm os where m: "objs s b = Some m" and rm: "objs s (fst (POCL_CONVERT_SUBBUFFER_OFFSET b m offset)) = Some rm"
    and chk: "pocl_buffer_boundcheck (mem_size m) offset sz = CL_SUCCESS"
    and ps: "pattern_size \<noteq> 0" "pattern_size \<le> 128" "popcount32 pattern_size \<le> 1"
    and mult: "offset mod pattern_size = 0" "sz mod pattern_size = 0" and sub: "\<not> on_sub_misalign q m"
    and n: "queued s' = queued s @ [\<lparr>node_command = FILL_BUFFER (mem_ptr rm) sz
        (snd (POCL_CONVERT_SUBBUFFER_OFFSET b m offset)) p pattern_size, node_mem_objs = os\<rparr>]"
    using e by (auto simp del: first_error.simps simp: clEnqueueFillBuffer_def accept_simps split: if_splits
        dest!: enqueue_node_queued)
  note C = converted [OF ok m rm]
  have size: "pattern_size \<in> {1, 2, 4, 8, 16, 32, 64, 128}" by (rule fill_pattern_size [OF ps])
  then have p128: "unat pattern_size dvd 128" by auto
  have o: "unat pattern_size dvd unat offset" and z: "unat pattern_size dvd unat sz"
    using mult by (simp_all add: dvd_eq_mod_eq_0 flip: unat_mod)
  have org: "unat pattern_size dvd unat (mem_origin m)"
  proof (cases "mem_parent m = None")
    case True
    have "obj_ok s b m" using ok m by (simp add: mem_ok_def)
    then show ?thesis using True by (simp add: obj_ok_def)
  next
    case False
    then have "unat (mem_origin m mod q_mem_base_addr_align q) = 0" using sub by (simp add: on_sub_misalign_def)
    then have "unat (q_mem_base_addr_align q) dvd unat (mem_origin m)" by (simp add: unat_mod dvd_eq_mod_eq_0)
    then show ?thesis using al p128 by (metis dvd_trans)
  qed
  have o': "unat pattern_size dvd unat (offset + mem_origin m)"
  proof -
    have "unat pattern_size dvd 2 ^ 64" using dvd_trans [OF p128, of "2 ^ 64"] by simp
    then show ?thesis using o org by (simp add: unat_word_ariths dvd_mod)
  qed
  have "\<exists>m'. pocl_basic_memfill (mem_ptr rm) sz (offset + mem_origin m) p pattern_size mm = Some m' \<and>
      (\<forall>a. a \<notin> byte_range (buffer_base s b + offset) (unat sz) \<longrightarrow> m' a = mm a)" for mm
  proof -
    obtain w c where wc: "unat w * c = unat pattern_size" "0 < unat w" "0 < c"
      and fill: "pocl_basic_memfill (mem_ptr rm) sz (offset + mem_origin m) p pattern_size mm =
        Some (copy_list w (fill_rows (mem_ptr rm + (offset + mem_origin m)) w c p (unat (sz div pattern_size) * c)) mm)"
      by (rule memfill_rows [OF size o'])
    have "unat w * (unat (sz div pattern_size) * c) = unat (sz div pattern_size) * (unat w * c)" by simp
    also have "\<dots> = unat sz" using z by (simp add: wc unat_div)
    finally have "unat w * (unat (sz div pattern_size) * c) = unat sz" .
    then show ?thesis unfolding fill C(7) by (auto simp: algebra_simps intro!: fill_rows_out)
  qed
  then have "writes_only (FILL_BUFFER (mem_ptr rm) sz (offset + mem_origin m) p pattern_size)
      (byte_range (buffer_base s b + offset) (unat sz))"
    by (simp add: writes_only_def)
  from writes_only_Int [OF this] checked_range [OF chk C(5), of "mem_ptr rm + mem_origin m"]
  have "writes_only (FILL_BUFFER (mem_ptr rm) sz (offset + mem_origin m) p pattern_size)
      (byte_range (buffer_base s b + offset) (unat sz) \<inter> buffer_bytes s b)"
    by (simp add: C(3,7))
  then show ?thesis using n unfolding C(2) by (intro accepted)
qed

lemma rect_enqueued:
  assumes "enqueue_buffer_rect forbidden command (Some q) (Some b) (Some bo) (Some ho) (Some rg) brp bsp hrp hsp ptr wl s =
      Some (CL_SUCCESS, s')"
  obtains m rm brp' bsp' hrp' hsp' os where "objs s b = Some m"
    and "objs s (fst (POCL_CONVERT_SUBBUFFER_OFFSET b m 0)) = Some rm"
    and "rect_pitches (mem_size m) bo rg brp bsp = Some (Some (brp', bsp'))"
    and "rect_pitches (- 1) ho rg hrp hsp = Some (Some (hrp', hsp'))"
    and "queued s' = queued s @ [\<lparr>node_command = command ptr (mem_ptr rm)
        (shift_origin (snd (POCL_CONVERT_SUBBUFFER_OFFSET b m 0)) bo) ho rg brp' bsp' hrp' hsp', node_mem_objs = os\<rparr>]"
  using assms
  by (auto simp del: first_error.simps simp: enqueue_buffer_rect_def accept_simps split: if_splits option.splits
      dest!: enqueue_node_queued)

lemma shift_origin_0 [simp]: "shift_origin 0 v = v"
  by (simp add: shift_origin_def split: prod.splits)

lemma rect_ptr_shift: "rect_ptr p (shift_origin k org) rp sp = rect_ptr (p + k) org rp sp"
  by (simp add: rect_ptr_def shift_origin_def algebra_simps split: prod.splits)

text \<open>A rectangle checked against a buffer or sub-buffer.\<close>

lemma checked_target:
  assumes "rect_pitches (mem_size m) org rg rp sp = Some (Some (rp', sp'))" and "side_no_wrap org rg rp sp"
    and "buffer_base s b = mem_ptr rm + mem_origin m"
    and "buffer_bytes s b = byte_range (mem_ptr rm + mem_origin m) (unat (mem_size m))"
  shows "rect_addrs (rect_ptr (mem_ptr rm) (shift_origin (mem_origin m) org) rp' sp') rp' sp' rg =
    host_rect (buffer_base s b) org rg rp sp \<inter> buffer_bytes s b"
proof -
  note R = checked_rect [OF assms(1,2)]
  have eq: "rect_addrs (rect_ptr (mem_ptr rm) (shift_origin (mem_origin m) org) rp' sp') rp' sp' rg =
      host_rect (buffer_base s b) org rg rp sp"
    unfolding host_rect_def Let_def R(1,2) [symmetric] rect_ptr_shift assms(3) ..
  show ?thesis using R(4) [of "mem_ptr rm" "mem_origin m"] unfolding eq assms(4) by (simp add: Int_absorb2)
qed

lemma read_rect_accepted:
  assumes nw: "side_no_wrap ho rg hrp hsp"
    and e: "clEnqueueReadBufferRect (Some q) (Some b) (Some bo) (Some ho) (Some rg) brp bsp hrp hsp ptr wl s = Some (CL_SUCCESS, s')"
  shows "\<exists>n. queued s' = queued s @ [n] \<and> writes_only (node_command n) (host_rect ptr ho rg hrp hsp)"
proof -
  obtain p brp' bsp' hrp' hsp' os bo' where chk: "rect_pitches (- 1) ho rg hrp hsp = Some (Some (hrp', hsp'))"
    and n: "queued s' = queued s @ [\<lparr>node_command = READ_BUFFER_RECT ptr p bo' ho rg brp' bsp' hrp' hsp', node_mem_objs = os\<rparr>]"
    using e unfolding clEnqueueReadBufferRect_def by (elim rect_enqueued) blast
  note R = checked_rect [OF chk nw]
  have "pocl_basic_read_rect ptr p bo' ho rg brp' bsp' hrp' hsp' m a = m a" if "a \<notin> host_rect ptr ho rg hrp hsp" for m a
    using that by (intro rect_copies_write [OF R(3)]) (simp add: host_rect_def Let_def R(1,2))
  then show ?thesis by (intro accepted [OF n]) (simp add: writes_only_def)
qed

lemma write_rect_accepted:
  assumes ok: "mem_ok s" and nw: "side_no_wrap bo rg brp bsp"
    and e: "clEnqueueWriteBufferRect (Some q) (Some b) (Some bo) (Some ho) (Some rg) brp bsp hrp hsp ptr wl s = Some (CL_SUCCESS, s')"
  shows "\<exists>n. queued s' = queued s @ [n] \<and> writes_only (node_command n) (host_rect (buffer_base s b) bo rg brp bsp \<inter> buffer_bytes s b)"
proof -
  obtain m rm brp' bsp' hrp' hsp' os where m: "objs s b = Some m"
    and rm: "objs s (fst (POCL_CONVERT_SUBBUFFER_OFFSET b m 0)) = Some rm"
    and chk: "rect_pitches (mem_size m) bo rg brp bsp = Some (Some (brp', bsp'))"
    and n: "queued s' = queued s @ [\<lparr>node_command = WRITE_BUFFER_RECT ptr (mem_ptr rm)
        (shift_origin (snd (POCL_CONVERT_SUBBUFFER_OFFSET b m 0)) bo) ho rg brp' bsp' hrp' hsp', node_mem_objs = os\<rparr>]"
    using e unfolding clEnqueueWriteBufferRect_def by (rule rect_enqueued)
  note C = converted [OF ok m rm]
  note R = checked_rect [OF chk nw]
  have "pocl_basic_write_rect ptr (mem_ptr rm) (shift_origin (mem_origin m) bo) ho rg brp' bsp' hrp' hsp' mm a = mm a"
    if "a \<notin> host_rect (buffer_base s b) bo rg brp bsp \<inter> buffer_bytes s b" for mm a
    using that unfolding checked_target [OF chk nw C(7,3), symmetric]
    by (intro rect_copies_write [OF R(3)])
  then show ?thesis using n C(2) by (intro accepted [OF n]) (simp add: writes_only_def)
qed

lemma rect_copy_error:
  "pocl_rect_copy q (Some src) False (Some dst) False (Some so) (Some d_o) (Some rg) srp ssp drp dsp wl s \<noteq>
    Some (Inl CL_SUCCESS)"
  by (auto simp del: first_error.simps simp: pocl_rect_copy_def Let_def bind_eq_Some_conv
      split: if_splits option.splits prod.splits)

lemma rect_copy_pitches:
  assumes "pocl_rect_copy q (Some src) False (Some dst) False (Some so) (Some d_o) (Some rg) srp ssp drp dsp wl s =
      Some (Inr (sp, dp))"
  shows "\<exists>sm dm. objs s src = Some sm \<and> objs s dst = Some dm \<and>
    rect_pitches (mem_size sm) so rg srp ssp = Some (Some sp) \<and>
    rect_pitches (mem_size dm) d_o rg drp dsp = Some (Some dp)"
  using assms
  by (auto simp del: first_error.simps simp: pocl_rect_copy_def Let_def bind_eq_Some_conv
      split: if_splits option.splits prod.splits)

lemma copy_rect_enqueued:
  assumes "clEnqueueCopyBufferRect (Some q) (Some src) (Some dst) (Some so) (Some d_o) (Some rg) srp ssp drp dsp wl s =
      Some (CL_SUCCESS, s')"
  obtains sm dm srm drm srp' ssp' drp' dsp' where "objs s src = Some sm" and "objs s dst = Some dm"
    and "objs s (fst (POCL_CONVERT_SUBBUFFER_OFFSET src sm 0)) = Some srm"
    and "objs s (fst (POCL_CONVERT_SUBBUFFER_OFFSET dst dm 0)) = Some drm"
    and "rect_pitches (mem_size sm) so rg srp ssp = Some (Some (srp', ssp'))"
    and "rect_pitches (mem_size dm) d_o rg drp dsp = Some (Some (drp', dsp'))"
    and "enqueue_node (COPY_BUFFER_RECT (mem_ptr drm) (mem_ptr srm)
        (shift_origin (snd (POCL_CONVERT_SUBBUFFER_OFFSET dst dm 0)) d_o)
        (shift_origin (snd (POCL_CONVERT_SUBBUFFER_OFFSET src sm 0)) so) rg drp' dsp' srp' ssp') [src, dst]
        [fst (POCL_CONVERT_SUBBUFFER_OFFSET src sm 0), fst (POCL_CONVERT_SUBBUFFER_OFFSET dst dm 0)] s = Some s'"
proof -
  obtain res where res: "pocl_rect_copy q (Some src) False (Some dst) False (Some so) (Some d_o) (Some rg)
      srp ssp drp dsp wl s = Some res"
    using assms by (auto simp: clEnqueueCopyBufferRect_def bind_eq_Some_conv)
  show thesis
  proof (cases res)
    case (Inl err)
    then have "err = CL_SUCCESS" using assms res by (simp add: clEnqueueCopyBufferRect_def)
    then show ?thesis using res Inl rect_copy_error by blast
  next
    case (Inr p)
    obtain srp' ssp' drp' dsp' where p: "p = ((srp', ssp'), (drp', dsp'))" by (cases p) auto
    obtain sm dm where "objs s src = Some sm" "objs s dst = Some dm"
        "rect_pitches (mem_size sm) so rg srp ssp = Some (Some (srp', ssp'))"
        "rect_pitches (mem_size dm) d_o rg drp dsp = Some (Some (drp', dsp'))"
      using rect_copy_pitches res unfolding Inr p by blast
    then show ?thesis using assms res
      by (auto simp: clEnqueueCopyBufferRect_def Inr p Let_def bind_eq_Some_conv case_prod_beta' split: if_splits intro: that)
  qed
qed

lemma copy_rect_accepted:
  assumes ok: "mem_ok s" and nw: "side_no_wrap so rg srp ssp" "side_no_wrap d_o rg drp dsp"
    and e: "clEnqueueCopyBufferRect (Some q) (Some src) (Some dst) (Some so) (Some d_o) (Some rg) srp ssp drp dsp wl s =
      Some (CL_SUCCESS, s')"
  shows "\<exists>n. queued s' = queued s @ [n] \<and> writes_only (node_command n) (host_rect (buffer_base s dst) d_o rg drp dsp \<inter> buffer_bytes s dst)"
proof (rule copy_rect_enqueued [OF e])
  fix sm m srm rm srp' ssp' drp' dsp'
  assume m: "objs s dst = Some m" and rm: "objs s (fst (POCL_CONVERT_SUBBUFFER_OFFSET dst m 0)) = Some rm"
    and chk: "rect_pitches (mem_size m) d_o rg drp dsp = Some (Some (drp', dsp'))"
    and enq: "enqueue_node (COPY_BUFFER_RECT (mem_ptr rm) (mem_ptr srm)
        (shift_origin (snd (POCL_CONVERT_SUBBUFFER_OFFSET dst m 0)) d_o)
        (shift_origin (snd (POCL_CONVERT_SUBBUFFER_OFFSET src sm 0)) so) rg drp' dsp' srp' ssp') [src, dst]
        [fst (POCL_CONVERT_SUBBUFFER_OFFSET src sm 0), fst (POCL_CONVERT_SUBBUFFER_OFFSET dst m 0)] s = Some s'"
  note C = converted [OF ok m rm]
  note R = checked_rect [OF chk nw(2)]
  have "pocl_basic_copy_rect (mem_ptr rm) p (shift_origin (mem_origin m) d_o) so' rg drp' dsp' srp' ssp' mm a = mm a"
    if "a \<notin> host_rect (buffer_base s dst) d_o rg drp dsp \<inter> buffer_bytes s dst" for mm a p so'
    using that unfolding checked_target [OF chk nw(2) C(7,3), symmetric]
    by (intro rect_copies_write [OF R(3)])
  then show ?thesis using C(2) by (intro accepted [OF enqueue_node_queued [OF enq]]) (simp add: writes_only_def)
qed

lemma accepted_writes:
  assumes ok: "mem_ok s" and al: "128 dvd unat (q_mem_base_addr_align q)" and nw: "call_no_wrap call"
    and e: "issue q wl call s = Some (CL_SUCCESS, s')"
  shows "\<exists>n. queued s' = queued s @ [n] \<and> writes_only (node_command n) (may_write s call)"
proof (cases call)
  case (Read_Buffer b offset sz ptr)
  show ?thesis using read_accepted [OF ok] e by (simp add: Read_Buffer)
next
  case (Write_Buffer b offset sz ptr)
  show ?thesis using write_accepted [OF ok] e by (simp add: Write_Buffer)
next
  case (Copy_Buffer src dst so d_o sz)
  show ?thesis using copy_accepted [OF ok] e by (simp add: Copy_Buffer)
next
  case (Fill_Buffer b pattern p ps offset sz)
  show ?thesis using fill_accepted [OF ok al] e by (simp add: Fill_Buffer)
next
  case (Read_Rect b bo ho rg brp bsp hrp hsp ptr)
  show ?thesis using read_rect_accepted [of ho rg hrp hsp] e nw by (simp add: Read_Rect)
next
  case (Write_Rect b bo ho rg brp bsp hrp hsp ptr)
  show ?thesis using write_rect_accepted [OF ok, of bo rg brp bsp] e nw by (simp add: Write_Rect)
next
  case (Copy_Rect src dst so d_o rg srp ssp drp dsp)
  show ?thesis using copy_rect_accepted [OF ok, of so rg srp ssp d_o drp dsp] e nw by (simp add: Copy_Rect)
qed

section \<open>Properties\<close>

text \<open>
  C27: Take a state whose sub-buffers lie in their parents and a buffer command that the API accepts, on a buffer or
  a sub-buffer; the offsets of a rectangle call must not wrap. Then the driver executes it on any contents of the
  memory and writes only to the bytes it names: a read only to the host range or rectangle; a write or fill only to
  the given range, and a rectangle write or copy only to the given rectangle, of the buffer or sub-buffer it was
  given, none of it outside; a plain copy only to the given range, none of it outside the buffer that contains its
  target. The device aligns buffers to a multiple of 128 bytes, so that the fill patterns fit.
\<close>

theorem accepted_commands_write_only_their_target:
  assumes "mem_ok s" and "128 dvd unat (q_mem_base_addr_align q)" and "call_no_wrap call"
    and "issue q wl call s = Some (CL_SUCCESS, s')"
  shows "\<exists>n. queued s' = queued s @ [n] \<and>
    (\<forall>m. \<exists>m'. pocl_exec_command (node_command n) m = Some m' \<and> (\<forall>a. a \<notin> may_write s call \<longrightarrow> m' a = m a))"
  using accepted_writes [OF assms] by (simp add: writes_only_def)

definition two_buffers :: mem_state where
  "two_buffers = \<lparr>objs =
     [0 \<mapsto> \<lparr>mem_context = 0, mem_size = 1024, mem_origin = 0, mem_parent = None, mem_flags = 1, mem_type = BUFFER,
       mem_image = None, mem_ptr = 4096, mem_host_ptr = 0, mem_refcount = 2\<rparr>,
      1 \<mapsto> \<lparr>mem_context = 0, mem_size = 1024, mem_origin = 0, mem_parent = None, mem_flags = 1, mem_type = BUFFER,
       mem_image = None, mem_ptr = 8192, mem_host_ptr = 0, mem_refcount = 1\<rparr>,
      2 \<mapsto> \<lparr>mem_context = 0, mem_size = 256, mem_origin = 128, mem_parent = Some 0, mem_flags = 1, mem_type = BUFFER,
       mem_image = None, mem_ptr = 0, mem_host_ptr = 0, mem_refcount = 1\<rparr>],
     next_obj = 3, queued = []\<rparr>"

definition plain_queue :: cmd_queue where
  "plain_queue = \<lparr>q_context = 0, q_mem_base_addr_align = 128, q_max_mem_alloc_size = 65536, q_image_support = True\<rparr>"

lemma two_buffers_ok: "mem_ok two_buffers"
  by (auto simp: mem_ok_def obj_ok_def two_buffers_def split: if_splits)

theorem accepted_commands_write_only_their_target_witness:
  "\<exists>s' n. issue plain_queue (0, None) (Write_Buffer 2 16 64 65536) two_buffers = Some (CL_SUCCESS, s') \<and> queued s' = [n] \<and>
    (\<forall>m. \<exists>m'. pocl_exec_command (node_command n) m = Some m' \<and>
      (\<forall>a. a \<notin> byte_range 4240 64 \<inter> byte_range 4224 256 \<longrightarrow> m' a = m a))"
proof -
  let ?call = "Write_Buffer 2 16 64 65536"
  have "map_option fst (issue plain_queue (0, None) ?call two_buffers) = Some CL_SUCCESS" by code_simp
  then obtain s' where s': "issue plain_queue (0, None) ?call two_buffers = Some (CL_SUCCESS, s')" by auto
  have "128 dvd unat (q_mem_base_addr_align plain_queue)" by (simp add: plain_queue_def)
  moreover have "may_write two_buffers ?call = byte_range 4240 64 \<inter> byte_range 4224 256"
    by (simp add: buffer_bytes_def buffer_base_def root_def two_buffers_def)
  moreover have "queued two_buffers = []" by (simp add: two_buffers_def)
  ultimately show ?thesis
    using accepted_commands_write_only_their_target [OF two_buffers_ok _ _ s'] s' by simp
qed

text \<open>
  C30: \<open>clEnqueueCopyBuffer\<close> does not look at the size of a sub-buffer: for an aligned sub-buffer as its target it
  behaves in every way, checks, errors, references and command, as for the parent with the offset moved by the
  sub-buffer's origin. So it writes to any place of the parent, where \<open>clEnqueueWriteBuffer\<close> accepts only what lies
  in the sub-buffer.
\<close>

theorem copy_to_sub_buffer_is_copy_to_parent:
  assumes "mem_ok s" and "objs s dst = Some m" and "mem_parent m = Some p" and "objs s p = Some pm"
    and "mem_type m = mem_type pm" and "\<not> on_sub_misalign q m"
  shows "clEnqueueCopyBuffer (Some q) (Some src) (Some dst) src_offset offset sz wl s =
      clEnqueueCopyBuffer (Some q) (Some src) (Some p) src_offset (offset + mem_origin m) sz wl s \<and>
    (map_option fst (clEnqueueWriteBuffer (Some q) (Some dst) offset sz ptr wl s) = Some CL_SUCCESS \<longrightarrow>
      unat offset + unat sz \<le> unat (mem_size m))"
proof
  have "obj_ok s dst m" using assms(1,2) by (simp add: mem_ok_def)
  then have top: "mem_parent pm = None" using assms(3,4) by (simp add: obj_ok_def)
  have "POCL_CONVERT_SUBBUFFER_OFFSET dst m offset = (p, offset + mem_origin m)"
    "POCL_CONVERT_SUBBUFFER_OFFSET p pm (offset + mem_origin m) = (p, offset + mem_origin m)"
    "\<not> on_sub_misalign q pm"
    using assms(3) top by (simp_all add: POCL_CONVERT_SUBBUFFER_OFFSET_def on_sub_misalign_def)
  then show "clEnqueueCopyBuffer (Some q) (Some src) (Some dst) src_offset offset sz wl s =
      clEnqueueCopyBuffer (Some q) (Some src) (Some p) src_offset (offset + mem_origin m) sz wl s"
    using assms(2,4-6) by (simp add: clEnqueueCopyBuffer_def Let_def cong: if_cong)
  show "map_option fst (clEnqueueWriteBuffer (Some q) (Some dst) offset sz ptr wl s) = Some CL_SUCCESS \<longrightarrow>
      unat offset + unat sz \<le> unat (mem_size m)"
  proof
    assume "map_option fst (clEnqueueWriteBuffer (Some q) (Some dst) offset sz ptr wl s) = Some CL_SUCCESS"
    then obtain s' where "clEnqueueWriteBuffer (Some q) (Some dst) offset sz ptr wl s = Some (CL_SUCCESS, s')" by auto
    then have "pocl_buffer_boundcheck (mem_size m) offset sz = CL_SUCCESS"
      using assms(2) by (auto simp del: first_error.simps simp: clEnqueueWriteBuffer_def accept_simps split: if_splits)
    moreover have "unat (mem_size m) < 2 ^ 63" using \<open>obj_ok s dst m\<close> by (simp add: obj_ok_def)
    ultimately show "unat offset + unat sz \<le> unat (mem_size m)"
      using in_buffer_iff [of "mem_size m" offset sz]
      by (auto simp: pocl_buffer_boundcheck_def not_less split: if_splits)
  qed
qed

theorem copy_to_sub_buffer_is_copy_to_parent_witness:
  "clEnqueueCopyBuffer (Some plain_queue) (Some 1) (Some 2) 0 256 64 (0, None) two_buffers =
     clEnqueueCopyBuffer (Some plain_queue) (Some 1) (Some 0) 0 384 64 (0, None) two_buffers \<and>
   map_option fst (clEnqueueCopyBuffer (Some plain_queue) (Some 1) (Some 2) 0 256 64 (0, None) two_buffers) = Some CL_SUCCESS"
proof
  have "objs two_buffers 2 = Some \<lparr>mem_context = 0, mem_size = 256, mem_origin = 128, mem_parent = Some 0, mem_flags = 1,
      mem_type = BUFFER, mem_image = None, mem_ptr = 0, mem_host_ptr = 0, mem_refcount = 1\<rparr>"
    "objs two_buffers 0 = Some \<lparr>mem_context = 0, mem_size = 1024, mem_origin = 0, mem_parent = None, mem_flags = 1,
      mem_type = BUFFER, mem_image = None, mem_ptr = 4096, mem_host_ptr = 0, mem_refcount = 2\<rparr>"
    by (simp_all add: two_buffers_def)
  from copy_to_sub_buffer_is_copy_to_parent [OF two_buffers_ok this(1) _ this(2), of plain_queue 1 0 256 64 "(0, None)"]
  show "clEnqueueCopyBuffer (Some plain_queue) (Some 1) (Some 2) 0 256 64 (0, None) two_buffers =
     clEnqueueCopyBuffer (Some plain_queue) (Some 1) (Some 0) 0 384 64 (0, None) two_buffers"
    by (simp add: plain_queue_def on_sub_misalign_def)
qed code_simp

text \<open>
  Two ways out of a sub-buffer. \<open>clEnqueueCopyBuffer\<close> replaces a sub-buffer by its parent before it checks
  the range, so a copy to an offset behind the sub-buffer's end is accepted and writes into the rest of the
  parent, where \<open>clEnqueueWriteBuffer\<close> refuses the same range. And \<open>clCreateSubBuffer\<close> adds origin and size in
  wrapping arithmetic, so it accepts a sub-buffer that begins below its parent, and a write of it reaches
  memory that belongs to no buffer.
\<close>

theorem sub_buffer_bounds_escaped:
  "map_option (\<lambda>(e, s). (e, map node_command (queued s)))
     (issue plain_queue (0, None) (Copy_Buffer 1 2 0 256 64) two_buffers) =
     Some (CL_SUCCESS, [COPY_BUFFER 4096 8192 384 0 64]) \<and>
   pocl_exec_command (COPY_BUFFER 4096 8192 384 0 64) m = Some (memcpy 4480 8192 64 m) \<and>
   buffer_bytes two_buffers 2 \<inter> byte_range 4480 64 = {} \<and>
   map_option fst (issue plain_queue (0, None) (Write_Buffer 2 256 64 65536) two_buffers) = Some CL_INVALID_VALUE \<and>
   map_option fst (clCreateSubBuffer (Some 1) 0 (- 128) 256 128 two_buffers) = Some (Inr 3) \<and>
   map_option (\<lambda>(e, s). (e, map node_command (queued s)))
     (clCreateSubBuffer (Some 1) 0 (- 128) 256 128 two_buffers \<bind>
      (\<lambda>(b, s). issue plain_queue (0, None) (Write_Buffer 3 0 64 65536) s)) =
     Some (CL_SUCCESS, [WRITE_BUFFER 65536 8192 (- 128) 64]) \<and>
   pocl_exec_command (WRITE_BUFFER 65536 8192 (- 128) 64) m = Some (memcpy 8064 65536 64 m) \<and>
   (\<forall>b. buffer_bytes two_buffers b \<inter> byte_range 8064 64 = {})"
proof (intro conjI allI)
  show "buffer_bytes two_buffers 2 \<inter> byte_range 4480 64 = {}"
    using byte_range_below [of 4224 256 4480 64] by (auto simp: buffer_bytes_def root_def two_buffers_def)
  show "buffer_bytes two_buffers b \<inter> byte_range 8064 64 = {}" for b
    using byte_range_below [of 4096 1024 8064 64] byte_range_below [of 8064 64 8192 1024]
      byte_range_below [of 4224 256 8064 64]
    by (auto simp: buffer_bytes_def root_def two_buffers_def split: if_splits)
  show "pocl_exec_command (COPY_BUFFER 4096 8192 384 0 64) m = Some (memcpy 4480 8192 64 m)"
    by (simp add: pocl_basic_copy_def)
  show "pocl_exec_command (WRITE_BUFFER 65536 8192 (- 128) 64) m = Some (memcpy 8064 65536 64 m)"
    by (simp add: pocl_basic_write_def)
qed code_simp+

end
