(* ===== verification/MemRefs.thy ===== *)
theory MemRefs
  imports MemSafety
begin

text \<open>
  Reference counts of buffers over the runs of an application: the application creates, retains and
  releases buffers and sub-buffers and issues commands on those it holds a reference to, while the device
  completes the queued commands.
\<close>

section \<open>Runs\<close>

text \<open>The state of the runtime, the memory, and the references the application holds.\<close>

record world =
  w_state :: mem_state
  w_mem :: mem
  w_app :: "nat \<Rightarrow> nat"

datatype mem_call =
  Create nat size_t flags size_t size_t "size_t option" "size_t option"
| Create_Sub nat flags size_t size_t size_t
| Retain nat
| Release nat
| Issue cmd_queue wait_list buffer_call
| Complete

definition gains :: "cl_error + nat \<Rightarrow> (nat \<Rightarrow> nat) \<Rightarrow> nat \<Rightarrow> nat" where
  "gains res app = (case res of Inl _ \<Rightarrow> app | Inr b \<Rightarrow> app(b := app b + 1))"

fun mem_step :: "mem_call \<Rightarrow> world \<Rightarrow> world option" where
  "mem_step (Create ctx max_alloc fl sz host_ptr dev_ptr host_alloc) w =
     (case clCreateBuffer ctx max_alloc fl sz host_ptr dev_ptr host_alloc (w_state w) of
        (res, s) \<Rightarrow> Some (w\<lparr>w_state := s, w_app := gains res (w_app w)\<rparr>))"
| "mem_step (Create_Sub p fl origin sz align) w = do {
     (res, s) \<leftarrow> clCreateSubBuffer (Some p) fl origin sz align (w_state w);
     Some (w\<lparr>w_state := s, w_app := gains res (w_app w)\<rparr>)}"
| "mem_step (Retain b) w = do {
     s \<leftarrow> clRetainMemObject b (w_state w);
     Some (w\<lparr>w_state := s, w_app := (w_app w)(b := w_app w b + 1)\<rparr>)}"
| "mem_step (Release b) w = do {
     s \<leftarrow> clReleaseMemObject b (w_state w);
     Some (w\<lparr>w_state := s, w_app := (w_app w)(b := w_app w b - 1)\<rparr>)}"
| "mem_step (Issue q wl call) w = do {
     (err, s) \<leftarrow> issue q wl call (w_state w);
     Some (w\<lparr>w_state := s\<rparr>)}"
| "mem_step Complete w = do {
     (s, m) \<leftarrow> run_next (w_state w) (w_mem w);
     Some (w\<lparr>w_state := s, w_mem := m\<rparr>)}"

text \<open>
  What the application may do: use only buffers it holds a reference to. A rectangle copy is also kept off
  sub-buffers and empty rows, see the last section.
\<close>

fun call_buffers :: "buffer_call \<Rightarrow> nat list" where
  "call_buffers (Read_Buffer b _ _ _) = [b]"
| "call_buffers (Write_Buffer b _ _ _) = [b]"
| "call_buffers (Copy_Buffer src dst _ _ _) = [src, dst]"
| "call_buffers (Fill_Buffer b _ _ _ _ _) = [b]"
| "call_buffers (Read_Rect b _ _ _ _ _ _ _ _) = [b]"
| "call_buffers (Write_Rect b _ _ _ _ _ _ _ _) = [b]"
| "call_buffers (Copy_Rect src dst _ _ _ _ _ _ _) = [src, dst]"

fun rect_copy_ok :: "mem_state \<Rightarrow> buffer_call \<Rightarrow> bool" where
  "rect_copy_ok s (Copy_Rect src dst so d_o rg srp ssp drp dsp) \<longleftrightarrow> root s src = src \<and> root s dst = dst \<and> fst rg \<noteq> 0"
| "rect_copy_ok s _ \<longleftrightarrow> True"

fun allowed :: "mem_call \<Rightarrow> world \<Rightarrow> bool" where
  "allowed (Create _ _ _ _ _ _ _) w \<longleftrightarrow> True"
| "allowed (Create_Sub p _ _ _ _) w \<longleftrightarrow> 0 < w_app w p"
| "allowed (Retain b) w \<longleftrightarrow> 0 < w_app w b"
| "allowed (Release b) w \<longleftrightarrow> 0 < w_app w b"
| "allowed (Issue q wl call) w \<longleftrightarrow> (\<forall>b \<in> set (call_buffers call). 0 < w_app w b) \<and> rect_copy_ok (w_state w) call"
| "allowed Complete w \<longleftrightarrow> queued (w_state w) \<noteq> []"

fun mem_run :: "mem_call list \<Rightarrow> world \<Rightarrow> world option" where
  "mem_run [] w = Some w"
| "mem_run (c # cs) w = do {w \<leftarrow> mem_step c w; mem_run cs w}"

fun allowed_run :: "mem_call list \<Rightarrow> world \<Rightarrow> bool" where
  "allowed_run [] w = True"
| "allowed_run (c # cs) w = (allowed c w \<and> (case mem_step c w of None \<Rightarrow> True | Some w \<Rightarrow> allowed_run cs w))"

definition empty_world :: "mem \<Rightarrow> world" where
  "empty_world m = \<lparr>w_state = \<lparr>objs = Map.empty, next_obj = 0, queued = []\<rparr>, w_mem = m, w_app = \<lambda>b. 0\<rparr>"

section \<open>Balance\<close>

text \<open>
  The parent of a live sub-buffer, the live sub-buffers of \<open>b\<close>, and the count balance for the demand \<open>d\<close>
  from outside.
\<close>

definition parent_of :: "mem_state \<Rightarrow> nat \<Rightarrow> nat option" where
  "parent_of s b = (case objs s b of None \<Rightarrow> None | Some m \<Rightarrow> mem_parent m)"

definition subs :: "mem_state \<Rightarrow> nat \<Rightarrow> nat set" where
  "subs s b = {c. parent_of s c = Some b}"

definition count_ok :: "mem_state \<Rightarrow> (nat \<Rightarrow> nat) \<Rightarrow> nat \<Rightarrow> bool" where
  "count_ok s d b =
     (case objs s b of
        None \<Rightarrow> d b = 0 \<and> subs s b = {}
      | Some m \<Rightarrow> mem_refcount m = int (d b + card (subs s b)) \<and> 0 < mem_refcount m)"

definition two_level :: "mem_state \<Rightarrow> bool" where
  "two_level s \<longleftrightarrow> (\<forall>b \<in> dom (objs s). b < next_obj s) \<and> (\<forall>b p. parent_of s b = Some p \<longrightarrow> parent_of s p = None)"

definition balanced :: "mem_state \<Rightarrow> (nat \<Rightarrow> nat) \<Rightarrow> bool" where
  "balanced s d \<longleftrightarrow> finite (dom (objs s)) \<and> two_level s \<and> (\<forall>b. count_ok s d b)"

lemma queued_irrelevant [simp]:
  "parent_of (s\<lparr>queued := ns\<rparr>) = parent_of s" "subs (s\<lparr>queued := ns\<rparr>) = subs s"
  "count_ok (s\<lparr>queued := ns\<rparr>) = count_ok s" "balanced (s\<lparr>queued := ns\<rparr>) = balanced s"
proof -
  show p: "parent_of (s\<lparr>queued := ns\<rparr>) = parent_of s" by (simp add: parent_of_def fun_eq_iff)
  show b: "subs (s\<lparr>queued := ns\<rparr>) = subs s" by (simp add: subs_def p fun_eq_iff)
  show c: "count_ok (s\<lparr>queued := ns\<rparr>) = count_ok s" by (intro ext) (unfold count_ok_def b, simp)
  show "balanced (s\<lparr>queued := ns\<rparr>) = balanced s" by (simp add: balanced_def two_level_def p c fun_eq_iff)
qed

lemma balanced_count: "balanced s d \<Longrightarrow> count_ok s d c"
  by (simp add: balanced_def)

lemma count_ok_None: "objs s b = None \<Longrightarrow> count_ok s d b \<longleftrightarrow> d b = 0 \<and> subs s b = {}"
  and count_ok_Some: "objs s b = Some m \<Longrightarrow>
    count_ok s d b \<longleftrightarrow> mem_refcount m = int (d b + card (subs s b)) \<and> 0 < mem_refcount m"
  by (simp_all add: count_ok_def)

lemma live_count:
  "balanced s d \<Longrightarrow> objs s b = Some m \<Longrightarrow> mem_refcount m = int (d b + card (subs s b)) \<and> 0 < mem_refcount m"
  using count_ok_Some balanced_count by blast

lemma demanded_live: "balanced s d \<Longrightarrow> 0 < d b \<Longrightarrow> \<exists>m. objs s b = Some m"
  using balanced_count [of s d b] by (cases "objs s b") (auto simp: count_ok_None)

lemma parent_of_live: "objs s b = Some m \<Longrightarrow> parent_of s b = mem_parent m"
  by (simp add: parent_of_def)

lemma parent_of_dom: "parent_of s b = Some p \<Longrightarrow> b \<in> dom (objs s)"
  by (auto simp: parent_of_def split: option.splits)

lemma finite_subs: "balanced s d \<Longrightarrow> finite (subs s b)"
  by (rule finite_subset [of _ "dom (objs s)"]) (auto simp: subs_def balanced_def dest: parent_of_dom)

lemma parent_live:
  assumes "balanced s d" and "parent_of s b = Some p"
  shows "\<exists>pm. objs s p = Some pm \<and> mem_parent pm = None" and "subs s b = {}" and "p \<noteq> b"
proof -
  have two: "parent_of s q = None" if "parent_of s c = Some q" for c q
    using assms(1) that unfolding balanced_def two_level_def by blast
  have "b \<in> subs s p" using assms by (simp add: subs_def)
  then have "objs s p \<noteq> None" using balanced_count [OF assms(1), of p] count_ok_None [of s p d] by auto
  then obtain pm where pm: "objs s p = Some pm" by auto
  then show "\<exists>pm. objs s p = Some pm \<and> mem_parent pm = None"
    using two [OF assms(2)] by (simp add: parent_of_live)
  show "subs s b = {}" using two assms(2) by (fastforce simp: subs_def)
  show "p \<noteq> b" using two [OF assms(2)] assms(2) by auto
qed

text \<open>Changing a reference count only.\<close>

definition set_ref :: "nat \<Rightarrow> cl_mem \<Rightarrow> int \<Rightarrow> mem_state \<Rightarrow> mem_state" where
  "set_ref b m r s = s\<lparr>objs := (objs s)(b \<mapsto> m\<lparr>mem_refcount := r\<rparr>)\<rparr>"

lemma set_ref_simps [simp]:
  "objs (set_ref b m r s) = (objs s)(b \<mapsto> m\<lparr>mem_refcount := r\<rparr>)"
  "queued (set_ref b m r s) = queued s" "next_obj (set_ref b m r s) = next_obj s"
  by (simp_all add: set_ref_def)

lemma set_ref_parent [simp]: "objs s b = Some m \<Longrightarrow> parent_of (set_ref b m r s) = parent_of s"
  by (auto simp: parent_of_def)

lemma set_refcount:
  assumes bal: "balanced s d" and b: "objs s b = Some m" and r: "r = int (k + card (subs s b))" "0 < r"
  shows "balanced (set_ref b m r s) (d(b := k))"
proof -
  have "count_ok (set_ref b m r s) (d(b := k)) c" for c
  proof (cases "c = b")
    case True
    then show ?thesis using r b by (simp add: count_ok_Some [where m = "m\<lparr>mem_refcount := r\<rparr>"] subs_def)
  next
    case False
    then show ?thesis using balanced_count [OF bal, of c] b
      by (cases "objs s c") (simp_all add: False count_ok_None count_ok_Some subs_def)
  qed
  moreover have "finite (dom (objs (set_ref b m r s)))" and "two_level (set_ref b m r s)"
    using bal b by (auto simp: balanced_def two_level_def)
  ultimately show ?thesis by (simp add: balanced_def)
qed

lemma retain_balanced:
  assumes bal: "balanced s d" and b: "objs s b = Some m"
  shows "clRetainMemObject b s = Some (set_ref b m (mem_refcount m + 1) s)"
    and "balanced (set_ref b m (mem_refcount m + 1) s) (d(b := d b + 1))"
proof -
  note ref = live_count [OF bal b]
  show "clRetainMemObject b s = Some (set_ref b m (mem_refcount m + 1) s)"
    using ref b by (simp add: clRetainMemObject_def set_ref_def)
  show "balanced (set_ref b m (mem_refcount m + 1) s) (d(b := d b + 1))"
    using ref by (intro set_refcount [OF bal b]) simp_all
qed

lemma retain_all_balanced:
  assumes "balanced s d" and "set bs \<subseteq> dom (objs s)"
  shows "\<exists>s'. retain_all bs s = Some s' \<and> balanced s' (\<lambda>b. d b + count_list bs b) \<and> queued s' = queued s"
  using assms
proof (induction bs arbitrary: s d)
  case (Cons b bs)
  then obtain m where m: "objs s b = Some m" by auto
  let ?s = "set_ref b m (mem_refcount m + 1) s"
  note r = retain_balanced [OF Cons.prems(1) m]
  have dom: "set bs \<subseteq> dom (objs ?s)" using Cons.prems(2) by auto
  obtain s' where s': "retain_all bs ?s = Some s'" "queued s' = queued s"
    "balanced s' (\<lambda>c. (d(b := d b + 1)) c + count_list bs c)"
    using Cons.IH [OF r(2) dom] unfolding set_ref_simps by blast
  moreover have "(\<lambda>c. (d(b := d b + 1)) c + count_list bs c) = (\<lambda>c. d c + count_list (b # bs) c)" by auto
  ultimately show ?case using r(1) by auto
qed simp

text \<open>Releasing: the object goes when its last reference goes, and takes its reference to its parent along.\<close>

definition drop_obj :: "nat \<Rightarrow> mem_state \<Rightarrow> mem_state" where
  "drop_obj b s = s\<lparr>objs := (objs s)(b := None)\<rparr>"

lemma drop_obj_simps [simp]:
  "objs (drop_obj b s) = (objs s)(b := None)" "queued (drop_obj b s) = queued s"
  "next_obj (drop_obj b s) = next_obj s"
  by (simp_all add: drop_obj_def)

lemma parent_of_drop: "parent_of (drop_obj b s) = (parent_of s)(b := None)"
  by (auto simp: parent_of_def)

lemma subs_drop: "subs (drop_obj b s) c = subs s c - {b}"
  by (auto simp: subs_def parent_of_drop)

lemma drop_balanced:
  assumes bal: "balanced s d" and b: "objs s b = Some m" and last: "mem_refcount m = 1" "0 < d b"
  shows "balanced (drop_obj b s) (case mem_parent m of None \<Rightarrow> d(b := 0) | Some p \<Rightarrow> (d(b := 0))(p := d p + 1))"
    and "subs s b = {}"
proof -
  have "int (d b + card (subs s b)) = 1" using live_count [OF bal b] last by simp
  then have "d b = 1" and "card (subs s b) = 0" using last(2) by linarith+
  then show none: "subs s b = {}" using finite_subs [OF bal] by simp
  have other: "count_ok (drop_obj b s) d' c" if "c \<noteq> b" "d' c + card (subs s c - {b}) = d c + card (subs s c)"
      "objs s c = None \<Longrightarrow> d' c = d c" for c d'
    using balanced_count [OF bal, of c] that
    by (cases "objs s c") (simp_all add: count_ok_None count_ok_Some subs_drop)
  show "balanced (drop_obj b s) (case mem_parent m of None \<Rightarrow> d(b := 0) | Some p \<Rightarrow> (d(b := 0))(p := d p + 1))"
    (is "balanced _ ?d")
  proof -
    have "count_ok (drop_obj b s) ?d c" for c
    proof (cases "c = b")
      case True
      moreover have "mem_parent m \<noteq> Some b" using none parent_of_live [OF b] by (auto simp: subs_def)
      ultimately show ?thesis by (simp add: count_ok_None subs_drop none split: option.splits)
    next
      case False
      show ?thesis
      proof (cases "mem_parent m = Some c")
        case True
        then have bc: "b \<in> subs s c" using b by (simp add: subs_def parent_of_live)
        then have "0 < card (subs s c)" using finite_subs [OF bal] by (auto simp: card_gt_0_iff)
        then have "?d c + card (subs s c - {b}) = d c + card (subs s c)"
          using True bc by (simp add: card_Diff_singleton)
        moreover have "objs s c \<noteq> None" using parent_live [OF bal, of b c] True b by (auto simp: parent_of_live)
        ultimately show ?thesis using False by (intro other) simp_all
      next
        case no: False
        then have "b \<notin> subs s c" using b by (simp add: subs_def parent_of_live)
        moreover have "?d c = d c" using no False by (simp split: option.splits)
        ultimately show ?thesis using False by (intro other) simp_all
      qed
    qed
    moreover have "two_level (drop_obj b s)"
      using bal by (auto simp: balanced_def two_level_def parent_of_drop)
    moreover have "finite (dom (objs (drop_obj b s)))" using bal by (simp add: balanced_def)
    ultimately show ?thesis by (simp add: balanced_def)
  qed
qed


declare clReleaseMemObject.simps [code]

lemma release_top:
  assumes bal: "balanced s d" and b: "objs s b = Some m" "mem_parent m = None" and d: "0 < d b"
  shows "\<exists>s'. clReleaseMemObject b s = Some s' \<and> balanced s' (d(b := d b - 1)) \<and> queued s' = queued s"
proof -
  note ref = live_count [OF bal b(1)]
  show ?thesis
  proof (cases "mem_refcount m = 1")
    case True
    have "d b = 1" using True ref d by linarith
    then have "clReleaseMemObject b s = Some (drop_obj b s)" "balanced (drop_obj b s) (d(b := d b - 1))"
      using True b drop_balanced(1) [OF bal b(1) True d]
      by (simp_all add: clReleaseMemObject.simps [of b s] drop_obj_def)
    then show ?thesis by simp
  next
    case False
    have "balanced (set_ref b m (mem_refcount m - 1) s) (d(b := d b - 1))"
      using ref d False by (intro set_refcount [OF bal b(1)]) auto
    moreover have "clReleaseMemObject b s = Some (set_ref b m (mem_refcount m - 1) s)"
      using ref b False by (simp add: clReleaseMemObject.simps [of b s] set_ref_def)
    ultimately show ?thesis by simp
  qed
qed

lemma release_balanced:
  assumes bal: "balanced s d" and d: "0 < d b"
  shows "\<exists>s'. clReleaseMemObject b s = Some s' \<and> balanced s' (d(b := d b - 1)) \<and> queued s' = queued s"
proof -
  obtain m where b: "objs s b = Some m" using demanded_live [OF bal d] by blast
  note ref = live_count [OF bal b]
  show ?thesis
  proof (cases "mem_parent m")
    case None
    then show ?thesis using release_top [OF bal b _ d] by simp
  next
    case (Some p)
    then have par: "parent_of s b = Some p" using b by (simp add: parent_of_live)
    obtain pm where p: "objs s p = Some pm" "mem_parent pm = None" using parent_live(1) [OF bal par] by blast
    note pb = parent_live(3) [OF bal par]
    show ?thesis
    proof (cases "mem_refcount m = 1")
      case True
      note drop = drop_balanced [OF bal b True d]
      have one: "d b = 1" using True ref d drop(2) by simp
      let ?d = "(d(b := 0))(p := d p + 1)"
      have "balanced (drop_obj b s) ?d" using drop(1) Some by simp
      then obtain s' where s': "clReleaseMemObject p (drop_obj b s) = Some s'" "queued s' = queued s"
          "balanced s' (?d(p := ?d p - 1))"
        using release_top [of "drop_obj b s" ?d p pm] p pb by auto
      moreover have "?d(p := ?d p - 1) = d(b := d b - 1)" using one pb by auto
      moreover have "clReleaseMemObject b s = clReleaseMemObject p (drop_obj b s)"
        using b True Some by (simp add: clReleaseMemObject.simps [of b s] drop_obj_def)
      ultimately show ?thesis by auto
    next
      case False
      have "balanced (set_ref b m (mem_refcount m - 1) s) (d(b := d b - 1))"
        using ref d False by (intro set_refcount [OF bal b]) auto
      moreover have "clReleaseMemObject b s = Some (set_ref b m (mem_refcount m - 1) s)"
        using ref b False by (simp add: clReleaseMemObject.simps [of b s] set_ref_def)
      ultimately show ?thesis by simp
    qed
  qed
qed

lemma cleanup_balanced:
  assumes "balanced s (\<lambda>b. d b + count_list bs b)"
  shows "\<exists>s'. pocl_mem_objs_cleanup bs s = Some s' \<and> balanced s' d \<and> queued s' = queued s"
  using assms
proof (induction bs arbitrary: s)
  case (Cons b bs)
  let ?d = "\<lambda>c. d c + count_list (b # bs) c"
  obtain s1 where s1: "clReleaseMemObject b s = Some s1" "balanced s1 (?d(b := ?d b - 1))" "queued s1 = queued s"
    using release_balanced [OF Cons.prems, of b] by auto
  have "?d(b := ?d b - 1) = (\<lambda>c. d c + count_list bs c)" by auto
  then show ?case using Cons.IH [of s1] s1 by auto
qed simp

section \<open>The invariant of runs\<close>

definition queue_refs :: "mem_state \<Rightarrow> nat \<Rightarrow> nat" where
  "queue_refs s b = count_list (concat (map node_mem_objs (queued s))) b"

text \<open>A call either fails and changes nothing, or queues one executable command that keeps its objects.\<close>

definition outcome :: "mem_state \<Rightarrow> (cl_error \<times> mem_state) option \<Rightarrow> bool" where
  "outcome s r \<longleftrightarrow> (\<exists>e. e \<noteq> CL_SUCCESS \<and> r = Some (e, s)) \<or>
     (\<exists>c rs. r = map_option (Pair CL_SUCCESS) (enqueue_node c rs rs s) \<and> set rs \<subseteq> dom (objs s) \<and>
        (\<forall>m. pocl_exec_command c m \<noteq> None))"

lemma outcome_error: "e \<noteq> CL_SUCCESS \<Longrightarrow> outcome s (Some (e, s))"
  by (auto simp: outcome_def)

lemma outcome_guard:
  "(first_error cs = CL_SUCCESS \<Longrightarrow> outcome s X) \<Longrightarrow>
   outcome s (if first_error cs \<noteq> CL_SUCCESS then Some (first_error cs, s) else X)"
  using outcome_error by simp

lemma outcome_if:
  "e \<noteq> CL_SUCCESS \<Longrightarrow> (\<not> P \<Longrightarrow> outcome s X) \<Longrightarrow> outcome s (if P then Some (e, s) else X)"
  using outcome_error by simp

lemma outcome_node:
  "set rs \<subseteq> dom (objs s) \<Longrightarrow> (\<And>m. pocl_exec_command c m \<noteq> None) \<Longrightarrow>
   outcome s (map_option (Pair CL_SUCCESS) (enqueue_node c rs rs s))"
  by (auto simp: outcome_def)

lemma convert_root:
  "objs s b = Some m \<Longrightarrow> fst (POCL_CONVERT_SUBBUFFER_OFFSET b m offset) = root s b"
  by (simp add: POCL_CONVERT_SUBBUFFER_OFFSET_def root_def split: option.splits)

lemmas unfold_call = option.case Let_def Option.bind.simps case_prod_beta'

lemma read_outcome:
  assumes "objs s b = Some m" and "objs s (root s b) = Some rm"
  shows "outcome s (clEnqueueReadBuffer (Some q) (Some b) offset sz ptr wl s)"
  by (simp only: clEnqueueReadBuffer_def unfold_call assms convert_root [OF assms(1)])
    (intro outcome_guard outcome_node; use assms in auto)

lemma write_outcome:
  assumes "objs s b = Some m" and "objs s (root s b) = Some rm"
  shows "outcome s (clEnqueueWriteBuffer (Some q) (Some b) offset sz ptr wl s)"
  by (simp only: clEnqueueWriteBuffer_def unfold_call assms convert_root [OF assms(1)])
    (intro outcome_guard outcome_node; use assms in auto)

lemma copy_outcome:
  assumes "objs s src = Some m" and "objs s (root s src) = Some rm"
    and "objs s dst = Some m'" and "objs s (root s dst) = Some rm'"
  shows "outcome s (clEnqueueCopyBuffer (Some q) (Some src) (Some dst) src_offset dst_offset sz wl s)"
  by (simp only: clEnqueueCopyBuffer_def unfold_call assms convert_root [OF assms(1)] convert_root [OF assms(3)])
    (intro outcome_guard outcome_node; use assms in auto)

lemma memfill_total:
  "p \<in> {1, 2, 4, 8, 16, 32, 64, 128} \<Longrightarrow> pocl_basic_memfill ptr sz offset pattern p m \<noteq> None"
  by (auto simp: pocl_basic_memfill_def Let_def)

lemma fill_outcome:
  assumes "objs s b = Some m" and "objs s (root s b) = Some rm"
  shows "outcome s (clEnqueueFillBuffer (Some q) (Some b) pattern p pattern_size offset sz wl s)"
proof -
  have size: "pattern_size \<noteq> 0 \<Longrightarrow> \<not> pattern_size > 128 \<Longrightarrow> \<not> popcount32 pattern_size > 1 \<Longrightarrow>
      pocl_basic_memfill ptr sz ofs p pattern_size mm \<noteq> None" for ptr ofs mm
    using memfill_total [OF fill_pattern_size] by simp
  show ?thesis
    by (simp only: clEnqueueFillBuffer_def unfold_call assms convert_root [OF assms(1)])
      (intro outcome_guard outcome_if outcome_node; use assms size in \<open>auto split: if_splits\<close>)
qed


lemma rect_pitches_cases:
  assumes "fst region \<noteq> 0"
  obtains "rect_pitches sz origin region rp sp = Some None"
  | rp' sp' where "rect_pitches sz origin region rp sp = Some (Some (rp', sp'))" and "rp' \<noteq> 0"
proof -
  obtain o0 o1 o2 r0 r1 r2 where o: "origin = (o0, o1, o2)" and r: "region = (r0, r1, r2)"
    by (cases origin; cases region) auto
  have "\<exists>e a b. pocl_buffer_boundcheck_3d sz origin region rp sp = Some (e, a, b) \<and> (e = CL_SUCCESS \<longrightarrow> a \<noteq> 0)"
    using assms by (auto simp: pocl_buffer_boundcheck_3d_def Let_def o r)
  then obtain e a b where c: "pocl_buffer_boundcheck_3d sz origin region rp sp = Some (e, a, b)"
    and a: "e = CL_SUCCESS \<longrightarrow> a \<noteq> 0" by blast
  show thesis using a that by (cases "e = CL_SUCCESS") (simp_all add: rect_pitches_def c)
qed

lemma rect_outcome:
  assumes "objs s b = Some m" and "objs s (root s b) = Some rm"
    and total: "\<And>p a bo ho rg brp bsp hrp hsp mm. pocl_exec_command (command p a bo ho rg brp bsp hrp hsp) mm \<noteq> None"
  shows "outcome s (enqueue_buffer_rect forbidden command (Some q) (Some b) (Some bo) (Some ho) (Some rg) brp bsp hrp hsp ptr wl s)"
proof (simp only: enqueue_buffer_rect_def unfold_call assms(1,2) convert_root [OF assms(1)] option.sel, intro outcome_guard outcome_if, simp_all only: fst_conv snd_conv)
  assume "region_product rg \<noteq> 0"
  then have rg: "fst rg \<noteq> 0" by (auto simp: region_product_def split: prod.splits)
  show "outcome s (rect_pitches (mem_size m) bo rg brp bsp \<bind> (\<lambda>bp. case bp of None \<Rightarrow> Some (CL_INVALID_VALUE, s)
     | Some p \<Rightarrow> rect_pitches (- 1) ho rg hrp hsp \<bind> (\<lambda>hp. case hp of None \<Rightarrow> Some (CL_INVALID_VALUE, s)
       | Some h \<Rightarrow> if mem_size rm > q_max_mem_alloc_size q then Some (CL_OUT_OF_RESOURCES, s)
         else map_option (Pair CL_SUCCESS) (enqueue_node (command ptr (mem_ptr rm)
           (shift_origin (snd (POCL_CONVERT_SUBBUFFER_OFFSET b m 0)) bo) ho rg (fst p) (snd p) (fst h) (snd h))
           [root s b] [root s b] s))))"
  proof (cases rule: rect_pitches_cases [OF rg, of "mem_size m" bo brp bsp])
    case 1
    then show ?thesis by (simp add: outcome_error)
  next
    case p: (2 brp' bsp')
    show ?thesis
    proof (cases rule: rect_pitches_cases [OF rg, of "- 1" ho hrp hsp])
      case 1
      then show ?thesis using p by (simp add: outcome_error)
    next
      case (2 hrp' hsp')
      have "outcome s (if mem_size rm > q_max_mem_alloc_size q then Some (CL_OUT_OF_RESOURCES, s)
         else map_option (Pair CL_SUCCESS) (enqueue_node (command ptr (mem_ptr rm)
           (shift_origin (snd (POCL_CONVERT_SUBBUFFER_OFFSET b m 0)) bo) ho rg brp' bsp' hrp' hsp')
           [root s b] [root s b] s))"
        by (intro outcome_if outcome_node total) (use assms in auto)
      then show ?thesis using p(1) 2(1) by (simp only: Option.bind.simps option.case fst_conv snd_conv)
    qed
  qed
qed (use assms in auto)

lemma rect_copy_cases:
  assumes "objs s src = Some m" and "objs s dst = Some m'" and rg: "fst rg \<noteq> 0"
  shows "(\<exists>e. e \<noteq> CL_SUCCESS \<and> pocl_rect_copy q (Some src) False (Some dst) False (Some so) (Some d_o) (Some rg)
      srp ssp drp dsp wl s = Some (Inl e)) \<or>
    (\<exists>a b c d. pocl_rect_copy q (Some src) False (Some dst) False (Some so) (Some d_o) (Some rg)
      srp ssp drp dsp wl s = Some (Inr ((a, b), (c, d))))"
proof -
  have overlap: "\<exists>b. check_copy_overlap x y rg p p' = Some b" if "p \<noteq> 0" for x y p p'
    using that by (auto simp: check_copy_overlap_def Let_def split: prod.splits)
  show ?thesis
  proof (cases rule: rect_pitches_cases [OF rg, of "mem_size m" so srp ssp])
    case 1
    then show ?thesis by (auto simp del: first_error.simps simp: pocl_rect_copy_def assms Let_def)
  next
    case s: (2 srp' ssp')
    obtain ov where "check_copy_overlap so d_o rg srp' ssp' = Some ov" using overlap [OF s(2)] by blast
    then show ?thesis using s
      by (cases rule: rect_pitches_cases [OF rg, of "mem_size m'" d_o drp dsp]; cases ov)
        (auto simp del: first_error.simps simp: pocl_rect_copy_def assms Let_def)
  qed
qed

lemma copy_rect_outcome:
  assumes "objs s src = Some m" and "objs s (root s src) = Some rm"
    and "objs s dst = Some m'" and "objs s (root s dst) = Some rm'"
    and ok: "rect_copy_ok s (Copy_Rect src dst so d_o rg srp ssp drp dsp)"
  shows "outcome s (clEnqueueCopyBufferRect (Some q) (Some src) (Some dst) (Some so) (Some d_o) (Some rg) srp ssp drp dsp wl s)"
proof -
  have root: "root s src = src" "root s dst = dst" and rg: "fst rg \<noteq> 0" using ok by simp_all
  consider e where "e \<noteq> CL_SUCCESS" "pocl_rect_copy q (Some src) False (Some dst) False (Some so) (Some d_o) (Some rg)
      srp ssp drp dsp wl s = Some (Inl e)"
    | a b c d where "pocl_rect_copy q (Some src) False (Some dst) False (Some so) (Some d_o) (Some rg)
      srp ssp drp dsp wl s = Some (Inr ((a, b), (c, d)))"
    using rect_copy_cases [OF assms(1,3) rg] by blast
  then show ?thesis
  proof cases
    case 1
    then show ?thesis by (simp add: clEnqueueCopyBufferRect_def outcome_error)
  next
    case 2
    show ?thesis
      by (simp only: clEnqueueCopyBufferRect_def option.sel 2 sum.case prod.case fst_conv snd_conv unfold_call assms
          convert_root [OF assms(1)] convert_root [OF assms(3)] root)
        (intro outcome_if outcome_node; use assms in auto)
  qed
qed

text \<open>All commands.\<close>

lemma issue_outcome:
  assumes live: "\<forall>b \<in> set (call_buffers call). objs s b \<noteq> None \<and> objs s (root s b) \<noteq> None"
    and ok: "rect_copy_ok s call"
  shows "outcome s (issue q wl call s)"
proof (cases call)
  case (Read_Buffer b offset sz ptr)
  then show ?thesis using live by (auto intro: read_outcome)
next
  case (Write_Buffer b offset sz ptr)
  then show ?thesis using live by (auto intro: write_outcome)
next
  case (Copy_Buffer src dst so d_o sz)
  then show ?thesis using live by (auto intro: copy_outcome)
next
  case (Fill_Buffer b pattern p ps offset sz)
  then show ?thesis using live by (auto intro: fill_outcome)
next
  case (Read_Rect b bo ho rg brp bsp hrp hsp ptr)
  then show ?thesis using live by (auto simp: clEnqueueReadBufferRect_def intro!: rect_outcome)
next
  case (Write_Rect b bo ho rg brp bsp hrp hsp ptr)
  then show ?thesis using live by (auto simp: clEnqueueWriteBufferRect_def intro!: rect_outcome)
next
  case (Copy_Rect src dst so d_o rg srp ssp drp dsp)
  then show ?thesis using live ok by (auto intro!: copy_rect_outcome)
qed

section \<open>Steps keep the balance\<close>

definition add_obj :: "cl_mem \<Rightarrow> mem_state \<Rightarrow> mem_state" where
  "add_obj m s = s\<lparr>next_obj := next_obj s + 1, objs := (objs s)(next_obj s \<mapsto> m)\<rparr>"

lemma add_obj_simps [simp]:
  "objs (add_obj m s) = (objs s)(next_obj s \<mapsto> m)" "queued (add_obj m s) = queued s"
  "next_obj (add_obj m s) = Suc (next_obj s)"
  by (simp_all add: add_obj_def)

lemma new_obj_balanced:
  assumes bal: "balanced s d" and m: "mem_refcount m = 1"
    and par: "\<forall>p. mem_parent m = Some p \<longrightarrow> 0 < d p \<and> parent_of s p = None"
  shows "balanced (add_obj m s)
    (case mem_parent m of None \<Rightarrow> d(next_obj s := 1) | Some p \<Rightarrow> (d(next_obj s := 1))(p := d p - 1))"
    (is "balanced ?s ?d") and "d (next_obj s) = 0"
proof -
  let ?b = "next_obj s"
  have fresh: "objs s ?b = None" using bal by (fastforce simp: balanced_def two_level_def)
  have none: "subs s ?b = {}" and zero: "d ?b = 0"
    using balanced_count [OF bal, of ?b] fresh by (simp_all add: count_ok_None)
  show "d ?b = 0" by (rule zero)
  have par': "parent_of ?s = (parent_of s)(?b := mem_parent m)" by (auto simp: parent_of_def)
  have pb: "p \<noteq> ?b" if "mem_parent m = Some p" for p using par that zero by auto
  have subs: "subs ?s c = (if mem_parent m = Some c then insert ?b (subs s c) else subs s c)" for c
    using fresh by (auto simp: subs_def par' parent_of_def)
  have notin: "?b \<notin> subs s c" for c using fresh by (simp add: subs_def parent_of_def)
  have "count_ok ?s ?d c" for c
  proof (cases "c = ?b")
    case True
    moreover have "mem_parent m \<noteq> Some ?b" using pb by blast
    moreover have "?d ?b = 1" using pb by (auto split: option.splits)
    ultimately show ?thesis using m by (simp add: count_ok_Some [where m = m] subs none)
  next
    case False
    have "?d c + card (subs ?s c) = d c + card (subs s c)"
    proof (cases "mem_parent m = Some c")
      case True
      then have "0 < d c" using par by blast
      then show ?thesis using True notin [of c] finite_subs [OF bal, of c] by (simp add: subs)
    next
      case False
      then show ?thesis using \<open>c \<noteq> ?b\<close> by (simp add: subs split: option.splits)
    qed
    moreover have "mem_parent m \<noteq> Some c" if "objs s c = None"
      using par that demanded_live [OF bal, of c] by auto
    ultimately show ?thesis using False balanced_count [OF bal, of c]
      by (cases "objs s c") (simp_all add: count_ok_None count_ok_Some subs)
  qed
  moreover have "two_level ?s"
    using bal par pb none by (auto simp: balanced_def two_level_def par' less_Suc_eq subs_def)
  moreover have "finite (dom (objs ?s))" using bal by (simp add: balanced_def)
  ultimately show "balanced ?s ?d" by (simp add: balanced_def)
qed

lemma create_result:
  "(\<exists>e. clCreateBuffer ctx mx fl sz host_ptr dev_ptr host_alloc s = (Inl e, s)) \<or>
   (\<exists>m. mem_refcount m = 1 \<and> mem_parent m = None \<and>
     clCreateBuffer ctx mx fl sz host_ptr dev_ptr host_alloc s = (Inr (next_obj s), add_obj m s))"
proof -
  define P :: "(cl_error + nat) \<times> mem_state \<Rightarrow> bool" where "P = (\<lambda>r. (\<exists>e. r = (Inl e, s)) \<or>
    (\<exists>m. mem_refcount m = 1 \<and> mem_parent m = None \<and> r = (Inr (next_obj s), add_obj m s)))"
  have "P (Inl e, s)" for e by (auto simp: P_def)
  moreover have "P (Inr (next_obj s), s\<lparr>next_obj := next_obj s + 1, objs := (objs s)(next_obj s \<mapsto>
      \<lparr>mem_context = c, mem_size = z, mem_origin = 0, mem_parent = None, mem_flags = f, mem_type = t,
       mem_image = i, mem_ptr = q, mem_host_ptr = h, mem_refcount = 1\<rparr>)\<rparr>)" for c z f t i q h
    unfolding P_def add_obj_def [symmetric] by (intro disjI2 exI conjI) simp_all
  ultimately have "P (clCreateBuffer ctx mx fl sz host_ptr dev_ptr host_alloc s)"
    unfolding clCreateBuffer_def Let_def by (simp only: if_split option.split simp_thms)
  then show ?thesis by (simp add: P_def)
qed

lemma create_sub_result:
  assumes "objs s p = Some pm"
  shows "(\<exists>e. clCreateSubBuffer (Some p) fl origin sz align s = Some (Inl e, s)) \<or>
   (\<exists>m. mem_refcount m = 1 \<and> mem_parent m = Some p \<and> mem_parent pm = None \<and>
     clCreateSubBuffer (Some p) fl origin sz align s =
       map_option (Pair (Inr (next_obj s))) (clRetainMemObject p (add_obj m s)))"
proof (cases "sub_buffer_check pm fl origin sz align = CL_SUCCESS")
  case True
  then have "mem_parent pm = None" by (auto simp: sub_buffer_check_def split: if_splits)
  moreover have "map_option (Pair x) y = y \<bind> (\<lambda>z. Some (x, z))" for x :: "cl_error + nat" and y :: "mem_state option"
    by (cases y) simp_all
  then have "clCreateSubBuffer (Some p) fl origin sz align s =
      map_option (Pair (Inr (next_obj s))) (clRetainMemObject p (add_obj
        \<lparr>mem_context = mem_context pm, mem_size = sz, mem_origin = origin, mem_parent = Some p,
         mem_flags = pocl_cl_mem_inherit_flags (mem_flags pm) fl, mem_type = BUFFER, mem_image = None,
         mem_ptr = 0, mem_host_ptr = 0, mem_refcount = 1\<rparr> s))"
    using assms True by (simp add: clCreateSubBuffer_def Let_def add_obj_def)
  ultimately show ?thesis by (intro disjI2 exI conjI) simp_all
next
  case False
  then show ?thesis using assms by (simp add: clCreateSubBuffer_def)
qed

lemma queue_refs_cong: "queued s' = queued s \<Longrightarrow> queue_refs s' = queue_refs s"
  by (simp add: queue_refs_def fun_eq_iff)

abbreviation demand :: "mem_state \<Rightarrow> (nat \<Rightarrow> nat) \<Rightarrow> nat \<Rightarrow> nat" where
  "demand s app \<equiv> \<lambda>b. app b + queue_refs s b"

definition runnable :: "mem_state \<Rightarrow> bool" where
  "runnable s \<longleftrightarrow> (\<forall>n \<in> set (queued s). \<forall>m. pocl_exec_command (node_command n) m \<noteq> None)"

lemma keeps_queue: "queued s' = queued s \<Longrightarrow> balanced s' (demand s app) \<Longrightarrow> runnable s \<Longrightarrow>
    balanced s' (demand s' app) \<and> runnable s'"
  by (simp add: queue_refs_cong [of s' s] runnable_def)

lemma create_keeps:
  assumes bal: "balanced s (demand s app)" and run: "runnable s"
  shows "\<exists>res s'. clCreateBuffer ctx mx fl sz host_ptr dev_ptr host_alloc s = (res, s') \<and>
    balanced s' (demand s' (gains res app)) \<and> runnable s'"
  using create_result [of ctx mx fl sz host_ptr dev_ptr host_alloc s]
proof (elim disjE exE conjE)
  fix m assume m: "mem_refcount m = 1" "mem_parent m = None"
    and c: "clCreateBuffer ctx mx fl sz host_ptr dev_ptr host_alloc s = (Inr (next_obj s), add_obj m s)"
  have "(demand s app)(next_obj s := 1) = demand s (gains (Inr (next_obj s)) app)"
    using new_obj_balanced(2) [OF bal m(1)] m(2) by (auto simp: gains_def)
  then have "balanced (add_obj m s) (demand s (gains (Inr (next_obj s)) app))"
    using new_obj_balanced(1) [OF bal m(1)] m(2) by simp
  then show ?thesis using c run by (auto dest!: keeps_queue [rotated])
qed (use bal run in \<open>auto simp: gains_def\<close>)

lemma create_sub_keeps:
  assumes bal: "balanced s (demand s app)" and run: "runnable s" and p: "0 < app p"
  shows "\<exists>res s'. clCreateSubBuffer (Some p) fl origin sz align s = Some (res, s') \<and>
    balanced s' (demand s' (gains res app)) \<and> runnable s'"
proof -
  obtain pm where pm: "objs s p = Some pm" using demanded_live [OF bal, of p] p by auto
  show ?thesis
    using create_sub_result [OF pm, of fl origin sz align]
  proof (elim disjE exE conjE)
    fix m assume m: "mem_refcount m = 1" "mem_parent m = Some p" "mem_parent pm = None"
      and c: "clCreateSubBuffer (Some p) fl origin sz align s =
        map_option (Pair (Inr (next_obj s))) (clRetainMemObject p (add_obj m s))"
    let ?d = "demand s app" and ?b = "next_obj s"
    have par: "\<forall>q. mem_parent m = Some q \<longrightarrow> 0 < ?d q \<and> parent_of s q = None"
      using m p pm by (simp add: parent_of_live)
    note new = new_obj_balanced [OF bal m(1) par]
    have pb: "p \<noteq> ?b" using new(2) p by auto
    let ?d' = "(?d(?b := 1))(p := ?d p - 1)" and ?s = "add_obj m s"
    have bal': "balanced ?s ?d'" using new(1) m(2) by simp
    have p': "objs ?s p = Some pm" using pm pb by simp
    note ret = retain_balanced [OF bal' p']
    have "?d'(p := ?d' p + 1) = demand s (gains (Inr ?b) app)"
      using p pb new(2) by (auto simp: gains_def)
    then have "balanced (set_ref p pm (mem_refcount pm + 1) ?s) (demand s (gains (Inr ?b) app))"
      using ret(2) by simp
    then show ?thesis using c ret(1) run by (auto dest!: keeps_queue [rotated])
  qed (use bal run in \<open>auto simp: gains_def\<close>)
qed

lemma issue_keeps:
  assumes bal: "balanced s (demand s app)" and run: "runnable s"
    and held: "\<forall>b \<in> set (call_buffers call). 0 < app b" and ok: "rect_copy_ok s call"
  shows "\<exists>err s'. issue q wl call s = Some (err, s') \<and> balanced s' (demand s' app) \<and> runnable s'"
proof -
  have "objs s b \<noteq> None \<and> objs s (root s b) \<noteq> None" if "b \<in> set (call_buffers call)" for b
  proof -
    have "0 < app b" using held that by blast
    then obtain m where m: "objs s b = Some m" using demanded_live [OF bal, of b] by auto
    then show ?thesis using parent_live(1) [OF bal, of b]
      by (auto simp: root_def parent_of_live split: option.splits)
  qed
  then have "outcome s (issue q wl call s)" using ok by (intro issue_outcome) blast+
  then show ?thesis
    unfolding outcome_def
  proof (elim disjE exE conjE)
    fix c rs assume c: "issue q wl call s = map_option (Pair CL_SUCCESS) (enqueue_node c rs rs s)"
      and live: "set rs \<subseteq> dom (objs s)" and total: "\<forall>m. pocl_exec_command c m \<noteq> None"
    obtain s1 where s1: "retain_all rs s = Some s1" "balanced s1 (\<lambda>b. demand s app b + count_list rs b)"
        "queued s1 = queued s"
      using retain_all_balanced [OF bal live] by blast
    let ?s' = "s1\<lparr>queued := queued s1 @ [\<lparr>node_command = c, node_mem_objs = rs\<rparr>]\<rparr>"
    have "balanced ?s' (\<lambda>b. demand s app b + count_list rs b)" using s1(2) by simp
    moreover have "(\<lambda>b. demand s app b + count_list rs b) = demand ?s' app"
      by (simp add: queue_refs_def s1(3) fun_eq_iff)
    ultimately show ?thesis using c s1(1,3) run total by (auto simp: enqueue_node_def runnable_def)
  qed (use bal run in auto)
qed

lemma complete_keeps:
  assumes bal: "balanced s (demand s app)" and run: "runnable s" and ne: "queued s \<noteq> []"
  shows "\<exists>s' m'. run_next s m = Some (s', m') \<and> balanced s' (demand s' app) \<and> runnable s'"
proof -
  obtain n ns where q: "queued s = n # ns" using ne by (cases "queued s") auto
  have "pocl_exec_command (node_command n) m \<noteq> None" using run unfolding runnable_def q by simp
  then obtain m' where m': "pocl_exec_command (node_command n) m = Some m'" by blast
  let ?s = "s\<lparr>queued := ns\<rparr>"
  have "balanced ?s (demand s app)" using bal by simp
  also have "demand s app = (\<lambda>b. demand ?s app b + count_list (node_mem_objs n) b)"
    by (simp add: queue_refs_def q fun_eq_iff)
  finally obtain s' where "pocl_mem_objs_cleanup (node_mem_objs n) ?s = Some s'" "balanced s' (demand ?s app)"
      "queued s' = ns"
    using cleanup_balanced by fastforce
  then show ?thesis using m' run keeps_queue [of s' ?s app] by (auto simp: run_next_def q runnable_def)
qed

lemma step_keeps:
  assumes "balanced (w_state w) (demand (w_state w) (w_app w))" and "runnable (w_state w)" and "allowed c w"
  shows "\<exists>w'. mem_step c w = Some w' \<and> balanced (w_state w') (demand (w_state w') (w_app w')) \<and> runnable (w_state w')"
proof (cases c)
  case (Create ctx mx fl sz hp dp ha)
  then show ?thesis using create_keeps [OF assms(1,2), of ctx mx fl sz hp dp ha] by auto
next
  case (Create_Sub p fl origin sz align)
  then show ?thesis using create_sub_keeps [OF assms(1,2), of p fl origin sz align] assms(3) by auto
next
  case (Retain b)
  then have b: "0 < w_app w b" using assms(3) by simp
  obtain m where m: "objs (w_state w) b = Some m" using demanded_live [OF assms(1), of b] b by auto
  let ?s = "set_ref b m (mem_refcount m + 1) (w_state w)"
  note ret = retain_balanced [OF assms(1) m]
  have "(demand (w_state w) (w_app w))(b := demand (w_state w) (w_app w) b + 1) =
      demand (w_state w) ((w_app w)(b := w_app w b + 1))" by auto
  then have "balanced ?s (demand (w_state w) ((w_app w)(b := w_app w b + 1)))" using ret(2) by simp
  then show ?thesis using Retain ret(1) assms(2) keeps_queue [of ?s "w_state w"] by simp
next
  case (Release b)
  then have b: "0 < w_app w b" using assms(3) by simp
  obtain s' where s': "clReleaseMemObject b (w_state w) = Some s'" "queued s' = queued (w_state w)"
      "balanced s' ((demand (w_state w) (w_app w))(b := demand (w_state w) (w_app w) b - 1))"
    using release_balanced [OF assms(1), of b] b by auto
  moreover have "(demand (w_state w) (w_app w))(b := demand (w_state w) (w_app w) b - 1) =
      demand (w_state w) ((w_app w)(b := w_app w b - 1))" using b by auto
  ultimately show ?thesis using Release assms(2) keeps_queue [of s' "w_state w"] by simp
next
  case (Issue q wl call)
  then show ?thesis using issue_keeps [OF assms(1,2), of call q wl] assms(3) by auto
next
  case Complete
  then show ?thesis using complete_keeps [OF assms(1,2), of "w_mem w"] assms(3) by auto
qed

lemma run_keeps:
  assumes "balanced (w_state w) (demand (w_state w) (w_app w))" and "runnable (w_state w)" and "allowed_run cs w"
  shows "\<exists>w'. mem_run cs w = Some w' \<and> balanced (w_state w') (demand (w_state w') (w_app w'))"
  using assms
proof (induction cs arbitrary: w)
  case (Cons c cs)
  obtain w1 where "mem_step c w = Some w1" "balanced (w_state w1) (demand (w_state w1) (w_app w1))"
      "runnable (w_state w1)"
    using step_keeps [OF Cons.prems(1,2)] Cons.prems(3) by auto
  then show ?case using Cons.IH [of w1] Cons.prems(3) by simp
qed simp

lemma no_demand_no_objects:
  assumes bal: "balanced s (\<lambda>b. 0)"
  shows "objs s = Map.empty"
proof (rule ext)
  fix b
  have empty: "subs s c = {}" if "parent_of s c \<noteq> None" for c
    using parent_live(2) [OF bal, of c] that by auto
  have "parent_of s c = None" for c
  proof (rule ccontr)
    assume p: "parent_of s c \<noteq> None"
    then obtain m where "objs s c = Some m" using parent_of_dom [of s c] by auto
    then show False using live_count [OF bal, of c m] empty [OF p] by auto
  qed
  then have "subs s b = {}" by (simp add: subs_def)
  then show "objs s b = None" using live_count [OF bal, of b] by (cases "objs s b") auto
qed

section \<open>Properties\<close>

text \<open>
  C28: In every run of an application that uses only buffers it holds a reference to, and copies rectangles
  only between plain buffers, no call of the runtime, no command and no completion touches a freed buffer.
  At every moment a buffer is alive exactly if the application, a queued command or a live sub-buffer refers
  to it, and its count is the number of these references; when the queue is empty and the application has
  released everything, nothing is left.
\<close>

theorem buffer_references_balanced:
  assumes "allowed_run cs (empty_world m)"
  shows "\<exists>w. mem_run cs (empty_world m) = Some w \<and>
    (\<forall>b. case objs (w_state w) b of
       None \<Rightarrow> w_app w b = 0 \<and> queue_refs (w_state w) b = 0 \<and> subs (w_state w) b = {}
     | Some ob \<Rightarrow> 0 < mem_refcount ob \<and>
         mem_refcount ob = int (w_app w b + queue_refs (w_state w) b + card (subs (w_state w) b))) \<and>
    ((\<forall>b. w_app w b = 0) \<and> queued (w_state w) = [] \<longrightarrow> objs (w_state w) = Map.empty)"
proof -
  have "balanced (w_state (empty_world m)) (demand (w_state (empty_world m)) (w_app (empty_world m)))"
    by (simp add: empty_world_def balanced_def two_level_def count_ok_def subs_def parent_of_def queue_refs_def)
  then obtain w where run: "mem_run cs (empty_world m) = Some w"
    and bal: "balanced (w_state w) (demand (w_state w) (w_app w))"
    using run_keeps [OF _ _ assms] by (auto simp: runnable_def empty_world_def)
  have "case objs (w_state w) b of
       None \<Rightarrow> w_app w b = 0 \<and> queue_refs (w_state w) b = 0 \<and> subs (w_state w) b = {}
     | Some ob \<Rightarrow> 0 < mem_refcount ob \<and>
         mem_refcount ob = int (w_app w b + queue_refs (w_state w) b + card (subs (w_state w) b))" for b
    using balanced_count [OF bal, of b] by (cases "objs (w_state w) b") (auto simp: count_ok_None count_ok_Some)
  moreover have "objs (w_state w) = Map.empty" if "\<forall>b. w_app w b = 0" "queued (w_state w) = []"
    using bal that by (intro no_demand_no_objects) (simp add: queue_refs_def)
  ultimately show ?thesis using run by blast
qed

definition example_run :: "mem_call list" where
  "example_run =
     [Create 0 65536 0 1024 0 (Some 4096) None, Create 0 65536 0 1024 0 (Some 8192) None,
      Create_Sub 0 0 128 256 128,
      Issue \<lparr>q_context = 0, q_mem_base_addr_align = 128, q_max_mem_alloc_size = 65536, q_image_support = True\<rparr> (0, None)
        (Write_Buffer 2 16 32 16384),
      Release 0, Release 2,
      Issue \<lparr>q_context = 0, q_mem_base_addr_align = 128, q_max_mem_alloc_size = 65536, q_image_support = True\<rparr> (0, None)
        (Copy_Rect 1 1 (0, 0, 0) (512, 0, 0) (16, 4, 1) 32 0 32 0),
      Release 1, Complete, Complete]"

theorem buffer_references_balanced_witness:
  "\<exists>w. mem_run example_run (empty_world (\<lambda>a. 0)) = Some w \<and>
    (\<forall>b. case objs (w_state w) b of
       None \<Rightarrow> w_app w b = 0 \<and> queue_refs (w_state w) b = 0 \<and> subs (w_state w) b = {}
     | Some ob \<Rightarrow> 0 < mem_refcount ob \<and>
         mem_refcount ob = int (w_app w b + queue_refs (w_state w) b + card (subs (w_state w) b))) \<and>
    next_obj (w_state w) = 3 \<and> map (objs (w_state w)) [0, 1, 2] = [None, None, None]"
proof -
  have "allowed_run example_run (empty_world (\<lambda>a. 0))" by code_simp
  note run = buffer_references_balanced [OF this]
  have "(case mem_run example_run (empty_world (\<lambda>a. 0)) of None \<Rightarrow> False
    | Some w \<Rightarrow> next_obj (w_state w) = 3 \<and> map (objs (w_state w)) [0, 1, 2] = [None, None, None])"
    by code_simp
  then show ?thesis using run by (auto split: option.split_asm)
qed

definition sub_buffer_rect_copy :: "mem_call list" where
  "sub_buffer_rect_copy =
     [Create 0 65536 0 1024 0 (Some 4096) None, Create 0 65536 0 1024 0 (Some 8192) None,
      Create_Sub 0 0 128 256 128,
      Issue \<lparr>q_context = 0, q_mem_base_addr_align = 128, q_max_mem_alloc_size = 65536, q_image_support = True\<rparr> (0, None)
        (Copy_Rect 2 1 (0, 0, 0) (0, 0, 0) (16, 4, 1) 32 0 32 0), Complete]"


text \<open>
  A run of the application in which this happens: the sub-buffer it still holds is freed, and after it has released
  the parent the parent stays allocated for ever.
\<close>

theorem sub_buffer_rect_copy_frees_sub_buffer:
  "(case mem_run sub_buffer_rect_copy (empty_world m) of
      None \<Rightarrow> False
    | Some w \<Rightarrow> queued (w_state w) = [] \<and> map (w_app w) [0, 2] = [1, 1] \<and> objs (w_state w) 2 = None \<and>
        map_option mem_refcount (objs (w_state w) 0) = Some 2) \<and>
   mem_run (sub_buffer_rect_copy @ [Release 2]) (empty_world m) = None \<and>
   (case mem_run (sub_buffer_rect_copy @ [Release 0, Release 1]) (empty_world m) of
      None \<Rightarrow> False
    | Some w \<Rightarrow> w_app w 0 = 0 \<and> map_option mem_refcount (objs (w_state w) 0) = Some 1)"
  by code_simp


end
