(* ===== verification/BitTricks.thy ===== *)
theory BitTricks
  imports Pocl_Prelude
begin

text \<open>
  The bit tricks of \<open>pocl_util.c\<close>: rounding up to a power of two by smearing the highest bit of a word
  over all lower positions.
\<close>

definition pocl_size_ceil2 :: "size_t \<Rightarrow> size_t" where
  "pocl_size_ceil2 x =
     (let x = x - 1;
          x = x OR drop_bit 1 x;
          x = x OR drop_bit 2 x;
          x = x OR drop_bit 4 x;
          x = x OR drop_bit 8 x;
          x = x OR drop_bit 16 x;
          x = x OR drop_bit 32 x
      in x + 1)"

definition pocl_size_ceil2_64 :: "64 word \<Rightarrow> 64 word" where
  "pocl_size_ceil2_64 x =
     (let x = x - 1;
          x = x OR drop_bit 1 x;
          x = x OR drop_bit 2 x;
          x = x OR drop_bit 4 x;
          x = x OR drop_bit 8 x;
          x = x OR drop_bit 16 x;
          x = x OR drop_bit 32 x
      in x + 1)"

text \<open>\<open>s\<close> is \<open>y\<close> smeared over \<open>n\<close> positions.\<close>

definition smeared :: "nat \<Rightarrow> size_t \<Rightarrow> size_t \<Rightarrow> bool" where
  "smeared n y s \<longleftrightarrow> (\<forall>i. bit s i \<longleftrightarrow> (\<exists>j<n. bit y (i + j)))"

lemma smeared_start: "smeared 1 y y"
  by (simp add: smeared_def)

lemma smeared_step:
  assumes s: "smeared n y s" and m: "m = n + n"
  shows "smeared m y (s OR drop_bit n s)"
proof -
  have "(\<exists>j<n. bit y (i + j)) \<or> (\<exists>j<n. bit y (i + n + j)) \<longleftrightarrow> (\<exists>j<n + n. bit y (i + j))" for i
  proof
    assume "(\<exists>j<n. bit y (i + j)) \<or> (\<exists>j<n. bit y (i + n + j))"
    then show "\<exists>j<n + n. bit y (i + j)"
    proof (elim disjE exE conjE)
      fix j assume "j < n" "bit y (i + n + j)"
      then show ?thesis by (intro exI [of _ "n + j"]) (simp add: add.assoc)
    next
      fix j assume "j < n" "bit y (i + j)"
      then show ?thesis by (intro exI [of _ j]) simp
    qed
  next
    assume "\<exists>j<n + n. bit y (i + j)"
    then obtain j where j: "j < n + n" "bit y (i + j)" by blast
    show "(\<exists>j<n. bit y (i + j)) \<or> (\<exists>j<n. bit y (i + n + j))"
    proof (cases "j < n")
      case False
      then have "j - n < n" "bit y (i + n + (j - n))" using j by simp_all
      then show ?thesis by blast
    qed (use j in blast)
  qed
  then show ?thesis using s by (simp add: smeared_def bit_or_iff bit_drop_bit_eq add.commute m)
qed

lemma smeared_mask:
  assumes s: "smeared 64 y s"
  obtains k where "k \<le> 64" and "s = mask k" and "unat y < 2 ^ k" and "k = 0 \<or> 2 ^ (k - 1) \<le> unat y"
proof
  define P where "P = (\<lambda>k. \<forall>i\<ge>k. \<not> bit y i)"
  define k where "k = (LEAST k. P k)"
  have high: "\<not> bit y i" if "64 \<le> i" for i using that by (auto dest: bit_imp_le_length)
  then have P64: "P 64" by (simp add: P_def)
  then have "P k" unfolding k_def by (rule LeastI)
  then have least: "\<not> bit y i" if "k \<le> i" for i using that by (simp add: P_def)
  have below: "\<exists>l\<ge>i. bit y l" if "i < k" for i
    using not_less_Least [OF that [unfolded k_def]] by (auto simp: P_def)
  show k64: "k \<le> 64" unfolding k_def using P64 by (rule Least_le)
  have "bit s i \<longleftrightarrow> i < k" for i
  proof
    assume "bit s i"
    then obtain j where "bit y (i + j)" using s by (auto simp: smeared_def)
    then have "\<not> k \<le> i + j" using least [of "i + j"] by blast
    then show "i < k" by simp
  next
    assume "i < k"
    then obtain l where l: "i \<le> l" "bit y l" using below by blast
    have "l < 64" using high [of l] l(2) by (meson not_le)
    then have "l - i < 64" "bit y (i + (l - i))" using l by simp_all
    then show "bit s i" using s unfolding smeared_def by blast
  qed
  then show "s = mask k" using k64 by (intro bit_word_eqI) (auto simp: bit_mask_iff)
  have "bit (take_bit k y) n = bit y n" for n
    using least by (cases "n < k") (simp_all add: bit_take_bit_iff)
  then have "take_bit k y = y" by (intro bit_word_eqI) blast
  moreover have "unat (take_bit k y) = take_bit k (unat y)" by (simp add: unsigned_take_bit_eq)
  ultimately show "unat y < 2 ^ k" using take_bit_nat_less_exp [of k "unat y"] by simp
  show "k = 0 \<or> 2 ^ (k - 1) \<le> unat y"
  proof (cases "k = 0")
    case False
    then obtain l where l: "k - 1 \<le> l" "bit y l"
      using below [of "k - 1"] by auto
    then have "bit (unat y) l" by (simp add: bit_unsigned_iff bit_imp_le_length)
    then have "unat y div 2 ^ l \<noteq> 0" by (metis bit_iff_odd even_zero)
    then have up: "2 ^ l \<le> unat y" by (simp add: div_eq_0_iff)
    have "(2::nat) ^ (k - 1) \<le> 2 ^ l" using l(1) by (intro power_increasing) simp_all
    then show ?thesis using le_trans [OF _ up] by blast
  qed simp
qed

lemma ceil2_cases:
  obtains k where "k \<le> 64" and "pocl_size_ceil2 x = mask k + 1" and "unat (x - 1) < 2 ^ k"
    and "k = 0 \<or> 2 ^ (k - 1) \<le> unat (x - 1)"
proof -
  let ?y = "x - 1"
  define a1 where "a1 = ?y OR drop_bit 1 ?y"
  define a2 where "a2 = a1 OR drop_bit 2 a1"
  define a4 where "a4 = a2 OR drop_bit 4 a2"
  define a8 where "a8 = a4 OR drop_bit 8 a4"
  define a16 where "a16 = a8 OR drop_bit 16 a8"
  define a32 where "a32 = a16 OR drop_bit 32 a16"
  have "smeared 2 ?y a1" unfolding a1_def by (rule smeared_step [OF smeared_start]) simp
  then have "smeared 4 ?y a2" unfolding a2_def by (rule smeared_step) simp
  then have "smeared 8 ?y a4" unfolding a4_def by (rule smeared_step) simp
  then have "smeared 16 ?y a8" unfolding a8_def by (rule smeared_step) simp
  then have "smeared 32 ?y a16" unfolding a16_def by (rule smeared_step) simp
  then have "smeared 64 ?y a32" unfolding a32_def by (rule smeared_step) simp
  moreover have "pocl_size_ceil2 x = a32 + 1"
    by (simp only: pocl_size_ceil2_def Let_def a1_def a2_def a4_def a8_def a16_def a32_def)
  ultimately have "smeared 64 ?y (pocl_size_ceil2 x - 1)" by simp
  then obtain k where k: "k \<le> 64" "pocl_size_ceil2 x - 1 = mask k" "unat ?y < 2 ^ k"
      "k = 0 \<or> 2 ^ (k - 1) \<le> unat ?y"
    using smeared_mask by blast
  have "pocl_size_ceil2 x = mask k + 1" using k(2) by (metis diff_add_cancel)
  then show thesis using k that by blast
qed

lemma pocl_size_ceil2_zero: "pocl_size_ceil2 0 = 0"
  by code_simp

lemma pocl_size_ceil2_pos:
  assumes "0 < unat x" and "unat x \<le> 2 ^ 63"
  shows "0 < pocl_size_ceil2 x"
proof -
  obtain k where k: "k \<le> 64" "pocl_size_ceil2 x = mask k + 1" "k = 0 \<or> 2 ^ (k - 1) \<le> unat (x - 1)"
    using ceil2_cases [of x] by metis
  have y: "unat (x - 1) < 2 ^ 63" using assms by (subst unat_minus_nowrap) simp_all
  have "k \<noteq> 64" using k(3) y by auto
  then have "pocl_size_ceil2 x \<noteq> 0"
    using k(1,2) by (simp add: mask_eq_exp_minus_1 exp_eq_zero_iff)
  then show ?thesis by (simp add: word_gt_0)
qed

text \<open>
  C36: \<open>pocl_size_ceil2\<close> is the least power of two that is not smaller than its argument; for 0 and for
  arguments above $2^{63}$, whose power does not fit, it is 0. The 64-bit variant is the same function.
\<close>

theorem size_ceil2_least_power:
  assumes "0 < unat x" and "unat x \<le> 2 ^ 63"
  shows "unat (pocl_size_ceil2 x) = 2 ^ (LEAST k. unat x \<le> 2 ^ k) \<and>
    pocl_size_ceil2_64 x = pocl_size_ceil2 x \<and>
    pocl_size_ceil2 0 = 0 \<and> pocl_size_ceil2 (x + 2 ^ 63) = 0"
proof (intro conjI)
  have y: "unat (x - 1) = unat x - 1" using assms(1) by (intro trans [OF unat_minus_nowrap]) simp_all
  obtain k where k: "k \<le> 64" "pocl_size_ceil2 x = mask k + 1" "unat (x - 1) < 2 ^ k"
      "k = 0 \<or> 2 ^ (k - 1) \<le> unat (x - 1)"
    using ceil2_cases [of x] by blast
  have "k \<le> 63"
  proof (rule ccontr)
    assume "\<not> k \<le> 63"
    then have "k = 64" using k(1) by simp
    then show False using k(4) y assms by simp
  qed
  have "(LEAST k. unat x \<le> 2 ^ k) = k"
  proof (rule Least_equality)
    show "unat x \<le> 2 ^ k" using k(3) y by linarith
    show "k \<le> m" if m: "unat x \<le> 2 ^ m" for m
    proof (rule ccontr)
      assume "\<not> k \<le> m"
      then have "m \<le> k - 1" "0 < k" by simp_all
      then have "(2::nat) ^ m \<le> 2 ^ (k - 1)" by simp
      moreover have "2 ^ (k - 1) \<le> unat (x - 1)" using k(4) \<open>0 < k\<close> by simp
      ultimately show False using y m assms(1) by linarith
    qed
  qed
  moreover have "unat (of_nat (2 ^ k) :: size_t) = 2 ^ k"
    using \<open>k \<le> 63\<close> power_strict_increasing [of k 64 "2 :: nat"] by (intro unat_of_nat_nowrap) simp
  then have pow: "unat (2 ^ k :: size_t) = 2 ^ k" by simp
  have "mask k + 1 = (2 ^ k :: size_t)" by (simp add: mask_eq_exp_minus_1)
  then have "unat (pocl_size_ceil2 x) = 2 ^ k" using k(2) pow by simp
  ultimately show "unat (pocl_size_ceil2 x) = 2 ^ (LEAST k. unat x \<le> 2 ^ k)" by simp
  show "pocl_size_ceil2_64 x = pocl_size_ceil2 x" by (simp add: pocl_size_ceil2_def pocl_size_ceil2_64_def)
  show "pocl_size_ceil2 0 = 0" by code_simp
  have "unat (2 ^ 63 :: size_t) = 2 ^ 63" by simp
  then have "unat (x - 1 + 2 ^ 63) = unat x - 1 + 2 ^ 63"
    using y assms by (subst unat_add_nowrap) simp_all
  then have big: "2 ^ 63 \<le> unat (x + 2 ^ 63 - 1)" by (simp add: algebra_simps)
  obtain k where k: "k \<le> 64" "pocl_size_ceil2 (x + 2 ^ 63) = mask k + 1" "unat (x + 2 ^ 63 - 1) < 2 ^ k"
    using ceil2_cases [of "x + 2 ^ 63"] by blast
  have "(2::nat) ^ 63 < 2 ^ k" using big k(3) by (rule le_less_trans)
  then have "63 < k" by (rule power_less_imp_less_exp [rotated]) simp
  then have "k = 64" using k(1) by simp
  then show "pocl_size_ceil2 (x + 2 ^ 63) = 0" using k(2) by (simp add: mask_eq_exp_minus_1)
qed

theorem size_ceil2_least_power_witness:
  "unat (pocl_size_ceil2 48) = 64"
proof -
  have "(LEAST k. (48::nat) \<le> 2 ^ k) = 6"
  proof (rule Least_equality)
    show "6 \<le> m" if "(48::nat) \<le> 2 ^ m" for m
    proof (rule ccontr)
      assume "\<not> 6 \<le> m"
      then have "(2::nat) ^ m \<le> 2 ^ 5" by (intro power_increasing) simp_all
      then show False using that by simp
    qed
  qed simp
  then show ?thesis using size_ceil2_least_power [of 48] by simp
qed

end
