(* ===== verification/KernelArgs.thy ===== *)
theory KernelArgs
  imports MemObjects PoclBinary BitTricks
begin

text \<open>
  Kernel objects, samplers and kernel arguments: creation and release of kernels (\<open>clCreateKernel.c\<close>,
  \<open>clReleaseKernel.c\<close>), setting arguments (\<open>clSetKernelArg.c\<close>, \<open>clSetKernelArgSVMPointer.c\<close>), and the argument arrays
  the drivers build for a work-group function (\<open>pthread_utils.c\<close>, \<open>basic.c\<close>, \<open>common.c\<close>).

  A \<open>cl_mem\<close> or \<open>cl_sampler\<close> in an argument is the 8 bytes of its address, which is the object's number here;
  \<open>mem_ptr\<close> is 0 for a memory object without device pointers. There is one device. A failed assertion, a read
  outside of the caller's memory, \<open>NULL\<close> and freed objects are \<^const>\<open>None\<close>.
\<close>

section \<open>State\<close>

definition POCL_ARG_TYPE_NONE :: cl_uint where "POCL_ARG_TYPE_NONE = 0"
definition POCL_ARG_TYPE_POINTER :: cl_uint where "POCL_ARG_TYPE_POINTER = 1"
definition POCL_ARG_TYPE_IMAGE :: cl_uint where "POCL_ARG_TYPE_IMAGE = 2"
definition POCL_ARG_TYPE_SAMPLER :: cl_uint where "POCL_ARG_TYPE_SAMPLER = 3"
definition CL_KERNEL_ARG_ADDRESS_LOCAL :: cl_uint where "CL_KERNEL_ARG_ADDRESS_LOCAL = 0x119C"
definition MAX_EXTENDED_ALIGNMENT :: size_t where "MAX_EXTENDED_ALIGNMENT = 128"

definition ARGP_IS_LOCAL :: "pocl_argument_info \<Rightarrow> bool" where
  "ARGP_IS_LOCAL a \<longleftrightarrow> address_qualifier a = CL_KERNEL_ARG_ADDRESS_LOCAL"

text \<open>An argument; \<open>arg_value\<close> is the content of the memory block behind \<open>value\<close> that has been written.\<close>

record pocl_argument =
  arg_size :: size_t
  arg_offset :: size_t
  arg_value :: "bytes option"
  is_set :: bool

datatype build_status = CL_BUILD_NONE | CL_BUILD_ERROR | CL_BUILD_SUCCESS | CL_BUILD_IN_PROGRESS

text \<open>
  \<open>prog_has_code\<close> tells whether \<open>builtin_kernel_names\<close> or \<open>llvm_irs\<close> is there, \<open>prog_kernels\<close> is the linked list
  of the kernels made from the program.
\<close>

record cl_program =
  prog_context :: nat
  num_devices :: cl_uint
  prog_status :: build_status
  prog_has_code :: bool
  prog_meta :: "pocl_kernel_metadata list"
  prog_kernels :: "nat list"
  prog_refcount :: int

record cl_kernel =
  k_context :: nat
  k_program :: nat
  k_meta :: pocl_kernel_metadata
  dyn_arguments :: "pocl_argument list"
  k_refcount :: int

record cl_sampler =
  normalized_coords :: cl_uint
  addressing_mode :: cl_uint
  filter_mode :: cl_uint

record host_state =
  buffers :: mem_state
  samplers :: "nat \<rightharpoonup> cl_sampler"
  programs :: "nat \<rightharpoonup> cl_program"
  kernels :: "nat \<rightharpoonup> cl_kernel"
  next_kernel :: nat

section \<open>Kernel objects\<close>

definition unset_argument :: pocl_argument where
  "unset_argument = \<lparr>arg_size = 0, arg_offset = 0, arg_value = None, is_set = False\<rparr>"

text \<open>The loop over \<open>program->kernel_meta\<close>; a kernel without name makes \<open>strcmp\<close> read \<open>NULL\<close>.\<close>

fun find_kernel :: "bytes \<Rightarrow> pocl_kernel_metadata list \<Rightarrow> pocl_kernel_metadata option option" where
  "find_kernel kernel_name [] = Some None"
| "find_kernel kernel_name (meta # metas) = do {
     name \<leftarrow> m_name meta;
     if name = kernel_name then Some (Some meta) else find_kernel kernel_name metas}"

definition create_kernel_check :: "cl_program \<Rightarrow> cl_error" where
  "create_kernel_check p = first_error
     [(num_devices p = 0, CL_INVALID_PROGRAM),
      (prog_status p = CL_BUILD_NONE, CL_INVALID_PROGRAM_EXECUTABLE),
      (prog_status p \<noteq> CL_BUILD_SUCCESS, CL_INVALID_PROGRAM_EXECUTABLE),
      (\<not> prog_has_code p, CL_INVALID_PROGRAM_EXECUTABLE)]"

definition clCreateKernel ::
  "nat option \<Rightarrow> bytes option \<Rightarrow> host_state \<Rightarrow> ((cl_error + nat) \<times> host_state) option" where
  "clCreateKernel program kernel_name s =
     (case kernel_name of None \<Rightarrow> Some (Inl CL_INVALID_VALUE, s) | Some kname \<Rightarrow>
      case program of None \<Rightarrow> Some (Inl CL_INVALID_PROGRAM, s) | Some pn \<Rightarrow> do {
        p \<leftarrow> programs s pn;
        let err = create_kernel_check p;
        if err \<noteq> CL_SUCCESS then Some (Inl err, s)
        else do {
          found \<leftarrow> find_kernel kname (prog_meta p);
          (case found of
             None \<Rightarrow> Some (Inl CL_INVALID_KERNEL_NAME, s)
           | Some meta \<Rightarrow> do {
               let kn = next_kernel s;
               assert_that (prog_refcount p > 0);
               Some (Inr kn, s\<lparr>next_kernel := kn + 1,
                 kernels := (kernels s)(kn \<mapsto> \<lparr>k_context = prog_context p, k_program = pn, k_meta = meta,
                   dyn_arguments = replicate (unat (num_args meta)) unset_argument, k_refcount = 1\<rparr>),
                 programs := (programs s)(pn \<mapsto> p\<lparr>prog_kernels := kn # prog_kernels p,
                   prog_refcount := prog_refcount p + 1\<rparr>)\<rparr>)})}})"

definition clRetainKernel :: "nat \<Rightarrow> host_state \<Rightarrow> host_state option" where
  "clRetainKernel kn s = do {
     k \<leftarrow> kernels s kn;
     assert_that (k_refcount k > 0);
     Some (s\<lparr>kernels := (kernels s)(kn \<mapsto> k\<lparr>k_refcount := k_refcount k + 1\<rparr>)\<rparr>)}"

definition clReleaseProgram :: "nat \<Rightarrow> host_state \<Rightarrow> host_state option" where
  "clReleaseProgram pn s = do {
     p \<leftarrow> programs s pn;
     assert_that (prog_refcount p > 0);
     if prog_refcount p - 1 \<noteq> 0
     then Some (s\<lparr>programs := (programs s)(pn \<mapsto> p\<lparr>prog_refcount := prog_refcount p - 1\<rparr>)\<rparr>)
     else do {
       assert_that (prog_kernels p = []);
       Some (s\<lparr>programs := (programs s)(pn := None)\<rparr>)}}"

definition clReleaseKernel :: "nat \<Rightarrow> host_state \<Rightarrow> host_state option" where
  "clReleaseKernel kn s = do {
     k \<leftarrow> kernels s kn;
     assert_that (k_refcount k > 0);
     if k_refcount k - 1 \<noteq> 0
     then Some (s\<lparr>kernels := (kernels s)(kn \<mapsto> k\<lparr>k_refcount := k_refcount k - 1\<rparr>)\<rparr>)
     else do {
       p \<leftarrow> programs s (k_program k);
       assert_that (kn \<in> set (prog_kernels p));
       clReleaseProgram (k_program k)
         (s\<lparr>kernels := (kernels s)(kn := None),
           programs := (programs s)(k_program k \<mapsto> p\<lparr>prog_kernels := remove1 kn (prog_kernels p)\<rparr>)\<rparr>)}}"

section \<open>Setting arguments\<close>

definition set_arg_check :: "pocl_argument_info \<Rightarrow> size_t \<Rightarrow> bytes option \<Rightarrow> cl_error" where
  "set_arg_check pi sz v =
     (let is_local = ARGP_IS_LOCAL pi;
          object = ai_type pi = POCL_ARG_TYPE_POINTER \<or> ai_type pi = POCL_ARG_TYPE_IMAGE \<or> ai_type pi = POCL_ARG_TYPE_SAMPLER;
          as = (if sz mod 3 = 0 then sz div 3 * 4 else sz)
      in first_error
       [(v \<noteq> None \<and> is_local, CL_INVALID_ARG_VALUE),
        (v = None \<and> \<not> is_local \<and> ai_type pi \<noteq> POCL_ARG_TYPE_POINTER, CL_INVALID_ARG_VALUE),
        (sz = 0 \<and> is_local, CL_INVALID_ARG_SIZE),
        (ai_type pi = POCL_ARG_TYPE_SAMPLER \<and> v = None, CL_INVALID_SAMPLER),
        (object \<and> \<not> is_local \<and> sz \<noteq> 8, CL_INVALID_ARG_SIZE),
        (\<not> object \<and> ai_type_size pi \<noteq> 0 \<and> ucast (ai_type_size pi) \<noteq> as, CL_INVALID_ARG_SIZE)])"

text \<open>
  \<open>pocl_aligned_malloc\<close>: the size of the block, rounded up to a multiple of the alignment, or \<open>NULL\<close> (inner
  \<^const>\<open>None\<close>) where it cannot be allocated; an alignment of 0 fails its assertion. \<open>malloc_ok\<close> tells whether a
  block of the given size can be allocated.
\<close>

definition pocl_aligned_malloc :: "(size_t \<Rightarrow> bool) \<Rightarrow> size_t \<Rightarrow> size_t \<Rightarrow> size_t option option" where
  "pocl_aligned_malloc malloc_ok alignment n = do {
     assert_that (alignment > 0);
     let block = (if n AND (alignment - 1) \<noteq> 0 then (n OR (alignment - 1)) + 1 else n);
     Some (if malloc_ok block then Some block else None)}"

text \<open>The alignment and the requested size of the block for an argument of \<open>n\<close> bytes.\<close>

definition arg_alignment :: "size_t \<Rightarrow> size_t" where
  "arg_alignment n =
     (let a = pocl_size_ceil2 n in if a \<ge> MAX_EXTENDED_ALIGNMENT then MAX_EXTENDED_ALIGNMENT else a)"

definition arg_alloc_size :: "size_t \<Rightarrow> size_t" where
  "arg_alloc_size n = (if n < arg_alignment n then arg_alignment n else n)"

text \<open>
  \<open>v\<close> is the memory \<open>arg_value\<close> points to. The first clause of the test reads the low 32 bits of a pointer as an
  \<open>int\<close>. The alignment of a value of 0 bytes, which passes the checks where the declared size is 0 too, is 0.
\<close>

definition set_argument ::
  "(size_t \<Rightarrow> bool) \<Rightarrow> pocl_argument_info \<Rightarrow> size_t \<Rightarrow> bytes option \<Rightarrow> pocl_argument \<Rightarrow> (cl_error \<times> pocl_argument) option" where
  "set_argument malloc_ok pi sz v p =
     (let p = p\<lparr>is_set := False\<rparr> in
      case v of
        None \<Rightarrow> Some (CL_SUCCESS, p\<lparr>arg_value := None, arg_size := sz, is_set := True\<rparr>)
      | Some bs \<Rightarrow> do {
          assert_that (unat sz \<le> length bs);
          if ai_type pi = POCL_ARG_TYPE_POINTER \<and> le_value (take 4 bs) = (0 :: 32 word)
          then Some (CL_SUCCESS, p\<lparr>arg_value := None, arg_size := sz, is_set := True\<rparr>)
          else do {
            value \<leftarrow> pocl_aligned_malloc malloc_ok (arg_alignment sz) (arg_alloc_size sz);
            (case value of
               None \<Rightarrow> Some (CL_OUT_OF_HOST_MEMORY, p\<lparr>arg_value := None\<rparr>)
             | Some block \<Rightarrow> do {
                 assert_that (sz \<le> block);
                 Some (CL_SUCCESS, p\<lparr>arg_value := Some (take (unat sz) bs), arg_size := sz, is_set := True\<rparr>)})}})"

definition clSetKernelArg ::
  "(size_t \<Rightarrow> bool) \<Rightarrow> nat option \<Rightarrow> cl_uint \<Rightarrow> size_t \<Rightarrow> bytes option \<Rightarrow> host_state \<Rightarrow> (cl_error \<times> host_state) option" where
  "clSetKernelArg malloc_ok krn arg_index sz v s =
     (case krn of None \<Rightarrow> Some (CL_INVALID_KERNEL, s) | Some kn \<Rightarrow> do {
        k \<leftarrow> kernels s kn;
        if arg_index \<ge> num_args (k_meta k) then Some (CL_INVALID_ARG_INDEX, s)
        else do {
          let i = unat arg_index;
          let pi = arg_info (k_meta k) ! i;
          let err = set_arg_check pi sz v;
          if err \<noteq> CL_SUCCESS then Some (err, s)
          else do {
            (err, p) \<leftarrow> set_argument malloc_ok pi sz v (dyn_arguments k ! i);
            Some (err, s\<lparr>kernels := (kernels s)(kn \<mapsto> k\<lparr>dyn_arguments := (dyn_arguments k)[i := p]\<rparr>)\<rparr>)}}})"

text \<open>
  A shared virtual memory pointer is wrapped in a new memory object without device pointers.
  \<open>svm\<close> tells whether the context has a device with shared virtual memory.
\<close>

definition svm_object :: "nat \<Rightarrow> size_t \<Rightarrow> cl_mem" where
  "svm_object ctx ptr =
     \<lparr>mem_context = ctx, mem_size = MAX_EXTENDED_ALIGNMENT, mem_origin = 0, mem_parent = None,
      mem_flags = or CL_MEM_USE_HOST_PTR CL_MEM_READ_WRITE, mem_type = BUFFER, mem_image = None,
      mem_ptr = 0, mem_host_ptr = ptr, mem_refcount = 1\<rparr>"

definition obj_value :: "nat \<Rightarrow> bytes" where
  "obj_value b = le_bytes 8 (of_nat b :: 64 word)"

definition obj_of :: "bytes \<Rightarrow> nat" where
  "obj_of v = unat (le_value v :: 64 word)"

definition clSetKernelArgSVMPointer ::
  "(size_t \<Rightarrow> bool) \<Rightarrow> bool \<Rightarrow> nat option \<Rightarrow> cl_uint \<Rightarrow> size_t \<Rightarrow> host_state \<Rightarrow> (cl_error \<times> host_state) option" where
  "clSetKernelArgSVMPointer malloc_ok svm krn arg_index ptr s =
     (case krn of None \<Rightarrow> Some (CL_INVALID_VALUE, s) | Some kn \<Rightarrow> do {
        k \<leftarrow> kernels s kn;
        if \<not> svm then Some (CL_INVALID_CONTEXT, s)
        else do {
          let b = next_obj (buffers s);
          let m = (buffers s)\<lparr>next_obj := b + 1, objs := (objs (buffers s))(b \<mapsto> svm_object (k_context k) ptr)\<rparr>;
          clSetKernelArg malloc_ok krn arg_index 8 (Some (obj_value b)) (s\<lparr>buffers := m\<rparr>)}})"

section \<open>Samplers and images as the device sees them\<close>

definition CL_ADDRESS_NONE :: cl_uint where "CL_ADDRESS_NONE = 0x1130"
definition CL_ADDRESS_CLAMP_TO_EDGE :: cl_uint where "CL_ADDRESS_CLAMP_TO_EDGE = 0x1131"
definition CL_ADDRESS_CLAMP :: cl_uint where "CL_ADDRESS_CLAMP = 0x1132"
definition CL_ADDRESS_REPEAT :: cl_uint where "CL_ADDRESS_REPEAT = 0x1133"
definition CL_ADDRESS_MIRRORED_REPEAT :: cl_uint where "CL_ADDRESS_MIRRORED_REPEAT = 0x1134"
definition CL_FILTER_NEAREST :: cl_uint where "CL_FILTER_NEAREST = 0x1140"
definition CL_FILTER_LINEAR :: cl_uint where "CL_FILTER_LINEAR = 0x1141"

text \<open>\<open>image_support\<close> lists the flags of the context's devices.\<close>

definition clCreateSampler ::
  "nat option \<Rightarrow> cl_uint list \<Rightarrow> cl_uint \<Rightarrow> cl_uint \<Rightarrow> cl_uint \<Rightarrow> bool \<Rightarrow> cl_error + cl_sampler" where
  "clCreateSampler ctx image_support normalized addressing filter_m malloc_ok =
     (let err = first_error
        [(ctx = None, CL_INVALID_CONTEXT),
         (sum_list (map ucast image_support :: size_t list) = 0, CL_INVALID_OPERATION),
         (normalized \<noteq> 1 \<and> normalized \<noteq> 0, CL_INVALID_VALUE),
         (normalized \<noteq> 1 \<and> addressing = CL_ADDRESS_MIRRORED_REPEAT, CL_INVALID_VALUE),
         (normalized \<noteq> 1 \<and> addressing = CL_ADDRESS_REPEAT, CL_INVALID_VALUE),
         (\<not> malloc_ok, CL_OUT_OF_HOST_MEMORY)]
      in if err \<noteq> CL_SUCCESS then Inl err
      else Inr \<lparr>normalized_coords = normalized, addressing_mode = addressing, filter_mode = filter_m\<rparr>)"

text \<open>The bits of \<open>_kernel_constants.h\<close>.\<close>

definition fill_dev_sampler_t :: "cl_sampler \<Rightarrow> size_t" where
  "fill_dev_sampler_t sampler =
     (let ds = (if normalized_coords sampler = 1 then 0x01 else 0x00);
          a = addressing_mode sampler;
          ds = (if a = CL_ADDRESS_NONE then ds OR 0x00
                else if a = CL_ADDRESS_CLAMP_TO_EDGE then ds OR 0x02
                else if a = CL_ADDRESS_CLAMP then ds OR 0x04
                else if a = CL_ADDRESS_REPEAT then ds OR 0x06
                else if a = CL_ADDRESS_MIRRORED_REPEAT then ds OR 0x08
                else ds);
          f = filter_mode sampler
      in if f = CL_FILTER_NEAREST then ds OR 0x10
         else if f = CL_FILTER_LINEAR then ds OR 0x20
         else ds)"

text \<open>\<open>pocl_get_image_information\<close>: the number of channels and the bytes of an element.\<close>

definition channel_type_size :: "cl_uint \<Rightarrow> cl_uint" where
  "channel_type_size ch_type =
     (if ch_type \<in> {0x10D0, 0x10D2, 0x10D7, 0x10DA} then 1
      else if ch_type \<in> {0x10DC, 0x10D9, 0x10DE, 0x10D6} then 4
      else if ch_type \<in> {0x10D1, 0x10D3, 0x10D8, 0x10DB, 0x10D5, 0x10D4, 0x10DD} then 2
      else 0)"

definition channel_count :: "cl_uint \<Rightarrow> cl_uint" where
  "channel_count ch_order =
     (if ch_order \<in> {0x10B4, 0x10BC, 0x10B0, 0x10BA, 0x10B1} then 1
      else if ch_order \<in> {0x10B2, 0x10BB, 0x10B3} then 2
      else 4)"

definition pocl_get_image_information :: "cl_uint \<Rightarrow> cl_uint \<Rightarrow> cl_uint \<times> cl_uint" where
  "pocl_get_image_information ch_order ch_type = (channel_count ch_order, channel_type_size ch_type)"

record dev_image_t =
  di_data :: size_t
  di_width :: cl_uint
  di_height :: cl_uint
  di_depth :: cl_uint
  di_image_array_size :: cl_uint
  di_row_pitch :: cl_uint
  di_slice_pitch :: cl_uint
  di_order :: cl_uint
  di_data_type :: cl_uint
  di_num_channels :: cl_uint
  di_elem_size :: cl_uint

definition fill_dev_image_t :: "mem_state \<Rightarrow> nat \<Rightarrow> dev_image_t option" where
  "fill_dev_image_t s b = do {
     m \<leftarrow> objs s b;
     i \<leftarrow> mem_image m;
     let (channels, elem_size) = pocl_get_image_information (img_channel_order i) (img_channel_data_type i);
     d \<leftarrow> (if mem_type m = IMAGE1D_BUFFER then img_buffer i else Some b);
     dm \<leftarrow> objs s d;
     assert_that (mem_ptr dm \<noteq> 0);
     Some \<lparr>di_data = mem_ptr dm, di_width = ucast (img_width i), di_height = ucast (img_height i),
       di_depth = ucast (img_depth i), di_image_array_size = ucast (img_array_size i),
       di_row_pitch = ucast (img_row_pitch i), di_slice_pitch = ucast (img_slice_pitch i),
       di_order = img_channel_order i, di_data_type = img_channel_data_type i,
       di_num_channels = channels, di_elem_size = elem_size\<rparr>}"

section \<open>Argument arrays\<close>

text \<open>
  What the kernel finds in a slot: no argument, a pointer stored behind \<open>arguments[i]\<close> (into \<open>arguments2\<close> or a
  block of its own), the copied value itself, an image description, a sampler, or the size of a local block
  that the work-group function allocates.
\<close>

datatype arg_slot =
  No_Slot
| Ptr_Slot (slot_ptr: size_t)
| Value_Slot "bytes option"
| Image_Slot dev_image_t
| Sampler_Slot size_t
| Size_Slot size_t

definition set_sampler_slot :: "host_state \<Rightarrow> pocl_argument \<Rightarrow> arg_slot option" where
  "set_sampler_slot s al = do {
     v \<leftarrow> arg_value al;
     sampler \<leftarrow> samplers s (obj_of v);
     Some (Sampler_Slot (fill_dev_sampler_t sampler))}"

definition set_image_slot :: "host_state \<Rightarrow> pocl_argument \<Rightarrow> arg_slot option" where
  "set_image_slot s al = do {
     v \<leftarrow> arg_value al;
     di \<leftarrow> fill_dev_image_t (buffers s) (obj_of v);
     Some (Image_Slot di)}"

definition pthread_slot :: "host_state \<Rightarrow> pocl_argument_info \<times> pocl_argument \<Rightarrow> arg_slot option" where
  "pthread_slot s a =
     (case a of (ai, al) \<Rightarrow>
        if ARGP_IS_LOCAL ai then Some No_Slot
        else if ai_type ai = POCL_ARG_TYPE_POINTER
        then (case arg_value al of
                None \<Rightarrow> Some (Ptr_Slot 0)
              | Some v \<Rightarrow> do {
                  m \<leftarrow> objs (buffers s) (obj_of v);
                  Some (Ptr_Slot ((if mem_ptr m \<noteq> 0 then mem_ptr m else mem_host_ptr m) + arg_offset al))})
        else if ai_type ai = POCL_ARG_TYPE_IMAGE then set_image_slot s al
        else if ai_type ai = POCL_ARG_TYPE_SAMPLER then set_sampler_slot s al
        else Some (Value_Slot (arg_value al)))"

fun map_opt :: "('a \<Rightarrow> 'b option) \<Rightarrow> 'a list \<Rightarrow> 'b list option" where
  "map_opt f [] = Some []"
| "map_opt f (x # xs) = do {y \<leftarrow> f x; ys \<leftarrow> map_opt f xs; Some (y # ys)}"

definition setup_kernel_arg_array ::
  "host_state \<Rightarrow> pocl_argument_info list \<Rightarrow> pocl_argument list \<Rightarrow> arg_slot list option" where
  "setup_kernel_arg_array s infos args = map_opt (pthread_slot s) (zip infos args)"

definition align_ptr :: "size_t \<Rightarrow> size_t" where
  "align_ptr p =
     (if p AND (MAX_EXTENDED_ALIGNMENT - 1) \<noteq> 0
      then (p AND NOT (MAX_EXTENDED_ALIGNMENT - 1)) + MAX_EXTENDED_ALIGNMENT
      else p)"

text \<open>One local block: its start, and the start of the next one.\<close>

definition local_block :: "size_t \<Rightarrow> size_t \<Rightarrow> size_t \<Rightarrow> size_t \<Rightarrow> size_t option" where
  "local_block local_mem local_mem_size start sz =
     (let start = align_ptr (start + sz)
      in if start - local_mem \<le> local_mem_size then Some start else None)"

fun place_locals :: "size_t \<Rightarrow> size_t \<Rightarrow> size_t list \<Rightarrow> size_t \<Rightarrow> size_t list option" where
  "place_locals local_mem local_mem_size [] start = Some []"
| "place_locals local_mem local_mem_size (sz # szs) start = do {
     next_start \<leftarrow> local_block local_mem local_mem_size start sz;
     rest \<leftarrow> place_locals local_mem local_mem_size szs next_start;
     Some (start # rest)}"

text \<open>
  The slots of the local arguments are filled with consecutive blocks; the blocks of the automatic local
  variables follow as additional arguments.
\<close>

fun fill_locals :: "pocl_argument_info list \<Rightarrow> arg_slot list \<Rightarrow> size_t list \<Rightarrow> arg_slot list" where
  "fill_locals (ai # infos) (sl # slots) starts =
     (if ARGP_IS_LOCAL ai
      then case starts of [] \<Rightarrow> sl # slots | st # starts \<Rightarrow> Ptr_Slot st # fill_locals infos slots starts
      else sl # fill_locals infos slots starts)"
| "fill_locals infos slots starts = slots @ map Ptr_Slot starts"

definition local_arg_sizes :: "pocl_argument_info list \<Rightarrow> pocl_argument list \<Rightarrow> size_t list" where
  "local_arg_sizes infos args = map (arg_size \<circ> snd) (filter (ARGP_IS_LOCAL \<circ> fst) (zip infos args))"

definition setup_kernel_arg_array_with_locals ::
  "bool \<Rightarrow> pocl_kernel_metadata \<Rightarrow> pocl_argument list \<Rightarrow> arg_slot list \<Rightarrow> size_t \<Rightarrow> size_t \<Rightarrow> arg_slot list option" where
  "setup_kernel_arg_array_with_locals device_alloca_locals meta args slots local_mem local_mem_size =
     (if device_alloca_locals
      then Some (map (\<lambda>((ai, al), sl). if ARGP_IS_LOCAL ai then Size_Slot (arg_size al) else sl)
                   (zip (zip (arg_info meta) args) slots))
      else do {
        starts \<leftarrow> place_locals local_mem local_mem_size
          (local_arg_sizes (arg_info meta) args @ take (unat (num_locals meta)) (local_sizes meta)) local_mem;
        Some (fill_locals (arg_info meta) slots starts)})"

text \<open>
  The argument set-up of \<open>pocl_basic_run\<close>: every local block is allocated on its own; \<open>mallocs\<close> are the addresses
  that \<open>pocl_aligned_malloc\<close> returns for them, in the order of the calls.
\<close>

definition basic_slot :: "host_state \<Rightarrow> pocl_argument_info \<times> pocl_argument \<Rightarrow> arg_slot option" where
  "basic_slot s a =
     (case a of (ai, al) \<Rightarrow>
        if ARGP_IS_LOCAL ai then Some (Size_Slot (arg_size al))
        else if ai_type ai = POCL_ARG_TYPE_POINTER
        then (case arg_value al of
                None \<Rightarrow> Some (Ptr_Slot 0)
              | Some v \<Rightarrow> do {
                  m \<leftarrow> objs (buffers s) (obj_of v);
                  assert_that (mem_ptr m \<noteq> 0);
                  Some (Ptr_Slot (mem_ptr m + arg_offset al))})
        else if ai_type ai = POCL_ARG_TYPE_IMAGE then set_image_slot s al
        else if ai_type ai = POCL_ARG_TYPE_SAMPLER then set_sampler_slot s al
        else Some (Value_Slot (arg_value al)))"

definition basic_arguments ::
  "bool \<Rightarrow> size_t list \<Rightarrow> host_state \<Rightarrow> pocl_kernel_metadata \<Rightarrow> pocl_argument list \<Rightarrow> arg_slot list option" where
  "basic_arguments device_alloca_locals mallocs s meta args = do {
     slots \<leftarrow> map_opt (basic_slot s) (zip (arg_info meta) args);
     Some (if device_alloca_locals then slots else fill_locals (arg_info meta) slots mallocs)}"

end
