(* ===== verification/KernelLaunch.thy ===== *)
theory KernelLaunch
  imports KernelArgs LocalSize
begin

text \<open>
  Launching a kernel: \<open>clEnqueueNDRangeKernel\<close> validates the range and the arguments, retains the buffers and
  copies the arguments into the command; \<open>pocl_ndrange_node_cleanup\<close> ends the command.
\<close>

section \<open>The range\<close>

record nd_queue =
  nd_cmd_queue :: cmd_queue
  nd_device :: wg_device
  max_work_item_dimensions :: cl_uint

text \<open>An array of \<open>work_dim\<close> numbers; the missing ones are \<open>dflt\<close>.\<close>

definition read_dims :: "cl_uint \<Rightarrow> size_t \<Rightarrow> size3 \<Rightarrow> size3" where
  "read_dims work_dim dflt v =
     (case v of (x, y, z) \<Rightarrow> (x, if work_dim > 1 then y else dflt, if work_dim > 2 then z else dflt))"

definition dims_le :: "size3 \<Rightarrow> size3 \<Rightarrow> bool" where
  "dims_le a b = (case a of (ax, ay, az) \<Rightarrow> case b of (bx, by, bz) \<Rightarrow> ax \<le> bx \<and> ay \<le> by \<and> az \<le> bz)"

definition dims_mod :: "size3 \<Rightarrow> size3 \<Rightarrow> size3" where
  "dims_mod a b = (case a of (ax, ay, az) \<Rightarrow> case b of (bx, by, bz) \<Rightarrow> (ax mod bx, ay mod by, az mod bz))"

definition dims_div :: "size3 \<Rightarrow> size3 \<Rightarrow> size3" where
  "dims_div a b = (case a of (ax, ay, az) \<Rightarrow> case b of (bx, by, bz) \<Rightarrow> (ax div bx, ay div by, az div bz))"

definition any_zero :: "size3 \<Rightarrow> bool" where
  "any_zero a = (case a of (ax, ay, az) \<Rightarrow> ax = 0 \<or> ay = 0 \<or> az = 0)"

text \<open>
  The checks of a given local size; the remainders are taken one after the other, and a zero divisor
  before the first failing one is a division by zero.
\<close>

definition divides_check :: "size3 \<Rightarrow> size3 \<Rightarrow> cl_error option" where
  "divides_check global local =
     (case global of (gx, gy, gz) \<Rightarrow> case local of (lx, ly, lz) \<Rightarrow>
        if lx = 0 then None
        else if gx mod lx \<noteq> 0 then Some CL_INVALID_WORK_GROUP_SIZE
        else if ly = 0 then None
        else if gy mod ly \<noteq> 0 then Some CL_INVALID_WORK_GROUP_SIZE
        else if lz = 0 then None
        else if gz mod lz \<noteq> 0 then Some CL_INVALID_WORK_GROUP_SIZE
        else Some CL_SUCCESS)"

definition local_size_check :: "cl_uint \<Rightarrow> wg_device \<Rightarrow> size3 \<Rightarrow> size3 \<Rightarrow> cl_error option" where
  "local_size_check work_dim dev global local =
     (case local of (lx, ly, lz) \<Rightarrow> case read_dims work_dim 1 (max_item_sizes dev) of (mx, my, mz) \<Rightarrow>
      let err = first_error
        [(lx * ly * lz > max_work_group_size dev, CL_INVALID_WORK_GROUP_SIZE),
         (lx > mx, CL_INVALID_WORK_ITEM_SIZE),
         (work_dim > 1 \<and> ly > my, CL_INVALID_WORK_ITEM_SIZE),
         (work_dim > 2 \<and> lz > mz, CL_INVALID_WORK_ITEM_SIZE)]
      in if err \<noteq> CL_SUCCESS then Some err else divides_check global local)"

text \<open>
  The local size of a launch, or an error: the given one, or the one the device's heuristic picks, with
  the rule for a required work-group size and the assertions that follow.
\<close>

definition choose_local ::
  "cl_uint \<Rightarrow> wg_device \<Rightarrow> size3 \<Rightarrow> size3 \<Rightarrow> size3 option \<Rightarrow> (cl_error + size3) option" where
  "choose_local work_dim dev reqd global local_work_size = do {
     err \<leftarrow> (case local_work_size of
               None \<Rightarrow> Some CL_SUCCESS
             | Some l \<Rightarrow> local_size_check work_dim dev global (read_dims work_dim 1 l));
     if err \<noteq> CL_SUCCESS then Some (Inl err)
     else if \<not> any_zero reqd \<and> (local_work_size = None \<or> read_dims work_dim 1 (the local_work_size) \<noteq> reqd)
     then Some (Inl CL_INVALID_WORK_GROUP_SIZE)
     else do {
       local \<leftarrow> (case local_work_size of
                   None \<Rightarrow> pocl_default_local_size_optimizer dev global
                 | Some l \<Rightarrow> Some (read_dims work_dim 1 l));
       assert_that (vol local \<le> max_work_group_size dev);
       assert_that (dims_le local (read_dims work_dim 1 (max_item_sizes dev)));
       assert_that (\<not> any_zero local \<and> dims_mod global local = (0, 0, 0));
       Some (Inr local)}}"

section \<open>The arguments\<close>

definition uses_buffer :: "pocl_argument_info \<Rightarrow> pocl_argument \<Rightarrow> bool" where
  "uses_buffer a al \<longleftrightarrow> ai_type a = POCL_ARG_TYPE_IMAGE \<or>
     (\<not> ARGP_IS_LOCAL a \<and> ai_type a = POCL_ARG_TYPE_POINTER \<and> arg_value al \<noteq> None)"

text \<open>
  A buffer or image argument: its error, or the object to keep, with the argument after a sub-buffer has
  been replaced by its parent.
\<close>

definition resolve_argument ::
  "cmd_queue \<Rightarrow> mem_state \<Rightarrow> pocl_argument_info \<Rightarrow> pocl_argument \<Rightarrow> (cl_error \<times> nat \<times> pocl_argument) option" where
  "resolve_argument q s a al = do {
     v \<leftarrow> arg_value al;
     let b = obj_of v;
     m \<leftarrow> objs s b;
     if ai_type a = POCL_ARG_TYPE_IMAGE
     then if \<not> q_image_support q then Some (CL_INVALID_OPERATION, b, al)
       else do {
         i \<leftarrow> mem_image m;
         Some (first_error (unsupported_image q i), b, al)}
     else if on_sub_misalign q m then Some (CL_MISALIGNED_SUB_BUFFER_OFFSET, b, al)
     else do {
       let (r, al) = (case mem_parent m of
                        None \<Rightarrow> (b, al\<lparr>arg_offset := 0\<rparr>)
                      | Some p \<Rightarrow> (p, al\<lparr>arg_value := Some (obj_value p), arg_offset := mem_origin m\<rparr>));
       rm \<leftarrow> objs s r;
       Some (if mem_size rm > q_max_mem_alloc_size q then CL_OUT_OF_RESOURCES else CL_SUCCESS, r, al)}}"

text \<open>
  The loop over the arguments: the result has the error, the arguments as they are left in the kernel
  object, and the objects that have been retained.
\<close>

fun collect_arguments ::
  "cmd_queue \<Rightarrow> (pocl_argument_info \<times> pocl_argument) list \<Rightarrow> mem_state \<Rightarrow>
   (cl_error \<times> pocl_argument list \<times> nat list \<times> mem_state) option" where
  "collect_arguments q [] s = Some (CL_SUCCESS, [], [], s)"
| "collect_arguments q ((a, al) # rest) s =
     (if \<not> is_set al then Some (CL_INVALID_KERNEL_ARGS, al # map snd rest, [], s)
      else if \<not> uses_buffer a al then do {
        (err, als, bs, s) \<leftarrow> collect_arguments q rest s;
        Some (err, al # als, bs, s)}
      else do {
        (err, b, al) \<leftarrow> resolve_argument q s a al;
        if err \<noteq> CL_SUCCESS then Some (err, al # map snd rest, [], s)
        else do {
          s \<leftarrow> clRetainMemObject b s;
          (err, als, bs, s) \<leftarrow> collect_arguments q rest s;
          Some (err, al # als, b # bs, s)}})"

section \<open>The launch\<close>

record launch =
  l_kernel :: nat
  l_meta :: pocl_kernel_metadata
  l_pc :: pocl_context
  l_work_dim :: cl_uint
  l_arguments :: "pocl_argument list"
  l_mem_objs :: "nat list"

record launch_state =
  host :: host_state
  launches :: "launch list"

text \<open>
  The copy of an argument in the command, in a block from \<open>pocl_aligned_malloc\<close> whose alignment has passed its
  assertion when the argument was set with the same size; an allocation that fails is not modelled here.
\<close>

definition copy_argument :: "pocl_argument \<Rightarrow> pocl_argument" where
  "copy_argument al =
     \<lparr>arg_size = arg_size al, arg_offset = arg_offset al,
      arg_value = map_option (take (unat (arg_size al))) (arg_value al), is_set = is_set al\<rparr>"

definition put_kernel :: "nat \<Rightarrow> cl_kernel \<Rightarrow> host_state \<Rightarrow> host_state" where
  "put_kernel kn k h = h\<lparr>kernels := (kernels h)(kn \<mapsto> k)\<rparr>"

definition clEnqueueNDRangeKernel ::
  "nd_queue option \<Rightarrow> nat option \<Rightarrow> cl_uint \<Rightarrow> size3 option \<Rightarrow> size3 option \<Rightarrow> size3 option \<Rightarrow> wait_list \<Rightarrow> launch_state \<Rightarrow>
   (cl_error \<times> launch_state) option" where
  "clEnqueueNDRangeKernel queue krn work_dim global_work_offset global_work_size local_work_size wl s =
     (case queue of None \<Rightarrow> Some (CL_INVALID_COMMAND_QUEUE, s) | Some nq \<Rightarrow>
      case krn of None \<Rightarrow> Some (CL_INVALID_KERNEL, s) | Some kn \<Rightarrow> do {
        k \<leftarrow> kernels (host s) kn;
        let q = nd_cmd_queue nq;
        let dev = nd_device nq;
        let err = first_error
          [(q_context q \<noteq> k_context k, CL_INVALID_CONTEXT),
           (pocl_check_event_wait_list q wl \<noteq> CL_SUCCESS, pocl_check_event_wait_list q wl),
           (work_dim < 1, CL_INVALID_WORK_DIMENSION),
           (work_dim > max_work_item_dimensions nq, CL_INVALID_WORK_DIMENSION)];
        if err \<noteq> CL_SUCCESS then Some (err, s)
        else do {
          assert_that (max_work_item_dimensions nq \<le> 3);
          let offset = (case global_work_offset of None \<Rightarrow> (0, 0, 0) | Some v \<Rightarrow> read_dims work_dim 0 v);
          gws \<leftarrow> global_work_size;
          let global = read_dims work_dim 1 gws;
          if any_zero global then Some (CL_INVALID_GLOBAL_WORK_SIZE, s)
          else do {
            chosen \<leftarrow> choose_local work_dim dev (reqd_wg_size (k_meta k)) global local_work_size;
            (case chosen of Inl err \<Rightarrow> Some (err, s) | Inr local \<Rightarrow> do {
               (err, als, bs, m) \<leftarrow> collect_arguments q (zip (arg_info (k_meta k)) (dyn_arguments k)) (buffers (host s));
               let k = k\<lparr>dyn_arguments := als\<rparr>;
               let h = put_kernel kn k ((host s)\<lparr>buffers := m\<rparr>);
               if err \<noteq> CL_SUCCESS then Some (err, s\<lparr>host := h\<rparr>)
               else do {
                 h \<leftarrow> clRetainKernel kn h;
                 Some (CL_SUCCESS, s\<lparr>host := h, launches := launches s @
                   [\<lparr>l_kernel = kn, l_meta = k_meta k,
                     l_pc = \<lparr>local_size = local, num_groups = dims_div global local, global_offset = offset\<rparr>,
                     l_work_dim = work_dim, l_arguments = map copy_argument als, l_mem_objs = bs\<rparr>]\<rparr>)}})}}})"

text \<open>
  The end of the oldest launch: the driver frees the copied arguments and releases the kernel
  (\<open>pocl_ndrange_node_cleanup\<close>), the event releases the memory objects (\<open>pocl_mem_objs_cleanup\<close>).
\<close>

definition pocl_ndrange_node_cleanup :: "launch \<Rightarrow> host_state \<Rightarrow> host_state option" where
  "pocl_ndrange_node_cleanup l h = clReleaseKernel (l_kernel l) h"

definition finish_launch :: "launch_state \<Rightarrow> launch_state option" where
  "finish_launch s =
     (case launches s of
        [] \<Rightarrow> None
      | l # ls \<Rightarrow> do {
          h \<leftarrow> pocl_ndrange_node_cleanup l (host s);
          m \<leftarrow> pocl_mem_objs_cleanup (l_mem_objs l) (buffers h);
          Some (s\<lparr>host := h\<lparr>buffers := m\<rparr>, launches := ls\<rparr>)})"

section \<open>The range of an accepted launch\<close>

lemma read_dims_triple [simp]:
  "read_dims wd d (x, y, z) = (x, if wd > 1 then y else d, if wd > 2 then z else d)"
  by (simp add: read_dims_def)

lemma dims_triples [simp]:
  "dims_le (ax, ay, az) (bx, by', bz) \<longleftrightarrow> ax \<le> bx \<and> ay \<le> by' \<and> az \<le> bz"
  "dims_mod (ax, ay, az) (bx, by', bz) = (ax mod bx, ay mod by', az mod bz)"
  "dims_div (ax, ay, az) (bx, by', bz) = (ax div bx, ay div by', az div bz)"
  "any_zero (ax, ay, az) \<longleftrightarrow> ax = 0 \<or> ay = 0 \<or> az = 0"
  by (simp_all add: dims_le_def dims_mod_def dims_div_def any_zero_def)

lemma divides_check_triple:
  "divides_check (gx, gy, gz) (lx, ly, lz) = Some CL_SUCCESS \<longleftrightarrow>
     \<not> any_zero (lx, ly, lz) \<and> dims_mod (gx, gy, gz) (lx, ly, lz) = (0, 0, 0)"
  "\<not> any_zero (lx, ly, lz) \<Longrightarrow> divides_check (gx, gy, gz) (lx, ly, lz) \<noteq> None"
  by (auto simp: divides_check_def)

lemma nat_vol_le_vol:
  assumes "dims_le l m" and "nat_vol m < 2 ^ 64"
  shows "unat (vol l) = nat_vol l"
proof -
  obtain lx ly lz mx my mz where e: "l = (lx, ly, lz)" "m = (mx, my, mz)" by (cases l; cases m) auto
  have "nat_vol l \<le> nat_vol m"
    using assms(1) unfolding e by (auto simp: word_le_nat_alt intro!: mult_mono)
  then show ?thesis using assms(2) by (intro vol_nat) (rule le_less_trans)
qed

text \<open>The legal sizes of \<open>LocalSize\<close> in terms of the checks of the launch.\<close>

lemma legal_local_iff:
  assumes "nat_vol (max_item_sizes dev) < 2 ^ 64"
  shows "legal_local dev global l \<longleftrightarrow> \<not> any_zero l \<and> dims_le l (max_item_sizes dev) \<and>
    dims_mod global l = (0, 0, 0) \<and> vol l \<le> max_work_group_size dev"
proof -
  obtain lx ly lz gx gy gz mx my mz where e: "l = (lx, ly, lz)" "global = (gx, gy, gz)" "max_item_sizes dev = (mx, my, mz)"
    by (cases l; cases global; cases "max_item_sizes dev") auto
  have "dims_le l (max_item_sizes dev) \<Longrightarrow> nat_vol l \<le> unat (max_work_group_size dev) \<longleftrightarrow> vol l \<le> max_work_group_size dev"
    using nat_vol_le_vol [OF _ assms, of l] by (simp add: word_le_nat_alt)
  then show ?thesis
    by (auto simp: legal_local_def e dim_ok_def word_le_nat_alt unat_gt_0 mod_0_dvd)
qed

lemma read_dims_le:
  assumes "all_pos m" and "1 \<le> wd"
  shows "dims_le (read_dims wd 1 l) (read_dims wd 1 m) \<longleftrightarrow> dims_le (read_dims wd 1 l) m"
proof -
  obtain lx ly lz mx my mz where e: "l = (lx, ly, lz)" "m = (mx, my, mz)" by (cases l; cases m) auto
  have "1 \<le> my" "1 \<le> mz" using assms(1) by (auto simp: e all_pos_def word_le_nat_alt)
  then show ?thesis by (auto simp: e)
qed

lemma local_size_check_cases:
  assumes "max_item_sizes dev = (mx, my, mz)"
  shows "local_size_check wd dev global (kx, ky, kz) =
    (if kx * ky * kz > max_work_group_size dev then Some CL_INVALID_WORK_GROUP_SIZE
     else if \<not> (kx \<le> mx \<and> (1 < wd \<longrightarrow> ky \<le> my) \<and> (2 < wd \<longrightarrow> kz \<le> mz)) then Some CL_INVALID_WORK_ITEM_SIZE
     else divides_check global (kx, ky, kz))"
proof -
  have "\<not> 1 < wd \<Longrightarrow> \<not> 2 < wd" by (simp add: word_less_nat_alt)
  then show ?thesis
    by (simp add: local_size_check_def assms Let_def not_le)
qed

text \<open>The remainders come to a zero divisor, all components before it dividing the range.\<close>

definition zero_divisor :: "size3 \<Rightarrow> size3 \<Rightarrow> bool" where
  "zero_divisor global local =
     (case global of (gx, gy, gz) \<Rightarrow> case local of (lx, ly, lz) \<Rightarrow>
        lx = 0 \<or> gx mod lx = 0 \<and> (ly = 0 \<or> gy mod ly = 0 \<and> lz = 0))"

lemma divides_check_None: "divides_check global local = None \<longleftrightarrow> zero_divisor global local"
  by (cases global; cases local) (simp add: divides_check_def zero_divisor_def)

lemma zero_divisor_any_zero: "\<not> any_zero local \<Longrightarrow> \<not> zero_divisor global local"
  by (cases global; cases local) (auto simp: any_zero_def zero_divisor_def)

lemma local_size_check_legal:
  assumes m: "all_pos (max_item_sizes dev)" "nat_vol (max_item_sizes dev) < 2 ^ 64" and wd: "1 \<le> wd"
  shows "local_size_check wd dev global (read_dims wd 1 l) = Some CL_SUCCESS \<longleftrightarrow> legal_local dev global (read_dims wd 1 l)"
    and "\<not> any_zero (read_dims wd 1 l) \<Longrightarrow> local_size_check wd dev global (read_dims wd 1 l) \<noteq> None"
proof -
  obtain mx my mz where e: "max_item_sizes dev = (mx, my, mz)" by (cases "max_item_sizes dev") auto
  obtain gx gy gz where g: "global = (gx, gy, gz)" by (cases global) auto
  obtain kx ky kz where k: "read_dims wd 1 l = (kx, ky, kz)" by (cases "read_dims wd 1 l") auto
  have one: "1 \<le> my" "1 \<le> mz" "\<not> 1 < wd \<Longrightarrow> ky = 1" "\<not> 2 < wd \<Longrightarrow> kz = 1"
    using m(1) k by (auto simp: e all_pos_def word_le_nat_alt read_dims_def split: prod.splits if_splits)
  then have lim: "dims_le (kx, ky, kz) (mx, my, mz) \<longleftrightarrow> kx \<le> mx \<and> (1 < wd \<longrightarrow> ky \<le> my) \<and> (2 < wd \<longrightarrow> kz \<le> mz)"
    unfolding dims_triples by metis
  have v: "vol (kx, ky, kz) = kx * ky * kz" by (simp add: vol_def)
  have guards: "(if A then Some CL_INVALID_WORK_GROUP_SIZE else if \<not> B then Some CL_INVALID_WORK_ITEM_SIZE else D) =
      Some CL_SUCCESS \<longleftrightarrow> \<not> A \<and> B \<and> D = Some CL_SUCCESS" for A B D by simp
  show "local_size_check wd dev global (read_dims wd 1 l) = Some CL_SUCCESS \<longleftrightarrow> legal_local dev global (read_dims wd 1 l)"
    unfolding legal_local_iff [OF m(2)] k e lim v g local_size_check_cases [OF e] guards
      divides_check_triple(1) not_less by blast
  show "local_size_check wd dev global (read_dims wd 1 l) \<noteq> None" if "\<not> any_zero (read_dims wd 1 l)"
    using that divides_check_triple(2) [of kx ky kz gx gy gz]
    unfolding k g local_size_check_cases [OF e] by simp
qed

lemma local_size_check_zero:
  assumes m: "all_pos (max_item_sizes dev)" and z: "any_zero (read_dims wd 1 l)"
  shows "local_size_check wd dev global (read_dims wd 1 l) =
    (if dims_le (read_dims wd 1 l) (max_item_sizes dev) then divides_check global (read_dims wd 1 l)
     else Some CL_INVALID_WORK_ITEM_SIZE)"
proof -
  obtain mx my mz where e: "max_item_sizes dev = (mx, my, mz)" by (cases "max_item_sizes dev") auto
  obtain kx ky kz where k: "read_dims wd 1 l = (kx, ky, kz)" by (cases "read_dims wd 1 l") auto
  have one: "1 \<le> my" "1 \<le> mz" "\<not> 1 < wd \<Longrightarrow> ky = 1" "\<not> 2 < wd \<Longrightarrow> kz = 1"
    using m k by (auto simp: e all_pos_def word_le_nat_alt read_dims_def split: prod.splits if_splits)
  then have lim: "dims_le (kx, ky, kz) (mx, my, mz) \<longleftrightarrow> kx \<le> mx \<and> (1 < wd \<longrightarrow> ky \<le> my) \<and> (2 < wd \<longrightarrow> kz \<le> mz)"
    unfolding dims_triples by metis
  have "kx * ky * kz = 0" using z by (auto simp: k any_zero_def)
  then show ?thesis unfolding k e lim local_size_check_cases [OF e] by simp
qed

text \<open>
  C33: The local size of a launch, for a device with non-zero limits whose product fits \<open>size_t\<close>: a given size is
  accepted exactly if it is legal for the device (it divides the range and respects the limits) and equals the size
  the kernel requires, if it requires one. A size within the limits with a zero component, all components before
  which divide the range, makes the launch divide by zero; every other size makes it fail with an error. Without
  a given size the device's heuristic picks a legal one, for a range in which the heuristic's assertions hold
  (\<open>grain_fits\<close>), and a kernel with a required size is refused.
\<close>

theorem launch_local_size_exact:
  assumes "all_pos (max_item_sizes dev)" and "nat_vol (max_item_sizes dev) < 2 ^ 64" and "1 \<le> work_dim"
    and "global = read_dims work_dim 1 g" and "size_request_ok dev global" and "grain_fits dev global"
  shows "(if legal_local dev global (read_dims work_dim 1 l) \<and> (any_zero reqd \<or> read_dims work_dim 1 l = reqd)
      then choose_local work_dim dev reqd global (Some l) = Some (Inr (read_dims work_dim 1 l))
      else if dims_le (read_dims work_dim 1 l) (max_item_sizes dev) \<and> zero_divisor global (read_dims work_dim 1 l)
      then choose_local work_dim dev reqd global (Some l) = None
      else \<exists>err. err \<noteq> CL_SUCCESS \<and> choose_local work_dim dev reqd global (Some l) = Some (Inl err)) \<and>
    (if any_zero reqd
      then \<exists>local. choose_local work_dim dev reqd global None = Some (Inr local) \<and> legal_local dev global local
      else choose_local work_dim dev reqd global None = Some (Inl CL_INVALID_WORK_GROUP_SIZE))"
proof (intro conjI)
  note lim = assms(1-3)
  have asserts: "assert_that (vol k \<le> max_work_group_size dev) = Some ()"
      "assert_that (dims_le k (read_dims work_dim 1 (max_item_sizes dev))) = Some ()"
      "assert_that (\<not> any_zero k \<and> dims_mod global k = (0, 0, 0)) = Some ()"
    if k: "legal_local dev global k" and k': "k = read_dims work_dim 1 k" for k
  proof -
    note c = k [unfolded legal_local_iff [OF lim(2)]]
    have "dims_le k (read_dims work_dim 1 (max_item_sizes dev)) = dims_le k (max_item_sizes dev)"
      using read_dims_le [OF lim(1,3), of k] k' by simp
    then show "assert_that (vol k \<le> max_work_group_size dev) = Some ()"
      "assert_that (dims_le k (read_dims work_dim 1 (max_item_sizes dev))) = Some ()"
      "assert_that (\<not> any_zero k \<and> dims_mod global k = (0, 0, 0)) = Some ()"
      using c by (simp_all add: assert_that_def)
  qed
  have idem: "read_dims work_dim 1 l = read_dims work_dim 1 (read_dims work_dim 1 l)" by (cases l) simp
  let ?l = "read_dims work_dim 1 l"
  show "if legal_local dev global ?l \<and> (any_zero reqd \<or> ?l = reqd)
      then choose_local work_dim dev reqd global (Some l) = Some (Inr ?l)
      else if dims_le ?l (max_item_sizes dev) \<and> zero_divisor global ?l
      then choose_local work_dim dev reqd global (Some l) = None
      else \<exists>err. err \<noteq> CL_SUCCESS \<and> choose_local work_dim dev reqd global (Some l) = Some (Inl err)"
  proof (cases "legal_local dev global ?l")
    case True
    then have "local_size_check work_dim dev global ?l = Some CL_SUCCESS"
      by (simp add: local_size_check_legal(1) [OF lim])
    moreover have "\<not> zero_divisor global ?l"
      using True by (simp add: zero_divisor_any_zero legal_local_iff [OF lim(2)])
    ultimately show ?thesis using True
      by (cases "any_zero reqd \<or> ?l = reqd") (auto simp: choose_local_def asserts [OF True idem])
  next
    case illegal: False
    then have ok: "local_size_check work_dim dev global ?l \<noteq> Some CL_SUCCESS"
      by (simp add: local_size_check_legal(1) [OF lim])
    show ?thesis
    proof (cases "dims_le ?l (max_item_sizes dev) \<and> zero_divisor global ?l")
      case True
      then have "local_size_check work_dim dev global ?l = None"
        using local_size_check_zero [OF lim(1), of work_dim l global] zero_divisor_any_zero [of ?l global]
          divides_check_None [of global ?l] by auto
      then show ?thesis using illegal True by (simp add: choose_local_def)
    next
      case False
      then have "local_size_check work_dim dev global ?l \<noteq> None"
        using local_size_check_zero [OF lim(1), of work_dim l global] local_size_check_legal(2) [OF lim, of l global]
          divides_check_None [of global ?l] by (cases "any_zero ?l") auto
      then obtain err where "local_size_check work_dim dev global ?l = Some err" "err \<noteq> CL_SUCCESS"
        using ok by auto
      then show ?thesis using illegal False by (simp add: choose_local_def)
    qed
  qed
  show "if any_zero reqd
      then \<exists>local. choose_local work_dim dev reqd global None = Some (Inr local) \<and> legal_local dev global local
      else choose_local work_dim dev reqd global None = Some (Inl CL_INVALID_WORK_GROUP_SIZE)"
  proof (cases "any_zero reqd")
    case True
    obtain local where l: "pocl_default_local_size_optimizer dev global = Some local" "legal_local dev global local"
      using optimizer_legal [OF assms(5)] assms(6) by auto
    have "local = read_dims work_dim 1 local"
    proof -
      obtain gx gy gz lx ly lz where e: "g = (gx, gy, gz)" "local = (lx, ly, lz)" by (cases g; cases local) auto
      have "unat w dvd 1 \<Longrightarrow> w = (1 :: size_t)" for w by (metis dvd_1_iff_1 nat_dvd_1_iff_1 unat_1 unsigned_word_eqI)
      then show ?thesis
        using l(2) by (cases "max_item_sizes dev") (auto simp: assms(4) e legal_local_def dim_ok_def split: if_splits)
    qed
    from asserts [OF l(2) this] show ?thesis using l True by (simp add: choose_local_def)
  qed (simp add: choose_local_def)
qed

theorem launch_local_size_exact_witness:
  "choose_local 2
     \<lparr>max_item_sizes = (4096, 4096, 4096), preferred_wg_size_multiple = 8, max_work_group_size = 4096, max_compute_units = 4\<rparr>
     (0, 0, 0) (64, 48, 1) (Some (8, 16, 7)) = Some (Inr (8, 16, 1)) \<and>
   choose_local 2
     \<lparr>max_item_sizes = (4096, 4096, 4096), preferred_wg_size_multiple = 8, max_work_group_size = 4096, max_compute_units = 4\<rparr>
     (0, 0, 0) (64, 48, 1) (Some (8, 0, 7)) = None"
proof -
  let ?dev = "\<lparr>max_item_sizes = (4096, 4096, 4096), preferred_wg_size_multiple = 8, max_work_group_size = 4096, max_compute_units = 4\<rparr>"
  have "legal_local ?dev (64, 48, 1) (8, 16, 1)" by (simp add: legal_local_def dim_ok_def)
  moreover have req: "size_request_ok ?dev (64, 48, 1)" "grain_fits ?dev (64, 48, 1)" "all_pos (max_item_sizes ?dev)"
    by (simp_all add: size_request_ok_def grain_fits_def all_pos_def preferred_def)
  ultimately have legal: "choose_local 2 ?dev (0, 0, 0) (64, 48, 1) (Some (8, 16, 7)) = Some (Inr (8, 16, 1))"
    using launch_local_size_exact [of ?dev 2 "(64, 48, 1)" "(64, 48, 9)" "(8, 16, 7)" "(0, 0, 0)"] by simp
  have "\<not> legal_local ?dev (64, 48, 1) (8, 0, 1)" by (simp add: legal_local_def dim_ok_def)
  moreover have "zero_divisor (64, 48, 1) (8, 0, 1)" by (simp add: zero_divisor_def)
  ultimately have "choose_local 2 ?dev (0, 0, 0) (64, 48, 1) (Some (8, 0, 7)) = None"
    using req launch_local_size_exact [of ?dev 2 "(64, 48, 1)" "(64, 48, 9)" "(8, 0, 7)" "(0, 0, 0)"] by simp
  then show ?thesis using legal by blast
qed

end
