(* ===== verification/LaunchArgs.thy ===== *)
theory LaunchArgs
  imports KernelLaunch
begin

text \<open>
  The arguments of kernels and launches over all runs of an application: an argument always has the form its
  declaration asks for, and a launch has all its arguments.
\<close>

section \<open>Well-typed arguments\<close>

text \<open>
  The size rule for an argument that is no object: 3-vectors may also be given with the size of three elements,
  and a size of 0 in the declaration allows any size.
\<close>

definition size_matches :: "cl_uint \<Rightarrow> size_t \<Rightarrow> bool" where
  "size_matches decl sz \<longleftrightarrow> decl = 0 \<or> ucast decl = (if sz mod 3 = 0 then sz div 3 * 4 else sz)"

definition arg_typed :: "pocl_argument_info \<Rightarrow> pocl_argument \<Rightarrow> bool" where
  "arg_typed ai al \<longleftrightarrow>
     (is_set al \<longrightarrow>
       (if ARGP_IS_LOCAL ai then arg_value al = None \<and> arg_size al \<noteq> 0
        else if ai_type ai = POCL_ARG_TYPE_POINTER
        then arg_size al = 8 \<and> (case arg_value al of None \<Rightarrow> True | Some v \<Rightarrow> length v = 8)
        else (case arg_value al of
                None \<Rightarrow> False
              | Some v \<Rightarrow> length v = unat (arg_size al) \<and>
                  (if ai_type ai = POCL_ARG_TYPE_IMAGE \<or> ai_type ai = POCL_ARG_TYPE_SAMPLER
                   then arg_size al = 8 else size_matches (ai_type_size ai) (arg_size al)))))"

definition meta_ok :: "pocl_kernel_metadata \<Rightarrow> bool" where
  "meta_ok meta \<longleftrightarrow> length (arg_info meta) = unat (num_args meta)"

definition kernel_typed :: "cl_kernel \<Rightarrow> bool" where
  "kernel_typed k \<longleftrightarrow> meta_ok (k_meta k) \<and> list_all2 arg_typed (arg_info (k_meta k)) (dyn_arguments k)"

definition launch_typed :: "launch \<Rightarrow> bool" where
  "launch_typed l \<longleftrightarrow> meta_ok (l_meta l) \<and>
     list_all2 (\<lambda>ai al. is_set al \<and> arg_typed ai al) (arg_info (l_meta l)) (l_arguments l)"

definition host_typed :: "host_state \<Rightarrow> bool" where
  "host_typed h \<longleftrightarrow>
     (\<forall>pn p. programs h pn = Some p \<longrightarrow> list_all meta_ok (prog_meta p)) \<and>
     (\<forall>kn k. kernels h kn = Some k \<longrightarrow> kernel_typed k)"

definition state_typed :: "launch_state \<Rightarrow> bool" where
  "state_typed s \<longleftrightarrow> host_typed (host s) \<and> list_all launch_typed (launches s)"

lemma arg_types_distinct [simp]:
  "POCL_ARG_TYPE_POINTER \<noteq> POCL_ARG_TYPE_IMAGE" "POCL_ARG_TYPE_POINTER \<noteq> POCL_ARG_TYPE_SAMPLER"
  "POCL_ARG_TYPE_IMAGE \<noteq> POCL_ARG_TYPE_POINTER" "POCL_ARG_TYPE_SAMPLER \<noteq> POCL_ARG_TYPE_POINTER"
  by (simp_all add: POCL_ARG_TYPE_POINTER_def POCL_ARG_TYPE_IMAGE_def POCL_ARG_TYPE_SAMPLER_def)

lemma obj_value_length [simp]: "length (obj_value b) = 8"
  by (simp add: obj_value_def)

lemma unset_typed [simp]: "\<not> is_set al \<Longrightarrow> arg_typed ai al"
  by (simp add: arg_typed_def)

lemma typed_refcount [simp]: "kernel_typed (k\<lparr>k_refcount := n\<rparr>) = kernel_typed k"
  by (simp add: kernel_typed_def)

lemma typed_offset [simp]: "arg_typed ai (al\<lparr>arg_offset := n\<rparr>) = arg_typed ai al"
  by (cases "arg_value al") (simp_all add: arg_typed_def)

section \<open>Setting an argument keeps the types\<close>

lemma set_arg_check_success:
  assumes "set_arg_check ai sz v = CL_SUCCESS"
  shows "ARGP_IS_LOCAL ai \<Longrightarrow> v = None \<and> sz \<noteq> 0"
    and "\<not> ARGP_IS_LOCAL ai \<Longrightarrow> ai_type ai \<in> {POCL_ARG_TYPE_POINTER, POCL_ARG_TYPE_IMAGE, POCL_ARG_TYPE_SAMPLER} \<Longrightarrow> sz = 8"
    and "\<not> ARGP_IS_LOCAL ai \<Longrightarrow> ai_type ai \<noteq> POCL_ARG_TYPE_POINTER \<Longrightarrow> v \<noteq> None"
    and "ai_type ai \<notin> {POCL_ARG_TYPE_POINTER, POCL_ARG_TYPE_IMAGE, POCL_ARG_TYPE_SAMPLER} \<Longrightarrow> size_matches (ai_type_size ai) sz"
  using assms unfolding set_arg_check_def Let_def size_matches_def
  by (auto split: if_splits)

lemma set_argument_typed:
  assumes c: "set_arg_check ai sz v = CL_SUCCESS" and s: "set_argument malloc_ok ai sz v al = Some (err, al')"
  shows "arg_typed ai al'"
proof (cases v)
  case None
  then show ?thesis
    using s set_arg_check_success [OF c] by (auto simp: set_argument_def Let_def arg_typed_def)
next
  case (Some bs)
  then have local: "\<not> ARGP_IS_LOCAL ai" using set_arg_check_success(1) [OF c] by auto
  from Some s consider
      (null) "ai_type ai = POCL_ARG_TYPE_POINTER" "al' = al\<lparr>is_set := True, arg_value := None, arg_size := sz\<rparr>"
    | (oom) "\<not> is_set al'"
    | (copied) "unat sz \<le> length bs" "al' = al\<lparr>is_set := True, arg_value := Some (take (unat sz) bs), arg_size := sz\<rparr>"
    by (auto simp: set_argument_def Let_def assert_that_def bind_eq_Some_conv split: if_splits option.splits)
  then show ?thesis
  proof cases
    case null
    then show ?thesis using local set_arg_check_success(2) [OF c local] by (simp add: arg_typed_def)
  next
    case copied
    then show ?thesis
      using local set_arg_check_success(2,4) [OF c] by (auto simp: arg_typed_def)
  qed simp
qed

lemma clSetKernelArg_kernels:
  assumes "clSetKernelArg malloc_ok (Some kn) i sz v h = Some (err, h')"
  shows "h' = h \<or> (\<exists>k al. kernels h kn = Some k \<and> i < num_args (k_meta k) \<and>
    (meta_ok (k_meta k) \<longrightarrow> arg_typed (arg_info (k_meta k) ! unat i) al) \<and>
    h' = h\<lparr>kernels := (kernels h)(kn \<mapsto> k\<lparr>dyn_arguments := (dyn_arguments k)[unat i := al]\<rparr>)\<rparr>)"
proof -
  obtain k where k: "kernels h kn = Some k" using assms by (auto simp: clSetKernelArg_def bind_eq_Some_conv)
  show ?thesis
    using assms set_argument_typed
    unfolding clSetKernelArg_def option.case k bind.bind_lunit Let_def
    by (fastforce simp: bind_eq_Some_conv not_le split: if_splits)
qed

lemma put_kernel_typed:
  assumes "host_typed h" and "kernel_typed k"
  shows "host_typed (h\<lparr>kernels := (kernels h)(kn \<mapsto> k)\<rparr>)"
  using assms by (auto simp: host_typed_def)

lemma set_arg_typed:
  assumes "host_typed h" and "clSetKernelArg malloc_ok krn i sz v h = Some (err, h')"
  shows "host_typed h'"
proof (cases krn)
  case (Some kn)
  from clSetKernelArg_kernels [OF assms(2) [unfolded Some]] show ?thesis
  proof (elim disjE exE conjE)
    fix k al
    assume k: "kernels h kn = Some k" and i: "i < num_args (k_meta k)"
      and al: "meta_ok (k_meta k) \<longrightarrow> arg_typed (arg_info (k_meta k) ! unat i) al"
      and h': "h' = h\<lparr>kernels := (kernels h)(kn \<mapsto> k\<lparr>dyn_arguments := (dyn_arguments k)[unat i := al]\<rparr>)\<rparr>"
    have kt: "kernel_typed k" using assms(1) k by (simp add: host_typed_def)
    then have "list_all2 arg_typed ((arg_info (k_meta k))[unat i := arg_info (k_meta k) ! unat i])
        ((dyn_arguments k)[unat i := al])"
      using al by (intro list_all2_update_cong) (simp_all add: kernel_typed_def)
    then have "kernel_typed (k\<lparr>dyn_arguments := (dyn_arguments k)[unat i := al]\<rparr>)"
      using kt by (simp add: kernel_typed_def)
    then show ?thesis unfolding h' by (rule put_kernel_typed [OF assms(1)])
  qed (use assms(1) in simp)
qed (use assms in \<open>simp add: clSetKernelArg_def\<close>)

section \<open>The other calls keep the types\<close>

lemma resolve_argument_typed:
  assumes "arg_typed ai al" and "is_set al" and "uses_buffer ai al" and "resolve_argument q s ai al = Some (err, b, al')"
  shows "arg_typed ai al' \<and> is_set al'"
  using assms
  by (cases "arg_value al")
    (auto simp: resolve_argument_def uses_buffer_def bind_eq_Some_conv arg_typed_def Let_def split: if_splits option.splits)

lemma collect_arguments_typed:
  assumes "list_all2 arg_typed (map fst args) (map snd args)" and "collect_arguments q args s = Some (err, als, bs, s')"
  shows "list_all2 arg_typed (map fst args) als \<and> (err = CL_SUCCESS \<longrightarrow> list_all is_set als)"
  using assms
proof (induction args arbitrary: s als bs)
  case (Cons a args)
  obtain ai al where a: "a = (ai, al)" by (cases a)
  have rest: "list_all2 arg_typed (map fst args) (map snd args)" and t: "arg_typed ai al"
    using Cons.prems(1) by (simp_all add: a)
  consider (stop) "err \<noteq> CL_SUCCESS" "\<exists>al'. als = al' # map snd args \<and> arg_typed ai al'"
    | (go) al' als' bs' s1 where "als = al' # als'" "arg_typed ai al'" "is_set al'" "collect_arguments q args s1 = Some (err, als', bs', s')"
  proof (cases "is_set al")
    case False
    then show thesis using Cons.prems(2) that(1) by (auto simp: a)
  next
    case set_al: True
    show thesis
    proof (cases "uses_buffer ai al")
      case False
      then show thesis using Cons.prems(2) that(2) set_al t by (auto simp: a bind_eq_Some_conv)
    next
      case True
      then obtain e b al' where r: "resolve_argument q s ai al = Some (e, b, al')"
        using Cons.prems(2) set_al by (auto simp: a bind_eq_Some_conv)
      from resolve_argument_typed [OF t set_al True r] have t': "arg_typed ai al'" "is_set al'" by blast+
      show thesis
      proof (cases "e = CL_SUCCESS")
        case False
        then show thesis using Cons.prems(2) that(1) set_al True r t' by (auto simp: a)
      next
        case ok: True
        then show thesis using Cons.prems(2) that(2) set_al True r t' by (auto simp: a bind_eq_Some_conv)
      qed
    qed
  qed
  then show ?case
  proof cases
    case stop
    then show ?thesis using rest by (auto simp: a)
  next
    case go
    then show ?thesis using Cons.IH [OF rest go(4)] by (simp add: a)
  qed
qed auto

lemma find_kernel_member: "find_kernel n metas = Some (Some meta) \<Longrightarrow> meta \<in> set metas"
  by (induction metas) (auto simp: bind_eq_Some_conv split: if_splits)

lemma fresh_kernel_typed:
  assumes "meta_ok (k_meta k)" and "dyn_arguments k = replicate (unat (num_args (k_meta k))) unset_argument"
  shows "kernel_typed k"
  using assms by (simp add: kernel_typed_def meta_ok_def list_all2_conv_all_nth unset_argument_def)

lemma create_typed:
  assumes "host_typed h" and c: "clCreateKernel prog name h = Some (res, h')"
  shows "host_typed h'"
proof -
  consider "h' = h"
    | pn p meta k where "programs h pn = Some p" "meta \<in> set (prog_meta p)" "k_meta k = meta"
        "dyn_arguments k = replicate (unat (num_args meta)) unset_argument"
        "kernels h' = (kernels h)(next_kernel h \<mapsto> k)"
        "programs h' = (programs h)(pn \<mapsto> p\<lparr>prog_kernels := next_kernel h # prog_kernels p, prog_refcount := prog_refcount p + 1\<rparr>)"
  proof (cases "res")
    case (Inl e)
    then show thesis using c that(1)
      by (auto simp: clCreateKernel_def bind_eq_Some_conv Let_def split: option.splits if_splits)
  next
    case (Inr kn)
    then obtain pn name' p meta where "programs h pn = Some p" "find_kernel name' (prog_meta p) = Some (Some meta)"
      "h' = h\<lparr>next_kernel := next_kernel h + 1,
         kernels := (kernels h)(next_kernel h \<mapsto> \<lparr>k_context = prog_context p, k_program = pn, k_meta = meta,
           dyn_arguments = replicate (unat (num_args meta)) unset_argument, k_refcount = 1\<rparr>),
         programs := (programs h)(pn \<mapsto> p\<lparr>prog_kernels := next_kernel h # prog_kernels p,
           prog_refcount := prog_refcount p + 1\<rparr>)\<rparr>"
      using c by (auto simp: clCreateKernel_def bind_eq_Some_conv Let_def split: option.splits if_splits)
    then show thesis
      by (intro that(2) [of pn p meta "\<lparr>k_context = prog_context p, k_program = pn, k_meta = meta,
           dyn_arguments = replicate (unat (num_args meta)) unset_argument, k_refcount = 1\<rparr>"])
        (simp_all add: find_kernel_member)
  qed
  then show ?thesis
  proof cases
    case 2
    then have "kernel_typed k"
      using assms(1) by (intro fresh_kernel_typed) (auto simp: host_typed_def list_all_iff)
    then show ?thesis using assms(1) 2 by (auto simp: host_typed_def)
  qed (use assms in simp)
qed

lemma retain_typed:
  assumes "host_typed h" and "clRetainKernel kn h = Some h'"
  shows "host_typed h'"
  using assms by (auto simp: clRetainKernel_def bind_eq_Some_conv host_typed_def split: if_splits)

lemma release_program_typed:
  assumes "host_typed h" and "clReleaseProgram pn h = Some h'"
  shows "host_typed h'"
  using assms by (auto simp: clReleaseProgram_def bind_eq_Some_conv host_typed_def split: if_splits)

lemma release_typed:
  assumes "host_typed h" and r: "clReleaseKernel kn h = Some h'"
  shows "host_typed h'"
proof -
  obtain k where k: "kernels h kn = Some k" using r by (auto simp: clReleaseKernel_def bind_eq_Some_conv)
  show ?thesis
  proof (cases "k_refcount k - 1 \<noteq> 0")
    case True
    then have "h' = h\<lparr>kernels := (kernels h)(kn \<mapsto> k\<lparr>k_refcount := k_refcount k - 1\<rparr>)\<rparr>"
      using r k by (auto simp: clReleaseKernel_def bind_eq_Some_conv)
    then show ?thesis using assms(1) k by (auto simp: host_typed_def split: if_splits)
  next
    case False
    then obtain p where p: "programs h (k_program k) = Some p"
      and rel: "clReleaseProgram (k_program k) (h\<lparr>kernels := (kernels h)(kn := None),
        programs := (programs h)(k_program k \<mapsto> p\<lparr>prog_kernels := remove1 kn (prog_kernels p)\<rparr>)\<rparr>) = Some h'"
      using r k by (auto simp: clReleaseKernel_def bind_eq_Some_conv)
    show ?thesis by (rule release_program_typed [OF _ rel]) (use assms(1) p in \<open>auto simp: host_typed_def\<close>)
  qed
qed

lemma buffers_typed [simp]: "host_typed (h\<lparr>buffers := m\<rparr>) = host_typed h"
  by (simp add: host_typed_def)

lemma svm_typed:
  assumes "host_typed h" and "clSetKernelArgSVMPointer malloc_ok svm krn i ptr h = Some (err, h')"
  shows "host_typed h'"
  using assms
  by (auto simp: clSetKernelArgSVMPointer_def bind_eq_Some_conv Let_def split: option.splits if_splits
      elim!: set_arg_typed [rotated])

lemma copy_typed:
  assumes "arg_typed ai al" and "is_set al"
  shows "arg_typed ai (copy_argument al) \<and> is_set (copy_argument al)"
  using assms by (cases "arg_value al") (auto simp: copy_argument_def arg_typed_def split: if_splits)

text \<open>What an accepted or refused launch does to the state.\<close>

lemma enqueue_cases:
  assumes "clEnqueueNDRangeKernel (Some nq) (Some kn) wd off gws lws wl s = Some (err, s')"
  obtains "err \<noteq> CL_SUCCESS" "s' = s"
  | k als bs m where "err \<noteq> CL_SUCCESS" "kernels (host s) kn = Some k"
      "collect_arguments (nd_cmd_queue nq) (zip (arg_info (k_meta k)) (dyn_arguments k)) (buffers (host s)) = Some (err, als, bs, m)"
      "s' = s\<lparr>host := put_kernel kn (k\<lparr>dyn_arguments := als\<rparr>) ((host s)\<lparr>buffers := m\<rparr>)\<rparr>"
  | k als bs m gw local off' where "err = CL_SUCCESS" "kernels (host s) kn = Some k" "gws = Some gw" "1 \<le> wd"
      "q_context (nd_cmd_queue nq) = k_context k"
      "\<not> any_zero (read_dims wd 1 gw)"
      "choose_local wd (nd_device nq) (reqd_wg_size (k_meta k)) (read_dims wd 1 gw) lws = Some (Inr local)"
      "collect_arguments (nd_cmd_queue nq) (zip (arg_info (k_meta k)) (dyn_arguments k)) (buffers (host s)) =
         Some (CL_SUCCESS, als, bs, m)"
      "off' = (case off of None \<Rightarrow> (0, 0, 0) | Some v \<Rightarrow> read_dims wd 0 v)"
      "0 < k_refcount k"
      "s' = s\<lparr>host := put_kernel kn (k\<lparr>dyn_arguments := als, k_refcount := k_refcount k + 1\<rparr>) ((host s)\<lparr>buffers := m\<rparr>),
         launches := launches s @
           [\<lparr>l_kernel = kn, l_meta = k_meta k,
             l_pc = \<lparr>local_size = local, num_groups = dims_div (read_dims wd 1 gw) local, global_offset = off'\<rparr>,
             l_work_dim = wd, l_arguments = map copy_argument als, l_mem_objs = bs\<rparr>]\<rparr>"
proof -
  obtain k where k: "kernels (host s) kn = Some k"
    using assms by (auto simp: clEnqueueNDRangeKernel_def bind_eq_Some_conv)
  let ?q = "nd_cmd_queue nq"
  let ?err = "first_error
          [(q_context ?q \<noteq> k_context k, CL_INVALID_CONTEXT),
           (pocl_check_event_wait_list ?q wl \<noteq> CL_SUCCESS, pocl_check_event_wait_list ?q wl),
           (wd < 1, CL_INVALID_WORK_DIMENSION),
           (wd > max_work_item_dimensions nq, CL_INVALID_WORK_DIMENSION)]"
  note A = assms [unfolded clEnqueueNDRangeKernel_def option.case k bind.bind_lunit Let_def]
  show thesis
  proof (cases "?err = CL_SUCCESS")
    case False
    then show thesis using A that(1) by (simp only: not_False_eq_True if_True) blast
  next
    case ok: True
    note A = A [unfolded ok]
    have q: "q_context ?q = k_context k" "\<not> wd < 1" using ok by (auto split: if_splits)
    then have q: "q_context ?q = k_context k" "1 \<le> wd" unfolding not_less by blast+
    obtain gw where gw: "gws = Some gw" using A by (auto simp: bind_eq_Some_conv)
    show thesis
    proof (cases "any_zero (read_dims wd 1 gw)")
      case True
      then show thesis using A gw that(1) by (auto simp: bind_eq_Some_conv)
    next
      case nz: False
      obtain chosen where ch: "choose_local wd (nd_device nq) (reqd_wg_size (k_meta k)) (read_dims wd 1 gw) lws = Some chosen"
        using A gw nz by (auto simp: bind_eq_Some_conv)
      show thesis
      proof (cases chosen)
        case (Inl e)
        then have "err = e" "s' = s" using A gw nz ch by (auto simp: bind_eq_Some_conv)
        moreover have "e \<noteq> CL_SUCCESS"
          using ch Inl by (auto simp: choose_local_def bind_eq_Some_conv split: if_splits)
        ultimately show thesis using that(1) by blast
      next
        case (Inr local)
        note A = A [unfolded gw bind.bind_lunit ch Inr sum.case]
        obtain e als bs m where c: "collect_arguments ?q (zip (arg_info (k_meta k)) (dyn_arguments k)) (buffers (host s)) =
            Some (e, als, bs, m)"
          using A nz by (auto simp: bind_eq_Some_conv)
        show thesis
        proof (cases "e = CL_SUCCESS")
          case False
          then show thesis using A c nz k that(2) by (auto simp: bind_eq_Some_conv)
        next
          case True
          note A = A [unfolded c True bind.bind_lunit prod.case]
          have "err = CL_SUCCESS" "0 < k_refcount k"
              "s' = s\<lparr>host := put_kernel kn (k\<lparr>dyn_arguments := als, k_refcount := k_refcount k + 1\<rparr>) ((host s)\<lparr>buffers := m\<rparr>),
               launches := launches s @
           [\<lparr>l_kernel = kn, l_meta = k_meta k,
             l_pc = \<lparr>local_size = local, num_groups = dims_div (read_dims wd 1 gw) local,
               global_offset = (case off of None \<Rightarrow> (0, 0, 0) | Some v \<Rightarrow> read_dims wd 0 v)\<rparr>,
             l_work_dim = wd, l_arguments = map copy_argument als, l_mem_objs = bs\<rparr>]\<rparr>"
            using A nz by (auto simp: bind_eq_Some_conv clRetainKernel_def put_kernel_def assert_that_def split: if_splits)
          then show thesis using that(3) k gw q nz ch Inr c True by blast
        qed
      qed
    qed
  qed
qed


section \<open>Runs\<close>

text \<open>
  The steps of the application and the device. A memory object, a sampler or a program may change at any time
  as other calls do it; a program's metadata is fixed when it is built.
\<close>

inductive host_step :: "launch_state \<Rightarrow> launch_state \<Rightarrow> bool" where
  build: "list_all meta_ok (prog_meta p) \<Longrightarrow> host_step s (s\<lparr>host := (host s)\<lparr>programs := (programs (host s))(pn \<mapsto> p)\<rparr>\<rparr>)"
| create: "clCreateKernel (Some pn) (Some kname) (host s) = Some (res, h) \<Longrightarrow> host_step s (s\<lparr>host := h\<rparr>)"
| retain: "clRetainKernel kn (host s) = Some h \<Longrightarrow> host_step s (s\<lparr>host := h\<rparr>)"
| release: "clReleaseKernel kn (host s) = Some h \<Longrightarrow> host_step s (s\<lparr>host := h\<rparr>)"
| release_program: "clReleaseProgram pn (host s) = Some h \<Longrightarrow> host_step s (s\<lparr>host := h\<rparr>)"
| set_arg: "clSetKernelArg malloc_ok (Some kn) i sz v (host s) = Some (err, h) \<Longrightarrow> host_step s (s\<lparr>host := h\<rparr>)"
| set_svm: "clSetKernelArgSVMPointer malloc_ok svm (Some kn) i ptr (host s) = Some (err, h) \<Longrightarrow> host_step s (s\<lparr>host := h\<rparr>)"
| launch: "clEnqueueNDRangeKernel (Some q) (Some kn) wd off gws lws wl s = Some (err, s') \<Longrightarrow> host_step s s'"
| finish: "finish_launch s = Some s' \<Longrightarrow> host_step s s'"
| objects: "host_step s (s\<lparr>host := (host s)\<lparr>buffers := m, samplers := sm\<rparr>\<rparr>)"

lemma zip_infos:
  assumes "list_all2 P xs ys"
  shows "map fst (zip xs ys) = xs" "map snd (zip xs ys) = ys"
  using list_all2_lengthD [OF assms] by simp_all

lemma enqueue_typed:
  assumes t: "state_typed s" and e: "clEnqueueNDRangeKernel (Some nq) (Some kn) wd off gws lws wl s = Some (err, s')"
  shows "state_typed s'"
  using e
proof (cases rule: enqueue_cases)
  case 1
  then show ?thesis using t by simp
next
  case (2 k als bs m)
  have k: "kernel_typed k" using t 2(2) by (simp add: state_typed_def host_typed_def)
  then have l: "list_all2 arg_typed (arg_info (k_meta k)) (dyn_arguments k)" by (simp add: kernel_typed_def)
  have "list_all2 arg_typed (arg_info (k_meta k)) als"
    using collect_arguments_typed [OF _ 2(3)] l by (simp add: zip_infos [OF l])
  then have "kernel_typed (k\<lparr>dyn_arguments := als\<rparr>)" using k by (simp add: kernel_typed_def)
  then show ?thesis using t put_kernel_typed [of "(host s)\<lparr>buffers := m\<rparr>"]
    unfolding 2 by (simp add: state_typed_def put_kernel_def)
next
  case (3 k als bs m gw local off')
  have k: "kernel_typed k" using t 3(2) by (simp add: state_typed_def host_typed_def)
  then have l: "list_all2 arg_typed (arg_info (k_meta k)) (dyn_arguments k)" by (simp add: kernel_typed_def)
  have als: "list_all2 arg_typed (arg_info (k_meta k)) als" "list_all is_set als"
    using collect_arguments_typed [OF _ 3(8)] l by (simp_all add: zip_infos [OF l])
  then have "kernel_typed (k\<lparr>dyn_arguments := als, k_refcount := k_refcount k + 1\<rparr>)"
    using k by (simp add: kernel_typed_def)
  moreover have "list_all2 (\<lambda>ai al. is_set al \<and> arg_typed ai al) (arg_info (k_meta k)) (map copy_argument als)"
    using als copy_typed by (auto simp: list_all2_conv_all_nth list_all_length)
  ultimately show ?thesis using t k put_kernel_typed [of "(host s)\<lparr>buffers := m\<rparr>"]
    unfolding 3 by (simp add: state_typed_def put_kernel_def launch_typed_def kernel_typed_def [of k])
qed

lemma host_step_typed: "host_step s s' \<Longrightarrow> state_typed s \<Longrightarrow> state_typed s'"
proof (induction rule: host_step.induct)
  case (build p s pn)
  then show ?case by (simp add: state_typed_def host_typed_def)
next
  case (objects s m sm)
  then show ?case by (simp add: state_typed_def host_typed_def)
next
  case (launch q kn wd off gws lws wl s err s')
  then show ?case using enqueue_typed by blast
next
  case (finish s s')
  then show ?case
    by (auto simp: finish_launch_def pocl_ndrange_node_cleanup_def state_typed_def bind_eq_Some_conv
        split: list.splits dest: release_typed)
qed (auto simp: state_typed_def dest: create_typed retain_typed release_typed release_program_typed
    set_arg_typed svm_typed)

lemma aligned_block:
  assumes "0 < alignment" and "unat n \<le> 2 ^ 63" and "alignment \<le> 128"
  shows "\<exists>block. pocl_aligned_malloc malloc_ok alignment n = Some (if malloc_ok block then Some block else None) \<and>
    n \<le> block"
proof -
  let ?m = "alignment - 1"
  have "unat alignment \<le> 128" using assms(3) by (simp add: word_le_nat_alt)
  moreover have "0 < unat alignment" using assms(1) by (simp add: word_less_nat_alt)
  ultimately have m: "unat ?m < 128" by (subst unat_minus_nowrap) simp_all
  have "uint (n AND ?m) + uint (n OR ?m) = uint n + uint ?m"
    using plus_and_or [of "uint n" "uint ?m"] by (simp add: uint_and uint_or)
  moreover have "0 \<le> uint (n AND ?m)" "uint (n AND ?m) \<le> uint ?m"
    by (simp_all add: uint_and)
  ultimately have "uint (n OR ?m) \<le> uint n + uint ?m" "uint n \<le> uint (n OR ?m)" by linarith+
  then have bounds: "unat (n OR ?m) \<le> unat n + unat ?m" "unat n \<le> unat (n OR ?m)"
    by (simp_all only: uint_nat of_nat_add [symmetric] of_nat_le_iff)
  moreover have "(2 :: nat) ^ 63 + 128 < 2 ^ 64" by simp
  ultimately have "unat (n OR ?m) + 1 < 2 ^ 64" using m assms(2) by linarith
  then have up: "unat ((n OR ?m) + 1) = unat (n OR ?m) + 1" by (subst unat_add_nowrap) simp_all
  have "n \<le> (n OR ?m) + 1" using up bounds(2) by (simp add: word_le_nat_alt)
  then show ?thesis using assms(1) by (auto simp: pocl_aligned_malloc_def assert_that_def Let_def)
qed

lemma set_argument_total:
  assumes "case v of None \<Rightarrow> True | Some bs \<Rightarrow> 0 < unat sz \<and> unat sz \<le> 2 ^ 63 \<and> unat sz \<le> length bs"
  shows "\<exists>e p. set_argument malloc_ok ai sz v al = Some (e, p)"
proof (cases v)
  case None
  then show ?thesis by (simp add: set_argument_def)
next
  case (Some bs)
  then have sz: "0 < unat sz" "unat sz \<le> 2 ^ 63" "unat sz \<le> length bs" using assms by simp_all
  have a: "0 < arg_alignment sz" "arg_alignment sz \<le> 128"
    using pocl_size_ceil2_pos [OF sz(1,2)] by (auto simp: arg_alignment_def Let_def MAX_EXTENDED_ALIGNMENT_def)
  have n: "unat (arg_alloc_size sz) \<le> 2 ^ 63" "sz \<le> arg_alloc_size sz"
    using a(2) sz(2) by (auto simp: arg_alloc_size_def word_le_nat_alt word_less_nat_alt)
  obtain block where block: "pocl_aligned_malloc malloc_ok (arg_alignment sz) (arg_alloc_size sz) =
      Some (if malloc_ok block then Some block else None)" "arg_alloc_size sz \<le> block"
    using aligned_block [OF a(1) n(1) a(2)] by blast
  then show ?thesis
    using sz(3) order_trans [OF n(2) block(2)] by (simp add: Some set_argument_def Let_def assert_that_def)
qed

lemma set_arg_total:
  assumes "kernels h kn = Some k"
    and "case v of None \<Rightarrow> True | Some bs \<Rightarrow> 0 < unat sz \<and> unat sz \<le> 2 ^ 63 \<and> unat sz \<le> length bs"
  shows "clSetKernelArg malloc_ok (Some kn) i sz v h \<noteq> None"
proof -
  note some = set_argument_total [OF assms(2)]
  show ?thesis
    unfolding clSetKernelArg_def option.case assms(1) bind.bind_lunit Let_def
    using some [of malloc_ok "arg_info (k_meta k) ! unat i" "dyn_arguments k ! unat i"] by auto
qed

text \<open>A value of no bytes for an argument that is declared with size 0.\<close>

lemma set_empty_arg_aborts:
  assumes "kernels h kn = Some k" and "i < num_args (k_meta k)" and "ai = arg_info (k_meta k) ! unat i"
    and "\<not> ARGP_IS_LOCAL ai" and "ai_type ai = POCL_ARG_TYPE_NONE" and "ai_type_size ai = 0"
  shows "clSetKernelArg malloc_ok (Some kn) i 0 (Some bs) h = None"
proof -
  have check: "set_arg_check ai 0 (Some bs) = CL_SUCCESS"
    using assms(4-6) by (simp add: set_arg_check_def Let_def POCL_ARG_TYPE_NONE_def POCL_ARG_TYPE_POINTER_def
      POCL_ARG_TYPE_IMAGE_def POCL_ARG_TYPE_SAMPLER_def)
  have "arg_alignment 0 = 0"
    by (simp add: arg_alignment_def pocl_size_ceil2_zero MAX_EXTENDED_ALIGNMENT_def)
  then have "set_argument malloc_ok ai 0 (Some bs) al = None" for al
    using assms(5) by (simp add: set_argument_def pocl_aligned_malloc_def assert_that_def Let_def
      POCL_ARG_TYPE_NONE_def POCL_ARG_TYPE_POINTER_def)
  then show ?thesis
    using assms(1,2) check unfolding assms(3) by (simp add: clSetKernelArg_def Let_def)
qed

lemma run_typed:
  assumes "host_step\<^sup>*\<^sup>* s0 s"
    and "programs (host s0) = Map.empty" and "kernels (host s0) = Map.empty" and "launches s0 = []"
  shows "state_typed s"
proof -
  have "state_typed s0" using assms(2-4) by (simp add: state_typed_def host_typed_def)
  with assms(1) show ?thesis by (induction rule: rtranclp_induct) (auto intro: host_step_typed)
qed

text \<open>
  C31: In every state a run of an application reaches, each set argument of a kernel has the form its declaration
  asks for (a local argument has a size and no value, a pointer, image or sampler 8 bytes, any other argument a
  value whose length is its size and fits the declared size), and every launch has all its arguments, in this form.
  Setting an argument without a value, or with one of 1 to $2^{63}$ bytes that the caller's memory holds, never fails
  but with an error code; a value of 0 bytes for an argument declared with size 0 passes all the checks and fails an
  assertion.
\<close>

theorem kernel_arguments_well_typed:
  assumes "host_step\<^sup>*\<^sup>* s0 s"
    and "programs (host s0) = Map.empty" and "kernels (host s0) = Map.empty" and "launches s0 = []"
  shows "(\<forall>kn k. kernels (host s) kn = Some k \<longrightarrow> kernel_typed k) \<and> (\<forall>l \<in> set (launches s). launch_typed l) \<and>
    (\<forall>kn k malloc_ok i sz v. kernels (host s) kn = Some k \<and>
       (case v of None \<Rightarrow> True | Some bs \<Rightarrow> 0 < unat sz \<and> unat sz \<le> 2 ^ 63 \<and> unat sz \<le> length bs) \<longrightarrow>
       clSetKernelArg malloc_ok (Some kn) i sz v (host s) \<noteq> None) \<and>
    (\<forall>kn k malloc_ok i bs ai. kernels (host s) kn = Some k \<and> i < num_args (k_meta k) \<and>
       ai = arg_info (k_meta k) ! unat i \<and> \<not> ARGP_IS_LOCAL ai \<and> ai_type ai = POCL_ARG_TYPE_NONE \<and>
       ai_type_size ai = 0 \<longrightarrow> clSetKernelArg malloc_ok (Some kn) i 0 (Some bs) (host s) = None)"
proof -
  have "state_typed s" by (rule run_typed [OF assms])
  then have "host_typed (host s)" "\<forall>l \<in> set (launches s). launch_typed l"
    by (simp_all add: state_typed_def list_all_iff)
  then show ?thesis using set_arg_total set_empty_arg_aborts by (auto simp: host_typed_def)
qed

text \<open>A run for the witnesses: a kernel with a pointer, a \<open>float\<close>, and a local argument.\<close>

definition demo_arg :: "cl_uint \<Rightarrow> cl_uint \<Rightarrow> cl_uint \<Rightarrow> pocl_argument_info" where
  "demo_arg space kind sz = \<lparr>access_qualifier = 0, address_qualifier = space, type_qualifier = 0, ai_type = kind,
     ai_type_size = sz, ai_name = None, ai_type_name = None\<rparr>"

definition demo_meta :: pocl_kernel_metadata where
  "demo_meta = \<lparr>m_name = Some [107], num_args = 3, num_locals = 0, reqd_wg_size = (0, 0, 0), local_sizes = [],
     attributes = None, has_arg_metadata = 0,
     arg_info = [demo_arg 0x119B POCL_ARG_TYPE_POINTER 8, demo_arg 0x119E POCL_ARG_TYPE_NONE 4,
       demo_arg CL_KERNEL_ARG_ADDRESS_LOCAL POCL_ARG_TYPE_POINTER 8]\<rparr>"

definition demo_program :: cl_program where
  "demo_program = \<lparr>prog_context = 1, num_devices = 1, prog_status = CL_BUILD_SUCCESS, prog_has_code = True,
     prog_meta = [demo_meta], prog_kernels = [], prog_refcount = 1\<rparr>"

definition demo_buffer :: "nat option \<Rightarrow> size_t \<Rightarrow> size_t \<Rightarrow> size_t \<Rightarrow> cl_mem" where
  "demo_buffer parent origin sz ptr = \<lparr>mem_context = 1, mem_size = sz, mem_origin = origin, mem_parent = parent,
     mem_flags = CL_MEM_READ_WRITE, mem_type = BUFFER, mem_image = None, mem_ptr = ptr, mem_host_ptr = 0,
     mem_refcount = 2\<rparr>"

text \<open>Buffer 1 is at address 65536, buffer 2 is its part from byte 128 on.\<close>

definition demo_start :: launch_state where
  "demo_start = \<lparr>host = \<lparr>buffers = \<lparr>objs = [1 \<mapsto> demo_buffer None 0 1024 65536, 2 \<mapsto> demo_buffer (Some 1) 128 256 0],
     next_obj = 3, queued = []\<rparr>, samplers = Map.empty, programs = Map.empty, kernels = Map.empty, next_kernel = 0\<rparr>,
     launches = []\<rparr>"

definition demo_built :: launch_state where
  "demo_built = demo_start\<lparr>host := (host demo_start)\<lparr>programs := (programs (host demo_start))(0 \<mapsto> demo_program)\<rparr>\<rparr>"

definition demo_host :: "launch_state \<Rightarrow> (cl_error \<times> host_state) option \<Rightarrow> launch_state" where
  "demo_host s r = s\<lparr>host := snd (the r)\<rparr>"

definition demo_created :: launch_state where
  "demo_created = demo_built\<lparr>host := snd (the (clCreateKernel (Some 0) (Some [107]) (host demo_built)))\<rparr>"

definition demo_arg0 :: launch_state where
  "demo_arg0 = demo_host demo_created
     (clSetKernelArg (\<lambda>_. True) (Some 0) 0 8 (Some (obj_value 2)) (host demo_created))"

definition demo_arg1 :: launch_state where
  "demo_arg1 = demo_host demo_arg0 (clSetKernelArg (\<lambda>_. True) (Some 0) 1 4 (Some [0, 0, 128, 63]) (host demo_arg0))"

definition demo_ready :: launch_state where
  "demo_ready = demo_host demo_arg1 (clSetKernelArg (\<lambda>_. True) (Some 0) 2 100 None (host demo_arg1))"

lemma snd_the: "map_option fst r = Some e \<Longrightarrow> r = Some (e, snd (the r))"
  by (cases r) auto

lemma demo_host_step:
  assumes "map_option fst (clSetKernelArg ok (Some kn) i sz v (host s)) = Some err"
  shows "host_step s (demo_host s (clSetKernelArg ok (Some kn) i sz v (host s)))"
  unfolding demo_host_def by (rule set_arg [OF snd_the [OF assms]])

lemma demo_calls:
  "map_option fst (clCreateKernel (Some 0) (Some [107]) (host demo_built)) = Some (Inr 0)"
  "map_option fst (clSetKernelArg (\<lambda>_. True) (Some 0) 0 8 (Some (obj_value 2)) (host demo_created)) = Some CL_SUCCESS"
  "map_option fst (clSetKernelArg (\<lambda>_. True) (Some 0) 1 4 (Some [0, 0, 128, 63]) (host demo_arg0)) = Some CL_SUCCESS"
  "map_option fst (clSetKernelArg (\<lambda>_. True) (Some 0) 2 100 None (host demo_arg1)) = Some CL_SUCCESS"
  by code_simp+

lemma demo_ready_run: "host_step\<^sup>*\<^sup>* demo_start demo_ready"
proof -
  have 1: "host_step demo_start demo_built"
    unfolding demo_built_def by (rule build) (simp add: demo_program_def demo_meta_def meta_ok_def)
  have 2: "host_step demo_built demo_created"
    unfolding demo_created_def by (rule create [OF snd_the [OF demo_calls(1)]])
  have 3: "host_step demo_created demo_arg0"
    unfolding demo_arg0_def by (rule demo_host_step [OF demo_calls(2)])
  have 4: "host_step demo_arg0 demo_arg1"
    unfolding demo_arg1_def by (rule demo_host_step [OF demo_calls(3)])
  have "host_step demo_arg1 demo_ready"
    unfolding demo_ready_def by (rule demo_host_step [OF demo_calls(4)])
  with 1 2 3 4 show ?thesis by (meson converse_rtranclp_into_rtranclp rtranclp.rtrancl_refl)
qed

lemma set_arg_buffers:
  assumes "map_option fst (clSetKernelArg ok (Some kn) i sz v (host s)) = Some err"
  shows "buffers (host (demo_host s (clSetKernelArg ok (Some kn) i sz v (host s)))) = buffers (host s)"
  using clSetKernelArg_kernels [OF snd_the [OF assms]] by (auto simp: demo_host_def)

lemma demo_buffers: "buffers (host demo_ready) = buffers (host demo_start)"
proof -
  have "buffers (host demo_created) = buffers (host demo_start)"
    using snd_the [OF demo_calls(1)]
    by (auto simp: demo_created_def demo_built_def clCreateKernel_def bind_eq_Some_conv Let_def split: if_splits option.splits)
  moreover have "buffers (host demo_arg0) = buffers (host demo_created)"
    unfolding demo_arg0_def by (rule set_arg_buffers [OF demo_calls(2)])
  moreover have "buffers (host demo_arg1) = buffers (host demo_arg0)"
    unfolding demo_arg1_def by (rule set_arg_buffers [OF demo_calls(3)])
  moreover have "buffers (host demo_ready) = buffers (host demo_arg1)"
    unfolding demo_ready_def by (rule set_arg_buffers [OF demo_calls(4)])
  ultimately show ?thesis by simp
qed

lemma demo_empty: "programs (host demo_start) = Map.empty" "kernels (host demo_start) = Map.empty" "launches demo_start = []"
  by (simp_all add: demo_start_def)

lemma demo_typed: "state_typed demo_ready"
  by (rule run_typed [OF demo_ready_run demo_empty])

theorem kernel_arguments_well_typed_witness:
  "\<exists>k. kernels (host demo_ready) 0 = Some k \<and> kernel_typed k \<and> list_all is_set (dyn_arguments k)"
proof -
  have "case kernels (host demo_ready) 0 of None \<Rightarrow> False | Some k \<Rightarrow> list_all is_set (dyn_arguments k)" by code_simp
  then obtain k where "kernels (host demo_ready) 0 = Some k" "list_all is_set (dyn_arguments k)"
    by (auto split: option.splits)
  then show ?thesis using kernel_arguments_well_typed [OF demo_ready_run demo_empty] by blast
qed

section \<open>The addresses a kernel gets\<close>

definition device_base :: "cl_mem \<Rightarrow> size_t" where
  "device_base m = (if mem_ptr m \<noteq> 0 then mem_ptr m else mem_host_ptr m)"

text \<open>
  The address of the first byte of the buffer or sub-buffer that has been set as argument, 0 for \<open>NULL\<close>.
\<close>

definition buffer_address :: "mem_state \<Rightarrow> nat \<Rightarrow> size_t option" where
  "buffer_address s b = do {
     m \<leftarrow> objs s b;
     (case mem_parent m of
        None \<Rightarrow> Some (device_base m)
      | Some p \<Rightarrow> do {pm \<leftarrow> objs s p; Some (device_base pm + mem_origin m)})}"

definition pointer_arg :: "pocl_argument_info \<Rightarrow> bool" where
  "pointer_arg ai \<longleftrightarrow> \<not> ARGP_IS_LOCAL ai \<and> ai_type ai = POCL_ARG_TYPE_POINTER"

text \<open>Two states of the memory objects that differ in reference counts only.\<close>

definition same_objs :: "mem_state \<Rightarrow> mem_state \<Rightarrow> bool" where
  "same_objs s t \<longleftrightarrow> (\<forall>b. map_option (mem_refcount_update (\<lambda>_. 0)) (objs s b) =
     map_option (mem_refcount_update (\<lambda>_. 0)) (objs t b))"

lemma same_objs_refl [simp]: "same_objs s s"
  by (simp add: same_objs_def)

lemma same_objs_trans: "same_objs s t \<Longrightarrow> same_objs t u \<Longrightarrow> same_objs s u"
  by (simp add: same_objs_def)

lemma same_objs_cases:
  assumes "same_objs s t"
  obtains "objs s b = None" "objs t b = None"
  | m n where "objs s b = Some m" "objs t b = Some n" "mem_context n = mem_context m" "mem_size n = mem_size m"
      "mem_origin n = mem_origin m" "mem_parent n = mem_parent m" "mem_type n = mem_type m" "mem_image n = mem_image m"
      "mem_ptr n = mem_ptr m" "mem_host_ptr n = mem_host_ptr m"
proof -
  have e: "map_option (mem_refcount_update (\<lambda>_. 0)) (objs s b) = map_option (mem_refcount_update (\<lambda>_. 0)) (objs t b)"
    using assms by (simp add: same_objs_def)
  show thesis
  proof (cases "objs s b")
    case None
    then show ?thesis using that(1) e by simp
  next
    case (Some m)
    then obtain n where n: "objs t b = Some n" "mem_refcount_update (\<lambda>_. 0) n = mem_refcount_update (\<lambda>_. 0) m"
      using e by (cases "objs t b") auto
    have f: "f (mem_refcount_update (\<lambda>_. 0) n) = f (mem_refcount_update (\<lambda>_. 0) m)" for f :: "cl_mem \<Rightarrow> 'b"
      by (simp only: n(2))
    from n(2) show ?thesis
      using that(2) [OF Some n(1)] by (cases m; cases n) simp
  qed
qed

lemma retain_same_objs: "clRetainMemObject b s = Some t \<Longrightarrow> same_objs s t"
  by (auto simp: clRetainMemObject_def bind_eq_Some_conv same_objs_def split: if_splits)

lemma same_resolve:
  assumes "same_objs s t"
  shows "resolve_argument q t ai al = resolve_argument q s ai al"
proof (cases "arg_value al")
  case None
  then show ?thesis by (simp add: resolve_argument_def)
next
  case (Some v)
  show ?thesis
  proof (cases rule: same_objs_cases [OF assms, of "obj_of v"])
    case 1
    then show ?thesis by (simp add: resolve_argument_def Some)
  next
    case (2 m n)
    have mis: "on_sub_misalign q n = on_sub_misalign q m" using 2 by (simp add: on_sub_misalign_def)
    show ?thesis
    proof (cases "mem_parent m")
      case None
      then show ?thesis using 2 mis by (simp add: resolve_argument_def Some Let_def)
    next
      case p: (Some p)
      show ?thesis
        by (cases rule: same_objs_cases [OF assms, of p]) (use 2 mis p in \<open>simp_all add: resolve_argument_def Some Let_def\<close>)
    qed
  qed
qed

text \<open>An accepted argument list, argument by argument.\<close>

definition accepted_arg :: "cmd_queue \<Rightarrow> mem_state \<Rightarrow> nat set \<Rightarrow> pocl_argument_info \<times> pocl_argument \<Rightarrow> pocl_argument \<Rightarrow> bool" where
  "accepted_arg q s B a al' \<longleftrightarrow> is_set (snd a) \<and>
     (if uses_buffer (fst a) (snd a)
      then \<exists>b. resolve_argument q s (fst a) (snd a) = Some (CL_SUCCESS, b, al') \<and> b \<in> B
      else al' = snd a)"

lemma accepted_arg_mono: "accepted_arg q s B a al' \<Longrightarrow> B \<subseteq> C \<Longrightarrow> accepted_arg q s C a al'"
  by (auto simp: accepted_arg_def split: if_splits)

lemma accepted_arg_same: "same_objs s t \<Longrightarrow> accepted_arg q t B a al' = accepted_arg q s B a al'"
  by (simp add: accepted_arg_def same_resolve)

lemma collect_arguments_Cons:
  assumes "collect_arguments q (a # args) s = Some (CL_SUCCESS, als, bs, t)"
  obtains s1 al' als' bs' where "same_objs s s1" "als = al' # als'" "set bs' \<subseteq> set bs"
    "collect_arguments q args s1 = Some (CL_SUCCESS, als', bs', t)" "accepted_arg q s (set bs) a al'"
proof -
  obtain ai al where a: "a = (ai, al)" by (cases a)
  from assms have set_al: "is_set al" by (cases "is_set al") (simp_all add: a)
  show thesis
  proof (cases "uses_buffer ai al")
    case False
    with assms set_al obtain als' where "collect_arguments q args s = Some (CL_SUCCESS, als', bs, t)" "als = al # als'"
      by (auto simp: a bind_eq_Some_conv)
    then show thesis using False set_al that [of s al als' bs] by (simp add: accepted_arg_def a)
  next
    case True
    with assms set_al obtain e b al' where r: "resolve_argument q s ai al = Some (e, b, al')"
      by (auto simp: a bind_eq_Some_conv)
    note A = assms [unfolded a collect_arguments.simps set_al True r bind.bind_lunit prod.case]
    have e: "e = CL_SUCCESS" using A set_al True by (cases "e = CL_SUCCESS") simp_all
    then obtain s1 als' bs' where "clRetainMemObject b s = Some s1"
        "collect_arguments q args s1 = Some (CL_SUCCESS, als', bs', t)" "als = al' # als'" "bs = b # bs'"
      using A set_al True by (auto simp: bind_eq_Some_conv)
    then show thesis using True r e set_al that [of s1 al' als' bs'] retain_same_objs
      by (auto simp: accepted_arg_def a)
  qed
qed

lemma collect_arguments_nth:
  assumes "collect_arguments q args s = Some (CL_SUCCESS, als, bs, t)"
  shows "same_objs s t \<and> length als = length args \<and> (\<forall>i < length args. accepted_arg q s (set bs) (args ! i) (als ! i))"
  using assms
proof (induction args arbitrary: s als bs)
  case (Cons a args)
  from Cons.prems obtain s1 al' als' bs' where s1: "same_objs s s1" "als = al' # als'" "set bs' \<subseteq> set bs"
      "collect_arguments q args s1 = Some (CL_SUCCESS, als', bs', t)" "accepted_arg q s (set bs) a al'"
    by (rule collect_arguments_Cons)
  from Cons.IH [OF s1(4)] have "same_objs s1 t" "length als' = length args"
      "\<forall>i < length args. accepted_arg q s (set bs) (args ! i) (als' ! i)"
    using accepted_arg_mono [OF _ s1(3)] by (auto simp: accepted_arg_same [OF s1(1)])
  then show ?case
    using s1(2,5) same_objs_trans [OF s1(1)] unfolding list.size(4) add_0_right add_Suc_right All_less_Suc2 by simp
qed simp

definition numbers_fit :: "mem_state \<Rightarrow> bool" where
  "numbers_fit s \<longleftrightarrow> (\<forall>b \<in> dom (objs s). b < 2 ^ 64)"

lemma obj_of_value [simp]: "b < 2 ^ 64 \<Longrightarrow> obj_of (obj_value b) = b"
  by (simp add: obj_of_def obj_value_def unat_of_nat_nowrap)

text \<open>A pointer argument after the loop: its value is the buffer that owns the memory, its offset the origin.\<close>

lemma resolve_pointer:
  assumes r: "resolve_argument q s ai al = Some (CL_SUCCESS, b, al')" and p: "pointer_arg ai"
    and v: "arg_value al = Some v" and fit: "numbers_fit s" and same: "same_objs s (buffers h)"
  shows "\<exists>m. objs s (obj_of v) = Some m \<and> b = (case mem_parent m of None \<Rightarrow> obj_of v | Some p \<Rightarrow> p) \<and>
    (\<exists>v'. arg_value al' = Some v' \<and> obj_of v' = b) \<and> arg_size al' = arg_size al \<and>
    buffer_address s (obj_of v) \<noteq> None \<and>
    pthread_slot h (ai, al') = map_option Ptr_Slot (buffer_address s (obj_of v))"
proof -
  have np: "ai_type ai \<noteq> POCL_ARG_TYPE_IMAGE" "\<not> ARGP_IS_LOCAL ai" "ai_type ai = POCL_ARG_TYPE_POINTER"
    using p by (auto simp: pointer_arg_def)
  obtain m where m: "objs s (obj_of v) = Some m" and mis: "\<not> on_sub_misalign q m"
    using r by (cases "objs s (obj_of v)"; cases "on_sub_misalign q (the (objs s (obj_of v)))")
      (simp_all add: resolve_argument_def v np Let_def)
  have base: "pthread_slot h (ai, al\<lparr>arg_value := Some w, arg_offset := off\<rparr>) = Some (Ptr_Slot (device_base rm + off))"
    if "objs s (obj_of w) = Some rm" for w off rm
    by (cases rule: same_objs_cases [OF same, of "obj_of w"])
      (use that in \<open>simp_all add: pthread_slot_def np(2,3) device_base_def\<close>)
  show ?thesis
  proof (cases "mem_parent m")
    case None
    then have b: "b = obj_of v" "al' = al\<lparr>arg_offset := 0\<rparr>"
      using r m mis by (auto simp: resolve_argument_def v np Let_def)
    have "al\<lparr>arg_offset := 0\<rparr> = al\<lparr>arg_value := Some v, arg_offset := 0\<rparr>" using v by simp
    with base [OF m, of 0] have "pthread_slot h (ai, al\<lparr>arg_offset := 0\<rparr>) = Some (Ptr_Slot (device_base m))"
      by (simp only: add_0_right)
    then show ?thesis using None m b v by (simp add: buffer_address_def)
  next
    case (Some pn)
    then obtain pm where pm: "objs s pn = Some pm" "b = pn" "al' = al\<lparr>arg_value := Some (obj_value pn), arg_offset := mem_origin m\<rparr>"
      using r m mis by (auto simp: resolve_argument_def v np Let_def bind_eq_Some_conv)
    then have "pn < 2 ^ 64" using fit by (auto simp: numbers_fit_def)
    then show ?thesis using base [of "obj_value pn" pm "mem_origin m"] pm m Some by (simp add: buffer_address_def)
  qed
qed

lemma map_opt_nth:
  assumes "map_opt f xs = Some ys"
  shows "length ys = length xs \<and> (\<forall>i < length xs. f (xs ! i) = Some (ys ! i))"
  using assms
proof (induction xs arbitrary: ys)
  case (Cons x xs)
  then obtain y ys' where "f x = Some y" "map_opt f xs = Some ys'" "ys = y # ys'" by (auto simp: bind_eq_Some_conv)
  then show ?case using Cons.IH [of ys'] unfolding list.size(4) add_0_right add_Suc_right All_less_Suc2 by simp
qed simp

lemma map_opt_total: "(\<forall>x \<in> set xs. f x \<noteq> None) \<Longrightarrow> map_opt f xs \<noteq> None"
  by (induction xs) auto

lemma copy_slot: "arg_typed ai al \<Longrightarrow> is_set al \<Longrightarrow> pointer_arg ai \<Longrightarrow> pthread_slot h (ai, copy_argument al) = pthread_slot h (ai, al)"
  by (cases "arg_value al") (auto simp: pthread_slot_def copy_argument_def arg_typed_def pointer_arg_def)

lemma copy_value: "arg_value (copy_argument al) = None \<longleftrightarrow> arg_value al = None"
  by (simp add: copy_argument_def)

text \<open>The slots and the kernel object of an accepted launch, argument by argument.\<close>

lemma accepted_launch:
  assumes e: "clEnqueueNDRangeKernel (Some nq) (Some kn) wd off gws lws wl s = Some (CL_SUCCESS, s')"
    and k: "kernels (host s) kn = Some k" and t: "kernel_typed k" and fit: "numbers_fit (buffers (host s))"
  obtains l als where "launches s' = launches s @ [l]" "l_meta l = k_meta k" "l_arguments l = map copy_argument als"
    "kernels (host s') kn = Some (k\<lparr>dyn_arguments := als, k_refcount := k_refcount k + 1\<rparr>)"
    "list_all2 arg_typed (arg_info (k_meta k)) als" "list_all is_set als" "length als = length (arg_info (k_meta k))"
    "same_objs (buffers (host s)) (buffers (host s'))"
    "\<forall>i < length (arg_info (k_meta k)). accepted_arg (nd_cmd_queue nq) (buffers (host s)) (set (l_mem_objs l))
       (arg_info (k_meta k) ! i, dyn_arguments k ! i) (als ! i)"
  using e
proof (cases rule: enqueue_cases)
  case (3 k' als bs m gw local off')
  have k': "k' = k" using 3(2) k by simp
  have l: "list_all2 arg_typed (arg_info (k_meta k)) (dyn_arguments k)" using t by (simp add: kernel_typed_def)
  note c = 3(8) [unfolded k']
  have a: "list_all2 arg_typed (arg_info (k_meta k)) als" "list_all is_set als"
    using collect_arguments_typed [OF _ c] l by (simp_all add: zip_infos [OF l])
  from collect_arguments_nth [OF c] list_all2_lengthD [OF l]
  have n: "same_objs (buffers (host s)) m" "length als = length (arg_info (k_meta k))"
    "\<forall>i < length (arg_info (k_meta k)). accepted_arg (nd_cmd_queue nq) (buffers (host s)) (set bs)
       (arg_info (k_meta k) ! i, dyn_arguments k ! i) (als ! i)" by simp_all
  define l where "l = \<lparr>l_kernel = kn, l_meta = k_meta k,
     l_pc = \<lparr>local_size = local, num_groups = dims_div (read_dims wd 1 gw) local, global_offset = off'\<rparr>,
     l_work_dim = wd, l_arguments = map copy_argument als, l_mem_objs = bs\<rparr>"
  have "launches s' = launches s @ [l]" "l_meta l = k_meta k" "l_arguments l = map copy_argument als" "l_mem_objs l = bs"
    "kernels (host s') kn = Some (k\<lparr>dyn_arguments := als, k_refcount := k_refcount k + 1\<rparr>)" "buffers (host s') = m"
    using 3(11) by (simp_all add: l_def k' put_kernel_def)
  with n show ?thesis by (intro that [of l als, OF _ _ _ _ a n(2)]) simp_all
qed simp_all

text \<open>
  What a kernel must find for a pointer argument: the address of the first byte of the buffer, whose owner is
  among the objects kept by the launch.
\<close>

definition right_pointer :: "mem_state \<Rightarrow> nat list \<Rightarrow> bytes option \<Rightarrow> arg_slot \<Rightarrow> bool" where
  "right_pointer s kept v sl =
     (case v of
        None \<Rightarrow> sl = Ptr_Slot 0
      | Some v \<Rightarrow> (case objs s (obj_of v) of
          None \<Rightarrow> False
        | Some m \<Rightarrow> Some sl = map_option Ptr_Slot (buffer_address s (obj_of v)) \<and>
            (case mem_parent m of None \<Rightarrow> obj_of v | Some p \<Rightarrow> p) \<in> set kept))"

lemma launch_pointers:
  assumes "clEnqueueNDRangeKernel (Some nq) (Some kn) wd off gws lws wl s = Some (CL_SUCCESS, s')"
    and "kernels (host s) kn = Some k" and "kernel_typed k" and "numbers_fit (buffers (host s))"
    and "\<forall>ai \<in> set (arg_info (k_meta k)). ai_type ai \<noteq> POCL_ARG_TYPE_IMAGE \<and> ai_type ai \<noteq> POCL_ARG_TYPE_SAMPLER"
  shows "\<exists>l slots. launches s' = launches s @ [l] \<and>
    setup_kernel_arg_array (host s') (arg_info (l_meta l)) (l_arguments l) = Some slots \<and>
    length slots = unat (num_args (k_meta k)) \<and>
    (\<forall>i < length slots. pointer_arg (arg_info (k_meta k) ! i) \<longrightarrow>
      right_pointer (buffers (host s)) (l_mem_objs l) (arg_value (dyn_arguments k ! i)) (slots ! i))"
proof -
  from accepted_launch [OF assms(1-4)] obtain l als where l: "launches s' = launches s @ [l]" "l_meta l = k_meta k"
    "l_arguments l = map copy_argument als"
    "list_all2 arg_typed (arg_info (k_meta k)) als" "list_all is_set als" "length als = length (arg_info (k_meta k))"
    "same_objs (buffers (host s)) (buffers (host s'))"
    "\<forall>i < length (arg_info (k_meta k)). accepted_arg (nd_cmd_queue nq) (buffers (host s)) (set (l_mem_objs l))
       (arg_info (k_meta k) ! i, dyn_arguments k ! i) (als ! i)" by metis
  let ?infos = "arg_info (k_meta k)" and ?h = "host s'"
  let ?zs = "zip ?infos (map copy_argument als)"
  have right: "\<exists>sl. pthread_slot ?h (?infos ! i, copy_argument (als ! i)) = Some sl \<and>
      right_pointer (buffers (host s)) (l_mem_objs l) (arg_value (dyn_arguments k ! i)) sl"
    if i: "i < length ?infos" and p: "pointer_arg (?infos ! i)" for i
  proof (cases "arg_value (dyn_arguments k ! i)")
    case None
    have "accepted_arg (nd_cmd_queue nq) (buffers (host s)) (set (l_mem_objs l)) (?infos ! i, dyn_arguments k ! i) (als ! i)"
      using l(8) i by blast
    then have "als ! i = dyn_arguments k ! i"
      using p None by (auto simp: accepted_arg_def uses_buffer_def pointer_arg_def split: if_splits)
    then show ?thesis using p None by (simp add: pthread_slot_def pointer_arg_def copy_argument_def right_pointer_def)
  next
    case (Some v)
    then have "uses_buffer (?infos ! i) (dyn_arguments k ! i)" using p by (simp add: uses_buffer_def pointer_arg_def)
    moreover have "accepted_arg (nd_cmd_queue nq) (buffers (host s)) (set (l_mem_objs l)) (?infos ! i, dyn_arguments k ! i) (als ! i)"
      using l(8) i by blast
    ultimately obtain b where b: "resolve_argument (nd_cmd_queue nq) (buffers (host s)) (?infos ! i) (dyn_arguments k ! i) =
        Some (CL_SUCCESS, b, als ! i)" "b \<in> set (l_mem_objs l)"
      by (auto simp: accepted_arg_def)
    from resolve_pointer [OF b(1) p Some assms(4) l(7)] obtain m where m:
      "objs (buffers (host s)) (obj_of v) = Some m" "b = (case mem_parent m of None \<Rightarrow> obj_of v | Some p \<Rightarrow> p)"
      "buffer_address (buffers (host s)) (obj_of v) \<noteq> None"
      "pthread_slot ?h (?infos ! i, als ! i) = map_option Ptr_Slot (buffer_address (buffers (host s)) (obj_of v))" by blast
    have "arg_typed (?infos ! i) (als ! i)" "is_set (als ! i)"
      using l(4,5,6) i by (auto simp: list_all2_conv_all_nth list_all_length)
    note slot = copy_slot [OF this p, of ?h]
    from m(3) obtain a where a: "buffer_address (buffers (host s)) (obj_of v) = Some a" by blast
    then have "pthread_slot ?h (?infos ! i, copy_argument (als ! i)) = Some (Ptr_Slot a)" using slot m(4) by simp
    moreover have "right_pointer (buffers (host s)) (l_mem_objs l) (arg_value (dyn_arguments k ! i)) (Ptr_Slot a)"
      using b(2) m(1) by (simp add: right_pointer_def Some a m(2) [symmetric])
    ultimately show ?thesis by blast
  qed
  have "pthread_slot ?h z \<noteq> None" if z: "z \<in> set ?zs" for z
  proof -
    obtain i where "i < length ?zs" "z = ?zs ! i" using z unfolding in_set_conv_nth by blast
    then have i: "i < length ?infos" "z = (?infos ! i, copy_argument (als ! i))" using l(6) by simp_all
    show ?thesis
    proof (cases "pointer_arg (?infos ! i)")
      case True
      then show ?thesis using right [OF i(1)] i(2) by auto
    next
      case False
      have "?infos ! i \<in> set ?infos" using i(1) by simp
      then show ?thesis using assms(5) False i(2) by (auto simp: pthread_slot_def pointer_arg_def)
    qed
  qed
  then obtain slots where s: "map_opt (pthread_slot ?h) ?zs = Some slots"
    using map_opt_total [of ?zs "pthread_slot ?h"] by blast
  have lz: "length ?zs = length ?infos" using l(6) by simp
  from map_opt_nth [OF s] have n: "length slots = length ?infos"
      "\<forall>i < length ?infos. pthread_slot ?h (?infos ! i, copy_argument (als ! i)) = Some (slots ! i)"
    using l(6) unfolding lz by simp_all
  have "length ?infos = unat (num_args (k_meta k))" using assms(3) by (simp add: kernel_typed_def meta_ok_def)
  moreover have "\<forall>i < length slots. pointer_arg (?infos ! i) \<longrightarrow>
      right_pointer (buffers (host s)) (l_mem_objs l) (arg_value (dyn_arguments k ! i)) (slots ! i)"
    using right n by fastforce
  moreover have "setup_kernel_arg_array ?h (arg_info (l_meta l)) (l_arguments l) = Some slots"
    using s by (simp add: setup_kernel_arg_array_def l(2,3))
  ultimately show ?thesis using l(1) n(1) by (intro exI [of _ l] exI [of _ slots]) simp
qed

text \<open>
  C32: The pointers of a launch of a kernel without image and sampler arguments: when the launch is accepted, every
  buffer or sub-buffer that the kernel object holds as an argument at that moment makes the worker threads pass the
  address of its first byte to the kernel, \<open>NULL\<close> stays \<open>NULL\<close>, and the memory object that owns the bytes is kept
  until the launch has ended; the set-up of the arguments does not fail. (Objects are numbers that fit the 8 bytes of
  an argument's address.) What the kernel object holds is what
  \<open>clSetKernelArg\<close> has put there until the first launch, which replaces a sub-buffer by its parent
  (\<open>relaunch_loses_sub_buffer_offset\<close>).
\<close>

theorem launch_pointers_exact:
  assumes "clEnqueueNDRangeKernel (Some nq) (Some kn) wd off gws lws wl s = Some (CL_SUCCESS, s')"
    and "kernels (host s) kn = Some k" and "kernel_typed k" and "numbers_fit (buffers (host s))"
    and "\<forall>ai \<in> set (arg_info (k_meta k)). ai_type ai \<noteq> POCL_ARG_TYPE_IMAGE \<and> ai_type ai \<noteq> POCL_ARG_TYPE_SAMPLER"
  shows "\<exists>l slots. launches s' = launches s @ [l] \<and>
    setup_kernel_arg_array (host s') (arg_info (l_meta l)) (l_arguments l) = Some slots \<and>
    length slots = unat (num_args (k_meta k)) \<and>
    (\<forall>i < length slots. pointer_arg (arg_info (k_meta k) ! i) \<longrightarrow>
      right_pointer (buffers (host s)) (l_mem_objs l) (arg_value (dyn_arguments k ! i)) (slots ! i))"
  by (rule launch_pointers [OF assms])

definition demo_queue :: nd_queue where
  "demo_queue = \<lparr>nd_cmd_queue = \<lparr>q_context = 1, q_mem_base_addr_align = 128, q_max_mem_alloc_size = 4096, q_image_support = False\<rparr>,
     nd_device = \<lparr>max_item_sizes = (4096, 4096, 4096), preferred_wg_size_multiple = 8, max_work_group_size = 4096,
       max_compute_units = 4\<rparr>,
     max_work_item_dimensions = 3\<rparr>"

definition demo_launch :: "launch_state \<Rightarrow> (cl_error \<times> launch_state) option" where
  "demo_launch s = clEnqueueNDRangeKernel (Some demo_queue) (Some 0) 1 None (Some (64, 0, 0)) (Some (16, 0, 0)) (0, None) s"

lemma demo_kernel:
  "\<exists>k. kernels (host demo_ready) 0 = Some k \<and> k_meta k = demo_meta \<and>
     arg_value (dyn_arguments k ! 0) = Some (obj_value 2) \<and> kernel_typed k"
proof -
  have "case kernels (host demo_ready) 0 of None \<Rightarrow> False
      | Some k \<Rightarrow> k_meta k = demo_meta \<and> arg_value (dyn_arguments k ! 0) = Some (obj_value 2)"
    by code_simp
  then show ?thesis using demo_typed by (auto simp: state_typed_def host_typed_def split: option.splits)
qed

lemma demo_fit: "numbers_fit (buffers (host demo_ready))"
  unfolding demo_buffers by (auto simp: numbers_fit_def demo_start_def split: if_splits)

lemma demo_kinds: "\<forall>ai \<in> set (arg_info demo_meta). ai_type ai \<noteq> POCL_ARG_TYPE_IMAGE \<and> ai_type ai \<noteq> POCL_ARG_TYPE_SAMPLER"
  by code_simp

lemma demo_none: "launches demo_ready = []"
  by code_simp

theorem launch_pointers_exact_witness:
  "\<exists>s' l slots. demo_launch demo_ready = Some (CL_SUCCESS, s') \<and> launches s' = [l] \<and>
    setup_kernel_arg_array (host s') (arg_info (l_meta l)) (l_arguments l) = Some slots \<and> slots ! 0 = Ptr_Slot (65536 + 128)"
proof -
  have "map_option fst (demo_launch demo_ready) = Some CL_SUCCESS" by code_simp
  then obtain s' where s': "demo_launch demo_ready = Some (CL_SUCCESS, s')" by auto
  obtain k where k: "kernels (host demo_ready) 0 = Some k" "k_meta k = demo_meta"
      "arg_value (dyn_arguments k ! 0) = Some (obj_value 2)" "kernel_typed k"
    using demo_kernel by blast
  from launch_pointers_exact [OF s' [unfolded demo_launch_def] k(1,4) demo_fit demo_kinds [folded k(2)]] obtain l slots where l:
    "launches s' = launches demo_ready @ [l]"
    "setup_kernel_arg_array (host s') (arg_info (l_meta l)) (l_arguments l) = Some slots"
    "length slots = unat (num_args (k_meta k))"
    "\<forall>i < length slots. pointer_arg (arg_info (k_meta k) ! i) \<longrightarrow>
      right_pointer (buffers (host demo_ready)) (l_mem_objs l) (arg_value (dyn_arguments k ! i)) (slots ! i)" by blast
  have "pointer_arg (arg_info (k_meta k) ! 0)" unfolding k(2) by code_simp
  moreover have "0 < length slots" unfolding l(3) k(2) by code_simp
  ultimately have "right_pointer (buffers (host demo_ready)) (l_mem_objs l) (Some (obj_value 2)) (slots ! 0)"
    using l(4) k(3) by auto
  moreover have "buffer_address (buffers (host demo_ready)) 2 = Some (65536 + 128)" unfolding demo_buffers by code_simp
  ultimately have "slots ! 0 = Ptr_Slot (65536 + 128)" by (simp add: right_pointer_def split: option.splits)
  then show ?thesis using s' l(1,2) demo_none by auto
qed


section \<open>What goes wrong\<close>

text \<open>
  C35: Launching twice: the first launch replaces a sub-buffer in the kernel object by its parent and keeps the
  offset beside it; a second launch without setting the argument again finds the parent and clears the offset,
  so its kernel gets the address of the parent instead of that of the sub-buffer.
\<close>

theorem relaunch_loses_sub_buffer_offset:
  assumes "clEnqueueNDRangeKernel (Some nq) (Some kn) wd off gws lws wl s = Some (CL_SUCCESS, s1)"
    and "clEnqueueNDRangeKernel (Some nq') (Some kn) wd' off' gws' lws' wl' s1 = Some (CL_SUCCESS, s2)"
    and "kernels (host s) kn = Some k" and "kernel_typed k" and "numbers_fit (buffers (host s))"
    and "\<forall>ai \<in> set (arg_info (k_meta k)). ai_type ai \<noteq> POCL_ARG_TYPE_IMAGE \<and> ai_type ai \<noteq> POCL_ARG_TYPE_SAMPLER"
    and "i < length (arg_info (k_meta k))" and "pointer_arg (arg_info (k_meta k) ! i)"
    and "arg_value (dyn_arguments k ! i) = Some v" and "objs (buffers (host s)) (obj_of v) = Some m"
    and "mem_parent m = Some p" and "objs (buffers (host s)) p = Some pm" and "mem_parent pm = None"
  shows "\<exists>l1 l2 slots1 slots2. launches s2 = launches s @ [l1, l2] \<and>
    setup_kernel_arg_array (host s1) (arg_info (l_meta l1)) (l_arguments l1) = Some slots1 \<and>
    setup_kernel_arg_array (host s2) (arg_info (l_meta l2)) (l_arguments l2) = Some slots2 \<and>
    slots1 ! i = Ptr_Slot (device_base pm + mem_origin m) \<and> slots2 ! i = Ptr_Slot (device_base pm)"
proof -
  from launch_pointers [OF assms(1,3-6)] obtain l1 slots1 where l1: "launches s1 = launches s @ [l1]"
    "setup_kernel_arg_array (host s1) (arg_info (l_meta l1)) (l_arguments l1) = Some slots1"
    "length slots1 = unat (num_args (k_meta k))"
    "\<forall>i < length slots1. pointer_arg (arg_info (k_meta k) ! i) \<longrightarrow>
      right_pointer (buffers (host s)) (l_mem_objs l1) (arg_value (dyn_arguments k ! i)) (slots1 ! i)" by blast
  have n: "length (arg_info (k_meta k)) = unat (num_args (k_meta k))"
    using assms(4) by (simp add: kernel_typed_def meta_ok_def)
  from l1(3,4) n assms(7,8) have "right_pointer (buffers (host s)) (l_mem_objs l1) (Some v) (slots1 ! i)"
    unfolding assms(9) [symmetric] by simp
  then have 1: "slots1 ! i = Ptr_Slot (device_base pm + mem_origin m)"
    by (simp add: right_pointer_def assms(10-13) buffer_address_def)
  obtain l :: launch and als where k1:
    "kernels (host s1) kn = Some (k\<lparr>dyn_arguments := als, k_refcount := k_refcount k + 1\<rparr>)"
    "list_all2 arg_typed (arg_info (k_meta k)) als" "same_objs (buffers (host s)) (buffers (host s1))"
    "\<forall>i < length (arg_info (k_meta k)). accepted_arg (nd_cmd_queue nq) (buffers (host s)) (set (l_mem_objs l))
       (arg_info (k_meta k) ! i, dyn_arguments k ! i) (als ! i)"
    using accepted_launch [OF assms(1,3-5)] by metis
  let ?k = "k\<lparr>dyn_arguments := als, k_refcount := k_refcount k + 1\<rparr>"
  have typed: "kernel_typed ?k" using k1(2) assms(4) by (simp add: kernel_typed_def)
  have fit: "numbers_fit (buffers (host s1))"
    unfolding numbers_fit_def
  proof
    fix b assume "b \<in> dom (objs (buffers (host s1)))"
    then have "b \<in> dom (objs (buffers (host s)))" by (cases rule: same_objs_cases [OF k1(3), of b]) auto
    then show "b < 2 ^ 64" using assms(5) by (simp add: numbers_fit_def)
  qed
  have kinds: "\<forall>ai \<in> set (arg_info (k_meta ?k)). ai_type ai \<noteq> POCL_ARG_TYPE_IMAGE \<and> ai_type ai \<noteq> POCL_ARG_TYPE_SAMPLER"
    using assms(6) by simp
  from launch_pointers [OF assms(2) k1(1) typed fit kinds] obtain l2 slots2 where l2: "launches s2 = launches s1 @ [l2]"
    "setup_kernel_arg_array (host s2) (arg_info (l_meta l2)) (l_arguments l2) = Some slots2"
    "length slots2 = unat (num_args (k_meta k))"
    "\<forall>i < length slots2. pointer_arg (arg_info (k_meta k) ! i) \<longrightarrow>
      right_pointer (buffers (host s1)) (l_mem_objs l2) (arg_value (als ! i)) (slots2 ! i)" by auto
  have "accepted_arg (nd_cmd_queue nq) (buffers (host s)) (set (l_mem_objs l)) (arg_info (k_meta k) ! i, dyn_arguments k ! i) (als ! i)"
    using k1(4) assms(7) by blast
  moreover have "uses_buffer (arg_info (k_meta k) ! i) (dyn_arguments k ! i)"
    using assms(8,9) by (simp add: uses_buffer_def pointer_arg_def)
  ultimately obtain b where "resolve_argument (nd_cmd_queue nq) (buffers (host s)) (arg_info (k_meta k) ! i) (dyn_arguments k ! i) =
      Some (CL_SUCCESS, b, als ! i)" by (auto simp: accepted_arg_def)
  from resolve_pointer [OF this assms(8,9,5) k1(3)] obtain v' where v': "arg_value (als ! i) = Some v'" "obj_of v' = p"
    by (auto simp: assms(10,11))
  have "right_pointer (buffers (host s1)) (l_mem_objs l2) (Some v') (slots2 ! i)"
    using l2(3,4) n assms(7,8) unfolding v'(1) [symmetric] by simp
  moreover obtain pm' where "objs (buffers (host s1)) p = Some pm'" "mem_parent pm' = None" "device_base pm' = device_base pm"
    by (cases rule: same_objs_cases [OF k1(3), of p]) (use assms(12,13) in \<open>auto simp: device_base_def\<close>)
  ultimately have "slots2 ! i = Ptr_Slot (device_base pm)"
    by (simp add: right_pointer_def v'(2) buffer_address_def)
  then show ?thesis using l1(1,2) l2(1,2) 1 by (intro exI [of _ l1] exI [of _ l2]) simp
qed

theorem relaunch_loses_sub_buffer_offset_witness:
  "\<exists>s1 s2 l1 l2 slots1 slots2. demo_launch demo_ready = Some (CL_SUCCESS, s1) \<and> demo_launch s1 = Some (CL_SUCCESS, s2) \<and>
    launches s2 = [l1, l2] \<and>
    setup_kernel_arg_array (host s1) (arg_info (l_meta l1)) (l_arguments l1) = Some slots1 \<and>
    setup_kernel_arg_array (host s2) (arg_info (l_meta l2)) (l_arguments l2) = Some slots2 \<and>
    slots1 ! 0 = Ptr_Slot 65664 \<and> slots2 ! 0 = Ptr_Slot 65536"
proof -
  have "map_option fst (demo_launch demo_ready) = Some CL_SUCCESS \<and>
      map_option fst (demo_launch (snd (the (demo_launch demo_ready)))) = Some CL_SUCCESS" by code_simp
  then obtain s1 s2 where s: "demo_launch demo_ready = Some (CL_SUCCESS, s1)" "demo_launch s1 = Some (CL_SUCCESS, s2)" by auto
  obtain k where k: "kernels (host demo_ready) 0 = Some k" "k_meta k = demo_meta"
      "arg_value (dyn_arguments k ! 0) = Some (obj_value 2)" "kernel_typed k"
    using demo_kernel by blast
  have len: "0 < length (arg_info (k_meta k))" and ptr: "pointer_arg (arg_info (k_meta k) ! 0)"
    unfolding k(2) by code_simp+
  have sub: "objs (buffers (host demo_ready)) (obj_of (obj_value 2)) = Some (demo_buffer (Some 1) 128 256 0)"
      "objs (buffers (host demo_ready)) 1 = Some (demo_buffer None 0 1024 65536)"
    by (simp_all add: demo_buffers demo_start_def)
  have parents: "mem_parent (demo_buffer (Some 1) 128 256 0) = Some 1" "mem_parent (demo_buffer None 0 1024 65536) = None"
    by (simp_all add: demo_buffer_def)
  have "device_base (demo_buffer None 0 1024 65536) = 65536" "mem_origin (demo_buffer (Some 1) 128 256 0) = 128"
    by (simp_all add: device_base_def demo_buffer_def)
  with relaunch_loses_sub_buffer_offset [OF s(1) [unfolded demo_launch_def] s(2) [unfolded demo_launch_def] k(1,4) demo_fit
      demo_kinds [folded k(2)] len ptr k(3) sub(1) parents(1) sub(2) parents(2)]
  show ?thesis using s demo_none by auto
qed

text \<open>
  A launch that fails at an argument that has not been set keeps the references it has taken to the buffers of
  the earlier arguments, one more with every attempt, and queues nothing that would release them.
\<close>

theorem failed_launch_leaks_references:
  "case demo_launch demo_arg0 of
     None \<Rightarrow> False
   | Some (err, s1) \<Rightarrow> err = CL_INVALID_KERNEL_ARGS \<and> launches s1 = [] \<and>
       map_option mem_refcount (objs (buffers (host demo_arg0)) 1) = Some 2 \<and>
       map_option mem_refcount (objs (buffers (host s1)) 1) = Some 3 \<and>
       (case demo_launch s1 of
          None \<Rightarrow> False
        | Some (err, s2) \<Rightarrow> err = CL_INVALID_KERNEL_ARGS \<and> launches s2 = [] \<and>
            map_option mem_refcount (objs (buffers (host s2)) 1) = Some 4)"
  by code_simp

end
