(* ===== verification/LocalMem.thy ===== *)
theory LocalMem
  imports KernelArgs
begin

text \<open>
  The local memory of a worker thread: the blocks \<open>setup_kernel_arg_array_with_locals\<close> (\<open>pthread_utils.c\<close>) lays out for
  the local arguments and the automatic local variables of a work-group.
\<close>

section \<open>The layout\<close>

lemma align_mask: "MAX_EXTENDED_ALIGNMENT - 1 = mask 7"
  by (simp add: MAX_EXTENDED_ALIGNMENT_def mask_eq_exp_minus_1)

lemma unat_align_ptr:
  assumes "unat p + 128 \<le> 2 ^ 64"
  shows "unat (align_ptr p) = round_up 128 (unat p)"
proof -
  have "unat (p AND mask 7) = take_bit 7 (unat p)" by (metis take_bit_eq_mask unsigned_take_bit_eq)
  then have low: "unat (p AND mask 7) = unat p mod 128" by (simp add: take_bit_eq_mod)
  have high: "unat (p AND NOT (mask 7)) = unat p div 128 * 128" by (simp add: unat_and_not_mask)
  show ?thesis
  proof (cases "p AND mask 7 = 0")
    case True
    then have "128 dvd unat p" using low by (metis mod_0_imp_dvd unat_0)
    then show ?thesis using True by (simp add: align_ptr_def align_mask)
  next
    case False
    then have "unat p mod 128 \<noteq> 0" using low by (metis unat_eq_zero)
    moreover have "(x + 127) div 128 = x div 128 + 1" if "x mod 128 \<noteq> 0" for x :: nat
    proof (rule div_nat_eqI)
      have x: "128 * (x div 128) + x mod 128 = x" by simp
      moreover have "x mod 128 < 128" by simp
      moreover have "0 < x mod 128" using that by simp
      ultimately have "128 * (x div 128 + 1) \<le> x + 127 \<and> x + 127 < 128 * Suc (x div 128 + 1)"
        unfolding mult_Suc_right distrib_left by linarith
      then show "128 * (x div 128 + 1) \<le> x + 127" "x + 127 < 128 * Suc (x div 128 + 1)" by blast+
    qed
    ultimately have r0: "(unat p + 127) div 128 = unat p div 128 + 1" by blast
    have r: "round_up 128 (unat p) = unat p div 128 * 128 + 128"
    proof -
      have "unat p + 128 - 1 = unat p + 127" by simp
      then show ?thesis unfolding round_up_def by (simp only: r0) simp
    qed
    have "unat ((p AND NOT (mask 7)) + MAX_EXTENDED_ALIGNMENT) = unat (p AND NOT (mask 7)) + unat MAX_EXTENDED_ALIGNMENT"
    proof (rule unat_add_nowrap)
      have "128 * (unat p div 128) + unat p mod 128 = unat p" by simp
      moreover have "0 < unat p mod 128" using \<open>unat p mod 128 \<noteq> 0\<close> by simp
      ultimately have "unat p div 128 * 128 + 128 < 2 ^ 64" using assms by linarith
      moreover have "unat MAX_EXTENDED_ALIGNMENT = 128" by (simp add: MAX_EXTENDED_ALIGNMENT_def)
      ultimately show "unat (p AND NOT (mask 7)) + unat MAX_EXTENDED_ALIGNMENT < 2 ^ LENGTH(64)"
        unfolding high by (simp only: len_num0 len_bit0 len_num1) simp
    qed
    moreover have "unat MAX_EXTENDED_ALIGNMENT = 128" by (simp add: MAX_EXTENDED_ALIGNMENT_def)
    ultimately show ?thesis using False unfolding align_ptr_def align_mask r by (simp only: high if_True not_False_eq_True)
  qed
qed

text \<open>The bytes the blocks take, each rounded up to the alignment.\<close>

definition local_total :: "size_t list \<Rightarrow> nat" where
  "local_total szs = (\<Sum>sz \<leftarrow> szs. round_up 128 (unat sz))"

lemma round_up_add: "0 < a \<Longrightarrow> a dvd x \<Longrightarrow> round_up a (x + y) = x + round_up a y"
proof -
  assume a: "0 < a" and "a dvd x"
  then obtain k where x: "x = a * k" by (auto elim: dvdE)
  have "(a * k + y + a - 1) div a = (y + a - 1 + k * a) div a" using a by (simp add: algebra_simps)
  also have "\<dots> = k + (y + a - 1) div a" using a by (intro div_mult_self1) simp
  finally show ?thesis by (simp add: round_up_def x algebra_simps)
qed

lemma local_block_exact:
  assumes start: "128 dvd unat start" "unat base \<le> unat start" "unat start \<le> unat base + unat lsize"
    and small: "unat base + unat lsize \<le> 2 ^ 62" "unat sz \<le> 2 ^ 62"
  shows "if unat start + round_up 128 (unat sz) \<le> unat base + unat lsize
    then \<exists>n. local_block base lsize start sz = Some n \<and> unat n = unat start + round_up 128 (unat sz)
    else local_block base lsize start sz = None"
proof -
  have p: "(2::nat) ^ 62 + 2 ^ 62 + 128 \<le> 2 ^ 64" by simp
  have s: "unat (start + sz) = unat start + unat sz"
    by (rule unat_add_nowrap) (use start(3) small p in simp)
  have "unat (start + sz) + 128 \<le> 2 ^ 64" using s start(3) small p by linarith
  then have a: "unat (align_ptr (start + sz)) = unat start + round_up 128 (unat sz)"
    unfolding unat_align_ptr s using round_up_add [OF _ start(1), of "unat sz"] by (simp add: unat_align_ptr s)
  have "unat base \<le> unat (align_ptr (start + sz))" using a start(2) by linarith
  then have d: "unat (align_ptr (start + sz) - base) = unat start + round_up 128 (unat sz) - unat base"
    unfolding a [symmetric] by (rule unat_minus_nowrap)
  have le: "align_ptr (start + sz) - base \<le> lsize \<longleftrightarrow> unat start + round_up 128 (unat sz) \<le> unat base + unat lsize"
    unfolding word_le_nat_alt d using start(2) by linarith
  show ?thesis using a unfolding local_block_def Let_def le by simp
qed

definition blocks_apart :: "size_t \<Rightarrow> size_t \<Rightarrow> size_t list \<Rightarrow> size_t list \<Rightarrow> bool" where
  "blocks_apart base lsize szs starts \<longleftrightarrow> length starts = length szs \<and>
     (\<forall>i < length szs. 128 dvd unat (starts ! i) \<and> unat base \<le> unat (starts ! i) \<and>
        unat (starts ! i) + unat (szs ! i) \<le> unat base + unat lsize \<and>
        (\<forall>j < length szs. i < j \<longrightarrow> unat (starts ! i) + unat (szs ! i) \<le> unat (starts ! j)))"

lemma place_locals_exact:
  assumes "128 dvd unat start" "unat base \<le> unat start" "unat start \<le> unat base + unat lsize"
    and "unat base + unat lsize \<le> 2 ^ 62" "\<forall>sz \<in> set szs. unat sz \<le> 2 ^ 62"
  shows "if unat start + local_total szs \<le> unat base + unat lsize
    then \<exists>starts. place_locals base lsize szs start = Some starts \<and> blocks_apart base lsize szs starts \<and>
      (\<forall>x \<in> set starts. unat start \<le> unat x)
    else place_locals base lsize szs start = None"
  using assms
proof (induction szs arbitrary: start)
  case Nil
  then show ?case by (simp add: local_total_def blocks_apart_def)
next
  case (Cons sz szs)
  have tot: "local_total (sz # szs) = round_up 128 (unat sz) + local_total szs" by (simp add: local_total_def)
  have "unat sz \<le> 2 ^ 62" using Cons.prems(5) by simp
  note b = local_block_exact [OF Cons.prems(1-4) this]
  show ?case
  proof (cases "unat start + round_up 128 (unat sz) \<le> unat base + unat lsize")
    case False
    then show ?thesis using b tot by simp
  next
    case True
    then obtain n where n: "local_block base lsize start sz = Some n" "unat n = unat start + round_up 128 (unat sz)"
      using b by auto
    have ge: "unat sz \<le> round_up 128 (unat sz)" by (rule round_up_ge) simp
    have "128 dvd unat n" unfolding n(2) using Cons.prems(1) by (simp add: round_up_dvd)
    note IH = Cons.IH [OF this _ _ Cons.prems(4)]
    have IH: "if unat n + local_total szs \<le> unat base + unat lsize
      then \<exists>starts. place_locals base lsize szs n = Some starts \<and> blocks_apart base lsize szs starts \<and>
        (\<forall>x \<in> set starts. unat n \<le> unat x)
      else place_locals base lsize szs n = None"
      using IH n(2) True Cons.prems(2,5) by simp
    show ?thesis
    proof (cases "unat n + local_total szs \<le> unat base + unat lsize")
      case False
      then show ?thesis using IH n tot by (simp add: add.assoc)
    next
      case fits: True
      then obtain starts where st: "place_locals base lsize szs n = Some starts" "blocks_apart base lsize szs starts"
          "\<forall>x \<in> set starts. unat n \<le> unat x" using IH by auto
      have first: "unat start + unat sz \<le> unat n" using ge n(2) by simp
      have "unat start + unat sz \<le> unat (starts ! j)" if "j < length szs" for j
        using st(2,3) that first by (force simp: blocks_apart_def intro: le_trans [OF first])
      moreover have "unat start + unat sz \<le> unat base + unat lsize" using True ge by simp
      ultimately have "blocks_apart base lsize (sz # szs) (start # starts)"
        using st(2) Cons.prems(1,2)
        unfolding blocks_apart_def list.size(4) add_0_right add_Suc_right All_less_Suc2 by simp
      moreover have "\<forall>x \<in> set (start # starts). unat start \<le> unat x" using st(3) n(2) by fastforce
      ultimately show ?thesis using st(1) n fits tot by (simp add: add.assoc)
    qed
  qed
qed

text \<open>
  C34: The local memory of a worker: for sizes that are no longer than the address space, the blocks of the local
  arguments and of the automatic local variables are aligned, lie in the worker's local memory and do not overlap,
  and the set-up fails exactly if they do not fit. A local argument of nearly $2^{64}$ bytes however passes the
  assertion, because the address wraps, and shares its block with the next one.
\<close>

theorem local_blocks_exact:
  assumes "128 dvd unat base" and "unat base + unat lsize \<le> 2 ^ 62" and "\<forall>sz \<in> set szs. unat sz \<le> 2 ^ 62"
  shows "(if local_total szs \<le> unat lsize
      then \<exists>starts. place_locals base lsize szs base = Some starts \<and> blocks_apart base lsize szs starts
      else place_locals base lsize szs base = None) \<and>
    place_locals 4096 1024 [2 ^ 64 - 1, 16] 4096 = Some [4096, 4096]"
proof
  show "if local_total szs \<le> unat lsize
      then \<exists>starts. place_locals base lsize szs base = Some starts \<and> blocks_apart base lsize szs starts
      else place_locals base lsize szs base = None"
    using place_locals_exact [OF assms(1) _ _ assms(2,3)] by auto
  show "place_locals 4096 1024 [2 ^ 64 - 1, 16] 4096 = Some [4096, 4096]" by code_simp
qed

theorem local_blocks_exact_witness:
  "\<exists>starts. place_locals 65536 4096 [100, 1000, 7] 65536 = Some starts \<and> blocks_apart 65536 4096 [100, 1000, 7] starts"
proof -
  have "local_total [100, 1000, 7] \<le> unat (4096 :: size_t)" by (simp add: local_total_def round_up_def)
  then show ?thesis using local_blocks_exact [of 65536 4096 "[100, 1000, 7]"] by simp
qed
end
