(* ===== verification/ImageObjects.thy ===== *)
theory ImageObjects
  imports MemSafety KernelArgs
begin

text \<open>
  Images as memory objects: their creation (\<open>clCreateImage.c\<close>), the check of a region of an image and the
  conversion of fill colours (\<open>pocl_image_util.c\<close>), the commands that read, write, fill and copy images
  (\<open>clEnqueue*Image*.c\<close>), and their execution by the basic driver (\<open>pocl_exec_command\<close>). The context has one device.
\<close>

section \<open>Creation\<close>

record image_format =
  fmt_order :: cl_uint
  fmt_type :: cl_uint

record cl_image_desc =
  d_type :: mem_type
  d_width :: size_t
  d_height :: size_t
  d_depth :: size_t
  d_array_size :: size_t
  d_row_pitch :: size_t
  d_slice_pitch :: size_t
  d_num_mip_levels :: cl_uint
  d_num_samples :: cl_uint
  d_buffer :: "nat option"

record image_device =
  image_support :: bool
  image2d_max_width :: size_t
  image2d_max_height :: size_t
  image3d_max_width :: size_t
  image3d_max_height :: size_t
  image3d_max_depth :: size_t
  image_max_array_size :: size_t
  image_max_buffer_size :: size_t
  image_formats :: "mem_type \<Rightarrow> (cl_uint \<times> cl_uint) list"
  max_mem_alloc_size :: size_t

text \<open>The channel orders and types of \<open>cl.h\<close> that the drivers name.\<close>

definition CL_R :: cl_uint where "CL_R = 0x10B0"
definition CL_A :: cl_uint where "CL_A = 0x10B1"
definition CL_RGBA :: cl_uint where "CL_RGBA = 0x10B5"
definition CL_BGRA :: cl_uint where "CL_BGRA = 0x10B6"
definition CL_ARGB :: cl_uint where "CL_ARGB = 0x10B7"
definition CL_SNORM_INT8 :: cl_uint where "CL_SNORM_INT8 = 0x10D0"
definition CL_SNORM_INT16 :: cl_uint where "CL_SNORM_INT16 = 0x10D1"
definition CL_UNORM_INT8 :: cl_uint where "CL_UNORM_INT8 = 0x10D2"
definition CL_UNORM_INT16 :: cl_uint where "CL_UNORM_INT16 = 0x10D3"
definition CL_SIGNED_INT8 :: cl_uint where "CL_SIGNED_INT8 = 0x10D7"
definition CL_SIGNED_INT16 :: cl_uint where "CL_SIGNED_INT16 = 0x10D8"
definition CL_SIGNED_INT32 :: cl_uint where "CL_SIGNED_INT32 = 0x10D9"
definition CL_UNSIGNED_INT8 :: cl_uint where "CL_UNSIGNED_INT8 = 0x10DA"
definition CL_UNSIGNED_INT16 :: cl_uint where "CL_UNSIGNED_INT16 = 0x10DB"
definition CL_UNSIGNED_INT32 :: cl_uint where "CL_UNSIGNED_INT32 = 0x10DC"
definition CL_HALF_FLOAT :: cl_uint where "CL_HALF_FLOAT = 0x10DD"
definition CL_FLOAT :: cl_uint where "CL_FLOAT = 0x10DE"

lemmas image_const_defs = CL_R_def CL_A_def CL_RGBA_def CL_BGRA_def CL_ARGB_def CL_SNORM_INT8_def CL_SNORM_INT16_def
  CL_UNORM_INT8_def CL_UNORM_INT16_def CL_SIGNED_INT8_def CL_SIGNED_INT16_def CL_SIGNED_INT32_def
  CL_UNSIGNED_INT8_def CL_UNSIGNED_INT16_def CL_UNSIGNED_INT32_def CL_HALF_FLOAT_def CL_FLOAT_def

definition supported_image_formats :: "(cl_uint \<times> cl_uint) list" where
  "supported_image_formats =
    [(CL_A, CL_SNORM_INT8), (CL_A, CL_SNORM_INT16), (CL_A, CL_UNORM_INT8), (CL_A, CL_UNORM_INT16),
     (CL_A, CL_SIGNED_INT8), (CL_A, CL_SIGNED_INT16), (CL_A, CL_SIGNED_INT32),
     (CL_A, CL_UNSIGNED_INT8), (CL_A, CL_UNSIGNED_INT16), (CL_A, CL_UNSIGNED_INT32), (CL_A, CL_FLOAT),
     (CL_RGBA, CL_SNORM_INT8), (CL_RGBA, CL_SNORM_INT16), (CL_RGBA, CL_UNORM_INT8), (CL_RGBA, CL_UNORM_INT16),
     (CL_RGBA, CL_SIGNED_INT8), (CL_RGBA, CL_SIGNED_INT16), (CL_RGBA, CL_SIGNED_INT32),
     (CL_RGBA, CL_UNSIGNED_INT8), (CL_RGBA, CL_UNSIGNED_INT16), (CL_RGBA, CL_UNSIGNED_INT32),
     (CL_RGBA, CL_HALF_FLOAT), (CL_RGBA, CL_FLOAT),
     (CL_ARGB, CL_SNORM_INT8), (CL_ARGB, CL_UNORM_INT8), (CL_ARGB, CL_SIGNED_INT8), (CL_ARGB, CL_UNSIGNED_INT8),
     (CL_BGRA, CL_SNORM_INT8), (CL_BGRA, CL_UNORM_INT8), (CL_BGRA, CL_SIGNED_INT8), (CL_BGRA, CL_UNSIGNED_INT8)]"

text \<open>The image limits \<open>pocl_init_default_device_infos\<close> sets.\<close>

definition default_image_device :: "size_t \<Rightarrow> image_device" where
  "default_image_device max_alloc =
     \<lparr>image_support = True, image2d_max_width = 8192, image2d_max_height = 8192,
      image3d_max_width = 2048, image3d_max_height = 2048, image3d_max_depth = 2048,
      image_max_array_size = 2048, image_max_buffer_size = 65536,
      image_formats = (\<lambda>_. supported_image_formats), max_mem_alloc_size = max_alloc\<rparr>"

text \<open>The result and \<open>device_support\<close>.\<close>

definition pocl_check_device_supports_image ::
  "image_device \<Rightarrow> image_format \<Rightarrow> cl_image_desc \<Rightarrow> cl_error \<times> cl_uint" where
  "pocl_check_device_supports_image dev fmt desc =
     (let t = d_type desc;
          err = first_error
            [(\<not> image_support dev, CL_INVALID_OPERATION),
             (t \<in> {IMAGE1D, IMAGE1D_ARRAY} \<and> d_width desc > image2d_max_width dev, CL_INVALID_IMAGE_SIZE),
             (t \<in> {IMAGE2D, IMAGE2D_ARRAY} \<and> d_width desc > image2d_max_width dev, CL_INVALID_IMAGE_SIZE),
             (t \<in> {IMAGE2D, IMAGE2D_ARRAY} \<and> d_height desc > image2d_max_height dev, CL_INVALID_IMAGE_SIZE),
             (t = IMAGE3D \<and> d_width desc > image3d_max_width dev, CL_INVALID_IMAGE_SIZE),
             (t = IMAGE3D \<and> d_height desc > image3d_max_height dev, CL_INVALID_IMAGE_SIZE),
             (t = IMAGE3D \<and> d_depth desc > image3d_max_depth dev, CL_INVALID_IMAGE_SIZE),
             (t \<in> {IMAGE1D_ARRAY, IMAGE2D_ARRAY} \<and> image_max_array_size dev < d_array_size desc, CL_INVALID_IMAGE_SIZE),
             (t = IMAGE1D_BUFFER \<and> image_max_buffer_size dev < d_width desc, CL_INVALID_IMAGE_SIZE)]
      in if err \<noteq> CL_SUCCESS then (err, 0)
         else if (fmt_order fmt, fmt_type fmt) \<in> set (image_formats dev t) then (CL_SUCCESS, 3)
         else (CL_INVALID_IMAGE_FORMAT_DESCRIPTOR, 1))"

text \<open>
  The pitches and the size of the memory of an image: an error, or row pitch, slice pitch and size in wrapping
  arithmetic. A modulus by 0 is \<^const>\<open>None\<close>.
\<close>

definition image_row_pitch_of :: "cl_image_desc \<Rightarrow> size_t \<Rightarrow> (cl_error + size_t) option" where
  "image_row_pitch_of desc elem_bytes =
     (if d_row_pitch desc = 0 then Some (Inr (d_width desc * elem_bytes))
      else if elem_bytes = 0 then None
      else if d_row_pitch desc mod elem_bytes \<noteq> 0 then Some (Inl CL_INVALID_VALUE)
      else Some (Inr (d_row_pitch desc)))"

definition image_slice_pitch_of :: "cl_image_desc \<Rightarrow> size_t \<Rightarrow> (cl_error + size_t) option" where
  "image_slice_pitch_of desc row_pitch =
     (if d_slice_pitch desc = 0
      then Some (Inr (if d_type desc \<in> {IMAGE3D, IMAGE2D_ARRAY} then row_pitch * d_height desc
                      else if d_type desc = IMAGE1D_ARRAY then row_pitch else 0))
      else if row_pitch = 0 then None
      else if d_slice_pitch desc mod row_pitch \<noteq> 0 then Some (Inl CL_INVALID_VALUE)
      else Some (Inr (d_slice_pitch desc)))"

definition image_bytes_of :: "cl_image_desc \<Rightarrow> size_t \<Rightarrow> size_t \<Rightarrow> size_t" where
  "image_bytes_of desc row_pitch slice_pitch =
     (case d_type desc of
        IMAGE3D \<Rightarrow> slice_pitch * d_depth desc
      | IMAGE2D \<Rightarrow> row_pitch * d_height desc
      | IMAGE1D \<Rightarrow> row_pitch
      | IMAGE1D_BUFFER \<Rightarrow> row_pitch
      | IMAGE2D_ARRAY \<Rightarrow> slice_pitch * d_array_size desc
      | IMAGE1D_ARRAY \<Rightarrow> slice_pitch * d_array_size desc
      | BUFFER \<Rightarrow> 0)"

definition image_fields :: "image_format \<Rightarrow> cl_image_desc \<Rightarrow> cl_uint \<Rightarrow> size_t \<Rightarrow> size_t \<Rightarrow> image_desc" where
  "image_fields fmt desc support row_pitch slice_pitch =
     (let (channels, elem_size) = pocl_get_image_information (fmt_order fmt) (fmt_type fmt); t = d_type desc in
      \<lparr>img_elem_size = ucast elem_size, img_channels = ucast channels, img_row_pitch = row_pitch, img_slice_pitch = slice_pitch,
       img_channel_order = fmt_order fmt, img_channel_data_type = fmt_type fmt, img_support = support,
       img_width = d_width desc,
       img_height = (if t \<in> {IMAGE2D, IMAGE2D_ARRAY, IMAGE3D} then d_height desc else 0),
       img_depth = (if t = IMAGE3D then d_depth desc else 0),
       img_array_size = (if t \<in> {IMAGE2D_ARRAY, IMAGE1D_ARRAY} then d_array_size desc else 0),
       img_buffer = (if t = IMAGE1D_BUFFER then d_buffer desc else None)\<rparr>)"

text \<open>
  An image over a buffer has no memory of its own (device pointer \<open>NULL\<close>, here 0) and retains the buffer; the
  assertion asks for the same context. \<^const>\<open>None\<close> also stands for \<open>POCL_ABORT_UNIMPLEMENTED\<close>. A driver may
  refuse an image (\<open>create_image\<close>); the CPU drivers do not have that operation.
\<close>

definition image_on_buffer ::
  "nat \<Rightarrow> flags \<Rightarrow> cl_image_desc \<Rightarrow> image_desc \<Rightarrow> size_t \<Rightarrow> mem_state \<Rightarrow> ((cl_error + nat) \<times> mem_state) option" where
  "image_on_buffer ctx fl desc i sz s =
     (case d_buffer desc of
        None \<Rightarrow> Some (Inl CL_INVALID_MEM_OBJECT, s)
      | Some p \<Rightarrow> do {
          pm \<leftarrow> objs s p;
          if mem_parent pm \<noteq> None then Some (Inl CL_INVALID_MEM_OBJECT, s)
          else if mem_size pm < sz then Some (Inl CL_INVALID_MEM_OBJECT, s)
          else if ctx \<noteq> mem_context pm then None
          else do {
            let b = next_obj s;
            let s = s\<lparr>next_obj := b + 1, objs := (objs s)(b \<mapsto>
              \<lparr>mem_context = ctx, mem_size = sz, mem_origin = 0, mem_parent = None,
               mem_flags = pocl_cl_mem_inherit_flags (mem_flags pm) fl, mem_type = IMAGE1D_BUFFER, mem_image = Some i,
               mem_ptr = 0, mem_host_ptr = 0, mem_refcount = 1\<rparr>)\<rparr>;
            s \<leftarrow> clRetainMemObject p s;
            Some (Inr b, s)}})"

definition clCreateImage ::
  "nat option \<Rightarrow> image_device \<Rightarrow> flags \<Rightarrow> image_format option \<Rightarrow> cl_image_desc option \<Rightarrow> size_t \<Rightarrow>
   size_t option \<Rightarrow> size_t option \<Rightarrow> mem_state \<Rightarrow> ((cl_error + nat) \<times> mem_state) option" where
  "clCreateImage context dev fl format description host_ptr dev_ptr host_alloc s =
     (case context of None \<Rightarrow> Some (Inl CL_INVALID_CONTEXT, s) | Some ctx \<Rightarrow>
      case format of None \<Rightarrow> Some (Inl CL_INVALID_IMAGE_FORMAT_DESCRIPTOR, s) | Some fmt \<Rightarrow>
      case description of None \<Rightarrow> Some (Inl CL_INVALID_IMAGE_DESCRIPTOR, s) | Some desc \<Rightarrow>
        if d_num_mip_levels desc \<noteq> 0 \<or> d_num_samples desc \<noteq> 0 then None
        else if d_type desc = BUFFER then Some (Inl CL_INVALID_VALUE, s)
        else
          let (sup_err, support) =
                (if image_support dev then pocl_check_device_supports_image dev fmt desc else (CL_INVALID_OPERATION, 0));
              (channels, elem_size) = pocl_get_image_information (fmt_order fmt) (fmt_type fmt);
              elem_bytes = ucast elem_size * ucast channels :: size_t
          in if sup_err \<noteq> CL_SUCCESS then Some (Inl CL_INVALID_OPERATION, s)
          else do {
            rp \<leftarrow> image_row_pitch_of desc elem_bytes;
            (case rp of Inl err \<Rightarrow> Some (Inl err, s) | Inr row_pitch \<Rightarrow> do {
              sp \<leftarrow> image_slice_pitch_of desc row_pitch;
              (case sp of Inl err \<Rightarrow> Some (Inl err, s) | Inr slice_pitch \<Rightarrow>
                let sz = image_bytes_of desc row_pitch slice_pitch;
                    i = image_fields fmt desc support row_pitch slice_pitch
                in if d_type desc = IMAGE1D_BUFFER then image_on_buffer ctx fl desc i sz s
                   else case clCreateBuffer ctx (max_mem_alloc_size dev) fl sz host_ptr dev_ptr host_alloc s of
                     (Inl err, s) \<Rightarrow> Some (Inl CL_OUT_OF_HOST_MEMORY, s)
                   | (Inr b, s) \<Rightarrow> do {
                       m \<leftarrow> objs s b;
                       Some (Inr b, s\<lparr>objs := (objs s)(b \<mapsto> m\<lparr>mem_type := d_type desc, mem_image := Some i\<rparr>)\<rparr>)})})})"

section \<open>Regions of an image\<close>

definition pocl_get_image_dim :: "mem_type \<Rightarrow> nat" where
  "pocl_get_image_dim t =
     (case t of
        IMAGE1D \<Rightarrow> 1 | IMAGE1D_BUFFER \<Rightarrow> 1
      | IMAGE2D \<Rightarrow> 2 | IMAGE1D_ARRAY \<Rightarrow> 2
      | IMAGE3D \<Rightarrow> 3 | IMAGE2D_ARRAY \<Rightarrow> 3
      | BUFFER \<Rightarrow> 2 ^ 32 - 1)"

definition pocl_check_image_origin_region ::
  "mem_type \<Rightarrow> image_desc \<Rightarrow> size3 option \<Rightarrow> size3 option \<Rightarrow> cl_error" where
  "pocl_check_image_origin_region t i origin region =
     (case origin of None \<Rightarrow> CL_INVALID_VALUE | Some (o0, o1, o2) \<Rightarrow>
      case region of None \<Rightarrow> CL_INVALID_VALUE | Some (r0, r1, r2) \<Rightarrow>
      let dim = pocl_get_image_dim t in first_error
        [(dim < 2 \<and> o1 \<noteq> 0, CL_INVALID_VALUE),
         (dim < 2 \<and> r1 \<noteq> 1, CL_INVALID_VALUE),
         (dim < 3 \<and> o2 \<noteq> 0, CL_INVALID_VALUE),
         (dim < 3 \<and> r2 \<noteq> 1, CL_INVALID_VALUE),
         (o0 + r0 > img_width i, CL_INVALID_VALUE),
         (img_height i > 0 \<and> o1 + r1 > img_height i, CL_INVALID_VALUE),
         (img_depth i > 0 \<and> o2 + r2 > img_depth i, CL_INVALID_VALUE)])"

section \<open>Fill colours\<close>

type_synonym color = "cl_uint \<times> cl_uint \<times> cl_uint \<times> cl_uint"

definition convert_char_sat_int :: "cl_uint \<Rightarrow> 8 word" where
  "convert_char_sat_int x = of_int (max (-128) (min (sint x) 127))"

definition convert_short_sat_int :: "cl_uint \<Rightarrow> 16 word" where
  "convert_short_sat_int x = of_int (max (-32768) (min (sint x) 32767))"

definition convert_uchar_sat_int :: "cl_uint \<Rightarrow> 8 word" where
  "convert_uchar_sat_int x = ucast (min x 255)"

definition convert_ushort_sat_int :: "cl_uint \<Rightarrow> 16 word" where
  "convert_ushort_sat_int x = ucast (min x 65535)"

definition map_channels :: "color \<Rightarrow> cl_uint \<Rightarrow> color" where
  "map_channels col order =
     (case col of (c0, c1, c2, c3) \<Rightarrow>
      if order = CL_ARGB then (c3, c0, c1, c2)
      else if order = CL_BGRA then (c2, c1, c0, c3)
      else col)"

definition each4 :: "(cl_uint \<Rightarrow> bytes) \<Rightarrow> color \<Rightarrow> bytes" where
  "each4 f col = (case col of (c0, c1, c2, c3) \<Rightarrow> f c0 @ f c1 @ f c2 @ f c3)"

definition int_bytes :: "cl_uint \<Rightarrow> cl_uint \<Rightarrow> bytes" where
  "int_bytes elem_size x =
     (if elem_size = 1 then le_bytes 1 (convert_char_sat_int x)
      else if elem_size = 2 then le_bytes 2 (convert_short_sat_int x)
      else if elem_size = 4 then le_bytes 4 x else [])"

definition uint_bytes :: "cl_uint \<Rightarrow> cl_uint \<Rightarrow> bytes" where
  "uint_bytes elem_size x =
     (if elem_size = 1 then le_bytes 1 (convert_uchar_sat_int x)
      else if elem_size = 2 then le_bytes 2 (convert_ushort_sat_int x)
      else if elem_size = 4 then le_bytes 4 x else [])"

definition pocl_write_pixel_fast_i :: "color \<Rightarrow> cl_uint \<Rightarrow> cl_uint \<Rightarrow> bytes" where
  "pocl_write_pixel_fast_i col order elem_size =
     (if order = CL_A then int_bytes elem_size (snd (snd (snd col))) else each4 (int_bytes elem_size) col)"

definition pocl_write_pixel_fast_ui :: "color \<Rightarrow> cl_uint \<Rightarrow> cl_uint \<Rightarrow> bytes" where
  "pocl_write_pixel_fast_ui col order elem_size =
     (if order = CL_A then uint_bytes elem_size (snd (snd (snd col))) else each4 (uint_bytes elem_size) col)"

text \<open>
  A component of a floating-point colour is stored as it is; its conversion to a half float or a normalised
  integer is floating-point arithmetic, the argument \<open>normalise\<close>.
\<close>

definition float_bytes :: "(cl_uint \<Rightarrow> cl_uint \<Rightarrow> bytes) \<Rightarrow> cl_uint \<Rightarrow> cl_uint \<Rightarrow> bytes" where
  "float_bytes normalise channel_type x =
     (if channel_type = CL_FLOAT then le_bytes 4 x
      else if channel_type \<in> {CL_HALF_FLOAT, CL_SNORM_INT8, CL_SNORM_INT16, CL_UNORM_INT8, CL_UNORM_INT16}
      then normalise channel_type x else [])"

definition pocl_write_pixel_fast_f :: "(cl_uint \<Rightarrow> cl_uint \<Rightarrow> bytes) \<Rightarrow> color \<Rightarrow> cl_uint \<Rightarrow> cl_uint \<Rightarrow> bytes" where
  "pocl_write_pixel_fast_f normalise col channel_type order =
     (if order = CL_A then float_bytes normalise channel_type (snd (snd (snd col)))
      else each4 (float_bytes normalise channel_type) col)"

text \<open>The bytes \<open>pocl_write_pixel_zero\<close> stores at its data pointer.\<close>

definition pocl_write_pixel_zero ::
  "(cl_uint \<Rightarrow> cl_uint \<Rightarrow> bytes) \<Rightarrow> color \<Rightarrow> cl_uint \<Rightarrow> cl_uint \<Rightarrow> cl_uint \<Rightarrow> bytes" where
  "pocl_write_pixel_zero normalise col order elem_size channel_type =
     (let col = map_channels col order in
      if channel_type \<in> {CL_SIGNED_INT8, CL_SIGNED_INT16, CL_SIGNED_INT32} then pocl_write_pixel_fast_i col order elem_size
      else if channel_type \<in> {CL_UNSIGNED_INT8, CL_UNSIGNED_INT16, CL_UNSIGNED_INT32}
      then pocl_write_pixel_fast_ui col order elem_size
      else pocl_write_pixel_fast_f normalise col channel_type order)"

section \<open>Image commands\<close>

text \<open>
  Images are named by their number, the driver's routines get the image, the device pointers and, for a fill,
  the address of the runtime's copy of the pixel with its content.
\<close>

datatype image_command =
  READ_IMAGE nat size_t size_t size_t size3 size3 size_t size_t size_t
| WRITE_IMAGE nat size_t size_t size_t size3 size3 size_t size_t size_t
| COPY_IMAGE nat nat size_t size_t size3 size3 size3
| FILL_IMAGE nat size_t size3 size3 size_t bytes size_t

record image_node =
  inode_command :: image_command
  inode_mem_objs :: "nat list"

text \<open>The memory objects with the buffer commands, and the queued image commands.\<close>

record image_state =
  ims :: mem_state
  image_queue :: "image_node list"

definition enqueue_image :: "image_command \<Rightarrow> nat list \<Rightarrow> nat list \<Rightarrow> image_state \<Rightarrow> (cl_error \<times> image_state) option" where
  "enqueue_image c mem_objs retained st = do {
     s \<leftarrow> retain_all retained (ims st);
     Some (CL_SUCCESS, st\<lparr>ims := s, image_queue := image_queue st @ [\<lparr>inode_command = c, inode_mem_objs = mem_objs\<rparr>]\<rparr>)}"

definition image_pixel :: "image_desc \<Rightarrow> size_t" where
  "image_pixel i = img_elem_size i * img_channels i"

definition is_image1d_buffer :: "cl_mem \<Rightarrow> bool" where
  "is_image1d_buffer m \<longleftrightarrow> mem_image m \<noteq> None \<and> mem_type m = IMAGE1D_BUFFER"

text \<open>A redirected call to a buffer function.\<close>

definition on_buffers :: "(mem_state \<Rightarrow> (cl_error \<times> mem_state) option) \<Rightarrow> image_state \<Rightarrow> (cl_error \<times> image_state) option" where
  "on_buffers f st = map_option (\<lambda>(err, s). (err, st\<lparr>ims := s\<rparr>)) (f (ims st))"

definition image_checks ::
  "cmd_queue \<Rightarrow> cl_mem \<Rightarrow> wait_list \<Rightarrow> flags \<Rightarrow> size3 option \<Rightarrow> size3 option \<Rightarrow> cl_error" where
  "image_checks q m wl forbidden origin region =
     (case mem_image m of
        None \<Rightarrow> if q_context q \<noteq> mem_context m then CL_INVALID_CONTEXT else CL_INVALID_MEM_OBJECT
      | Some i \<Rightarrow>
          let region_err = pocl_check_image_origin_region (mem_type m) i origin region in first_error
            ([(q_context q \<noteq> mem_context m, CL_INVALID_CONTEXT)] @ unsupported_image q i @
             [(pocl_check_event_wait_list q wl \<noteq> CL_SUCCESS, pocl_check_event_wait_list q wl),
              (has_flag (mem_flags m) forbidden, CL_INVALID_OPERATION),
              (region_err \<noteq> CL_SUCCESS, region_err)]))"

text \<open>
  Reading and writing of an image over a buffer become commands on the image as a buffer, with the first
  coordinate in bytes; \<open>NULL\<close> arrays are dereferenced there.
\<close>

definition clEnqueueReadImage ::
  "cmd_queue option \<Rightarrow> nat option \<Rightarrow> size3 option \<Rightarrow> size3 option \<Rightarrow> size_t \<Rightarrow> size_t \<Rightarrow> size_t \<Rightarrow> wait_list \<Rightarrow>
   image_state \<Rightarrow> (cl_error \<times> image_state) option" where
  "clEnqueueReadImage queue img origin region row_pitch slice_pitch ptr wl st =
     (case queue of None \<Rightarrow> Some (CL_INVALID_COMMAND_QUEUE, st) | Some q \<Rightarrow>
      case img of None \<Rightarrow> Some (CL_INVALID_MEM_OBJECT, st) | Some b \<Rightarrow>
      if ptr = 0 then Some (CL_INVALID_VALUE, st)
      else do {
        m \<leftarrow> objs (ims st) b;
        if is_image1d_buffer m then do {
          org \<leftarrow> origin;
          rg \<leftarrow> region;
          let px = image_pixel (the (mem_image m));
          on_buffers (clEnqueueReadBuffer queue img (fst org * px) (fst rg * px) ptr wl) st}
        else
          let err = image_checks q m wl (or CL_MEM_HOST_WRITE_ONLY CL_MEM_HOST_NO_ACCESS) origin region in
          if err \<noteq> CL_SUCCESS then Some (err, st)
          else enqueue_image (READ_IMAGE b (mem_ptr m) ptr 0 (the origin) (the region) row_pitch slice_pitch 0) [b] [b] st})"

definition clEnqueueWriteImage ::
  "cmd_queue option \<Rightarrow> nat option \<Rightarrow> size3 option \<Rightarrow> size3 option \<Rightarrow> size_t \<Rightarrow> size_t \<Rightarrow> size_t \<Rightarrow> wait_list \<Rightarrow>
   image_state \<Rightarrow> (cl_error \<times> image_state) option" where
  "clEnqueueWriteImage queue img origin region row_pitch slice_pitch ptr wl st =
     (case queue of None \<Rightarrow> Some (CL_INVALID_COMMAND_QUEUE, st) | Some q \<Rightarrow>
      case img of None \<Rightarrow> Some (CL_INVALID_MEM_OBJECT, st) | Some b \<Rightarrow>
      if ptr = 0 then Some (CL_INVALID_VALUE, st)
      else do {
        m \<leftarrow> objs (ims st) b;
        if is_image1d_buffer m then do {
          org \<leftarrow> origin;
          rg \<leftarrow> region;
          let px = image_pixel (the (mem_image m));
          on_buffers (clEnqueueWriteBuffer queue img (fst org * px) (fst rg * px) ptr wl) st}
        else
          let err = image_checks q m wl (or CL_MEM_HOST_READ_ONLY CL_MEM_HOST_NO_ACCESS) origin region in
          if err \<noteq> CL_SUCCESS then Some (err, st)
          else enqueue_image (WRITE_IMAGE b (mem_ptr m) ptr 0 (the origin) (the region) row_pitch slice_pitch 0) [b] [b] st})"

text \<open>
  \<open>fill_pixel\<close> is the block of 16 bytes the runtime allocates. An image over a buffer is filled as a buffer with a
  pattern of 16 bytes, whatever the size of a pixel.
\<close>

definition clEnqueueFillImage ::
  "(cl_uint \<Rightarrow> cl_uint \<Rightarrow> bytes) \<Rightarrow> cmd_queue option \<Rightarrow> nat option \<Rightarrow> color option \<Rightarrow> size3 option \<Rightarrow> size3 option \<Rightarrow>
   size_t option \<Rightarrow> wait_list \<Rightarrow> image_state \<Rightarrow> (cl_error \<times> image_state) option" where
  "clEnqueueFillImage normalise queue img fill_color origin region fill_pixel wl st =
     (case queue of None \<Rightarrow> Some (CL_INVALID_COMMAND_QUEUE, st) | Some q \<Rightarrow>
      case img of None \<Rightarrow> Some (CL_INVALID_MEM_OBJECT, st) | Some b \<Rightarrow>
      case origin of None \<Rightarrow> Some (CL_INVALID_VALUE, st) | Some org \<Rightarrow>
      case region of None \<Rightarrow> Some (CL_INVALID_VALUE, st) | Some rg \<Rightarrow>
      case fill_color of None \<Rightarrow> Some (CL_INVALID_VALUE, st) | Some col \<Rightarrow> do {
        m \<leftarrow> objs (ims st) b;
        let err = image_checks q m wl 0 origin region;
        if err \<noteq> CL_SUCCESS then Some (err, st)
        else case fill_pixel of None \<Rightarrow> Some (CL_OUT_OF_HOST_MEMORY, st) | Some p \<Rightarrow> do {
          i \<leftarrow> mem_image m;
          let pixel = pocl_write_pixel_zero normalise col (img_channel_order i) (ucast (img_elem_size i)) (img_channel_data_type i);
          let px = image_pixel i;
          if is_image1d_buffer m
          then on_buffers (clEnqueueFillBuffer queue (img_buffer i) p p 16 (fst org * px) (fst rg * px) wl) st
          else enqueue_image (FILL_IMAGE b (mem_ptr m) org rg p pixel px) [b] [b] st}})"

definition clEnqueueCopyImage ::
  "cmd_queue option \<Rightarrow> nat option \<Rightarrow> nat option \<Rightarrow> size3 option \<Rightarrow> size3 option \<Rightarrow> size3 option \<Rightarrow> wait_list \<Rightarrow>
   image_state \<Rightarrow> (cl_error \<times> image_state) option" where
  "clEnqueueCopyImage queue src_image dst_image src_origin dst_origin region wl st =
     (case queue of None \<Rightarrow> Some (CL_INVALID_COMMAND_QUEUE, st) | Some q \<Rightarrow>
      case src_image of None \<Rightarrow> Some (CL_INVALID_MEM_OBJECT, st) | Some src \<Rightarrow>
      case dst_image of None \<Rightarrow> Some (CL_INVALID_MEM_OBJECT, st) | Some dst \<Rightarrow> do {
        sm \<leftarrow> objs (ims st) src;
        dm \<leftarrow> objs (ims st) dst;
        if is_image1d_buffer sm \<or> is_image1d_buffer dm then Some (CL_INVALID_MEM_OBJECT, st)
        else do {
          res \<leftarrow> pocl_rect_copy q src_image True dst_image True src_origin dst_origin region 0 0 0 0 wl (ims st);
          (case res of
             Inl err \<Rightarrow> Some (err, st)
           | Inr _ \<Rightarrow> enqueue_image (COPY_IMAGE src dst (mem_ptr sm) (mem_ptr dm) (the src_origin) (the dst_origin) (the region))
               [src, dst] [src, dst] st)}})"

text \<open>
  The copies between a buffer and an image list the buffer in the event's objects as it was passed and retain the
  parent of a sub-buffer.
\<close>

definition byte_coord :: "size_t \<Rightarrow> size3 \<Rightarrow> size3" where
  "byte_coord px v = (case v of (x, y, z) \<Rightarrow> (x * px, y, z))"

definition clEnqueueCopyBufferToImage ::
  "cmd_queue option \<Rightarrow> nat option \<Rightarrow> nat option \<Rightarrow> size_t \<Rightarrow> size3 option \<Rightarrow> size3 option \<Rightarrow> wait_list \<Rightarrow>
   image_state \<Rightarrow> (cl_error \<times> image_state) option" where
  "clEnqueueCopyBufferToImage queue src_buffer dst_image src_offset dst_origin region wl st =
     (case queue of None \<Rightarrow> Some (CL_INVALID_COMMAND_QUEUE, st) | Some q \<Rightarrow>
      case dst_image of None \<Rightarrow> Some (CL_INVALID_MEM_OBJECT, st) | Some dst \<Rightarrow> do {
        dm \<leftarrow> objs (ims st) dst;
        if is_image1d_buffer dm then do {
          org \<leftarrow> dst_origin;
          rg \<leftarrow> region;
          let i = the (mem_image dm);
          on_buffers (clEnqueueCopyBufferRect queue src_buffer (img_buffer i) (Some (src_offset, 0, 0))
            (Some (byte_coord (image_pixel i) org)) (Some (byte_coord (image_pixel i) rg))
            (img_row_pitch i) 0 (img_row_pitch i) 0 wl) st}
        else do {
          src \<leftarrow> src_buffer;
          sm \<leftarrow> objs (ims st) src;
          if on_sub_misalign q sm then Some (CL_MISALIGNED_SUB_BUFFER_OFFSET, st)
          else do {
            res \<leftarrow> pocl_rect_copy q src_buffer False dst_image True (Some (src_offset, 0, 0)) dst_origin region 0 0 0 0 wl (ims st);
            (case res of
               Inl err \<Rightarrow> Some (err, st)
             | Inr _ \<Rightarrow> do {
                 let (sr, src_offset) = POCL_CONVERT_SUBBUFFER_OFFSET src sm src_offset;
                 sm \<leftarrow> objs (ims st) sr;
                 if mem_size sm > q_max_mem_alloc_size q then Some (CL_OUT_OF_RESOURCES, st)
                 else enqueue_image (WRITE_IMAGE dst (mem_ptr dm) 0 (mem_ptr sm) (the dst_origin) (the region) 0 0 src_offset)
                   [src, dst] [dst, sr] st})}}})"

definition clEnqueueCopyImageToBuffer ::
  "cmd_queue option \<Rightarrow> nat option \<Rightarrow> nat option \<Rightarrow> size3 option \<Rightarrow> size3 option \<Rightarrow> size_t \<Rightarrow> wait_list \<Rightarrow>
   image_state \<Rightarrow> (cl_error \<times> image_state) option" where
  "clEnqueueCopyImageToBuffer queue src_image dst_buffer src_origin region dst_offset wl st =
     (case queue of None \<Rightarrow> Some (CL_INVALID_COMMAND_QUEUE, st) | Some q \<Rightarrow>
      case src_image of None \<Rightarrow> Some (CL_INVALID_MEM_OBJECT, st) | Some src \<Rightarrow> do {
        sm \<leftarrow> objs (ims st) src;
        if is_image1d_buffer sm then do {
          org \<leftarrow> src_origin;
          rg \<leftarrow> region;
          let i = the (mem_image sm);
          on_buffers (clEnqueueCopyBufferRect queue (img_buffer i) dst_buffer
            (Some (byte_coord (image_pixel i) org)) (Some (dst_offset, 0, 0)) (Some (byte_coord (image_pixel i) rg))
            (img_row_pitch i) 0 (img_row_pitch i) 0 wl) st}
        else do {
          dst \<leftarrow> dst_buffer;
          dm \<leftarrow> objs (ims st) dst;
          if on_sub_misalign q dm then Some (CL_MISALIGNED_SUB_BUFFER_OFFSET, st)
          else do {
            res \<leftarrow> pocl_rect_copy q src_image True dst_buffer False src_origin (Some (dst_offset, 0, 0)) region 0 0 0 0 wl (ims st);
            (case res of
               Inl err \<Rightarrow> Some (err, st)
             | Inr _ \<Rightarrow> do {
                 let (dr, dst_offset) = POCL_CONVERT_SUBBUFFER_OFFSET dst dm dst_offset;
                 dm \<leftarrow> objs (ims st) dr;
                 if mem_size dm > q_max_mem_alloc_size q then Some (CL_OUT_OF_RESOURCES, st)
                 else enqueue_image (READ_IMAGE src (mem_ptr sm) 0 (mem_ptr dm) (the src_origin) (the region) 0 0 dst_offset)
                   [src, dst] [src, dr] st})}}})"

section \<open>Execution\<close>

text \<open>The fields of an image the driver reads.\<close>

definition driver_image :: "image_desc \<Rightarrow> image" where
  "driver_image i = \<lparr>image_elem_size = img_elem_size i, image_channels = img_channels i,
     image_row_pitch = img_row_pitch i, image_slice_pitch = img_slice_pitch i\<rparr>"

definition image_of :: "mem_state \<Rightarrow> nat \<Rightarrow> image option" where
  "image_of s b = do {m \<leftarrow> objs s b; map_option driver_image (mem_image m)}"

text \<open>The content of the runtime's pixel, written when the command was enqueued.\<close>

fun store :: "bytes \<Rightarrow> size_t \<Rightarrow> mem \<Rightarrow> mem" where
  "store [] p m = m"
| "store (b # bs) p m = store bs (p + 1) (m(p := b))"

fun exec_image_command :: "mem_state \<Rightarrow> image_command \<Rightarrow> mem \<Rightarrow> mem option" where
  "exec_image_command s (READ_IMAGE b src_ptr dst_host_ptr dst_ptr origin region rp sp offset) m =
     map_option (\<lambda>im. pocl_basic_read_image_rect im src_ptr dst_host_ptr dst_ptr origin region rp sp offset m) (image_of s b)"
| "exec_image_command s (WRITE_IMAGE b dst_ptr src_host_ptr src_ptr origin region rp sp offset) m =
     map_option (\<lambda>im. pocl_basic_write_image_rect im dst_ptr src_host_ptr src_ptr origin region rp sp offset m) (image_of s b)"
| "exec_image_command s (COPY_IMAGE src dst src_ptr dst_ptr src_origin dst_origin region) m = do {
     si \<leftarrow> image_of s src;
     di \<leftarrow> image_of s dst;
     Some (pocl_basic_copy_image_rect si di src_ptr dst_ptr src_origin dst_origin region m)}"
| "exec_image_command s (FILL_IMAGE b ptr origin region fill_pixel pixel px) m =
     map_option (\<lambda>im. pocl_basic_fill_image im ptr origin region fill_pixel px (store pixel fill_pixel m)) (image_of s b)"

definition run_next_image :: "image_state \<Rightarrow> mem \<Rightarrow> (image_state \<times> mem) option" where
  "run_next_image st m =
     (case image_queue st of
        [] \<Rightarrow> None
      | n # ns \<Rightarrow> do {
          m \<leftarrow> exec_image_command (ims st) (inode_command n) m;
          s \<leftarrow> pocl_mem_objs_cleanup (inode_mem_objs n) (ims st);
          Some (st\<lparr>ims := s, image_queue := ns\<rparr>, m)})"

end
