(* ===== verification/ImageSafety.thy ===== *)
theory ImageSafety
  imports ImageObjects
begin

text \<open>
  What an accepted image command may write: the composition of the creation of images and the checks of the image
  functions (\<open>ImageObjects\<close>) with the copy and fill routines of the driver (\<open>BasicMem\<close>).
\<close>

section \<open>Well-formed images\<close>

text \<open>The number of pixels in each direction; the index of an array of images is the last direction it has.\<close>

definition image_dims :: "mem_type \<Rightarrow> image_desc \<Rightarrow> nat \<times> nat \<times> nat" where
  "image_dims t i =
     (unat (img_width i),
      (if t \<in> {IMAGE2D, IMAGE2D_ARRAY, IMAGE3D} then unat (img_height i)
       else if t = IMAGE1D_ARRAY then unat (img_array_size i) else 1),
      (if t = IMAGE3D then unat (img_depth i) else if t = IMAGE2D_ARRAY then unat (img_array_size i) else 1))"

definition pixel_off :: "image_desc \<Rightarrow> nat \<Rightarrow> nat \<Rightarrow> nat \<Rightarrow> nat" where
  "pixel_off i x y z = unat (image_pixel i) * x + unat (img_row_pitch i) * y + unat (img_slice_pitch i) * z"

text \<open>Every pixel of the image lies in its memory.\<close>

definition image_ok :: "cl_mem \<Rightarrow> image_desc \<Rightarrow> bool" where
  "image_ok m i \<longleftrightarrow> mem_image m = Some i \<and> mem_type m \<notin> {BUFFER, IMAGE1D_BUFFER} \<and>
     image_pixel i = ucast (channel_type_size (img_channel_data_type i)) * ucast (channel_count (img_channel_order i)) \<and>
     0 < unat (image_pixel i) \<and> img_row_pitch i \<noteq> 0 \<and> unat (mem_size m) < 2 ^ 63 \<and>
     (case image_dims (mem_type m) i of (W, H, D) \<Rightarrow>
       0 < H \<and> 0 < D \<and>
       (\<forall>x < W. \<forall>y < H. \<forall>z < D. pixel_off i x y z + unat (image_pixel i) \<le> unat (mem_size m)))"

definition inside_image :: "mem_type \<Rightarrow> image_desc \<Rightarrow> size3 \<Rightarrow> size3 \<Rightarrow> bool" where
  "inside_image t i origin region \<longleftrightarrow>
     (case origin of (o0, o1, o2) \<Rightarrow> case region of (r0, r1, r2) \<Rightarrow> case image_dims t i of (W, H, D) \<Rightarrow>
       unat o0 + unat r0 \<le> W \<and> unat o1 + unat r1 \<le> H \<and> unat o2 + unat r2 \<le> D)"

definition image_bytes_set :: "cl_mem \<Rightarrow> size_t set" where
  "image_bytes_set m = byte_range (mem_ptr m) (unat (mem_size m))"

text \<open>The bytes of a region of an image.\<close>

definition image_rect :: "size_t \<Rightarrow> image_desc \<Rightarrow> size3 \<Rightarrow> size3 \<Rightarrow> size_t set" where
  "image_rect ptr i origin region =
     rect_addrs (rect_ptr ptr (scale_x (image_pixel i) origin) (img_row_pitch i) (img_slice_pitch i))
       (img_row_pitch i) (img_slice_pitch i) (scale_x (image_pixel i) region)"

lemma check_inside:
  assumes c: "pocl_check_image_origin_region t i (Some (o0, o1, o2)) (Some (r0, r1, r2)) = CL_SUCCESS"
    and t: "t \<notin> {BUFFER, IMAGE1D_BUFFER}"
    and w: "unat o0 + unat r0 < 2 ^ 64" "unat o1 + unat r1 < 2 ^ 64" "unat o2 + unat r2 < 2 ^ 64"
    and pos: "t \<in> {IMAGE2D, IMAGE2D_ARRAY, IMAGE3D} \<Longrightarrow> 0 < img_height i" "t = IMAGE3D \<Longrightarrow> 0 < img_depth i"
    and arr: "t = IMAGE1D_ARRAY \<Longrightarrow> unat o1 + unat r1 \<le> unat (img_array_size i)"
      "t = IMAGE2D_ARRAY \<Longrightarrow> unat o2 + unat r2 \<le> unat (img_array_size i)"
  shows "inside_image t i (o0, o1, o2) (r0, r1, r2)"
proof -
  have u: "unat (a + b) = unat a + unat b" if "unat a + unat b < 2 ^ 64" for a b :: size_t
    using that by (intro unat_add_nowrap) simp
  have le: "unat a + unat b \<le> unat c" if "\<not> a + b > c" "unat a + unat b < 2 ^ 64" for a b c :: size_t
    using that u [of a b] by (simp add: word_less_nat_alt not_less)
  have n: "\<not> o0 + r0 > img_width i" "0 < img_height i \<Longrightarrow> \<not> o1 + r1 > img_height i"
    "0 < img_depth i \<Longrightarrow> \<not> o2 + r2 > img_depth i"
    "pocl_get_image_dim t < 2 \<Longrightarrow> o1 = 0 \<and> r1 = 1" "pocl_get_image_dim t < 3 \<Longrightarrow> o2 = 0 \<and> r2 = 1"
    using c by (auto simp: pocl_check_image_origin_region_def Let_def split: if_splits)
  show ?thesis
    using le [OF n(1) w(1)] le [OF n(2) w(2)] le [OF n(3) w(3)] n(4,5) t pos arr
    by (cases t) (auto simp: inside_image_def image_dims_def pocl_get_image_dim_def)
qed

lemma region_width:
  assumes ok: "image_ok m i" and ins: "inside_image (mem_type m) i (o0, o1, o2) (r0, r1, r2)"
  shows "unat (r0 * image_pixel i) = unat r0 * unat (image_pixel i)"
proof -
  let ?p = "unat (image_pixel i)"
  obtain W H D where d: "image_dims (mem_type m) i = (W, H, D)" by (cases "image_dims (mem_type m) i") auto
  have sz: "unat (mem_size m) < 2 ^ 63" and hd: "0 < H" "0 < D"
    and pix: "\<And>x y z. x < W \<Longrightarrow> y < H \<Longrightarrow> z < D \<Longrightarrow> pixel_off i x y z + ?p \<le> unat (mem_size m)"
    using ok by (auto simp: image_ok_def d)
  have le: "unat o0 + unat r0 \<le> W" using ins by (auto simp: inside_image_def d)
  have "?p * unat r0 < 2 ^ 63"
  proof (cases "unat r0 = 0")
    case False
    then have "W - 1 < W" "unat r0 \<le> Suc (W - 1)" using le by auto
    have "?p * unat r0 \<le> ?p * Suc (W - 1)" by (rule mult_le_mono2) fact
    also have "\<dots> \<le> pixel_off i (W - 1) 0 0 + ?p" by (simp add: pixel_off_def)
    also have "\<dots> \<le> unat (mem_size m)" by (rule pix) (use \<open>W - 1 < W\<close> hd in auto)
    finally show ?thesis using sz by simp
  qed simp
  then show ?thesis by (intro unat_mult_nowrap) (simp add: mult.commute)
qed

lemma region_offset:
  assumes ok: "image_ok m i" and ins: "inside_image (mem_type m) i (o0, o1, o2) (r0, r1, r2)"
    and ijk: "in_region (scale_x (image_pixel i) (r0, r1, r2)) q j k"
  shows "unat (image_pixel i) * unat o0 + q + unat (img_row_pitch i) * (unat o1 + j) + unat (img_slice_pitch i) * (unat o2 + k)
      < unat (mem_size m)"
proof -
  let ?p = "unat (image_pixel i)"
  obtain W H D where d: "image_dims (mem_type m) i = (W, H, D)" by (cases "image_dims (mem_type m) i") auto
  have p: "0 < ?p"
    and pix: "\<And>x y z. x < W \<Longrightarrow> y < H \<Longrightarrow> z < D \<Longrightarrow> pixel_off i x y z + ?p \<le> unat (mem_size m)"
    using ok by (auto simp: image_ok_def d)
  have le: "unat o0 + unat r0 \<le> W" "unat o1 + unat r1 \<le> H" "unat o2 + unat r2 \<le> D"
    using ins by (auto simp: inside_image_def d)
  have r: "q < unat r0 * ?p" "j < unat r1" "k < unat r2"
    using ijk region_width [OF ok ins] by (auto simp: in_region_def scale_x_def)
  then have x: "q div ?p < unat r0" using p by (simp add: div_less_iff_less_mult)
  have q: "?p * (q div ?p) + q mod ?p = q" by simp
  have qm: "q mod ?p < ?p" using p by simp
  have b: "pixel_off i (unat o0 + q div ?p) (unat o1 + j) (unat o2 + k) + ?p \<le> unat (mem_size m)"
    by (rule pix) (use x r(2,3) le in auto)
  have "?p * unat o0 + q = ?p * (unat o0 + q div ?p) + q mod ?p" using q by (simp add: algebra_simps)
  then show ?thesis using b qm by (simp add: pixel_off_def)
qed

lemma image_rect_inside:
  assumes "image_ok m i" and "inside_image (mem_type m) i origin region"
  shows "image_rect (mem_ptr m) i origin region \<subseteq> image_bytes_set m"
proof
  obtain o0 o1 o2 r0 r1 r2 where o: "origin = (o0, o1, o2)" and r: "region = (r0, r1, r2)"
    by (cases origin; cases region) auto
  fix a assume "a \<in> image_rect (mem_ptr m) i origin region"
  then obtain q j k where ijk: "in_region (scale_x (image_pixel i) (r0, r1, r2)) q j k"
    and a: "a = rect_ptr (mem_ptr m) (scale_x (image_pixel i) origin) (img_row_pitch i) (img_slice_pitch i) +
      of_nat (rect_off (img_row_pitch i) (img_slice_pitch i) q j k)"
    by (auto simp: image_rect_def rect_addrs_def r)
  let ?n = "unat (image_pixel i) * unat o0 + q + unat (img_row_pitch i) * (unat o1 + j) + unat (img_slice_pitch i) * (unat o2 + k)"
  have "a = mem_ptr m + of_nat ?n"
    unfolding a by (simp add: o scale_x_def rect_ptr_def rect_off_def algebra_simps)
  moreover have "?n < unat (mem_size m)"
    by (rule region_offset [OF assms(1) assms(2) [unfolded o r] ijk])
  ultimately show "a \<in> image_bytes_set m" unfolding image_bytes_set_def byte_range_def by blast
qed

section \<open>What the driver's routines write\<close>

lemma rows_write:
  assumes "a \<notin> rect_addrs dst drp dsp region"
  shows "copy_rows dst drp dsp src srp ssp region m a = m a"
proof -
  obtain r0 r1 r2 where r: "region = (r0, r1, r2)" by (cases region) auto
  show ?thesis
    unfolding r copy_rows_list
    by (rule copy_list_out) (use assms in \<open>auto simp: r rect_addrs_def in_region_def elim!: in_row\<close>)
qed

definition last_off :: "size_t \<Rightarrow> size_t \<Rightarrow> size3 \<Rightarrow> nat" where
  "last_off rp sp region = (case region of (r0, r1, r2) \<Rightarrow> rect_off rp sp (unat r0 - 1) (unat r1 - 1) (unat r2 - 1))"

definition nonempty :: "size3 \<Rightarrow> bool" where
  "nonempty region = (case region of (r0, r1, r2) \<Rightarrow> 0 < unat r0 \<and> 0 < unat r1 \<and> 0 < unat r2)"

lemma contiguous_rect_ok:
  assumes c: "contiguous srp ssp drp dsp region" and n: "nonempty region" and l: "last_off drp dsp region < 2 ^ 63"
  shows "rect_ok drp dsp region"
proof -
  obtain r0 r1 r2 where r: "region = (r0, r1, r2)" by (cases region) auto
  have pos: "0 < unat r0" "0 < unat r1" "0 < unat r2" using n by (simp_all add: nonempty_def r)
  have e: "drp = r0" "dsp = r1 * r0" using c by (auto simp: contiguous_def r)
  have "unat r1 * unat r0 = unat r0 + unat r0 * (unat r1 - 1)"
    using pos(2) by (cases "unat r1") (simp_all add: algebra_simps)
  also have "\<dots> \<le> last_off drp dsp region + 1"
    using pos(1) by (simp add: last_off_def r rect_off_def e)
  finally have "unat r1 * unat r0 \<le> 2 ^ 63" using l by simp
  then have "unat (r1 * r0) = unat r1 * unat r0" by (intro unat_mult_nowrap) simp
  then show ?thesis using l by (simp add: rect_ok_def r e last_off_def)
qed

lemma move_writes:
  assumes l: "nonempty region \<Longrightarrow> contiguous srp ssp drp dsp region \<Longrightarrow> last_off drp dsp region < 2 ^ 63"
    and a: "a \<notin> rect_addrs dst drp dsp region"
  shows "(if contiguous srp ssp drp dsp region then memcpy dst src (region_bytes region) m
     else copy_rows dst drp dsp src srp ssp region m) a = m a"
proof (cases "contiguous srp ssp drp dsp region")
  case c: True
  show ?thesis
  proof (cases "nonempty region")
    case True
    then show ?thesis using rect_move_writes [OF contiguous_rect_ok [OF c True l [OF True c]] a] by simp
  next
    case False
    obtain r0 r1 r2 where r: "region = (r0, r1, r2)" by (cases region) auto
    have "region_bytes region = 0" using False by (auto simp: nonempty_def r region_bytes_def unat_eq_0)
    then show ?thesis using c by (simp add: memcpy_def)
  qed
qed (simp add: rows_write [OF a])

lemma region_last:
  assumes ok: "image_ok m i" and ins: "inside_image (mem_type m) i origin region"
    and n: "nonempty (scale_x (image_pixel i) region)"
  shows "last_off (img_row_pitch i) (img_slice_pitch i) (scale_x (image_pixel i) region) < 2 ^ 63"
proof -
  obtain o0 o1 o2 r0 r1 r2 where o: "origin = (o0, o1, o2)" and r: "region = (r0, r1, r2)"
    by (cases origin; cases region) auto
  have pos: "0 < unat (r0 * image_pixel i)" "0 < unat r1" "0 < unat r2"
    using n by (simp_all add: nonempty_def r scale_x_def)
  then have "in_region (scale_x (image_pixel i) (r0, r1, r2)) (unat (r0 * image_pixel i) - 1) (unat r1 - 1) (unat r2 - 1)"
    by (simp add: in_region_def scale_x_def)
  note b = region_offset [OF ok ins [unfolded o r] this]
  have "last_off (img_row_pitch i) (img_slice_pitch i) (scale_x (image_pixel i) region) \<le>
      unat (image_pixel i) * unat o0 + (unat (r0 * image_pixel i) - 1) + unat (img_row_pitch i) * (unat o1 + (unat r1 - 1)) +
      unat (img_slice_pitch i) * (unat o2 + (unat r2 - 1))"
    unfolding last_off_def r scale_x_def rect_off_def prod.case by (intro add_mono mult_le_mono2) simp_all
  then show ?thesis using b ok by (simp add: image_ok_def)
qed

lemma pixel_size_driver [simp]: "pixel_size (driver_image i) = image_pixel i"
  "BasicMem.image.image_row_pitch (driver_image i) = img_row_pitch i"
  "BasicMem.image.image_slice_pitch (driver_image i) = img_slice_pitch i"
  by (simp_all add: pixel_size_def driver_image_def image_pixel_def)

text \<open>Writing a region of an image from the host or a buffer.\<close>

lemma write_image_writes:
  assumes "image_ok m i" and "inside_image (mem_type m) i origin region"
    and "a \<notin> image_rect ptr i origin region"
  shows "pocl_basic_write_image_rect (driver_image i) ptr host src origin region rp sp offset mem a = mem a"
  unfolding pocl_basic_write_image_rect_def pocl_basic_write_rect_def Let_def pixel_size_driver
  by (subst contiguous_sym, rule move_writes)
    (use assms region_last [OF assms(1,2)] in \<open>simp_all add: image_rect_def\<close>)

text \<open>Reading one into the host memory or a buffer.\<close>

definition target_rect :: "size_t \<Rightarrow> image_desc \<Rightarrow> size3 \<Rightarrow> size_t \<Rightarrow> size_t \<Rightarrow> size_t set" where
  "target_rect ptr i region row_pitch slice_pitch =
     (let rp = (if row_pitch = 0 then image_pixel i * fst region else row_pitch);
          sp = (if slice_pitch = 0 then rp * fst (snd region) else slice_pitch)
      in rect_addrs ptr rp sp (scale_x (image_pixel i) region))"

lemma rect_ptr_0 [simp]: "rect_ptr p (0, 0, 0) rp sp = p"
  by (simp add: rect_ptr_def)

lemma read_image_writes:
  assumes "image_ok m i" and "inside_image (mem_type m) i origin region"
    and "a \<notin> target_rect ((if host = 0 then dst else host) + offset) i region rp sp"
  shows "pocl_basic_read_image_rect (driver_image i) ptr host dst origin region rp sp offset mem a = mem a"
proof -
  let ?rp = "if rp = 0 then image_pixel i * fst region else rp"
  let ?sp = "if sp = 0 then ?rp * fst (snd region) else sp"
  have c: "last_off ?rp ?sp (scale_x (image_pixel i) region) < 2 ^ 63"
    if "nonempty (scale_x (image_pixel i) region)"
      "contiguous (img_row_pitch i) (img_slice_pitch i) ?rp ?sp (scale_x (image_pixel i) region)"
    using region_last [OF assms(1,2) that(1)] that(2) by (auto simp: contiguous_def split: prod.splits)
  show ?thesis
    unfolding pocl_basic_read_image_rect_def pocl_basic_read_rect_def Let_def pixel_size_driver
    by (rule move_writes [OF c]) (use assms(3) in \<open>auto simp: target_rect_def Let_def split: if_splits\<close>)
qed

text \<open>Filling one.\<close>

lemma fill_image_writes:
  assumes ok: "image_ok m i" and ins: "inside_image (mem_type m) i origin region"
    and a: "a \<notin> image_rect ptr i origin region"
  shows "pocl_basic_fill_image (driver_image i) ptr origin region fp (image_pixel i) mem a = mem a"
proof -
  obtain o0 o1 o2 r0 r1 r2 where o: "origin = (o0, o1, o2)" and r: "region = (r0, r1, r2)"
    by (cases origin; cases region) auto
  let ?base = "ptr + o0 * image_pixel i + img_row_pitch i * o1 + img_slice_pitch i * o2" and ?p = "image_pixel i"
  have out: "\<not> a - d < ?p" if ds: "(d, s) \<in> set (pixel_rows ?base ?p (img_row_pitch i) (img_slice_pitch i) (r0, r1, r2) fp)" for d s
  proof
    assume ad: "a - d < ?p"
    from ds obtain x j k where ijk: "in_region (r0, r1, r2) x j k"
      and d: "d = ?base + ?p * of_nat x + img_row_pitch i * of_nat j + img_slice_pitch i * of_nat k"
      unfolding pixel_rows_mem by blast
    let ?b = "unat (a - d)"
    have b: "?b < unat ?p" using ad by (simp add: word_less_nat_alt)
    have x: "x < unat r0" "j < unat r1" "k < unat r2" using ijk by (auto simp: in_region_def)
    have q: "unat ?p * x + ?b < unat r0 * unat ?p"
    proof -
      have "unat ?p * Suc x \<le> unat ?p * unat r0" using x(1) by (intro mult_le_mono2) simp
      then show ?thesis using b by (simp add: mult.commute)
    qed
    have w: "unat (r0 * ?p) = unat r0 * unat ?p" by (rule region_width [OF ok ins [unfolded o r]])
    have "in_region (scale_x ?p (r0, r1, r2)) (unat ?p * x + ?b) j k"
      using q w x by (simp add: in_region_def scale_x_def)
    moreover have "a = ?base + of_nat (rect_off (img_row_pitch i) (img_slice_pitch i) (unat ?p * x + ?b) j k)"
    proof -
      have "a = d + of_nat ?b" by simp
      then show ?thesis unfolding d by (simp add: rect_off_def algebra_simps)
    qed
    ultimately have "a \<in> image_rect ptr i origin region"
      unfolding image_rect_def rect_addrs_def o r by (auto simp: scale_x_def rect_ptr_def)
    then show False using \<open>a \<notin> image_rect ptr i origin region\<close> by blast
  qed
  show ?thesis
    unfolding o r fill_image_rows pixel_size_driver by (rule copy_list_out) (use out in auto)
qed

section \<open>Created images are well formed\<close>

text \<open>The layout a description asks for, over the natural numbers.\<close>

definition pixel_bytes :: "image_format \<Rightarrow> nat" where
  "pixel_bytes fmt = unat (channel_type_size (fmt_type fmt)) * unat (channel_count (fmt_order fmt))"

definition rows_of :: "cl_image_desc \<Rightarrow> nat" where
  "rows_of desc = (if d_type desc \<in> {IMAGE2D, IMAGE2D_ARRAY, IMAGE3D} then unat (d_height desc) else 1)"

definition slices_of :: "cl_image_desc \<Rightarrow> nat" where
  "slices_of desc =
     (if d_type desc = IMAGE3D then unat (d_depth desc)
      else if d_type desc \<in> {IMAGE1D_ARRAY, IMAGE2D_ARRAY} then unat (d_array_size desc) else 1)"

definition row_bytes :: "cl_image_desc \<Rightarrow> nat \<Rightarrow> nat" where
  "row_bytes desc px = (if d_row_pitch desc = 0 then unat (d_width desc) * px else unat (d_row_pitch desc))"

definition slice_bytes :: "cl_image_desc \<Rightarrow> nat \<Rightarrow> nat" where
  "slice_bytes desc px = (if d_slice_pitch desc = 0 then row_bytes desc px * rows_of desc else unat (d_slice_pitch desc))"

definition total_bytes :: "cl_image_desc \<Rightarrow> nat \<Rightarrow> nat" where
  "total_bytes desc px =
     (if d_type desc \<in> {IMAGE3D, IMAGE1D_ARRAY, IMAGE2D_ARRAY} then slice_bytes desc px * slices_of desc
      else row_bytes desc px * rows_of desc)"

text \<open>Pitches that hold the rows and slices, and sizes that fit.\<close>

definition pitches_sane :: "cl_image_desc \<Rightarrow> nat \<Rightarrow> bool" where
  "pitches_sane desc px \<longleftrightarrow>
     unat (d_width desc) * px \<le> row_bytes desc px \<and> row_bytes desc px * rows_of desc \<le> slice_bytes desc px \<and>
     slice_bytes desc px * slices_of desc < 2 ^ 63"

definition dims_positive :: "cl_image_desc \<Rightarrow> bool" where
  "dims_positive desc \<longleftrightarrow> 0 < unat (d_width desc) \<and> 0 < rows_of desc \<and> 0 < slices_of desc"

text \<open>The coordinates of an image: the index of an array is the last of its directions.\<close>

definition desc_dims :: "cl_image_desc \<Rightarrow> nat \<times> nat \<times> nat" where
  "desc_dims desc =
     (if d_type desc = IMAGE1D_ARRAY then (unat (d_width desc), slices_of desc, 1)
      else (unat (d_width desc), rows_of desc, slices_of desc))"

lemma supported_pixel:
  "(ord, ty) \<in> set supported_image_formats \<Longrightarrow>
   0 < unat (channel_type_size ty) \<and> unat (channel_type_size ty) \<le> 4 \<and> unat (channel_count ord) \<le> 4 \<and> 0 < unat (channel_count ord)"
  by (auto simp: supported_image_formats_def image_const_defs channel_type_size_def channel_count_def)

lemma device_limits:
  assumes "pocl_check_device_supports_image (default_image_device mx) fmt desc = (CL_SUCCESS, support)"
  shows "(fmt_order fmt, fmt_type fmt) \<in> set supported_image_formats" "support = 3"
    "d_type desc \<in> {IMAGE1D, IMAGE1D_ARRAY, IMAGE2D, IMAGE2D_ARRAY, IMAGE3D} \<Longrightarrow> unat (d_width desc) \<le> 8192"
    "rows_of desc \<le> 8192" "slices_of desc \<le> 2048"
proof -
  let ?t = "d_type desc"
  have n: "\<not> (?t \<in> {IMAGE1D, IMAGE1D_ARRAY} \<and> d_width desc > 8192)" "\<not> (?t \<in> {IMAGE2D, IMAGE2D_ARRAY} \<and> d_width desc > 8192)"
    "\<not> (?t \<in> {IMAGE2D, IMAGE2D_ARRAY} \<and> d_height desc > 8192)" "\<not> (?t = IMAGE3D \<and> d_width desc > 2048)"
    "\<not> (?t = IMAGE3D \<and> d_height desc > 2048)" "\<not> (?t = IMAGE3D \<and> d_depth desc > 2048)"
    "\<not> (?t \<in> {IMAGE1D_ARRAY, IMAGE2D_ARRAY} \<and> 2048 < d_array_size desc)"
    "(fmt_order fmt, fmt_type fmt) \<in> set supported_image_formats" "support = 3"
    using assms by (auto simp: pocl_check_device_supports_image_def default_image_device_def Let_def split: if_splits)
  show "(fmt_order fmt, fmt_type fmt) \<in> set supported_image_formats" "support = 3" by fact+
  have u: "unat w \<le> k" if "\<not> w > of_nat k" "k < 10000" for w :: size_t and k
    using that by (simp add: not_less word_le_nat_alt unat_of_nat)
  show "unat (d_width desc) \<le> 8192" if "?t \<in> {IMAGE1D, IMAGE1D_ARRAY, IMAGE2D, IMAGE2D_ARRAY, IMAGE3D}"
    using that n u [of 8192 "d_width desc"] u [of 2048 "d_width desc"] by auto
  show "rows_of desc \<le> 8192" using n u [of 8192 "d_height desc"] u [of 2048 "d_height desc"] by (auto simp: rows_of_def)
  show "slices_of desc \<le> 2048"
    using n u [of 2048 "d_depth desc"] u [of 2048 "d_array_size desc"] by (auto simp: slices_of_def)
qed

lemma default_pitches_sane:
  assumes "unat (d_width desc) \<le> 8192" "rows_of desc \<le> 8192" "slices_of desc \<le> 2048" "px \<le> 16"
    and "d_row_pitch desc = 0" "d_slice_pitch desc = 0"
  shows "pitches_sane desc px"
proof -
  have "unat (d_width desc) * px * rows_of desc * slices_of desc \<le> 8192 * 16 * 8192 * 2048"
    using assms by (intro mult_le_mono) auto
  then show ?thesis using assms(5,6) by (simp add: pitches_sane_def row_bytes_def slice_bytes_def)
qed

text \<open>The words of the layout.\<close>

lemma layout_words:
  assumes sane: "pitches_sane desc (unat px)" and px: "0 < unat px"
    and pos: "dims_positive desc"
    and rp: "image_row_pitch_of desc px = Some (Inr rp)" and sp: "image_slice_pitch_of desc rp = Some (Inr sp)"
    and t: "d_type desc \<notin> {BUFFER, IMAGE1D_BUFFER}"
  shows "unat rp = row_bytes desc (unat px)" and "d_type desc \<in> {IMAGE3D, IMAGE1D_ARRAY, IMAGE2D_ARRAY} \<Longrightarrow> unat sp = slice_bytes desc (unat px)"
    and "unat (image_bytes_of desc rp sp) = total_bytes desc (unat px)"
proof -
  let ?p = "unat px"
  have s: "unat (d_width desc) * ?p \<le> row_bytes desc ?p" "row_bytes desc ?p * rows_of desc \<le> slice_bytes desc ?p"
    "slice_bytes desc ?p * slices_of desc < 2 ^ 63"
    using sane by (simp_all add: pitches_sane_def)
  have p: "0 < rows_of desc" "0 < slices_of desc" using pos by (simp_all add: dims_positive_def)
  have le: "a \<le> a * b" if "0 < b" for a b :: nat using that by (cases b) auto
  have sl: "slice_bytes desc ?p < 2 ^ 63" using le [OF p(2), of "slice_bytes desc ?p"] s(3) by linarith
  then have rr: "row_bytes desc ?p * rows_of desc < 2 ^ 63" using s(2) by linarith
  then have rl: "row_bytes desc ?p < 2 ^ 63" using le [OF p(1), of "row_bytes desc ?p"] by linarith
  show r: "unat rp = row_bytes desc ?p"
  proof (cases "d_row_pitch desc = 0")
    case True
    then have "rp = d_width desc * px" using rp by (simp add: image_row_pitch_of_def)
    then show ?thesis using s(1) rl True by (simp add: row_bytes_def unat_mult_nowrap)
  next
    case False
    then show ?thesis using rp by (auto simp: image_row_pitch_of_def row_bytes_def split: if_splits)
  qed
  show sb: "unat sp = slice_bytes desc ?p" if "d_type desc \<in> {IMAGE3D, IMAGE1D_ARRAY, IMAGE2D_ARRAY}"
  proof (cases "d_slice_pitch desc = 0")
    case True
    then have "sp = (if d_type desc \<in> {IMAGE3D, IMAGE2D_ARRAY} then rp * d_height desc else rp)"
      using sp that by (auto simp: image_slice_pitch_of_def)
    then show ?thesis using that rr r True
      by (auto simp: slice_bytes_def rows_of_def unat_mult_nowrap)
  next
    case False
    then show ?thesis using sp by (auto simp: image_slice_pitch_of_def slice_bytes_def split: if_splits)
  qed
  show "unat (image_bytes_of desc rp sp) = total_bytes desc ?p"
    using t sb r s(3) rr
    by (cases "d_type desc") (auto simp: image_bytes_of_def total_bytes_def slices_of_def rows_of_def unat_mult_nowrap)
qed

lemma created_buffer:
  assumes "clCreateBuffer ctx mx fl sz host dp ha s = (Inr b, s')"
  shows "b = next_obj s" and "sz \<noteq> 0" and "sz \<le> mx" and "\<exists>m. objs s' = (objs s)(b \<mapsto> m) \<and> mem_size m = sz \<and>
    mem_parent m = None \<and> mem_ptr m = the dp \<and> mem_refcount m = 1 \<and> mem_context m = ctx"
proof -
  have le: "sz \<le> mx" if "create_flags_check f sz host mx = CL_SUCCESS" for f
  proof -
    have "\<not> (sz > mx)"
      using that unfolding create_flags_check_def
      by (subst (asm) first_error_success) simp_all
    then show ?thesis by simp
  qed
  show "b = next_obj s" "sz \<noteq> 0" "sz \<le> mx" "\<exists>m. objs s' = (objs s)(b \<mapsto> m) \<and> mem_size m = sz \<and>
      mem_parent m = None \<and> mem_ptr m = the dp \<and> mem_refcount m = 1 \<and> mem_context m = ctx"
    using assms le by (auto simp: clCreateBuffer_def Let_def split: if_splits option.splits)
qed

lemma create_image_parts:
  assumes c: "clCreateImage (Some ctx) dev fl (Some fmt) (Some desc) host dp ha s = Some (Inr b, s')"
    and t: "d_type desc \<noteq> IMAGE1D_BUFFER"
  obtains support rp sp where
    "pocl_check_device_supports_image dev fmt desc = (CL_SUCCESS, support)" "d_type desc \<noteq> BUFFER"
    "image_row_pitch_of desc (ucast (channel_type_size (fmt_type fmt)) * ucast (channel_count (fmt_order fmt))) = Some (Inr rp)"
    "image_slice_pitch_of desc rp = Some (Inr sp)" "b = next_obj s"
    "image_bytes_of desc rp sp \<noteq> 0" "image_bytes_of desc rp sp \<le> max_mem_alloc_size dev"
    "\<exists>m. objs s' = (objs s)(b \<mapsto> m) \<and> mem_size m = image_bytes_of desc rp sp \<and> mem_type m = d_type desc \<and>
      mem_image m = Some (image_fields fmt desc support rp sp) \<and> mem_parent m = None \<and> mem_ptr m = the dp"
proof -
  obtain err support where sup: "(if image_support dev then pocl_check_device_supports_image dev fmt desc else (CL_INVALID_OPERATION, 0)) = (err, support)"
    by (cases "if image_support dev then pocl_check_device_supports_image dev fmt desc else (CL_INVALID_OPERATION, 0)") auto
  have nb: "d_type desc \<noteq> BUFFER" and ok: "err = CL_SUCCESS"
    using c sup by (auto simp: clCreateImage_def Let_def pocl_get_image_information_def split: if_splits)
  then have chk: "pocl_check_device_supports_image dev fmt desc = (CL_SUCCESS, support)"
    using sup by (auto split: if_splits)
  let ?px = "ucast (channel_type_size (fmt_type fmt)) * ucast (channel_count (fmt_order fmt)) :: size_t"
  let ?rest = "\<lambda>rp sp. case clCreateBuffer ctx (max_mem_alloc_size dev) fl (image_bytes_of desc rp sp) host dp ha s of
        (Inl err, s) \<Rightarrow> Some (Inl CL_OUT_OF_HOST_MEMORY, s)
      | (Inr b, s) \<Rightarrow> do {
          m \<leftarrow> objs s b;
          Some (Inr b, s\<lparr>objs := (objs s)(b \<mapsto> m\<lparr>mem_type := d_type desc,
            mem_image := Some (image_fields fmt desc support rp sp)\<rparr>)\<rparr>)}"
  have u: "d_num_mip_levels desc = 0 \<and> d_num_samples desc = 0" using c by (auto simp: clCreateImage_def split: if_splits)
  have run: "do {
      rp \<leftarrow> image_row_pitch_of desc ?px;
      (case rp of Inl err \<Rightarrow> Some (Inl err, s) | Inr row_pitch \<Rightarrow> do {
        sp \<leftarrow> image_slice_pitch_of desc row_pitch;
        (case sp of Inl err \<Rightarrow> Some (Inl err, s) | Inr slice_pitch \<Rightarrow> ?rest row_pitch slice_pitch)})} = Some (Inr b, s')"
    using c sup ok nb t u by (simp add: clCreateImage_def Let_def pocl_get_image_information_def)
  then obtain x where x: "image_row_pitch_of desc ?px = Some x" by (auto simp: bind_eq_Some_conv)
  then obtain rp where rp: "x = Inr rp" using run by (cases x) auto
  obtain y where y: "image_slice_pitch_of desc rp = Some y" using run x rp by (auto simp: bind_eq_Some_conv)
  then obtain sp where sp: "y = Inr sp" using run x rp by (cases y) auto
  have l: "image_row_pitch_of desc ?px = Some (Inr rp)" "image_slice_pitch_of desc rp = Some (Inr sp)"
    and rest: "?rest rp sp = Some (Inr b, s')"
    using x y rp sp run by simp_all
  obtain s1 where cb: "clCreateBuffer ctx (max_mem_alloc_size dev) fl (image_bytes_of desc rp sp) host dp ha s = (Inr b, s1)"
    using rest by (auto simp: bind_eq_Some_conv split: prod.splits sum.splits)
  note B = created_buffer [OF cb]
  have "\<exists>m. objs s' = (objs s)(b \<mapsto> m) \<and> mem_size m = image_bytes_of desc rp sp \<and> mem_type m = d_type desc \<and>
      mem_image m = Some (image_fields fmt desc support rp sp) \<and> mem_parent m = None \<and> mem_ptr m = the dp"
  proof -
    from B(4) obtain m where m: "objs s1 = (objs s)(b \<mapsto> m)" "mem_size m = image_bytes_of desc rp sp"
      "mem_parent m = None" "mem_ptr m = the dp" by blast
    let ?m = "m\<lparr>mem_type := d_type desc, mem_image := Some (image_fields fmt desc support rp sp)\<rparr>"
    have "objs s' = (objs s)(b \<mapsto> ?m)" using rest m(1) by (auto simp: cb)
    then show ?thesis using m(2-4) by (intro exI [of _ ?m]) simp
  qed
  then show ?thesis using that [OF chk nb l B(1-3)] by blast
qed

text \<open>Every pixel lies within the bytes of the layout.\<close>

lemma pixel_in_total:
  assumes sane: "pitches_sane desc p" and d: "desc_dims desc = (W, H, D)" and xyz: "x < W" "y < H" "z < D"
    and t: "d_type desc \<notin> {BUFFER, IMAGE1D_BUFFER}"
    and sp: "d_type desc \<in> {IMAGE3D, IMAGE1D_ARRAY, IMAGE2D_ARRAY} \<Longrightarrow> sp = slice_bytes desc p"
  shows "p * x + row_bytes desc p * y + sp * z + p \<le> total_bytes desc p"
proof -
  let ?r = "row_bytes desc p" and ?s = "slice_bytes desc p"
  have sn: "unat (d_width desc) * p \<le> ?r" "?r * rows_of desc \<le> ?s" using sane by (simp_all add: pitches_sane_def)
  have step: "k * j + k \<le> k * n" if "j < n" for k j n :: nat
    using mult_le_mono2 [of "Suc j" n k] that by (simp add: algebra_simps)
  have "x < unat (d_width desc)" using d xyz(1) by (auto simp: desc_dims_def split: if_splits)
  then have X: "p * x + p \<le> ?r" using step [of x "unat (d_width desc)" p] sn(1) by (simp add: mult.commute)
  show ?thesis
  proof (cases "d_type desc = IMAGE1D_ARRAY")
    case True
    then have yz: "y < slices_of desc" "z = 0" using d xyz by (auto simp: desc_dims_def)
    have "?r \<le> ?s" using sn(2) True by (simp add: rows_of_def)
    then have "?r * slices_of desc \<le> ?s * slices_of desc" by (rule mult_le_mono1)
    moreover have "?r * y + ?r \<le> ?r * slices_of desc" by (rule step) fact
    ultimately have "p * x + ?r * y + p \<le> ?s * slices_of desc" using X by linarith
    then show ?thesis using yz True by (simp add: total_bytes_def)
  next
    case one: False
    then have yz: "y < rows_of desc" "z < slices_of desc" using d xyz by (auto simp: desc_dims_def)
    have Y: "?r * y + ?r \<le> ?r * rows_of desc" by (rule step) fact
    show ?thesis
    proof (cases "d_type desc \<in> {IMAGE3D, IMAGE2D_ARRAY}")
      case True
      have "?s * z + ?s \<le> ?s * slices_of desc" by (rule step) fact
      then show ?thesis using X Y sn(2) True sp by (auto simp: total_bytes_def)
    next
      case False
      then have "z = 0" using yz one by (simp add: slices_of_def)
      then show ?thesis using X Y False one by (auto simp: total_bytes_def)
    qed
  qed
qed

lemma pixel_word:
  assumes "(fmt_order fmt, fmt_type fmt) \<in> set supported_image_formats"
  shows "unat (ucast (channel_type_size (fmt_type fmt)) * ucast (channel_count (fmt_order fmt)) :: size_t) = pixel_bytes fmt"
    and "0 < pixel_bytes fmt" and "pixel_bytes fmt \<le> 16"
proof -
  note S = supported_pixel [OF assms]
  have "unat (channel_type_size (fmt_type fmt)) * unat (channel_count (fmt_order fmt)) \<le> 4 * 4"
    using S by (intro mult_le_mono) auto
  then show "unat (ucast (channel_type_size (fmt_type fmt)) * ucast (channel_count (fmt_order fmt)) :: size_t) = pixel_bytes fmt"
    and "0 < pixel_bytes fmt" and "pixel_bytes fmt \<le> 16"
    using S by (simp_all add: pixel_bytes_def unat_mult_nowrap)
qed

lemma total_bytes_bound:
  assumes "pitches_sane desc p" and "d_type desc \<notin> {BUFFER, IMAGE1D_BUFFER}"
  shows "total_bytes desc p < 2 ^ 63"
proof -
  have "total_bytes desc p \<le> slice_bytes desc p * slices_of desc"
    using assms by (auto simp: total_bytes_def pitches_sane_def slices_of_def)
  then show ?thesis using assms(1) by (simp add: pitches_sane_def)
qed

lemma layout_image_ok:
  assumes sane: "pitches_sane desc (unat px)" and pos: "dims_positive desc"
    and t: "d_type desc \<notin> {BUFFER, IMAGE1D_BUFFER}"
    and l: "image_row_pitch_of desc px = Some (Inr rp)" "image_slice_pitch_of desc rp = Some (Inr sp)"
    and px: "px = ucast (channel_type_size (fmt_type fmt)) * ucast (channel_count (fmt_order fmt))" "0 < unat px"
    and m: "mem_size m = image_bytes_of desc rp sp" "mem_type m = d_type desc"
      "mem_image m = Some (image_fields fmt desc support rp sp)"
  shows "image_ok m (image_fields fmt desc support rp sp)"
    and "image_dims (mem_type m) (image_fields fmt desc support rp sp) = desc_dims desc"
    and "image_pixel (image_fields fmt desc support rp sp) = px"
    and "unat (mem_size m) = total_bytes desc (unat px)"
proof -
  let ?i = "image_fields fmt desc support rp sp"
  note L = layout_words [OF sane px(2) pos l t]
  have i: "img_row_pitch ?i = rp" "img_slice_pitch ?i = sp" "img_channel_data_type ?i = fmt_type fmt"
    "img_channel_order ?i = fmt_order fmt"
    by (simp_all add: image_fields_def pocl_get_image_information_def Let_def)
  show pix: "image_pixel ?i = px"
    by (simp add: image_fields_def image_pixel_def pocl_get_image_information_def Let_def px(1))
  show dims: "image_dims (mem_type m) ?i = desc_dims desc"
    by (auto simp: image_dims_def m(2) image_fields_def pocl_get_image_information_def Let_def slices_of_def rows_of_def desc_dims_def)
  show size: "unat (mem_size m) = total_bytes desc (unat px)" using L(3) m(1) by simp
  obtain W H D where d: "desc_dims desc = (W, H, D)" by (cases "desc_dims desc") auto
  have "0 < unat (d_width desc) * unat px" using pos px(2) by (simp add: dims_positive_def)
  also have "\<dots> \<le> unat rp" using sane L(1) by (simp add: pitches_sane_def)
  finally have row: "rp \<noteq> 0" by auto
  show "image_ok m ?i"
    unfolding image_ok_def dims d prod.case pix i
  proof (intro conjI allI impI)
    show "mem_image m = Some ?i" "mem_type m \<notin> {BUFFER, IMAGE1D_BUFFER}" "0 < unat px" "rp \<noteq> 0"
      "px = ucast (channel_type_size (fmt_type fmt)) * ucast (channel_count (fmt_order fmt))"
      using m t px row by simp_all
    show "unat (mem_size m) < 2 ^ 63" unfolding size by (rule total_bytes_bound [OF sane t])
    show "0 < H" "0 < D" using pos d by (auto simp: dims_positive_def desc_dims_def split: if_splits)
    show "pixel_off ?i x y z + unat px \<le> unat (mem_size m)" if "x < W" "y < H" "z < D" for x y z
      unfolding size pixel_off_def pix i L(1) by (rule pixel_in_total [OF sane d that t L(2)])
  qed
qed

lemma created_image_ok:
  assumes c: "clCreateImage (Some ctx) (default_image_device mx) fl (Some fmt) (Some desc) host dp ha s = Some (Inr b, s')"
    and t: "d_type desc \<noteq> IMAGE1D_BUFFER" and pos: "dims_positive desc"
    and pitch: "d_row_pitch desc = 0 \<and> d_slice_pitch desc = 0 \<or> pitches_sane desc (pixel_bytes fmt)"
  shows "\<exists>m i. objs s' = (objs s)(b \<mapsto> m) \<and> image_ok m i \<and> mem_size m \<le> mx \<and>
    unat (mem_size m) = total_bytes desc (pixel_bytes fmt) \<and> unat (image_pixel i) = pixel_bytes fmt \<and>
    image_dims (mem_type m) i = desc_dims desc"
proof -
  let ?px = "ucast (channel_type_size (fmt_type fmt)) * ucast (channel_count (fmt_order fmt)) :: size_t"
  from create_image_parts [OF c t] obtain support rp sp m where
    chk: "pocl_check_device_supports_image (default_image_device mx) fmt desc = (CL_SUCCESS, support)" "d_type desc \<noteq> BUFFER"
    and l: "image_row_pitch_of desc ?px = Some (Inr rp)" "image_slice_pitch_of desc rp = Some (Inr sp)"
    and le: "image_bytes_of desc rp sp \<le> max_mem_alloc_size (default_image_device mx)"
    and m: "objs s' = (objs s)(b \<mapsto> m)" "mem_size m = image_bytes_of desc rp sp" "mem_type m = d_type desc"
      "mem_image m = Some (image_fields fmt desc support rp sp)"
    by metis
  note D = device_limits [OF chk(1)]
  note P = pixel_word [OF D(1)]
  have w: "unat (d_width desc) \<le> 8192" by (rule D(3)) (use chk(2) t in \<open>cases "d_type desc", auto\<close>)
  have sane: "pitches_sane desc (unat ?px)"
    using pitch default_pitches_sane [OF w D(4,5) P(3)] unfolding P(1) by blast
  have "d_type desc \<notin> {BUFFER, IMAGE1D_BUFFER}" "0 < unat ?px" using chk(2) t P(1,2) by simp_all
  from layout_image_ok [OF sane pos this(1) l refl this(2) m(2-4)] m(1) le show ?thesis
    unfolding P(1) m(2) by (intro exI conjI) (simp_all add: P(1) m(2) default_image_device_def)
qed

end
