(* ===== verification/ImageCalls.thy ===== *)
theory ImageCalls
  imports ImageSafety
begin

text \<open>
  The image commands of the API as calls, what each may write, and that an accepted call writes nothing else: the
  checks of \<open>ImageObjects\<close> composed with the routines of the driver, over the well-formed images of \<open>ImageSafety\<close>.
\<close>

section \<open>Calls\<close>

datatype image_call =
  Read_Image nat size3 size3 size_t size_t size_t
| Write_Image nat size3 size3 size_t size_t size_t
| Fill_Image nat color size3 size3 size_t
| Copy_Image nat nat size3 size3 size3
| Buffer_To_Image nat nat size_t size3 size3
| Image_To_Buffer nat nat size3 size3 size_t

fun issue_image ::
  "(cl_uint \<Rightarrow> cl_uint \<Rightarrow> bytes) \<Rightarrow> cmd_queue \<Rightarrow> wait_list \<Rightarrow> image_call \<Rightarrow> image_state \<Rightarrow>
   (cl_error \<times> image_state) option" where
  "issue_image nrm q wl (Read_Image b org rg rp sp ptr) st =
     clEnqueueReadImage (Some q) (Some b) (Some org) (Some rg) rp sp ptr wl st"
| "issue_image nrm q wl (Write_Image b org rg rp sp ptr) st =
     clEnqueueWriteImage (Some q) (Some b) (Some org) (Some rg) rp sp ptr wl st"
| "issue_image nrm q wl (Fill_Image b col org rg p) st =
     clEnqueueFillImage nrm (Some q) (Some b) (Some col) (Some org) (Some rg) (Some p) wl st"
| "issue_image nrm q wl (Copy_Image src dst so d_o rg) st =
     clEnqueueCopyImage (Some q) (Some src) (Some dst) (Some so) (Some d_o) (Some rg) wl st"
| "issue_image nrm q wl (Buffer_To_Image src dst offset d_o rg) st =
     clEnqueueCopyBufferToImage (Some q) (Some src) (Some dst) offset (Some d_o) (Some rg) wl st"
| "issue_image nrm q wl (Image_To_Buffer src dst so rg offset) st =
     clEnqueueCopyImageToBuffer (Some q) (Some src) (Some dst) (Some so) (Some rg) offset wl st"










section \<open>What is queued\<close>






section \<open>Reading, writing and filling\<close>










section \<open>Copies\<close>


















section \<open>Properties\<close>


text \<open>Two buffers, and an array of four images of 16 x 8 pixels of four bytes.\<close>

definition image_world :: image_state where
  "image_world = \<lparr>ims = two_buffers\<lparr>next_obj := 4, objs := (objs two_buffers)(3 \<mapsto>
     \<lparr>mem_context = 0, mem_size = 2048, mem_origin = 0, mem_parent = None, mem_flags = 1, mem_type = IMAGE2D_ARRAY,
      mem_image = Some \<lparr>img_elem_size = 1, img_channels = 4, img_row_pitch = 64, img_slice_pitch = 512,
        img_channel_order = CL_RGBA, img_channel_data_type = CL_UNSIGNED_INT8, img_support = 3,
        img_width = 16, img_height = 8, img_depth = 0, img_array_size = 4, img_buffer = None\<rparr>,
      mem_ptr = 16384, mem_host_ptr = 0, mem_refcount = 1\<rparr>)\<rparr>, image_queue = []\<rparr>"






definition rgba8 :: image_format where
  "rgba8 = \<lparr>fmt_order = CL_RGBA, fmt_type = CL_UNSIGNED_INT8\<rparr>"

definition array_desc :: "size_t \<Rightarrow> cl_image_desc" where
  "array_desc row_pitch = \<lparr>d_type = IMAGE2D_ARRAY, d_width = 16, d_height = 8, d_depth = 0, d_array_size = 4,
     d_row_pitch = row_pitch, d_slice_pitch = 0, d_num_mip_levels = 0, d_num_samples = 0, d_buffer = None\<rparr>"

definition create_array :: "size_t \<Rightarrow> ((cl_error + nat) \<times> mem_state) option" where
  "create_array row_pitch =
     clCreateImage (Some 0) (default_image_device 65536) 1 (Some rgba8) (Some (array_desc row_pitch)) 0 (Some 16384) None two_buffers"


text \<open>
  Two ways out of an image, at one input each. The region check looks at width, height and depth only, so a write of an image
  behind the end of an image array is accepted, and the driver stores it behind the memory of the array. And
  \<open>clCreateImage\<close> takes any multiple of the pixel size as row pitch, so an image whose rows do not fit its pitch is
  created with too little memory, and the write of a row of it is accepted and leaves that memory.
\<close>

theorem image_bounds_escaped:
  "map_option (\<lambda>(e, st). (e, map inode_command (image_queue st)))
     (issue_image (\<lambda>_ _. []) plain_queue (0, None) (Write_Image 3 (0, 0, 4) (16, 8, 1) 0 0 65536) image_world) =
     Some (CL_SUCCESS, [WRITE_IMAGE 3 16384 65536 0 (0, 0, 4) (16, 8, 1) 0 0 0]) \<and>
   map_option (\<lambda>m. m 18432) (exec_image_command (ims image_world) (WRITE_IMAGE 3 16384 65536 0 (0, 0, 4) (16, 8, 1) 0 0 0)
     (\<lambda>a. if a = 65536 then 7 else 0)) = Some 7 \<and>
   map_option image_bytes_set (objs (ims image_world) 3) = Some (byte_range 16384 2048) \<and> 18432 \<notin> byte_range 16384 2048 \<and>
   map_option (\<lambda>(r, s). map_option mem_size (objs s 3)) (create_array 4) = Some (Some 128) \<and>
   map_option (\<lambda>(e, st). (e, map inode_command (image_queue st)))
     (create_array 4 \<bind> (\<lambda>(_, s). issue_image (\<lambda>_ _. []) plain_queue (0, None)
        (Write_Image 3 (0, 7, 3) (16, 1, 1) 0 0 65536) \<lparr>ims = s, image_queue = []\<rparr>)) =
     Some (CL_SUCCESS, [WRITE_IMAGE 3 16384 65536 0 (0, 7, 3) (16, 1, 1) 0 0 0]) \<and>
   map_option (\<lambda>m. m 16512)
     (create_array 4 \<bind> (\<lambda>(_, s). exec_image_command s (WRITE_IMAGE 3 16384 65536 0 (0, 7, 3) (16, 1, 1) 0 0 0)
        (\<lambda>a. if a = 65540 then 7 else 0))) = Some 7"
proof (intro conjI)
  show "map_option image_bytes_set (objs (ims image_world) 3) = Some (byte_range 16384 2048)"
    by (simp add: image_world_def image_bytes_set_def)
  show "18432 \<notin> byte_range 16384 2048"
    using in_byte_range [of 18432 16384 2048] by simp
qed code_simp+

end
